(* ===== verification/Prelude.thy ===== *)
theory Prelude
  imports Main
    "HOL-Library.Monad_Syntax"
    "HOL-Library.Signed_Division"
    "HOL-Library.Char_ord"
    "HOL-Library.List_Lexorder"
begin

text \<open>
  Vocabulary shared by the components. A C++ operation that can run into undefined
  behaviour (a null or dangling pointer, a write outside an allocation) or into a failing
  \<open>assert\<close> (assertions are compiled in: no build file defines \<open>NDEBUG\<close>) returns an
  \<open>option\<close>: \<open>None\<close> is the program stopping there, and \<open>do\<close>-blocks over \<open>option\<close>
  sequence such operations. Byte arrays are \<open>char list\<close>s; pointers into a buffer are
  offsets from its first byte; heap pointers are \<open>nat option\<close> with \<open>None\<close> for
  \<open>NULL\<close>. The C++ library routines the sources call (\<open>memcpy\<close>, \<open>std::find\<close>,
  \<open>std::search\<close>, \<open>std::map\<close>, \<open>c_str\<close>) are modelled here once.
\<close>

type_synonym bytes = "char list"
type_synonym ptr = "nat option"

named_theorems fault_simps \<open>how fault-returning operations compute when they do not fault\<close>

section \<open>Semaphores\<close>

text \<open>The largest value of a semaphore on Linux, and \<open>sem_post\<close> where its result is not looked at: it fails at that value and changes nothing.\<close>

definition SEM_VALUE_MAX :: nat where
  "SEM_VALUE_MAX = 2147483647"

definition sem_up :: "nat \<Rightarrow> nat" where
  "sem_up n = (if n < SEM_VALUE_MAX then n + 1 else n)"

lemma sem_up_code [code]: "sem_up n = (if int n < 2147483647 then n + 1 else n)"
  by (simp add: sem_up_def SEM_VALUE_MAX_def)

section \<open>Byte arrays\<close>

text \<open>\<open>memcpy\<close>/\<open>memmove\<close> of \<open>ys\<close> to offset \<open>i\<close> of an array, faulting outside it.\<close>

definition memcpy_to :: "bytes \<Rightarrow> nat \<Rightarrow> bytes \<Rightarrow> bytes option" where
  "memcpy_to mem i ys =
     (if i + length ys \<le> length mem then Some (take i mem @ ys @ drop (i + length ys) mem)
      else None)"

lemma memcpy_to_Some [fault_simps]:
  "i + length ys \<le> length mem \<Longrightarrow>
   memcpy_to mem i ys = Some (take i mem @ ys @ drop (i + length ys) mem)"
  by (simp add: memcpy_to_def)

lemma memcpy_to_fits: "memcpy_to mem i ys = Some mem' \<Longrightarrow> i + length ys \<le> length mem"
  by (simp add: memcpy_to_def split: if_splits)

lemma memcpy_to_length: "memcpy_to mem i ys = Some mem' \<Longrightarrow> length mem' = length mem"
  by (auto simp: memcpy_to_def split: if_splits)

text \<open>Writing \<open>ys\<close> behind a prefix that already holds \<open>xs\<close> makes it hold \<open>xs @ ys\<close>.\<close>

lemma memcpy_to_prefix:
  assumes "memcpy_to mem (length xs) ys = Some mem'" and "take (length xs) mem = xs"
  shows "take (length xs + length ys) mem' = xs @ ys"
  using assms by (auto simp: memcpy_to_def split: if_splits)

lemma memcpy_to_keeps_before:
  assumes "memcpy_to mem i ys = Some mem'" and "j \<le> i"
  shows "take j mem' = take j mem"
  using assms by (auto simp: memcpy_to_def min_def split: if_splits)

section \<open>C strings and the searches of \<open>algorithm\<close>\<close>

text \<open>\<open>std::string(s.c_str())\<close>: a C string ends at the first NUL byte.\<close>

definition c_str :: "string \<Rightarrow> string" where
  "c_str s = takeWhile (\<lambda>c. c \<noteq> CHR 0x00) s"

lemma c_str_id: "CHR 0x00 \<notin> set s \<Longrightarrow> c_str s = s"
  unfolding c_str_def by (induction s) auto

lemma c_str_no_nul [simp]: "CHR 0x00 \<notin> set (c_str s)"
  by (auto simp: c_str_def dest: set_takeWhileD)

lemma length_c_str: "length (c_str s) \<le> length s"
  by (simp add: c_str_def length_takeWhile_le)

text \<open>\<open>%d\<close> of a non-negative number.\<close>

fun dec :: "nat \<Rightarrow> string" where
  "dec n = (if n < 10 then [''0123456789'' ! n] else dec (n div 10) @ [''0123456789'' ! (n mod 10)])"

declare dec.simps [simp del]

lemma dec_digits: "c \<in> set (dec n) \<Longrightarrow> c \<in> set ''0123456789''"
proof (induction n rule: dec.induct)
  case (1 n)
  have d: "''0123456789'' ! (n mod 10) \<in> set ''0123456789''" by (rule nth_mem) simp
  show ?case
  proof (cases "n < 10")
    case True
    then show ?thesis using 1(2) d by (subst (asm) dec.simps) simp
  next
    case False
    then show ?thesis using 1 d by (subst (asm) (2) dec.simps) auto
  qed
qed

lemma dec_no_nul: "CHR 0x00 \<notin> set (dec n)"
  using dec_digits [of "CHR 0x00" n] by auto

lemma length_dec: "n < 10 ^ Suc k \<Longrightarrow> length (dec n) \<le> Suc k"
proof (induction k arbitrary: n)
  case 0
  then show ?case by (simp add: dec.simps)
next
  case (Suc k)
  then have "n div 10 < 10 ^ Suc k" by (simp add: less_mult_imp_div_less mult.commute)
  then show ?case using Suc.IH by (subst dec.simps) simp
qed

text \<open>\<open>std::find(start, end, c)\<close>, as an offset from \<open>start\<close>; the length when absent.\<close>

fun std_find :: "char \<Rightarrow> string \<Rightarrow> nat" where
  "std_find c [] = 0"
| "std_find c (x # xs) = (if x = c then 0 else Suc (std_find c xs))"

lemma std_find_le [simp]: "std_find c xs \<le> length xs"
  by (induction xs) auto

lemma std_find_eq_length: "std_find c xs = length xs \<longleftrightarrow> c \<notin> set xs"
  by (induction xs) auto

lemma std_find_less: "std_find c xs < length xs \<longleftrightarrow> c \<in> set xs"
  by (induction xs) auto

lemma std_find_append: "c \<notin> set xs \<Longrightarrow> std_find c (xs @ c # ys) = length xs"
  by (induction xs) auto

lemma std_find_append_absent:
  "c \<notin> set xs \<Longrightarrow> std_find c (xs @ ys) = length xs + std_find c ys"
  by (induction xs) auto

text \<open>\<open>std::search(start, end, pat, pat_end)\<close>, as an offset from \<open>start\<close>.\<close>

fun std_search :: "string \<Rightarrow> string \<Rightarrow> nat" where
  "std_search pat [] = 0"
| "std_search pat (x # xs) =
     (if take (length pat) (x # xs) = pat then 0 else Suc (std_search pat xs))"

lemma std_search_le [simp]: "std_search pat xs \<le> length xs"
  by (induction xs) auto

lemma std_search_hit:
  "std_search pat xs < length xs \<Longrightarrow>
   take (length pat) (drop (std_search pat xs) xs) = pat"
  by (induction xs) auto

lemma std_search_hit_fits:
  assumes "std_search pat xs < length xs"
  shows "std_search pat xs + length pat \<le> length xs"
proof -
  have "length pat = length (take (length pat) (drop (std_search pat xs) xs))"
    using std_search_hit [OF assms] by simp
  then show ?thesis using assms by auto
qed

text \<open>A pattern \<open>[a, b]\<close> after a prefix without \<open>a\<close> is found right behind the prefix.\<close>

lemma std_search2_append:
  "a \<notin> set xs \<Longrightarrow> std_search [a, b] (xs @ a # b # ys) = length xs"
proof (induction xs)
  case (Cons x xs)
  then show ?case by (cases xs) auto
qed simp

lemma std_search2_absent: "a \<notin> set xs \<Longrightarrow> std_search [a, b] xs = length xs"
proof (induction xs)
  case (Cons x xs)
  then show ?case by (cases xs) auto
qed simp

section \<open>\<open>std::map\<close> with string keys\<close>

text \<open>
  A \<open>std::map<std::string, std::string>\<close> is kept as an association list with strictly
  increasing keys, which is its iteration order (\<open>std::string\<close> compares bytes as
  unsigned values, as the order of HOL-Library.Char_ord does).
\<close>

type_synonym smap = "(string \<times> string) list"

fun smap_set :: "string \<Rightarrow> string \<Rightarrow> smap \<Rightarrow> smap" where
  "smap_set k v [] = [(k, v)]"
| "smap_set k v ((k', v') # m) =
     (if k < k' then (k, v) # (k', v') # m
      else if k = k' then (k, v) # m
      else (k', v') # smap_set k v m)"

definition smap_ok :: "smap \<Rightarrow> bool" where
  "smap_ok m \<longleftrightarrow> sorted_wrt (<) (map fst m)"

lemma smap_ok_Nil [simp]: "smap_ok []"
  by (simp add: smap_ok_def)

lemma fst_set_smap_set: "fst ` set (smap_set k v m) = insert k (fst ` set m)"
  by (induction k v m rule: smap_set.induct) auto

lemma smap_ok_set: "smap_ok m \<Longrightarrow> smap_ok (smap_set k v m)"
proof (induction k v m rule: smap_set.induct)
  case (2 k v k' v' m)
  then show ?case
    using fst_set_smap_set [of k v m] by (fastforce simp: smap_ok_def)
qed (simp add: smap_ok_def)

lemma map_of_smap_set:
  "smap_ok m \<Longrightarrow> map_of (smap_set k v m) = (map_of m)(k \<mapsto> v)"
proof (induction k v m rule: smap_set.induct)
  case (2 k v k' v' m)
  then have "smap_ok m" by (simp add: smap_ok_def)
  with 2 show ?case by (auto simp: fun_eq_iff)
qed simp

section \<open>C integer division\<close>

lemma sdiv_nonneg: "0 \<le> a \<Longrightarrow> 0 < b \<Longrightarrow> (a::int) sdiv b = a div b"
  by (cases "a = 0") (auto simp: signed_divide_int_def)

lemma smod_nonneg: "0 \<le> a \<Longrightarrow> 0 < b \<Longrightarrow> (a::int) smod b = a mod b"
  by (cases "a = 0") (auto simp: signed_modulo_int_def)

lemmas c_div_simps = sdiv_nonneg smod_nonneg

lemma quotient_eqI: "0 \<le> r \<Longrightarrow> r < g \<Longrightarrow> x = g * q + r \<Longrightarrow> x div g = q" for x g q r :: int
  by simp

section \<open>Linked lists on a heap\<close>

text \<open>
  \<open>linked nxt p xs q\<close>: following the partial successor function \<open>nxt\<close> from \<open>p\<close> visits
  the cells \<open>xs\<close> and arrives at \<open>q\<close>. \<open>nxt a = None\<close> is an unallocated cell.
\<close>

fun linked :: "(nat \<Rightarrow> ptr option) \<Rightarrow> ptr \<Rightarrow> nat list \<Rightarrow> ptr \<Rightarrow> bool" where
  "linked nxt p [] q \<longleftrightarrow> p = q"
| "linked nxt p (a # as) q \<longleftrightarrow> p = Some a \<and> (\<exists>r. nxt a = Some r \<and> linked nxt r as q)"

lemma linked_append:
  "linked nxt p (xs @ ys) q \<longleftrightarrow> (\<exists>r. linked nxt p xs r \<and> linked nxt r ys q)"
  by (induction xs arbitrary: p) auto

lemma linked_cong:
  "(\<And>a. a \<in> set xs \<Longrightarrow> nxt a = nxt' a) \<Longrightarrow> linked nxt p xs q \<longleftrightarrow> linked nxt' p xs q"
  by (induction xs arbitrary: p) auto

lemma linked_upd: "a \<notin> set xs \<Longrightarrow> linked (nxt(a := v)) p xs q \<longleftrightarrow> linked nxt p xs q"
  by (rule linked_cong) auto

lemma linked_None [simp]: "linked nxt None xs q \<longleftrightarrow> xs = [] \<and> q = None"
  by (cases xs) auto

lemma linked_Some:
  "linked nxt (Some a) xs None \<longleftrightarrow> (\<exists>r ys. xs = a # ys \<and> nxt a = Some r \<and> linked nxt r ys None)"
  by (cases xs) auto

lemma linked_unique: "linked nxt p xs None \<Longrightarrow> linked nxt p ys None \<Longrightarrow> xs = ys"
proof (induction xs arbitrary: p ys)
  case (Cons x xs)
  then show ?case by (cases ys) auto
qed auto

lemma linked_allocated: "linked nxt p xs q \<Longrightarrow> a \<in> set xs \<Longrightarrow> nxt a \<noteq> None"
  by (induction xs arbitrary: p) auto

text \<open>A null-terminated chain never repeats a cell.\<close>

lemma linked_distinct: "linked nxt p xs None \<Longrightarrow> distinct xs"
proof (induction xs arbitrary: p)
  case (Cons x xs)
  then obtain r where r: "nxt x = Some r" "linked nxt r xs None" by auto
  have "x \<notin> set xs"
  proof
    assume "x \<in> set xs"
    then obtain ys zs where xs: "xs = ys @ x # zs" by (auto simp: in_set_conv_decomp)
    with r have "linked nxt r zs None" by (auto simp: linked_append)
    with r have "zs = xs" by (auto dest: linked_unique)
    with xs show False by simp
  qed
  with r Cons.IH show ?case by simp
qed simp

text \<open>Redirecting the last cell of a chain to a new cell extends the chain.\<close>

lemma linked_snoc:
  assumes "linked nxt p xs None" and "xs \<noteq> []" and "a \<notin> set xs" and "nxt a = Some None"
  shows "linked (nxt(last xs := Some (Some a))) p (xs @ [a]) None"
proof -
  obtain ys l where xs: "xs = ys @ [l]" using assms(2) by (cases xs rule: rev_cases) auto
  have d: "l \<notin> set ys" using linked_distinct [OF assms(1)] xs by simp
  have "linked nxt p ys (Some l)" using assms(1) xs by (auto simp: linked_append)
  then have "linked (nxt(l := Some (Some a))) p ys (Some l)"
    using d by (subst linked_cong [where nxt' = nxt]) auto
  moreover have "a \<noteq> l" using assms(3) xs by simp
  ultimately show ?thesis
    using assms(3,4) xs by (auto simp: linked_append)
qed

end
