(* ===== verification/Connection.thy ===== *)
theory Connection
  imports Prelude
begin

text \<open>
  The interface between a protocol object (\<open>HttpClient\<close>) and the socket layer: the events of
  \<open>http/SocketServer.h\<close> and the three calls a client makes on its \<open>SocketConnection\<close>. A
  connection pointer is the index of its slot in \<open>ServerImpl::sockets_\<close>. The locale
  \<open>connection\<close> states what a client relies on; the socket server's own definitions are shown to
  satisfy it where they are modelled.

  Operations that may also run forever return \<open>'a res option\<close>: \<open>None\<close> does not return,
  \<open>Some Crash\<close> stops the program, \<open>Some (Val x)\<close> returns \<open>x\<close>.
\<close>

section \<open>Runs that may crash or not return\<close>

datatype 'a res = Crash | Val 'a

definition lift :: "'a option \<Rightarrow> 'a res option" where
  "lift m = (case m of None \<Rightarrow> Some Crash | Some x \<Rightarrow> Some (Val x))"

definition rbind :: "'a res option \<Rightarrow> ('a \<Rightarrow> 'b res option) \<Rightarrow> 'b res option" where
  "rbind m f = Option.bind m (\<lambda>r. case r of Crash \<Rightarrow> Some Crash | Val x \<Rightarrow> f x)"

lemma lift_simps [simp]: "lift None = Some Crash" "lift (Some x) = Some (Val x)"
  by (simp_all add: lift_def)

lemma rbind_simps [simp]:
  "rbind None f = None" "rbind (Some Crash) f = Some Crash" "rbind (Some (Val x)) f = f x"
  by (simp_all add: rbind_def)

lemma rbind_eq_Some:
  "rbind m f = Some r \<longleftrightarrow> (m = Some Crash \<and> r = Crash) \<or> (\<exists>x. m = Some (Val x) \<and> f x = Some r)"
  by (cases m) (auto simp: rbind_def split: res.splits)

lemma rbind_mono [partial_function_mono]:
  assumes "mono_option B" and "\<And>y. mono_option (\<lambda>f. C y f)"
  shows "mono_option (\<lambda>f. rbind (B f) (\<lambda>y. C y f))"
  unfolding rbind_def
proof (rule bind_mono [OF assms(1)])
  fix r
  show "mono_option (\<lambda>f. case r of Crash \<Rightarrow> Some Crash | Val x \<Rightarrow> C x f)"
    by (cases r) (auto intro: assms(2) option.const_mono)
qed

section \<open>Events and connections\<close>

datatype SocketCode = SC_READ | SC_WRITE | SC_CONNECTED | SC_ACCEPTED | SC_FAIL_CONN | SC_ERROR | SC_SUCC

record SocketEvent =
  ev_code :: SocketCode
  ev_conn :: "int option"

text \<open>
  \<open>c_read w fd n\<close>: the value \<open>ReadBuffer\<close> returns for a buffer of \<open>n\<close> bytes and the bytes it
  stores there; \<open>c_send w fd d\<close>: the value \<open>SendBuffer\<close> returns for the bytes \<open>d\<close>. \<open>None\<close> is
  a failing assertion of the socket layer.
\<close>

record 'w conn_ops =
  c_read :: "'w \<Rightarrow> int \<Rightarrow> int \<Rightarrow> (int \<times> bytes \<times> 'w) option"
  c_send :: "'w \<Rightarrow> int \<Rightarrow> bytes \<Rightarrow> (int \<times> 'w) option"
  c_close :: "'w \<Rightarrow> int \<Rightarrow> 'w option"

text \<open>
  \<open>live w fd\<close>: the slot is in use. \<open>sent w fd\<close>: the bytes the kernel accepted so far.
  A read stores as many bytes as it reports and no more than asked for; a send reports how many
  bytes of its argument were accepted, or a negative number and accepts none.
\<close>

locale connection =
  fixes K :: "'w conn_ops"
    and live :: "'w \<Rightarrow> int \<Rightarrow> bool"
    and sent :: "'w \<Rightarrow> int \<Rightarrow> bytes"
  assumes read_ok: "live w fd \<Longrightarrow> 0 < n \<Longrightarrow>
      \<exists>r d w'. c_read K w fd n = Some (r, d, w') \<and> live w' fd \<and> sent w' fd = sent w fd \<and>
        r \<le> n \<and> int (length d) = max r 0"
    and send_ok: "live w fd \<Longrightarrow>
      \<exists>r w'. c_send K w fd d = Some (r, w') \<and> live w' fd \<and> r \<le> int (length d) \<and>
        sent w' fd = sent w fd @ take (nat r) d"
    and close_ok: "live w fd \<Longrightarrow> \<exists>w'. c_close K w fd = Some w' \<and> sent w' fd = sent w fd"

end
