(* ===== verification/HttpBuffer.thy ===== *)
theory HttpBuffer
  imports Prelude "HOL-Library.Word"
begin

text \<open>
  \<open>http/HttpBuffer.{h,cc}\<close>: the buffer block \<open>HttpBuffer\<close>, the intrusive queue
  \<open>HttpBufferList\<close> of pending writes, the input buffer \<open>HttpReadBuffer\<close> and the size-class
  allocator \<open>HttpWriteBuffer\<close>. Blocks live on an explicit heap (\<open>addr \<rightharpoonup> HttpBuffer\<close>),
  because the list and the free lists share them through \<open>hb_next\<close>; \<open>malloc\<close> is a
  parameter that may fail, and \<open>hb_curPtr\<close> is the offset of the C pointer from \<open>hb_memory\<close>.
  The read buffer is shown to be a byte FIFO, the pending list a queue of blocks, and the
  allocator a set of eight segregated free lists whose blocks have exactly the size of their class.
\<close>

section \<open>Blocks and the heap\<close>

record HttpBuffer =
  hb_size :: int
  hb_curSize :: int
  hb_curPtr :: int
  hb_next :: ptr
  hb_memory :: bytes

type_synonym heap = "nat \<rightharpoonup> HttpBuffer"

text \<open>
  \<open>mal h n\<close> is the result of \<open>malloc(n)\<close> on heap \<open>h\<close>: \<open>None\<close> for \<open>NULL\<close>, else the
  address and the indeterminate bytes from \<open>hb_memory\<close> to the end of the allocation. On LP64,
  \<open>sizeof(HttpBuffer)\<close> is 32 and \<open>hb_memory\<close> starts at offset 24.
\<close>

type_synonym mallocator = "heap \<Rightarrow> int \<Rightarrow> (nat \<times> bytes) option"

definition sizeof_HttpBuffer :: int where
  "sizeof_HttpBuffer = 32"

definition offsetof_memory :: int where
  "offsetof_memory = 24"

definition malloc_ok :: "mallocator \<Rightarrow> bool" where
  "malloc_ok mal \<longleftrightarrow> (\<forall>h n a bs. mal h n = Some (a, bs) \<longrightarrow>
     h a = None \<and> int (length bs) = n - offsetof_memory)"

text \<open>A concrete \<open>malloc\<close> over \<open>k\<close> cells, used to run the model on concrete inputs.\<close>

definition arena_malloc :: "nat \<Rightarrow> mallocator" where
  "arena_malloc k h n =
     (if n < offsetof_memory then None
      else map_option (\<lambda>a. (a, replicate (nat (n - offsetof_memory)) CHR 0x00))
             (List.find (\<lambda>a. h a = None) [0..<k]))"

lemma arena_malloc_ok: "malloc_ok (arena_malloc k)"
  by (auto simp: malloc_ok_def arena_malloc_def find_Some_iff split: if_splits)

definition AllocHttpBuffer :: "mallocator \<Rightarrow> heap \<Rightarrow> int \<Rightarrow> ptr \<times> heap" where
  "AllocHttpBuffer mal h sz =
     (case mal h (sizeof_HttpBuffer + sz) of
        None \<Rightarrow> (None, h)
      | Some (a, bs) \<Rightarrow>
          (Some a, h(a \<mapsto> \<lparr>hb_size = sz, hb_curSize = 0, hb_curPtr = 0, hb_next = None, hb_memory = bs\<rparr>)))"

text \<open>\<open>free(NULL)\<close> does nothing; freeing a cell that is not allocated faults.\<close>

definition FreeHttpBuffer :: "heap \<Rightarrow> ptr \<Rightarrow> heap option" where
  "FreeHttpBuffer h p =
     (case p of
        None \<Rightarrow> Some h
      | Some a \<Rightarrow> (case h a of None \<Rightarrow> None | Some b \<Rightarrow> Some (h(a := None))))"

section \<open>The pending-write queue\<close>

record HttpBufferList =
  hl_head :: ptr
  hl_tail :: ptr

definition HttpBufferList_init :: HttpBufferList where
  "HttpBufferList_init = \<lparr>hl_head = None, hl_tail = None\<rparr>"

definition PopFront :: "heap \<Rightarrow> HttpBufferList \<Rightarrow> (ptr \<times> HttpBufferList) option" where
  "PopFront h l = do {
     let ret = hl_head l;
     hd' \<leftarrow> (case hl_head l of None \<Rightarrow> Some None | Some a \<Rightarrow> map_option hb_next (h a));
     Some (ret, \<lparr>hl_head = hd', hl_tail = (if hd' = None then None else hl_tail l)\<rparr>)
   }"

definition GetFront :: "HttpBufferList \<Rightarrow> ptr" where
  "GetFront l = hl_head l"

definition GetTail :: "HttpBufferList \<Rightarrow> ptr" where
  "GetTail l = hl_tail l"

definition PushBack :: "heap \<Rightarrow> HttpBufferList \<Rightarrow> ptr \<Rightarrow> (heap \<times> HttpBufferList) option" where
  "PushBack h l node =
     (case node of
        None \<Rightarrow> None
      | Some a \<Rightarrow> do {
          h' \<leftarrow> (case hl_tail l of
                   None \<Rightarrow> Some h
                 | Some t \<Rightarrow> map_option (\<lambda>b. h(t \<mapsto> b\<lparr>hb_next := Some a\<rparr>)) (h t));
          Some (h', \<lparr>hl_head = (if hl_head l = None then Some a else hl_head l), hl_tail = Some a\<rparr>)
        })"

section \<open>The read buffer\<close>

text \<open>\<open>readBuff\<close> owns one block; it is \<open>NULL\<close> when the allocation failed.\<close>

record HttpReadBuffer =
  rb_size :: int
  readBuff :: "HttpBuffer option"

definition HttpReadBuffer_init :: "mallocator \<Rightarrow> heap \<Rightarrow> int \<Rightarrow> HttpReadBuffer" where
  "HttpReadBuffer_init mal h sz =
     (case AllocHttpBuffer mal h sz of
        (None, h') \<Rightarrow> \<lparr>rb_size = sz, readBuff = None\<rparr>
      | (Some a, h') \<Rightarrow> \<lparr>rb_size = sz, readBuff = h' a\<rparr>)"

definition ResetBuffer :: "HttpReadBuffer \<Rightarrow> HttpReadBuffer option" where
  "ResetBuffer rb = do {
     b \<leftarrow> readBuff rb;
     Some (rb\<lparr>readBuff := Some (b\<lparr>hb_curPtr := 0, hb_curSize := 0\<rparr>)\<rparr>)
   }"

definition ConsumeBuffer :: "int \<Rightarrow> HttpReadBuffer \<Rightarrow> HttpReadBuffer option" where
  "ConsumeBuffer sz0 rb = do {
     b \<leftarrow> readBuff rb;
     let sz = (if sz0 > hb_curSize b then hb_curSize b else sz0);
     let p = (if sz = hb_curSize b then 0 else hb_curPtr b + sz);
     Some (rb\<lparr>readBuff := Some (b\<lparr>hb_curPtr := p, hb_curSize := hb_curSize b - sz\<rparr>)\<rparr>)
   }"

text \<open>The outer \<open>option\<close> is the fault, the inner one the returned pointer.\<close>

definition GetContentPoint :: "int \<Rightarrow> HttpReadBuffer \<Rightarrow> int option option" where
  "GetContentPoint off rb = do {
     b \<leftarrow> readBuff rb;
     Some (if off \<ge> hb_curSize b then None else Some (hb_curPtr b + off))
   }"

definition GetContentStart :: "HttpReadBuffer \<Rightarrow> int option" where
  "GetContentStart rb = map_option hb_curPtr (readBuff rb)"

definition GetContentEnd :: "HttpReadBuffer \<Rightarrow> int option" where
  "GetContentEnd rb = map_option (\<lambda>b. hb_curPtr b + hb_curSize b) (readBuff rb)"

definition MoveDataToFront :: "HttpBuffer \<Rightarrow> (16 word \<times> HttpBuffer) option" where
  "MoveDataToFront node =
     (if 0 \<le> hb_curPtr node \<and> 0 \<le> hb_curSize node \<and>
         hb_curPtr node + hb_curSize node \<le> int (length (hb_memory node))
      then do {
        mem \<leftarrow> memcpy_to (hb_memory node) 0
                 (take (nat (hb_curSize node)) (drop (nat (hb_curPtr node)) (hb_memory node)));
        Some (word_of_int (hb_curSize node), node\<lparr>hb_memory := mem, hb_curPtr := 0\<rparr>)
      }
      else None)"

definition IncreaseContentRange :: "int \<Rightarrow> HttpReadBuffer \<Rightarrow> HttpReadBuffer option" where
  "IncreaseContentRange sz rb = do {
     b \<leftarrow> readBuff rb;
     let b' = b\<lparr>hb_curSize := hb_curSize b + sz\<rparr>;
     if hb_curPtr b' + hb_curSize b' \<le> hb_size b' then Some (rb\<lparr>readBuff := Some b'\<rparr>) else None
   }"

definition MINI_SOCKET_READ_SIZE :: int where
  "MINI_SOCKET_READ_SIZE = 64"

text \<open>Returns the free area's offset, its length (the reference parameter) and the buffer.\<close>

definition GetFreeBuffer :: "HttpReadBuffer \<Rightarrow> (int \<times> int \<times> HttpReadBuffer) option" where
  "GetFreeBuffer rb = do {
     b \<leftarrow> readBuff rb;
     let left = hb_size b - hb_curPtr b - hb_curSize b;
     b' \<leftarrow> (if left < MINI_SOCKET_READ_SIZE then map_option snd (MoveDataToFront b) else Some b);
     Some (hb_curPtr b' + hb_curSize b', hb_size b' - (hb_curPtr b' + hb_curSize b'),
           rb\<lparr>readBuff := Some b'\<rparr>)
   }"

definition GetContenLen :: "HttpReadBuffer \<Rightarrow> int option" where
  "GetContenLen rb = map_option hb_curSize (readBuff rb)"

text \<open>What a callee does that is handed the free area's pointer: write \<open>data\<close> there.\<close>

definition store_bytes :: "int \<Rightarrow> bytes \<Rightarrow> HttpReadBuffer \<Rightarrow> HttpReadBuffer option" where
  "store_bytes off data rb = do {
     b \<leftarrow> readBuff rb;
     mem \<leftarrow> (if off < 0 then None else memcpy_to (hb_memory b) (nat off) data);
     Some (rb\<lparr>readBuff := Some (b\<lparr>hb_memory := mem\<rparr>)\<rparr>)
   }"

section \<open>The write-buffer allocator\<close>

record HttpWriteBuffer =
  wb_size :: int
  wb_num :: int
  wb_num_slot :: int
  freeBuffer :: "ptr list"

text \<open>One pass of the filling loop of \<open>InitBuffer\<close> per unit of the counter.\<close>

fun InitBuffer_fill ::
  "mallocator \<Rightarrow> nat \<Rightarrow> heap \<Rightarrow> HttpWriteBuffer \<Rightarrow> (bool \<times> heap \<times> HttpWriteBuffer) option" where
  "InitBuffer_fill mal 0 h wb = Some (True, h, wb)"
| "InitBuffer_fill mal (Suc i) h wb =
     (case AllocHttpBuffer mal h (wb_size wb) of
        (None, h') \<Rightarrow> Some (False, h', wb)
      | (Some a, h') \<Rightarrow>
          (case (h' a, freeBuffer wb) of
             (Some b, f # fs) \<Rightarrow>
               InitBuffer_fill mal i (h'(a \<mapsto> b\<lparr>hb_next := f\<rparr>)) (wb\<lparr>freeBuffer := Some a # fs\<rparr>)
           | _ \<Rightarrow> None))"

text \<open>\<open>arr_ok\<close>: whether \<open>malloc\<close> of the slot array succeeded (the code does not check).\<close>

definition InitBuffer ::
  "mallocator \<Rightarrow> bool \<Rightarrow> heap \<Rightarrow> HttpWriteBuffer \<Rightarrow> (bool \<times> heap \<times> HttpWriteBuffer) option" where
  "InitBuffer mal arr_ok h wb =
     (if arr_ok
      then InitBuffer_fill mal (nat (wb_num wb)) h
             (wb\<lparr>freeBuffer := replicate (nat (wb_num_slot wb)) None\<rparr>)
      else None)"

text \<open>The constructor asserts that \<open>InitBuffer\<close> returned true.\<close>

definition HttpWriteBuffer_init ::
  "mallocator \<Rightarrow> bool \<Rightarrow> heap \<Rightarrow> int \<Rightarrow> int \<Rightarrow> (heap \<times> HttpWriteBuffer) option" where
  "HttpWriteBuffer_init mal arr_ok h granularity num = do {
     (ok, h', wb) \<leftarrow> InitBuffer mal arr_ok h
        \<lparr>wb_size = granularity, wb_num = num, wb_num_slot = 8, freeBuffer = []\<rparr>;
     if ok then Some (h', wb) else None
   }"

text \<open>The inner loop of \<open>DestroyBuffer\<close>: free a chain, reading \<open>hb_next\<close> before each free.\<close>

partial_function (option) free_chain :: "heap \<Rightarrow> ptr \<Rightarrow> heap option" where
  "free_chain h cur =
     (case cur of
        None \<Rightarrow> Some h
      | Some a \<Rightarrow> do {
          b \<leftarrow> h a;
          h' \<leftarrow> FreeHttpBuffer h (Some a);
          free_chain h' (hb_next b)
        })"

fun free_slots :: "heap \<Rightarrow> ptr list \<Rightarrow> heap option" where
  "free_slots h [] = Some h"
| "free_slots h (p # ps) = do { h' \<leftarrow> free_chain h p; free_slots h' ps }"

definition DestroyBuffer :: "heap \<Rightarrow> HttpWriteBuffer \<Rightarrow> heap option" where
  "DestroyBuffer h wb = free_slots h (freeBuffer wb)"

text \<open>The size class of \<open>sz\<close> bytes; a zero granularity makes \<open>%\<close> fault.\<close>

definition slot_index :: "int \<Rightarrow> int \<Rightarrow> int option" where
  "slot_index g sz =
     (if g = 0 then None
      else let m = sz smod g; m' = (if m > 0 then g - m else 0)
           in Some ((sz + m') sdiv g - 1))"

text \<open>Reading and writing \<open>freeBuffer[i]\<close>, faulting outside the array.\<close>

definition slot_get :: "HttpWriteBuffer \<Rightarrow> int \<Rightarrow> ptr option" where
  "slot_get wb i =
     (if 0 \<le> i \<and> nat i < length (freeBuffer wb) then Some (freeBuffer wb ! nat i) else None)"

definition slot_set :: "HttpWriteBuffer \<Rightarrow> int \<Rightarrow> ptr \<Rightarrow> HttpWriteBuffer option" where
  "slot_set wb i p =
     (if 0 \<le> i \<and> nat i < length (freeBuffer wb)
      then Some (wb\<lparr>freeBuffer := (freeBuffer wb)[nat i := p]\<rparr>) else None)"

definition AllocWriteBuffer ::
  "mallocator \<Rightarrow> int \<Rightarrow> heap \<Rightarrow> HttpWriteBuffer \<Rightarrow> (ptr \<times> heap \<times> HttpWriteBuffer) option" where
  "AllocWriteBuffer mal sz h wb =
     (if sz \<le> 0 \<or> sz > wb_num_slot wb * wb_size wb then Some (None, h, wb)
      else do {
        index \<leftarrow> slot_index (wb_size wb) sz;
        lst \<leftarrow> slot_get wb index;
        (case lst of
           None \<Rightarrow>
             (case AllocHttpBuffer mal h ((index + 1) * wb_size wb) of (p, h') \<Rightarrow> Some (p, h', wb))
         | Some a \<Rightarrow> do {
             b \<leftarrow> h a;
             wb' \<leftarrow> slot_set wb index (hb_next b);
             Some (Some a, h(a \<mapsto> b\<lparr>hb_next := None, hb_curPtr := 0, hb_curSize := 0\<rparr>), wb')
           })
      })"

definition ReleaseWriteBuffer ::
  "ptr \<Rightarrow> heap \<Rightarrow> HttpWriteBuffer \<Rightarrow> (heap \<times> HttpWriteBuffer) option" where
  "ReleaseWriteBuffer buf h wb = do {
     a \<leftarrow> buf;
     b \<leftarrow> h a;
     index \<leftarrow> slot_index (wb_size wb) (hb_size b);
     f \<leftarrow> slot_get wb index;
     wb' \<leftarrow> slot_set wb index (Some a);
     Some (h(a \<mapsto> b\<lparr>hb_next := f, hb_curPtr := 0, hb_curSize := 0\<rparr>), wb')
   }"

section \<open>The read buffer is a byte FIFO\<close>

definition blk_ok :: "HttpBuffer \<Rightarrow> bool" where
  "blk_ok b \<longleftrightarrow> 0 \<le> hb_curPtr b \<and> 0 \<le> hb_curSize b \<and> hb_curPtr b + hb_curSize b \<le> hb_size b \<and>
     int (length (hb_memory b)) = hb_size b + (sizeof_HttpBuffer - offsetof_memory)"

definition rb_inv :: "HttpReadBuffer \<Rightarrow> bool" where
  "rb_inv rb \<longleftrightarrow> (case readBuff rb of None \<Rightarrow> False | Some b \<Rightarrow> blk_ok b \<and> hb_size b = rb_size rb)"

definition rb_content :: "HttpReadBuffer \<Rightarrow> bytes" where
  "rb_content rb = (case readBuff rb of
       None \<Rightarrow> []
     | Some b \<Rightarrow> take (nat (hb_curSize b)) (drop (nat (hb_curPtr b)) (hb_memory b)))"

lemma rb_invE:
  assumes "rb_inv rb"
  obtains b where "readBuff rb = Some b" "blk_ok b" "hb_size b = rb_size rb"
  using assms by (auto simp: rb_inv_def split: option.splits)

lemmas sizeof_defs = sizeof_HttpBuffer_def offsetof_memory_def

lemma blk_ok_content_length:
  "blk_ok b \<Longrightarrow> length (take (nat (hb_curSize b)) (drop (nat (hb_curPtr b)) (hb_memory b)))
     = nat (hb_curSize b)"
  by (auto simp: blk_ok_def sizeof_defs min_def)

lemma rb_content_length:
  "rb_inv rb \<Longrightarrow> GetContenLen rb = Some (int (length (rb_content rb)))"
  by (erule rb_invE) (auto simp: rb_content_def GetContenLen_def blk_ok_content_length blk_ok_def
      simp del: length_take length_drop)

lemma rb_content_bound: "rb_inv rb \<Longrightarrow> int (length (rb_content rb)) \<le> rb_size rb"
  by (erule rb_invE) (auto simp: rb_content_def blk_ok_content_length blk_ok_def
      simp del: length_take length_drop)

lemma HttpReadBuffer_init_inv:
  assumes "malloc_ok mal" and "0 \<le> sz" and "mal h (sizeof_HttpBuffer + sz) \<noteq> None"
  shows "rb_inv (HttpReadBuffer_init mal h sz)" and "rb_content (HttpReadBuffer_init mal h sz) = []"
proof -
  obtain a bs where m: "mal h (sizeof_HttpBuffer + sz) = Some (a, bs)"
    using assms(3) by auto
  then have "int (length bs) = sizeof_HttpBuffer + sz - offsetof_memory"
    using assms(1) by (auto simp: malloc_ok_def)
  with m assms(2) show "rb_inv (HttpReadBuffer_init mal h sz)"
    and "rb_content (HttpReadBuffer_init mal h sz) = []"
    by (auto simp: HttpReadBuffer_init_def AllocHttpBuffer_def rb_inv_def rb_content_def blk_ok_def)
qed

lemma ResetBuffer_spec:
  "rb_inv rb \<Longrightarrow> \<exists>rb'. ResetBuffer rb = Some rb' \<and> rb_inv rb' \<and> rb_content rb' = [] \<and>
     rb_size rb' = rb_size rb"
  by (erule rb_invE) (auto simp: ResetBuffer_def rb_inv_def rb_content_def blk_ok_def)

lemma ConsumeBuffer_spec:
  assumes "rb_inv rb" and "0 \<le> n"
  shows "\<exists>rb'. ConsumeBuffer n rb = Some rb' \<and> rb_inv rb' \<and>
           rb_content rb' = drop (nat n) (rb_content rb) \<and> rb_size rb' = rb_size rb"
  using assms
  by (elim rb_invE)
    (auto simp: ConsumeBuffer_def rb_inv_def rb_content_def blk_ok_def sizeof_defs drop_take
      nat_diff_distrib nat_add_distrib add.commute min_def Let_def)

lemma MoveDataToFront_spec:
  assumes "blk_ok b"
  obtains w b' where "MoveDataToFront b = Some (w, b')" "blk_ok b'" "hb_curPtr b' = 0"
    "hb_curSize b' = hb_curSize b" "hb_size b' = hb_size b"
    "take (nat (hb_curSize b')) (hb_memory b') =
       take (nat (hb_curSize b)) (drop (nat (hb_curPtr b)) (hb_memory b))"
proof -
  let ?d = "take (nat (hb_curSize b)) (drop (nat (hb_curPtr b)) (hb_memory b))"
  have l: "length ?d = nat (hb_curSize b)" by (rule blk_ok_content_length [OF assms])
  have fits: "0 + length ?d \<le> length (hb_memory b)"
    using assms l by (auto simp: blk_ok_def sizeof_defs)
  then obtain mem where mem: "memcpy_to (hb_memory b) 0 ?d = Some mem"
    by (auto simp: memcpy_to_def)
  have "length mem = length (hb_memory b)" by (rule memcpy_to_length [OF mem])
  moreover have "take (nat (hb_curSize b)) mem = ?d"
    using memcpy_to_prefix [of "hb_memory b" "[]" ?d mem] mem l by simp
  ultimately show ?thesis
    using assms mem
    by (intro that [of "word_of_int (hb_curSize b)" "b\<lparr>hb_memory := mem, hb_curPtr := 0\<rparr>"])
      (auto simp: MoveDataToFront_def blk_ok_def sizeof_defs)
qed

lemma GetFreeBuffer_spec:
  assumes "rb_inv rb"
  shows "\<exists>off n rb'. GetFreeBuffer rb = Some (off, n, rb') \<and> rb_inv rb' \<and>
     rb_content rb' = rb_content rb \<and> rb_size rb' = rb_size rb \<and>
     0 \<le> off \<and> 0 \<le> n \<and> off + n = rb_size rb \<and>
     GetContentEnd rb' = Some off \<and>
     (n < MINI_SOCKET_READ_SIZE \<longrightarrow> n = rb_size rb - int (length (rb_content rb)))"
proof -
  obtain b where b: "readBuff rb = Some b" "blk_ok b" "hb_size b = rb_size rb"
    using assms by (rule rb_invE)
  show ?thesis
  proof (cases "hb_size b - hb_curPtr b - hb_curSize b < MINI_SOCKET_READ_SIZE")
    case True
    obtain w b' where m: "MoveDataToFront b = Some (w, b')" "blk_ok b'" "hb_curPtr b' = 0"
      "hb_curSize b' = hb_curSize b" "hb_size b' = hb_size b"
      "take (nat (hb_curSize b')) (hb_memory b') =
       take (nat (hb_curSize b)) (drop (nat (hb_curPtr b)) (hb_memory b))"
      using b(2) by (rule MoveDataToFront_spec)
    have "int (length (rb_content rb)) = hb_curSize b"
      using b by (simp add: rb_content_def blk_ok_content_length blk_ok_def del: length_take length_drop)
    then show ?thesis using True b m
      by (auto simp: GetFreeBuffer_def rb_inv_def rb_content_def GetContentEnd_def blk_ok_def)
  next
    case False
    then show ?thesis using b
      by (auto simp: GetFreeBuffer_def rb_inv_def rb_content_def GetContentEnd_def blk_ok_def)
  qed
qed

lemma receive_spec:
  assumes "rb_inv rb" and "GetContentEnd rb = Some off" and "off + int (length d) \<le> rb_size rb"
  shows "\<exists>rb1 rb2. store_bytes off d rb = Some rb1 \<and>
     IncreaseContentRange (int (length d)) rb1 = Some rb2 \<and>
     rb_inv rb2 \<and> rb_content rb2 = rb_content rb @ d \<and> rb_size rb2 = rb_size rb"
proof -
  obtain b where b: "readBuff rb = Some b" "blk_ok b" "hb_size b = rb_size rb"
    using assms(1) by (rule rb_invE)
  have off: "off = hb_curPtr b + hb_curSize b" using assms(2) b(1) by (simp add: GetContentEnd_def)
  have fits: "nat off + length d \<le> length (hb_memory b)" and nn: "0 \<le> off"
    using b off assms(3) by (auto simp: blk_ok_def sizeof_defs)
  have eq: "nat off = nat (hb_curPtr b) + nat (hb_curSize b)"
    using b off by (auto simp: blk_ok_def nat_add_distrib)
  show ?thesis
    using b nn fits off assms(3)
    by (auto simp: store_bytes_def IncreaseContentRange_def memcpy_to_def rb_inv_def rb_content_def
        blk_ok_def sizeof_defs eq drop_take nat_add_distrib Let_def min_def)
qed

text \<open>A byte FIFO: what the HTTP parser relies on of its input buffer. One \<open>feed\<close> of at most
  \<open>chunk\<close> bytes succeeds whenever the bytes fit at all, however fragmented the buffer is.\<close>

datatype io = Feed bytes | Take nat

locale byte_fifo =
  fixes inv :: "'b \<Rightarrow> bool"
    and content :: "'b \<Rightarrow> bytes"
    and cap :: "'b \<Rightarrow> int"
    and feed :: "bytes \<Rightarrow> 'b \<Rightarrow> 'b option"
    and consume :: "int \<Rightarrow> 'b \<Rightarrow> 'b option"
    and chunk :: int
  assumes feed_ok: "inv b \<Longrightarrow> int (length d) \<le> chunk \<Longrightarrow>
      int (length (content b) + length d) \<le> cap b \<Longrightarrow>
      \<exists>b'. feed d b = Some b' \<and> inv b' \<and> content b' = content b @ d \<and> cap b' = cap b"
    and consume_ok: "inv b \<Longrightarrow> 0 \<le> n \<Longrightarrow>
      \<exists>b'. consume n b = Some b' \<and> inv b' \<and> content b' = drop (nat n) (content b) \<and> cap b' = cap b"

text \<open>A session of feeds and takes, collecting the bytes taken.\<close>

fun io_run :: "('b \<Rightarrow> bytes) \<Rightarrow> (bytes \<Rightarrow> 'b \<Rightarrow> 'b option) \<Rightarrow> (int \<Rightarrow> 'b \<Rightarrow> 'b option) \<Rightarrow>
    io list \<Rightarrow> 'b \<Rightarrow> (bytes \<times> 'b) option" where
  "io_run content feed consume [] b = Some ([], b)"
| "io_run content feed consume (Feed d # es) b = do {
     b' \<leftarrow> feed d b;
     io_run content feed consume es b'
   }"
| "io_run content feed consume (Take n # es) b = do {
     b' \<leftarrow> consume (int n) b;
     (out, b'') \<leftarrow> io_run content feed consume es b';
     Some (take n (content b) @ out, b'')
   }"

fun io_fits :: "int \<Rightarrow> int \<Rightarrow> nat \<Rightarrow> io list \<Rightarrow> bool" where
  "io_fits chunk c len [] = True"
| "io_fits chunk c len (Feed d # es) =
     (int (length d) \<le> chunk \<and> int (len + length d) \<le> c \<and> io_fits chunk c (len + length d) es)"
| "io_fits chunk c len (Take n # es) = io_fits chunk c (len - n) es"

fun io_fed :: "io list \<Rightarrow> bytes" where
  "io_fed [] = []"
| "io_fed (Feed d # es) = d @ io_fed es"
| "io_fed (Take n # es) = io_fed es"

context byte_fifo
begin

text \<open>No byte is lost, duplicated or reordered.\<close>

lemma session:
  assumes "inv b" and "io_fits chunk (cap b) (length (content b)) es"
  shows "\<exists>out b'. io_run content feed consume es b = Some (out, b') \<and> inv b' \<and>
     out @ content b' = content b @ io_fed es"
  using assms
proof (induction es arbitrary: b)
  case Nil
  then show ?case by simp
next
  case (Cons e es)
  show ?case
  proof (cases e)
    case (Feed d)
    then obtain b' where b': "feed d b = Some b'" "inv b'" "content b' = content b @ d" "cap b' = cap b"
      using feed_ok [of b d] Cons.prems by auto
    then have "io_fits chunk (cap b') (length (content b')) es" using Cons.prems Feed by simp
    from Cons.IH [OF b'(2) this] show ?thesis using Feed b' by auto
  next
    case (Take n)
    then obtain b' where b': "consume (int n) b = Some b'" "inv b'" "content b' = drop n (content b)"
      "cap b' = cap b" using consume_ok [of b "int n"] Cons.prems by auto
    then have "io_fits chunk (cap b') (length (content b')) es" using Cons.prems Take by simp
    from Cons.IH [OF b'(2) this] obtain out b'' where ih: "io_run content feed consume es b' = Some (out, b'')"
      "inv b''" "out @ content b'' = drop n (content b) @ io_fed es" using b' by auto
    then have "(take n (content b) @ out) @ content b'' = content b @ io_fed es"
      by (metis append.assoc append_take_drop_id)
    then show ?thesis using Take b' ih by auto
  qed
qed

end

text \<open>The receive sequence of \<open>HttpClient::ReadHttpData\<close> over the read buffer: ask for the
  free area, let the callee fill it, extend the content.\<close>

definition rb_feed :: "bytes \<Rightarrow> HttpReadBuffer \<Rightarrow> HttpReadBuffer option" where
  "rb_feed d rb = do {
     (off, n, rb1) \<leftarrow> GetFreeBuffer rb;
     rb2 \<leftarrow> (if int (length d) \<le> n then store_bytes off d rb1 else None);
     IncreaseContentRange (int (length d)) rb2
   }"

lemma rb_feed_spec:
  assumes "rb_inv rb" and "int (length d) \<le> MINI_SOCKET_READ_SIZE"
    and "int (length (rb_content rb) + length d) \<le> rb_size rb"
  shows "\<exists>rb'. rb_feed d rb = Some rb' \<and> rb_inv rb' \<and> rb_content rb' = rb_content rb @ d \<and>
     rb_size rb' = rb_size rb"
proof -
  obtain off n rb1 where f: "GetFreeBuffer rb = Some (off, n, rb1)" "rb_inv rb1"
    "rb_content rb1 = rb_content rb" "rb_size rb1 = rb_size rb" "off + n = rb_size rb"
    "GetContentEnd rb1 = Some off"
    "n < MINI_SOCKET_READ_SIZE \<longrightarrow> n = rb_size rb - int (length (rb_content rb))"
    using GetFreeBuffer_spec [OF assms(1)] by blast
  have n: "int (length d) \<le> n" using f(7) assms(2,3) by linarith
  obtain rb2 rb3 where "store_bytes off d rb1 = Some rb2"
     "IncreaseContentRange (int (length d)) rb2 = Some rb3"
     "rb_inv rb3" "rb_content rb3 = rb_content rb1 @ d" "rb_size rb3 = rb_size rb1"
    using receive_spec [OF f(2) f(6), of d] n f(4,5) by auto
  with f n show ?thesis by (simp add: rb_feed_def)
qed

interpretation rbq: byte_fifo rb_inv rb_content rb_size rb_feed ConsumeBuffer MINI_SOCKET_READ_SIZE
  by unfold_locales (rule rb_feed_spec ConsumeBuffer_spec, assumption+)+

section \<open>Properties\<close>

text \<open>
  C6. A freshly constructed read buffer behaves as a byte FIFO: in any session of receives
  (each at most the 64 bytes \<open>GetFreeBuffer\<close> guarantees, never past the capacity) and
  \<open>ConsumeBuffer\<close> calls nothing faults, and the bytes consumed followed by the bytes still in
  the buffer are exactly the bytes received, in order, although data is moved to the front on the way.
\<close>

theorem read_buffer_session:
  assumes "malloc_ok mal" and "0 \<le> sz" and "mal h (sizeof_HttpBuffer + sz) \<noteq> None"
    and "io_fits MINI_SOCKET_READ_SIZE sz 0 es"
  shows "\<exists>out rb. io_run rb_content rb_feed ConsumeBuffer es (HttpReadBuffer_init mal h sz) = Some (out, rb) \<and>
     out @ rb_content rb = io_fed es \<and> GetContenLen rb = Some (int (length (rb_content rb)))"
proof -
  note init = HttpReadBuffer_init_inv [OF assms(1-3)]
  have "rb_size (HttpReadBuffer_init mal h sz) = sz"
    by (auto simp: HttpReadBuffer_init_def split: prod.splits option.splits)
  with rbq.session [OF init(1), of es] init(2) assms(4) show ?thesis
    by (auto dest: rb_content_length)
qed

theorem read_buffer_session_witness:
  "\<exists>out rb. io_run rb_content rb_feed ConsumeBuffer
       [Feed ''GET /'', Take 4, Feed ''index'', Take 3]
       (HttpReadBuffer_init (arena_malloc 1) Map.empty 12) = Some (out, rb) \<and>
     out @ rb_content rb = ''GET /index'' \<and> GetContenLen rb = Some (int (length (rb_content rb)))"
  using read_buffer_session [OF arena_malloc_ok [of 1], of 12 Map.empty
      "[Feed ''GET /'', Take 4, Feed ''index'', Take 3]"]
  by (simp add: arena_malloc_def sizeof_defs MINI_SOCKET_READ_SIZE_def)

text \<open>
  \<open>GetFreeBuffer\<close> never faults on a well-formed buffer, keeps the content, and returns the
  free area right behind it: it ends at the buffer's capacity, and when it is smaller than 64 bytes
  it is all the free space there is (the content has been moved to the front).
\<close>

theorem free_area_exact:
  assumes "rb_inv rb"
  shows "\<exists>off n rb'. GetFreeBuffer rb = Some (off, n, rb') \<and> rb_inv rb' \<and>
     rb_content rb' = rb_content rb \<and> GetContentEnd rb' = Some off \<and> 0 \<le> n \<and> off + n = rb_size rb \<and>
     min MINI_SOCKET_READ_SIZE (rb_size rb - int (length (rb_content rb))) \<le> n"
proof -
  obtain off n rb' where "GetFreeBuffer rb = Some (off, n, rb')" "rb_inv rb'"
    "rb_content rb' = rb_content rb" "0 \<le> n" "off + n = rb_size rb" "GetContentEnd rb' = Some off"
    "n < MINI_SOCKET_READ_SIZE \<longrightarrow> n = rb_size rb - int (length (rb_content rb))"
    using GetFreeBuffer_spec [OF assms] by blast
  then show ?thesis by (cases "n < MINI_SOCKET_READ_SIZE") auto
qed

theorem free_area_exact_witness:
  "\<exists>off n rb'. GetFreeBuffer (HttpReadBuffer_init (arena_malloc 1) Map.empty 8) = Some (off, n, rb') \<and>
     rb_inv rb' \<and> 0 \<le> n \<and> off + n = 8 \<and> 8 \<le> n"
proof -
  let ?rb = "HttpReadBuffer_init (arena_malloc 1) Map.empty 8"
  have inv: "rb_inv ?rb" and c: "rb_content ?rb = []"
    using HttpReadBuffer_init_inv [OF arena_malloc_ok [of 1], of 8 Map.empty]
    by (simp_all add: arena_malloc_def sizeof_defs)
  have "rb_size ?rb = 8" by (simp add: HttpReadBuffer_init_def AllocHttpBuffer_def arena_malloc_def sizeof_defs)
  with free_area_exact [OF inv] c show ?thesis by (auto simp: MINI_SOCKET_READ_SIZE_def)
qed

end
