(* ===== verification/HttpBufferPool.thy ===== *)
theory HttpBufferPool
  imports HttpBuffer
begin

text \<open>
  Correctness of the two structures of \<open>http/HttpBuffer.cc\<close> that link blocks through
  \<open>next_\<close>: \<open>HttpBufferList\<close> represents a list of blocks (\<open>bl_repr\<close>) and \<open>HttpWriteBuffer\<close>
  eight disjoint free lists, one per size class (\<open>wb_repr\<close>). Each operation is shown to act on
  that abstraction; the interfaces \<open>block_queue\<close> and \<open>block_pool\<close> state what \<open>HttpClient\<close> relies on.
\<close>

section \<open>The pending list is a queue of blocks\<close>

definition next_of :: "heap \<Rightarrow> nat \<Rightarrow> ptr option" where
  "next_of h a = map_option hb_next (h a)"

definition bl_repr :: "heap \<Rightarrow> HttpBufferList \<Rightarrow> nat list \<Rightarrow> bool" where
  "bl_repr h l xs \<longleftrightarrow> linked (next_of h) (hl_head l) xs None \<and>
     hl_tail l = (if xs = [] then None else Some (last xs))"

lemma next_of_simps [simp]:
  "h a = Some b \<Longrightarrow> next_of h a = Some (hb_next b)"
  "next_of (h(a \<mapsto> b)) = (next_of h)(a \<mapsto> hb_next b)"
  "next_of (h(a := None)) = (next_of h)(a := None)"
  by (auto simp: next_of_def fun_eq_iff)

lemma next_of_Some: "next_of h a = Some r \<longleftrightarrow> (\<exists>b. h a = Some b \<and> hb_next b = r)"
  by (auto simp: next_of_def)

lemma linked_heap_frame:
  "a \<notin> set xs \<Longrightarrow> linked (next_of (h(a \<mapsto> b))) p xs q \<longleftrightarrow> linked (next_of h) p xs q"
  by (rule linked_cong) auto

lemma linked_heap_free:
  "a \<notin> set xs \<Longrightarrow> linked (next_of (h(a := None))) p xs q \<longleftrightarrow> linked (next_of h) p xs q"
  by (rule linked_cong) auto

lemma PopFront_Cons:
  assumes "bl_repr h l (a # xs)"
  shows "\<exists>l'. PopFront h l = Some (Some a, l') \<and> bl_repr h l' xs"
proof -
  obtain b where b: "hl_head l = Some a" "h a = Some b" "linked (next_of h) (hb_next b) xs None"
    using assms by (auto simp: bl_repr_def next_of_Some)
  have "xs = [] \<longleftrightarrow> hb_next b = None" using b(3) by (cases xs) auto
  with b assms show ?thesis by (cases xs) (auto simp: PopFront_def bl_repr_def)
qed

lemma PopFront_Nil: "bl_repr h l [] \<Longrightarrow> PopFront h l = Some (None, l)"
  by (cases l) (auto simp: PopFront_def bl_repr_def)

lemma GetFront_spec: "bl_repr h l xs \<Longrightarrow> GetFront l = (if xs = [] then None else Some (hd xs))"
  by (cases xs) (auto simp: GetFront_def bl_repr_def)

lemma GetTail_spec: "bl_repr h l xs \<Longrightarrow> GetTail l = (if xs = [] then None else Some (last xs))"
  by (auto simp: GetTail_def bl_repr_def)

lemma PushBack_spec:
  assumes "bl_repr h l xs" and "h a = Some b" and "hb_next b = None" and "a \<notin> set xs"
  shows "\<exists>h' l'. PushBack h l (Some a) = Some (h', l') \<and> bl_repr h' l' (xs @ [a]) \<and>
     (\<forall>c. xs = [] \<or> c \<noteq> last xs \<longrightarrow> h' c = h c) \<and>
     (\<forall>c d. h c = Some d \<longrightarrow> (\<exists>r. h' c = Some (d\<lparr>hb_next := r\<rparr>)))"
proof (cases "xs = []")
  case True
  have eq: "d = d\<lparr>hb_next := hb_next d\<rparr>" for d :: HttpBuffer by simp
  show ?thesis
    using assms True by (auto simp: PushBack_def bl_repr_def intro: eq)
next
  case False
  then have "last xs \<in> set xs" by simp
  with assms(1) obtain t where t: "h (last xs) = Some t"
    using linked_allocated [of "next_of h" "hl_head l" xs None "last xs"]
    by (auto simp: bl_repr_def next_of_def)
  have "linked ((next_of h)(last xs := Some (Some a))) (hl_head l) (xs @ [a]) None"
    using assms False by (intro linked_snoc) (auto simp: bl_repr_def)
  moreover have "hl_head l \<noteq> None" using assms(1) False by (cases xs) (auto simp: bl_repr_def)
  moreover have eq: "d = d\<lparr>hb_next := hb_next d\<rparr>" for d :: HttpBuffer by simp
  ultimately show ?thesis
    using assms(1) False t by (auto simp: PushBack_def bl_repr_def intro: eq)
qed

section \<open>The allocator's size classes\<close>

lemma slot_index_pos:
  assumes "0 < g" and "0 < sz"
  shows "slot_index g sz = Some ((sz + g - 1) div g - 1)"
proof -
  define q m where "q = sz div g" and "m = sz mod g"
  have sz: "sz = g * q + m" and m: "0 \<le> m" "m < g" and q: "0 \<le> q"
    using assms by (simp_all add: q_def m_def pos_imp_zdiv_nonneg_iff)
  have smod: "sz smod g = m" using assms by (simp add: smod_nonneg m_def)
  show ?thesis
  proof (cases "m > 0")
    case True
    have "(sz + g - 1) div g = q + 1"
      using True m sz by (intro quotient_eqI [where r = "m - 1"]) (auto simp: algebra_simps)
    moreover have "(sz + (g - m)) sdiv g = q + 1"
      using m assms sz by (subst sdiv_nonneg) (auto intro!: quotient_eqI [where r = 0] simp: algebra_simps)
    ultimately show ?thesis using assms(1) smod True by (simp add: slot_index_def Let_def)
  next
    case False
    with m have "(sz + g - 1) div g = q"
      using sz assms(1) by (intro quotient_eqI [where r = "g - 1"]) (auto simp: algebra_simps)
    moreover have "sz sdiv g = q" using assms by (simp add: sdiv_nonneg q_def)
    ultimately show ?thesis using assms(1) smod False by (simp add: slot_index_def Let_def)
  qed
qed

lemma slot_index_tight:
  assumes "0 < g" and "0 < sz" and "slot_index g sz = Some i"
  shows "0 \<le> i" and "sz \<le> (i + 1) * g" and "(i + 1) * g < sz + g"
proof -
  have i: "i + 1 = (sz + g - 1) div g" using assms slot_index_pos [of g sz] by simp
  define r where "r = (sz + g - 1) mod g"
  have "sz + g - 1 = (i + 1) * g + r" using i by (simp add: r_def algebra_simps)
  moreover have "0 \<le> r" "r < g" using assms(1) by (simp_all add: r_def)
  ultimately show "sz \<le> (i + 1) * g" and "(i + 1) * g < sz + g" by linarith+
  have "1 \<le> (sz + g - 1) div g" using assms(1,2) by (simp add: pos_imp_zdiv_pos_iff int_one_le_iff_zero_less)
  with i show "0 \<le> i" by linarith
qed

lemma slot_index_bound:
  assumes "0 < g" and "0 < sz" and "sz \<le> n * g" and "slot_index g sz = Some i"
  shows "i < n"
proof -
  have "(i + 1) * g < sz + g" using assms by (intro slot_index_tight)
  also have "\<dots> \<le> (n + 1) * g" using assms(3) by (simp add: algebra_simps)
  finally show ?thesis using assms(1) by (simp add: mult_less_cancel_right)
qed

lemma slot_index_of_class:
  assumes "0 < g" and "0 \<le> i"
  shows "slot_index g ((i + 1) * g) = Some i"
proof -
  have "((i + 1) * g + g - 1) div g = i + 1"
    using assms by (intro quotient_eqI [where r = "g - 1"]) (auto simp: algebra_simps)
  then show ?thesis using slot_index_pos [OF assms(1), of "(i + 1) * g"] assms by simp
qed

section \<open>The allocator's free lists\<close>

definition class_block :: "heap \<Rightarrow> int \<Rightarrow> nat \<Rightarrow> nat \<Rightarrow> bool" where
  "class_block h g i a \<longleftrightarrow>
     (case h a of None \<Rightarrow> False | Some b \<Rightarrow> blk_ok b \<and> hb_size b = (int i + 1) * g)"

definition disjoint_slots :: "nat list list \<Rightarrow> bool" where
  "disjoint_slots xss \<longleftrightarrow>
     (\<forall>i < length xss. \<forall>j < length xss. i \<noteq> j \<longrightarrow> set (xss ! i) \<inter> set (xss ! j) = {})"

text \<open>\<open>xss ! i\<close> lists the free blocks of class \<open>i\<close>, whose size is \<open>(i + 1) * wb_size\<close>.\<close>

definition wb_repr :: "heap \<Rightarrow> HttpWriteBuffer \<Rightarrow> nat list list \<Rightarrow> bool" where
  "wb_repr h wb xss \<longleftrightarrow>
     0 < wb_size wb \<and> wb_num_slot wb = int (length xss) \<and>
     length (freeBuffer wb) = length xss \<and> disjoint_slots xss \<and>
     (\<forall>i < length xss. linked (next_of h) (freeBuffer wb ! i) (xss ! i) None \<and>
        (\<forall>a \<in> set (xss ! i). class_block h (wb_size wb) i a))"

definition free_cells :: "nat list list \<Rightarrow> nat set" where
  "free_cells xss = \<Union> (set (map set xss))"

lemma free_cells_nth: "i < length xss \<Longrightarrow> a \<in> set (xss ! i) \<Longrightarrow> a \<in> free_cells xss"
  by (auto simp: free_cells_def)

lemma free_cells_iff: "a \<in> free_cells xss \<longleftrightarrow> (\<exists>i < length xss. a \<in> set (xss ! i))"
  unfolding free_cells_def by (metis UN_iff in_set_conv_nth set_map)

lemma free_cells_update:
  "i < length xss \<Longrightarrow> disjoint_slots xss \<Longrightarrow>
   free_cells (xss[i := ys]) = set ys \<union> (free_cells xss - set (xss ! i))"
  by (fastforce simp: free_cells_iff disjoint_slots_def nth_list_update split: if_splits)

lemma wb_repr_allocated:
  assumes "wb_repr h wb xss" and "a \<in> free_cells xss"
  shows "h a \<noteq> None"
  using assms by (fastforce simp: wb_repr_def free_cells_iff class_block_def split: option.splits)

text \<open>Replacing the list of one class: the other classes only need their cells kept.\<close>

lemma wb_repr_update:
  assumes wb: "wb_repr h wb xss" and i: "i < length xss"
    and frame: "\<And>c. c \<in> free_cells xss \<Longrightarrow> c \<notin> set (xss ! i) \<Longrightarrow> h' c = h c"
    and ys: "linked (next_of h') p ys None" "\<And>a. a \<in> set ys \<Longrightarrow> class_block h' (wb_size wb) i a"
    and disj: "set ys \<inter> (free_cells xss - set (xss ! i)) = {}"
  shows "wb_repr h' (wb\<lparr>freeBuffer := (freeBuffer wb)[i := p]\<rparr>) (xss[i := ys])"
proof -
  have d: "disjoint_slots xss" using wb by (simp add: wb_repr_def)
  have eq: "h' a = h a" if "j < length xss" "j \<noteq> i" "a \<in> set (xss ! j)" for a j
    using that d i by (intro frame) (auto simp: disjoint_slots_def dest: free_cells_nth)
  have "linked (next_of h') (freeBuffer wb ! j) (xss ! j) None"
    and "\<forall>a \<in> set (xss ! j). class_block h' (wb_size wb) j a" if j: "j < length xss" "j \<noteq> i" for j
  proof -
    have "linked (next_of h') (freeBuffer wb ! j) (xss ! j) None
        = linked (next_of h) (freeBuffer wb ! j) (xss ! j) None"
      by (rule linked_cong) (simp add: next_of_def eq [OF j])
    then show "linked (next_of h') (freeBuffer wb ! j) (xss ! j) None"
      using wb j(1) by (simp add: wb_repr_def)
    show "\<forall>a \<in> set (xss ! j). class_block h' (wb_size wb) j a"
      using wb j(1) eq [OF j] by (simp add: wb_repr_def class_block_def)
  qed
  moreover have "disjoint_slots (xss[i := ys])"
    using d disj i by (fastforce simp: disjoint_slots_def nth_list_update free_cells_iff)
  ultimately show ?thesis
    using wb i ys by (auto simp: wb_repr_def nth_list_update)
qed

lemma wb_repr_frame:
  assumes "wb_repr h wb xss" and "\<And>c. c \<in> free_cells xss \<Longrightarrow> h' c = h c"
  shows "wb_repr h' wb xss"
proof -
  have "linked (next_of h') (freeBuffer wb ! i) (xss ! i) None
      = linked (next_of h) (freeBuffer wb ! i) (xss ! i) None" if "i < length xss" for i
    using assms(2) that by (intro linked_cong) (auto simp: next_of_def dest: free_cells_nth)
  moreover have "class_block h' g i a = class_block h g i a"
    if "i < length xss" "a \<in> set (xss ! i)" for i a g
    using assms(2) that by (auto simp: class_block_def dest: free_cells_nth)
  ultimately show ?thesis using assms(1) by (simp add: wb_repr_def)
qed

lemma slot_get_repr:
  "wb_repr h wb xss \<Longrightarrow> i < length xss \<Longrightarrow> slot_get wb (int i) = Some (freeBuffer wb ! i)"
  by (simp add: slot_get_def wb_repr_def)

lemma slot_set_repr:
  "wb_repr h wb xss \<Longrightarrow> i < length xss \<Longrightarrow>
   slot_set wb (int i) p = Some (wb\<lparr>freeBuffer := (freeBuffer wb)[i := p]\<rparr>)"
  by (simp add: slot_set_def wb_repr_def)

lemma request_class:
  assumes "wb_repr h wb xss" and "0 < sz" and "sz \<le> wb_num_slot wb * wb_size wb"
  obtains i where "i < length xss" "slot_index (wb_size wb) sz = Some (int i)"
    "sz \<le> (int i + 1) * wb_size wb" "(int i + 1) * wb_size wb < sz + wb_size wb"
proof -
  have g: "0 < wb_size wb" and n: "wb_num_slot wb = int (length xss)"
    using assms(1) by (simp_all add: wb_repr_def)
  obtain j where j: "slot_index (wb_size wb) sz = Some j"
    using slot_index_pos [OF g assms(2)] by blast
  note t = slot_index_tight [OF g assms(2) j]
  moreover have "j < int (length xss)" using slot_index_bound [OF g assms(2,3) j] n by simp
  ultimately show ?thesis using j by (intro that [of "nat j"]) auto
qed

lemma AllocHttpBuffer_cases:
  assumes "malloc_ok mal" and "0 \<le> sz"
  obtains "mal h (sizeof_HttpBuffer + sz) = None" "AllocHttpBuffer mal h sz = (None, h)"
  | a b where "AllocHttpBuffer mal h sz = (Some a, h(a \<mapsto> b))" "h a = None" "blk_ok b"
      "hb_size b = sz" "hb_curSize b = 0" "hb_curPtr b = 0" "hb_next b = None"
proof (cases "mal h (sizeof_HttpBuffer + sz)")
  case None
  then show ?thesis by (intro that(1)) (auto simp: AllocHttpBuffer_def)
next
  case (Some x)
  then obtain a bs where x: "mal h (sizeof_HttpBuffer + sz) = Some (a, bs)" by (cases x) auto
  then have "h a = None" "int (length bs) = sizeof_HttpBuffer + sz - offsetof_memory"
    using assms(1) by (auto simp: malloc_ok_def)
  with x assms(2) show ?thesis
    by (intro that(2) [of a "\<lparr>hb_size = sz, hb_curSize = 0, hb_curPtr = 0, hb_next = None, hb_memory = bs\<rparr>"])
      (auto simp: AllocHttpBuffer_def blk_ok_def)
qed

definition pool_size :: "int \<Rightarrow> nat \<Rightarrow> HttpBuffer \<Rightarrow> bool" where
  "pool_size g n b \<longleftrightarrow> (\<exists>i < n. hb_size b = (int i + 1) * g)"

text \<open>A block handed out for a request of \<open>sz\<close> bytes: empty, unlinked, large enough by
  less than one granule.\<close>

definition handed_out :: "int \<Rightarrow> nat \<Rightarrow> int \<Rightarrow> HttpBuffer \<Rightarrow> bool" where
  "handed_out g n sz b \<longleftrightarrow> blk_ok b \<and> pool_size g n b \<and> sz \<le> hb_size b \<and> hb_size b < sz + g \<and>
     hb_curSize b = 0 \<and> hb_curPtr b = 0 \<and> hb_next b = None"

lemma AllocWriteBuffer_hit:
  assumes wb: "wb_repr h wb xss" and sz: "0 < sz" "sz \<le> wb_num_slot wb * wb_size wb"
    and i: "slot_index (wb_size wb) sz = Some (int i)" "xss ! i = a # as"
  shows "\<exists>b wb'. AllocWriteBuffer mal sz h wb = Some (Some a, h(a \<mapsto> b), wb') \<and>
     wb_repr (h(a \<mapsto> b)) wb' (xss[i := as]) \<and> handed_out (wb_size wb) (length xss) sz b \<and>
     wb_size wb' = wb_size wb \<and> free_cells (xss[i := as]) = free_cells xss - {a} \<and>
     a \<in> free_cells xss"
proof -
  obtain j where j: "j < length xss" "slot_index (wb_size wb) sz = Some (int j)"
    "sz \<le> (int j + 1) * wb_size wb" "(int j + 1) * wb_size wb < sz + wb_size wb"
    using wb sz by (rule request_class)
  with i have [simp]: "j = i" by simp
  have link: "linked (next_of h) (freeBuffer wb ! i) (xss ! i) None"
    and cls: "\<And>a. a \<in> set (xss ! i) \<Longrightarrow> class_block h (wb_size wb) i a" and d: "disjoint_slots xss"
    using wb j(1) by (auto simp: wb_repr_def)
  from link i obtain b where b: "freeBuffer wb ! i = Some a" "h a = Some b"
    "linked (next_of h) (hb_next b) as None" by (auto simp: next_of_Some)
  have an: "a \<notin> set as" using linked_distinct [OF link] i by auto
  let ?b = "b\<lparr>hb_next := None, hb_curPtr := 0, hb_curSize := 0\<rparr>"
  let ?wb = "wb\<lparr>freeBuffer := (freeBuffer wb)[i := hb_next b]\<rparr>"
  have bok: "blk_ok b" "hb_size b = (int i + 1) * wb_size wb"
    using cls [of a] i b(2) by (auto simp: class_block_def)
  have "wb_repr (h(a \<mapsto> ?b)) ?wb (xss[i := as])"
  proof (rule wb_repr_update [OF wb])
    show "linked (next_of (h(a \<mapsto> ?b))) (hb_next b) as None"
      using b(3) an by (simp add: linked_heap_frame del: next_of_simps)
    show "class_block (h(a \<mapsto> ?b)) (wb_size wb) i c" if "c \<in> set as" for c
      using cls [of c] that i an by (auto simp: class_block_def)
  qed (use i j in auto)
  moreover have "handed_out (wb_size wb) (length xss) sz ?b"
    using bok j by (auto simp: handed_out_def blk_ok_def pool_size_def)
  moreover have "free_cells (xss[i := as]) = free_cells xss - {a}" and "a \<in> free_cells xss"
    using free_cells_update [of i xss as] d i j an free_cells_nth [of i xss] by auto
  moreover have "AllocWriteBuffer mal sz h wb = Some (Some a, h(a \<mapsto> ?b), ?wb)"
    using sz i j b slot_get_repr [OF wb j(1)] slot_set_repr [OF wb j(1)]
    by (simp add: AllocWriteBuffer_def)
  ultimately show ?thesis by auto
qed

lemma AllocWriteBuffer_miss:
  assumes wb: "wb_repr h wb xss" and sz: "0 < sz" "sz \<le> wb_num_slot wb * wb_size wb"
    and i: "slot_index (wb_size wb) sz = Some (int i)" "xss ! i = []"
  shows "AllocWriteBuffer mal sz h wb =
     (case AllocHttpBuffer mal h ((int i + 1) * wb_size wb) of (p, h') \<Rightarrow> Some (p, h', wb))"
proof -
  obtain j where j: "j < length xss" "slot_index (wb_size wb) sz = Some (int j)"
    using wb sz by (rule request_class)
  then have "linked (next_of h) (freeBuffer wb ! i) (xss ! i) None" "i < length xss"
    using wb i by (auto simp: wb_repr_def)
  then show ?thesis using sz i slot_get_repr [OF wb] by (simp add: AllocWriteBuffer_def)
qed

text \<open>The two outcomes of a request within the limits.\<close>

lemma AllocWriteBuffer_cases:
  assumes wb: "wb_repr h wb xss" and mal: "malloc_ok mal"
    and sz: "0 < sz" "sz \<le> wb_num_slot wb * wb_size wb"
  obtains "AllocWriteBuffer mal sz h wb = Some (None, h, wb)" "\<exists>n \<ge> sizeof_HttpBuffer. mal h n = None"
  | a b wb' xss' where "AllocWriteBuffer mal sz h wb = Some (Some a, h(a \<mapsto> b), wb')"
      "wb_repr (h(a \<mapsto> b)) wb' xss'" "handed_out (wb_size wb) (length xss) sz b"
      "wb_size wb' = wb_size wb" "length xss' = length xss"
      "free_cells xss' = free_cells xss - {a}" "h a = None \<or> a \<in> free_cells xss"
proof -
  obtain i where i: "i < length xss" "slot_index (wb_size wb) sz = Some (int i)"
    "sz \<le> (int i + 1) * wb_size wb" "(int i + 1) * wb_size wb < sz + wb_size wb"
    using wb sz by (rule request_class)
  have nn: "0 \<le> (int i + 1) * wb_size wb" using i(3) sz(1) by linarith
  show thesis
  proof (cases "xss ! i")
    case Nil
    note miss = AllocWriteBuffer_miss [OF wb sz i(2) Nil]
    show ?thesis
      using mal nn
    proof (cases rule: AllocHttpBuffer_cases [where h = h])
      case 1
      then show ?thesis using miss nn by (intro that(1)) (auto intro!: exI [of _ "sizeof_HttpBuffer + (int i + 1) * wb_size wb"])
    next
      case (2 a b)
      have a: "a \<notin> free_cells xss" using wb_repr_allocated [OF wb] 2(2) by blast
      then have "wb_repr (h(a \<mapsto> b)) wb xss" by (intro wb_repr_frame [OF wb]) auto
      moreover have "handed_out (wb_size wb) (length xss) sz b"
        using 2 i by (auto simp: handed_out_def pool_size_def)
      ultimately show ?thesis using miss 2 a by (intro that(2) [of a b wb xss]) auto
    qed
  next
    case (Cons a as)
    then show ?thesis using AllocWriteBuffer_hit [OF wb sz i(2) Cons, of mal] that(2) by auto
  qed
qed

lemma ReleaseWriteBuffer_spec:
  assumes wb: "wb_repr h wb xss" and b: "h a = Some b" "blk_ok b"
    and i: "hb_size b = (int i + 1) * wb_size wb" "i < length xss" and fresh: "a \<notin> free_cells xss"
  shows "\<exists>h' wb'. ReleaseWriteBuffer (Some a) h wb = Some (h', wb') \<and>
     wb_repr h' wb' (xss[i := a # xss ! i]) \<and>
     wb_size wb' = wb_size wb \<and> wb_num_slot wb' = wb_num_slot wb \<and>
     free_cells (xss[i := a # xss ! i]) = insert a (free_cells xss) \<and> (\<forall>c. c \<noteq> a \<longrightarrow> h' c = h c)"
proof -
  let ?b = "b\<lparr>hb_next := freeBuffer wb ! i, hb_curPtr := 0, hb_curSize := 0\<rparr>"
  let ?h = "h(a \<mapsto> ?b)"
  have link: "linked (next_of h) (freeBuffer wb ! i) (xss ! i) None"
    and cls: "\<And>a. a \<in> set (xss ! i) \<Longrightarrow> class_block h (wb_size wb) i a"
    and d: "disjoint_slots xss" and g: "0 < wb_size wb"
    using wb i(2) by (auto simp: wb_repr_def)
  have an: "a \<notin> set (xss ! i)" using fresh free_cells_nth [OF i(2)] by blast
  have "wb_repr ?h (wb\<lparr>freeBuffer := (freeBuffer wb)[i := Some a]\<rparr>) (xss[i := a # xss ! i])"
  proof (rule wb_repr_update [OF wb i(2)])
    show "linked (next_of ?h) (Some a) (a # xss ! i) None"
      using link an by (simp add: linked_heap_frame del: next_of_simps(2))
    show "class_block ?h (wb_size wb) i c" if "c \<in> set (a # xss ! i)" for c
      using cls [of c] that b i(1) by (auto simp: class_block_def blk_ok_def)
  qed (use fresh in auto)
  moreover have "free_cells (xss[i := a # xss ! i]) = insert a (free_cells xss)"
    using free_cells_update [OF i(2) d, of "a # xss ! i"] free_cells_nth [OF i(2)] by auto
  ultimately show ?thesis
    using b i slot_index_of_class [OF g, of "int i"] slot_get_repr [OF wb i(2)] slot_set_repr [OF wb i(2)]
    by (auto simp: ReleaseWriteBuffer_def)
qed

lemma wb_repr_empty:
  "0 < g \<Longrightarrow> wb_repr h \<lparr>wb_size = g, wb_num = n, wb_num_slot = int k, freeBuffer = replicate k None\<rparr>
     (replicate k [])"
  by (auto simp: wb_repr_def disjoint_slots_def)

lemma InitBuffer_fill_spec:
  assumes "malloc_ok mal" and "wb_repr h wb (xs # xss)"
  shows "\<exists>ok h' wb'. InitBuffer_fill mal n h wb = Some (ok, h', wb') \<and> wb_size wb' = wb_size wb \<and>
     (\<forall>c. h c \<noteq> None \<longrightarrow> h' c = h c) \<and>
     (ok \<longrightarrow> (\<exists>ys. length ys = n \<and> wb_repr h' wb' ((ys @ xs) # xss) \<and> (\<forall>a \<in> set ys. h a = None)))"
  using assms(2)
proof (induction n arbitrary: h wb xs)
  case 0
  then show ?case by auto
next
  case (Suc n)
  then have g: "0 \<le> wb_size wb" by (simp add: wb_repr_def)
  show ?case
    using assms(1) g
  proof (cases rule: AllocHttpBuffer_cases [where h = h])
    case 1
    then show ?thesis by auto
  next
    case (2 a b)
    obtain f fs where f: "freeBuffer wb = f # fs"
      using Suc.prems by (cases "freeBuffer wb") (auto simp: wb_repr_def)
    let ?h = "h(a \<mapsto> b\<lparr>hb_next := f\<rparr>)" and ?wb = "wb\<lparr>freeBuffer := Some a # fs\<rparr>"
    have a: "a \<notin> free_cells (xs # xss)" using wb_repr_allocated [OF Suc.prems] 2(2) by blast
    have link: "linked (next_of h) f xs None" and cls: "\<And>c. c \<in> set xs \<Longrightarrow> class_block h (wb_size wb) 0 c"
      using Suc.prems f by (force simp: wb_repr_def)+
    have ax: "a \<notin> set xs" using a by (auto simp: free_cells_def)
    have "wb_repr ?h (wb\<lparr>freeBuffer := (freeBuffer wb)[0 := Some a]\<rparr>) ((xs # xss)[0 := a # xs])"
    proof (rule wb_repr_update [OF Suc.prems])
      show "linked (next_of ?h) (Some a) (a # xs) None"
        using link ax by (simp add: linked_heap_frame del: next_of_simps(2))
      show "class_block ?h (wb_size wb) 0 c" if "c \<in> set (a # xs)" for c
        using cls [of c] that 2 ax by (auto simp: class_block_def blk_ok_def)
    qed (use a in auto)
    then have "wb_repr ?h ?wb ((a # xs) # xss)" using f by simp
    from Suc.IH [OF this] obtain ok h' wb' where ih: "InitBuffer_fill mal n ?h ?wb = Some (ok, h', wb')"
      "wb_size wb' = wb_size ?wb" "\<And>c. ?h c \<noteq> None \<Longrightarrow> h' c = ?h c"
      "ok \<Longrightarrow> \<exists>ys. length ys = n \<and> wb_repr h' wb' ((ys @ a # xs) # xss) \<and> (\<forall>a \<in> set ys. ?h a = None)"
      by blast
    have step: "InitBuffer_fill mal (Suc n) h wb = Some (ok, h', wb')" using 2 f ih(1) by simp
    have keep: "h' c = h c" if "h c \<noteq> None" for c
    proof -
      have "c \<noteq> a" using that 2(2) by auto
      then show ?thesis using ih(3) [of c] that by simp
    qed
    have res: "\<exists>ys. length ys = Suc n \<and> wb_repr h' wb' ((ys @ xs) # xss) \<and> (\<forall>a \<in> set ys. h a = None)" if ok
    proof -
      from ih(4) [OF that] obtain ys where ys: "length ys = n" "wb_repr h' wb' ((ys @ a # xs) # xss)"
        "\<forall>a \<in> set ys. ?h a = None" by blast
      then show ?thesis using 2(2) by (intro exI [of _ "ys @ [a]"]) (auto split: if_splits)
    qed
    show ?thesis using step ih(2) keep res by auto
  qed
qed

lemma HttpWriteBuffer_init_spec:
  assumes "malloc_ok mal" and "0 < g" and "HttpWriteBuffer_init mal ok h g n = Some (h', wb)"
  shows "\<exists>ys. length ys = nat n \<and> wb_repr h' wb (ys # replicate 7 []) \<and> wb_size wb = g \<and>
     (\<forall>c. h c \<noteq> None \<longrightarrow> h' c = h c) \<and> (\<forall>a \<in> set ys. h a = None)"
proof -
  let ?wb = "\<lparr>wb_size = g, wb_num = n, wb_num_slot = 8, freeBuffer = replicate 8 None\<rparr>"
  have r: "replicate 8 [] = [] # replicate 7 []" by (simp add: numeral_eq_Suc)
  have "wb_repr h ?wb ([] # replicate 7 [])"
    using wb_repr_empty [OF assms(2), of h n 8] unfolding r by simp
  from InitBuffer_fill_spec [OF assms(1) this, of "nat n"] assms(3) show ?thesis
    by (auto simp: HttpWriteBuffer_init_def InitBuffer_def split: if_splits)
qed

lemma free_chain_spec:
  "linked (next_of h) p xs None \<Longrightarrow> free_chain h p = Some (h |` (- set xs))"
proof (induction xs arbitrary: h p)
  case Nil
  then show ?case by (simp add: free_chain.simps)
next
  case (Cons a xs)
  then obtain b where b: "p = Some a" "h a = Some b" "linked (next_of h) (hb_next b) xs None"
    by (auto simp: next_of_Some)
  have "a \<notin> set xs" using linked_distinct [OF Cons.prems] by simp
  then have "free_chain (h(a := None)) (hb_next b) = Some ((h(a := None)) |` (- set xs))"
    using b(3) by (intro Cons.IH iffD2 [OF linked_heap_free])
  moreover have "(h(a := None)) |` (- set xs) = h |` (- set (a # xs))"
    by (auto simp: restrict_map_def fun_eq_iff)
  ultimately show ?case using b by (subst free_chain.simps) (simp add: FreeHttpBuffer_def)
qed

lemma linked_heap_restrict:
  "set ys \<inter> S = {} \<Longrightarrow> linked (next_of (h |` (- S))) p ys q \<longleftrightarrow> linked (next_of h) p ys q"
  by (rule linked_cong) (auto simp: next_of_def restrict_map_def)

lemma free_slots_spec:
  assumes "list_all2 (\<lambda>p xs. linked (next_of h) p xs None) ps xss" and "disjoint_slots xss"
  shows "free_slots h ps = Some (h |` (- free_cells xss))"
  using assms
proof (induction xss arbitrary: h ps rule: list.induct)
  case Nil
  then show ?case by (simp add: free_cells_def)
next
  case (Cons xs xss)
  then obtain p ps' where ps: "ps = p # ps'" "linked (next_of h) p xs None"
    "list_all2 (\<lambda>p xs. linked (next_of h) p xs None) ps' xss"
    by (auto simp: list_all2_Cons2)
  let ?h = "h |` (- set xs)"
  have disj: "set xs \<inter> set ys = {}" if "ys \<in> set xss" for ys
    using Cons.prems(2) that unfolding disjoint_slots_def in_set_conv_nth
    by (metis Suc_less_eq length_Cons nat.simps(3) nth_Cons_0 nth_Cons_Suc zero_less_Suc)
  have d: "disjoint_slots xss" using Cons.prems(2) by (fastforce simp: disjoint_slots_def)
  have "list_all2 (\<lambda>p xs. linked (next_of ?h) p xs None) ps' xss"
    using ps(3)
  proof (rule list.rel_mono_strong)
    fix q ys assume "ys \<in> set xss" and "linked (next_of h) q ys None"
    then show "linked (next_of ?h) q ys None"
      using disj [of ys] by (subst linked_heap_restrict) auto
  qed
  then have "free_slots ?h ps' = Some (?h |` (- free_cells xss))" using d by (rule Cons.IH)
  moreover have "- set xs \<inter> - free_cells xss = - free_cells (xs # xss)" by (auto simp: free_cells_def)
  ultimately show ?case using ps by (simp add: free_chain_spec)
qed

lemma DestroyBuffer_spec:
  assumes "wb_repr h wb xss"
  shows "DestroyBuffer h wb = Some (h |` (- free_cells xss))"
  unfolding DestroyBuffer_def
  using assms by (intro free_slots_spec) (auto simp: wb_repr_def list_all2_conv_all_nth)

text \<open>A queue of blocks threaded through the blocks themselves: what \<open>HttpClient\<close> relies on of
  \<open>pendingWrite_\<close>. A block to be pushed must not be linked to anything.\<close>

fun push_all :: "(heap \<Rightarrow> 'q \<Rightarrow> ptr \<Rightarrow> (heap \<times> 'q) option) \<Rightarrow> nat list \<Rightarrow> heap \<Rightarrow> 'q \<Rightarrow> (heap \<times> 'q) option" where
  "push_all push [] h q = Some (h, q)"
| "push_all push (a # as) h q = do { (h', q') \<leftarrow> push h q (Some a); push_all push as h' q' }"

fun pop_times :: "(heap \<Rightarrow> 'q \<Rightarrow> (ptr \<times> 'q) option) \<Rightarrow> nat \<Rightarrow> heap \<Rightarrow> 'q \<Rightarrow> (ptr list \<times> 'q) option" where
  "pop_times pop 0 h q = Some ([], q)"
| "pop_times pop (Suc n) h q = do {
     (p, q') \<leftarrow> pop h q;
     (ps, q'') \<leftarrow> pop_times pop n h q';
     Some (p # ps, q'')
   }"

locale block_queue =
  fixes repr :: "heap \<Rightarrow> 'q \<Rightarrow> nat list \<Rightarrow> bool"
    and push :: "heap \<Rightarrow> 'q \<Rightarrow> ptr \<Rightarrow> (heap \<times> 'q) option"
    and pop :: "heap \<Rightarrow> 'q \<Rightarrow> (ptr \<times> 'q) option"
    and front :: "'q \<Rightarrow> ptr"
  assumes push_ok: "repr h q xs \<Longrightarrow> h a = Some b \<Longrightarrow> hb_next b = None \<Longrightarrow> a \<notin> set xs \<Longrightarrow>
      \<exists>h' q'. push h q (Some a) = Some (h', q') \<and> repr h' q' (xs @ [a]) \<and> (\<forall>c. c \<notin> set xs \<longrightarrow> h' c = h c)"
    and pop_Cons: "repr h q (a # xs) \<Longrightarrow> \<exists>q'. pop h q = Some (Some a, q') \<and> repr h q' xs"
    and pop_Nil: "repr h q [] \<Longrightarrow> pop h q = Some (None, q)"
    and front_ok: "repr h q xs \<Longrightarrow> front q = (if xs = [] then None else Some (hd xs))"
begin

lemma push_all_ok:
  assumes "repr h q xs" and "distinct as" and "set as \<inter> set xs = {}"
    and "\<And>a. a \<in> set as \<Longrightarrow> \<exists>b. h a = Some b \<and> hb_next b = None"
  shows "\<exists>h' q'. push_all push as h q = Some (h', q') \<and> repr h' q' (xs @ as)"
  using assms
proof (induction as arbitrary: h q xs)
  case (Cons a as)
  obtain b where "h a = Some b" "hb_next b = None" using Cons.prems(4) [of a] by auto
  with Cons.prems obtain h' q' where s: "push h q (Some a) = Some (h', q')" "repr h' q' (xs @ [a])"
    "\<And>c. c \<notin> set xs \<Longrightarrow> h' c = h c" using push_ok [of h q xs a b] by auto
  have "\<exists>b. h' c = Some b \<and> hb_next b = None" if "c \<in> set as" for c
    using that Cons.prems(3,4) s(3) [of c] by (metis disjoint_iff list.set_intros(2))
  with Cons.prems s(2) have "\<exists>h'' q''. push_all push as h' q' = Some (h'', q'') \<and> repr h'' q'' ((xs @ [a]) @ as)"
    by (intro Cons.IH) auto
  then show ?case using s(1) by auto
qed auto

lemma pop_times_ok:
  "repr h q xs \<Longrightarrow> \<exists>q'. pop_times pop (length xs) h q = Some (map Some xs, q') \<and> repr h q' []"
proof (induction xs arbitrary: q)
  case (Cons a xs)
  then obtain q' where q': "pop h q = Some (Some a, q')" "repr h q' xs" using pop_Cons by blast
  from Cons.IH [OF q'(2)] show ?case using q' by auto
qed auto

end

lemma PushBack_frame:
  assumes "bl_repr h l xs" and "h a = Some b" and "hb_next b = None" and "a \<notin> set xs"
  shows "\<exists>h' l'. PushBack h l (Some a) = Some (h', l') \<and> bl_repr h' l' (xs @ [a]) \<and>
     (\<forall>c. c \<notin> set xs \<longrightarrow> h' c = h c)"
  using PushBack_spec [OF assms] last_in_set [of xs] by metis

interpretation blq: block_queue bl_repr PushBack PopFront GetFront
  by unfold_locales (fact PushBack_frame PopFront_Cons PopFront_Nil GetFront_spec)+

text \<open>A pool of blocks: what \<open>HttpClient\<close> relies on of \<open>writeBuffer_\<close>. \<open>F\<close> are the pool's own cells.\<close>

datatype pool_cmd = Acquire int | GiveBack nat

text \<open>A client session: acquire blocks, and give back blocks it holds.\<close>

fun pool_run :: "(int \<Rightarrow> heap \<Rightarrow> 'p \<Rightarrow> (ptr \<times> heap \<times> 'p) option) \<Rightarrow>
    (ptr \<Rightarrow> heap \<Rightarrow> 'p \<Rightarrow> (heap \<times> 'p) option) \<Rightarrow> pool_cmd list \<Rightarrow> heap \<times> 'p \<times> nat list \<Rightarrow>
    (heap \<times> 'p \<times> nat list) option" where
  "pool_run alloc release [] st = Some st"
| "pool_run alloc release (Acquire sz # cs) (h, p, held) = do {
     (r, h', p') \<leftarrow> alloc sz h p;
     pool_run alloc release cs (h', p', (case r of None \<Rightarrow> held | Some a \<Rightarrow> a # held))
   }"
| "pool_run alloc release (GiveBack a # cs) (h, p, held) =
     (if a \<in> set held
      then do {
        (h', p') \<leftarrow> release (Some a) h p;
        pool_run alloc release cs (h', p', remove1 a held)
      }
      else pool_run alloc release cs (h, p, held))"

text \<open>The client's held blocks are allocated, pairwise distinct and not in the pool.\<close>

definition client_ok :: "(heap \<Rightarrow> 'p \<Rightarrow> nat set \<Rightarrow> bool) \<Rightarrow> (HttpBuffer \<Rightarrow> bool) \<Rightarrow>
    heap \<times> 'p \<times> nat list \<Rightarrow> bool" where
  "client_ok pool good st \<longleftrightarrow> (case st of (h, p, held) \<Rightarrow>
     \<exists>F. pool h p F \<and> distinct held \<and> set held \<inter> F = {} \<and>
         (\<forall>a \<in> set held. \<exists>b. h a = Some b \<and> good b))"

locale block_pool =
  fixes pool :: "heap \<Rightarrow> 'p \<Rightarrow> nat set \<Rightarrow> bool"
    and alloc :: "int \<Rightarrow> heap \<Rightarrow> 'p \<Rightarrow> (ptr \<times> heap \<times> 'p) option"
    and release :: "ptr \<Rightarrow> heap \<Rightarrow> 'p \<Rightarrow> (heap \<times> 'p) option"
    and limit :: int
    and good :: "HttpBuffer \<Rightarrow> bool"
    and fits :: "int \<Rightarrow> HttpBuffer \<Rightarrow> bool"
  assumes alloc_out: "pool h p F \<Longrightarrow> sz \<le> 0 \<or> limit < sz \<Longrightarrow> alloc sz h p = Some (None, h, p)"
    and alloc_in: "pool h p F \<Longrightarrow> 0 < sz \<Longrightarrow> sz \<le> limit \<Longrightarrow>
      alloc sz h p = Some (None, h, p) \<or>
      (\<exists>a b p'. alloc sz h p = Some (Some a, h(a \<mapsto> b), p') \<and> pool (h(a \<mapsto> b)) p' (F - {a}) \<and>
         fits sz b \<and> (h a = None \<or> a \<in> F))"
    and release_ok: "pool h p F \<Longrightarrow> h a = Some b \<Longrightarrow> good b \<Longrightarrow> a \<notin> F \<Longrightarrow>
      \<exists>h' p'. release (Some a) h p = Some (h', p') \<and> pool h' p' (insert a F) \<and> (\<forall>c. c \<noteq> a \<longrightarrow> h' c = h c)"
    and fits_good: "fits sz b \<Longrightarrow> good b"
begin

lemma client_step_alloc:
  assumes "client_ok pool good (h, p, held)"
  shows "\<exists>r h' p'. alloc sz h p = Some (r, h', p') \<and>
     client_ok pool good (h', p', (case r of None \<Rightarrow> held | Some a \<Rightarrow> a # held))"
proof -
  obtain F where F: "pool h p F" "distinct held" "set held \<inter> F = {}"
    "\<forall>a \<in> set held. \<exists>b. h a = Some b \<and> good b" using assms by (auto simp: client_ok_def)
  show ?thesis
  proof (cases "alloc sz h p = Some (None, h, p)")
    case True
    then show ?thesis using assms by auto
  next
    case False
    then obtain a b p' where al: "alloc sz h p = Some (Some a, h(a \<mapsto> b), p')"
      "pool (h(a \<mapsto> b)) p' (F - {a})" "fits sz b" "h a = None \<or> a \<in> F"
      using alloc_in [OF F(1), of sz] alloc_out [OF F(1), of sz] by fastforce
    have "a \<notin> set held" using al(4) F(3,4) by fastforce
    then have "client_ok pool good (h(a \<mapsto> b), p', a # held)"
      using F al(2,3) fits_good unfolding client_ok_def by (auto intro!: exI [of _ "F - {a}"])
    with al(1) show ?thesis by auto
  qed
qed

lemma client_step_release:
  assumes "client_ok pool good (h, p, held)" and "a \<in> set held"
  shows "\<exists>h' p'. release (Some a) h p = Some (h', p') \<and> client_ok pool good (h', p', remove1 a held)"
proof -
  obtain F where F: "pool h p F" "distinct held" "set held \<inter> F = {}"
    "\<forall>a \<in> set held. \<exists>b. h a = Some b \<and> good b" using assms(1) by (auto simp: client_ok_def)
  then obtain b where "h a = Some b" "good b" using assms(2) by blast
  moreover have "a \<notin> F" using F(3) assms(2) by auto
  ultimately obtain h' p' where re: "release (Some a) h p = Some (h', p')" "pool h' p' (insert a F)"
    "\<And>c. c \<noteq> a \<Longrightarrow> h' c = h c" using release_ok [OF F(1)] by blast
  then have "client_ok pool good (h', p', remove1 a held)"
    using F unfolding client_ok_def by (auto intro!: exI [of _ "insert a F"] simp: set_remove1_eq)
  with re(1) show ?thesis by auto
qed

text \<open>Whatever a client does, no block is handed out twice and the pool stays intact.\<close>

lemma run_safe:
  "client_ok pool good st \<Longrightarrow> \<exists>st'. pool_run alloc release cs st = Some st' \<and> client_ok pool good st'"
proof (induction cs arbitrary: st)
  case (Cons c cs)
  obtain h p held where st: "st = (h, p, held)" by (cases st)
  show ?case
  proof (cases c)
    case (Acquire sz)
    obtain r h' p' where "alloc sz h p = Some (r, h', p')"
      "client_ok pool good (h', p', (case r of None \<Rightarrow> held | Some a \<Rightarrow> a # held))"
      using client_step_alloc Cons.prems st by blast
    then show ?thesis using Acquire st Cons.IH by simp
  next
    case (GiveBack a)
    show ?thesis
    proof (cases "a \<in> set held")
      case True
      then obtain h' p' where "release (Some a) h p = Some (h', p')"
        "client_ok pool good (h', p', remove1 a held)"
        using client_step_release Cons.prems st by blast
      then show ?thesis using GiveBack True st Cons.IH by simp
    qed (use Cons GiveBack st in auto)
  qed
qed auto

end

definition wb_pool :: "mallocator \<Rightarrow> int \<Rightarrow> nat \<Rightarrow> heap \<Rightarrow> HttpWriteBuffer \<Rightarrow> nat set \<Rightarrow> bool" where
  "wb_pool mal g n h wb F \<longleftrightarrow> malloc_ok mal \<and> wb_size wb = g \<and>
     (\<exists>xss. wb_repr h wb xss \<and> length xss = n \<and> F = free_cells xss)"

definition pool_block :: "int \<Rightarrow> nat \<Rightarrow> HttpBuffer \<Rightarrow> bool" where
  "pool_block g n b \<longleftrightarrow> blk_ok b \<and> pool_size g n b"

lemma wb_pool_limit: "wb_pool mal g n h wb F \<Longrightarrow> wb_num_slot wb * wb_size wb = int n * g"
  by (auto simp: wb_pool_def wb_repr_def)

lemma wb_pool_alloc_out:
  "wb_pool mal g n h wb F \<Longrightarrow> sz \<le> 0 \<or> int n * g < sz \<Longrightarrow> AllocWriteBuffer mal sz h wb = Some (None, h, wb)"
  by (auto simp: AllocWriteBuffer_def wb_pool_limit)

lemma wb_pool_alloc_in:
  assumes "wb_pool mal g n h wb F" and "0 < sz" and "sz \<le> int n * g"
  shows "AllocWriteBuffer mal sz h wb = Some (None, h, wb) \<or>
      (\<exists>a b wb'. AllocWriteBuffer mal sz h wb = Some (Some a, h(a \<mapsto> b), wb') \<and>
         wb_pool mal g n (h(a \<mapsto> b)) wb' (F - {a}) \<and> handed_out g n sz b \<and> (h a = None \<or> a \<in> F))"
proof -
  obtain xss where x: "malloc_ok mal" "wb_size wb = g" "wb_repr h wb xss" "length xss = n" "F = free_cells xss"
    using assms(1) by (auto simp: wb_pool_def)
  have "sz \<le> wb_num_slot wb * wb_size wb" using assms wb_pool_limit by auto
  with x(3,1) assms(2) show ?thesis
    by (cases rule: AllocWriteBuffer_cases) (use x in \<open>auto simp: wb_pool_def\<close>)
qed

lemma wb_pool_release:
  assumes "wb_pool mal g n h wb F" and "h a = Some b" and "pool_block g n b" and "a \<notin> F"
  shows "\<exists>h' wb'. ReleaseWriteBuffer (Some a) h wb = Some (h', wb') \<and>
     wb_pool mal g n h' wb' (insert a F) \<and> (\<forall>c. c \<noteq> a \<longrightarrow> h' c = h c)"
proof -
  obtain xss where x: "malloc_ok mal" "wb_size wb = g" "wb_repr h wb xss" "length xss = n" "F = free_cells xss"
    using assms(1) by (auto simp: wb_pool_def)
  obtain i where i: "i < n" "hb_size b = (int i + 1) * g" and ok: "blk_ok b"
    using assms(3) by (auto simp: pool_block_def pool_size_def)
  obtain h' wb' where r: "ReleaseWriteBuffer (Some a) h wb = Some (h', wb')"
     "wb_repr h' wb' (xss[i := a # xss ! i])" "wb_size wb' = wb_size wb"
     "free_cells (xss[i := a # xss ! i]) = insert a (free_cells xss)" "\<forall>c. c \<noteq> a \<longrightarrow> h' c = h c"
    using ReleaseWriteBuffer_spec [OF x(3) assms(2) ok, of i] x i assms(4) by auto
  then have "wb_pool mal g n h' wb' (insert a F)"
    unfolding wb_pool_def using x by (intro conjI exI [of _ "xss[i := a # xss ! i]"]) auto
  with r show ?thesis by blast
qed

interpretation wbp: block_pool "wb_pool mal g n" "AllocWriteBuffer mal" ReleaseWriteBuffer "int n * g"
  "pool_block g n" "handed_out g n" for mal g n
  by unfold_locales
    (fact wb_pool_alloc_out wb_pool_alloc_in wb_pool_release | simp add: handed_out_def pool_block_def)+

section \<open>Properties\<close>

lemma wb_pool_init:
  assumes "malloc_ok mal" and "0 < g" and "HttpWriteBuffer_init mal ok h g n = Some (h0, wb0)"
  shows "\<exists>F. wb_pool mal g 8 h0 wb0 F"
  using HttpWriteBuffer_init_spec [OF assms] assms(1) by (fastforce simp: wb_pool_def)

text \<open>
  C7. From construction on, any sequence of \<open>AllocWriteBuffer\<close> and \<open>ReleaseWriteBuffer\<close> calls by
  a client that only releases what it holds runs without a fault; the blocks the client holds
  at any moment are pairwise distinct, and destroying the allocator then frees only blocks the
  client does not hold.
\<close>

theorem write_pool_session:
  assumes "malloc_ok mal" and "0 < g" and "HttpWriteBuffer_init mal ok h g n = Some (h0, wb0)"
  shows "\<exists>h1 wb1 held h2. pool_run (AllocWriteBuffer mal) ReleaseWriteBuffer cs (h0, wb0, []) = Some (h1, wb1, held) \<and>
     distinct held \<and> DestroyBuffer h1 wb1 = Some h2 \<and> set held \<subseteq> dom h2"
proof -
  obtain F where "wb_pool mal g 8 h0 wb0 F" using wb_pool_init [OF assms] by blast
  then have "client_ok (wb_pool mal g 8) (pool_block g 8) (h0, wb0, [])" by (auto simp: client_ok_def)
  from wbp.run_safe [OF this, of cs] obtain h1 wb1 held F' where
    run: "pool_run (AllocWriteBuffer mal) ReleaseWriteBuffer cs (h0, wb0, []) = Some (h1, wb1, held)"
    and ok: "wb_pool mal g 8 h1 wb1 F'" "distinct held" "set held \<inter> F' = {}"
      "\<forall>a \<in> set held. \<exists>b. h1 a = Some b \<and> pool_block g 8 b" by (auto simp: client_ok_def)
  from ok(1) have "DestroyBuffer h1 wb1 = Some (h1 |` (- F'))"
    by (auto simp: wb_pool_def DestroyBuffer_spec)
  moreover have "set held \<subseteq> dom (h1 |` (- F'))" using ok(3,4) by auto
  ultimately show ?thesis using run ok(2) by blast
qed

theorem write_pool_session_witness:
  "\<exists>h0 wb0. HttpWriteBuffer_init (arena_malloc 4) True Map.empty 2 2 = Some (h0, wb0) \<and>
     (\<exists>h1 wb1 held h2. pool_run (AllocWriteBuffer (arena_malloc 4)) ReleaseWriteBuffer
        [Acquire 1, Acquire 2, GiveBack 1, Acquire 3] (h0, wb0, []) = Some (h1, wb1, held) \<and>
     distinct held \<and> DestroyBuffer h1 wb1 = Some h2 \<and> set held \<subseteq> dom h2)"
proof -
  have "\<exists>h0 wb0. HttpWriteBuffer_init (arena_malloc 4) True Map.empty 2 2 = Some (h0, wb0)"
    by (simp add: HttpWriteBuffer_init_def InitBuffer_def numeral_eq_Suc AllocHttpBuffer_def
        arena_malloc_def sizeof_defs)
  then show ?thesis
    using write_pool_session [OF arena_malloc_ok [of 4], of 2 True Map.empty 2] by (metis zero_less_numeral)
qed

text \<open>
  C11. A request the allocator accepts yields an empty, unlinked block that holds the requested
  size and wastes less than one granule; a request of no bytes or of more than eight granules
  yields \<open>NULL\<close> and changes nothing.
\<close>

theorem AllocWriteBuffer_fits:
  assumes "wb_pool mal g 8 h wb F"
  shows "(sz \<le> 0 \<or> 8 * g < sz \<longrightarrow> AllocWriteBuffer mal sz h wb = Some (None, h, wb)) \<and>
     (\<exists>p h' wb'. AllocWriteBuffer mal sz h wb = Some (p, h', wb') \<and>
        (\<forall>a. p = Some a \<longrightarrow> (\<exists>b. h' a = Some b \<and> sz \<le> hb_size b \<and> hb_size b < sz + g \<and>
           hb_curSize b = 0 \<and> hb_curPtr b = 0 \<and> hb_next b = None \<and>
           int (length (hb_memory b)) = hb_size b + 8)))"
proof (cases "sz \<le> 0 \<or> 8 * g < sz")
  case True
  then show ?thesis using wb_pool_alloc_out [OF assms, of sz] by simp
next
  case False
  then show ?thesis
    using wb_pool_alloc_in [OF assms, of sz] by (auto simp: handed_out_def blk_ok_def sizeof_defs)
qed

theorem AllocWriteBuffer_fits_witness:
  "\<exists>h wb. HttpWriteBuffer_init (arena_malloc 4) True Map.empty 2 2 = Some (h, wb) \<and>
     AllocWriteBuffer (arena_malloc 4) 17 h wb = Some (None, h, wb)"
proof -
  have "\<exists>h0 wb0. HttpWriteBuffer_init (arena_malloc 4) True Map.empty 2 2 = Some (h0, wb0)"
    by (simp add: HttpWriteBuffer_init_def InitBuffer_def numeral_eq_Suc AllocHttpBuffer_def
        arena_malloc_def sizeof_defs)
  then obtain h0 wb0 where i: "HttpWriteBuffer_init (arena_malloc 4) True Map.empty 2 2 = Some (h0, wb0)"
    by blast
  then obtain F where "wb_pool (arena_malloc 4) 2 8 h0 wb0 F"
    using wb_pool_init [OF arena_malloc_ok] by fastforce
  from AllocWriteBuffer_fits [OF this, of 17] i show ?thesis by auto
qed

text \<open>
  A released block is recycled: the next request of its size class is served with that very
  block and does not reach \<open>malloc\<close> (whatever \<open>malloc\<close> would answer).
\<close>

theorem release_then_alloc:
  assumes "wb_pool mal g 8 h wb F" and "h a = Some b" and "pool_block g 8 b" and "a \<notin> F"
    and "0 < sz" and "hb_size b - g < sz" and "sz \<le> hb_size b"
  shows "\<exists>h1 wb1 h2 wb2. ReleaseWriteBuffer (Some a) h wb = Some (h1, wb1) \<and>
     AllocWriteBuffer mal' sz h1 wb1 = Some (Some a, h2, wb2) \<and>
     (\<exists>b'. h2 a = Some b' \<and> hb_size b' = hb_size b \<and> hb_curSize b' = 0)"
proof -
  obtain xss where x: "wb_size wb = g" "wb_repr h wb xss" "length xss = 8" "F = free_cells xss"
    using assms(1) by (auto simp: wb_pool_def)
  have g: "0 < g" using x by (auto simp: wb_repr_def)
  obtain i where i: "i < 8" "hb_size b = (int i + 1) * g" and ok: "blk_ok b"
    using assms(3) by (auto simp: pool_block_def pool_size_def)
  obtain h1 wb1 where r: "ReleaseWriteBuffer (Some a) h wb = Some (h1, wb1)"
    "wb_repr h1 wb1 (xss[i := a # xss ! i])" "wb_size wb1 = g" "wb_num_slot wb1 = wb_num_slot wb"
    using ReleaseWriteBuffer_spec [OF x(2) assms(2) ok, of i] x i assms(4) by auto
  have n: "wb_num_slot wb = 8" using x by (simp add: wb_repr_def)
  obtain j where j: "slot_index g sz = Some j" "sz \<le> (j + 1) * g" "(j + 1) * g < sz + g"
    using slot_index_pos [OF g assms(5)] slot_index_tight [OF g assms(5)] by blast
  have "(int i + 1) * g < (j + 2) * g" "(j + 1) * g < (int i + 2) * g"
    using i j assms(6,7) by (auto simp: algebra_simps)
  then have ji: "j = int i" using g by (simp add: mult_less_cancel_right)
  have lim: "(int i + 1) * g \<le> 8 * g" using i(1) g by (intro mult_right_mono) auto
  have "\<exists>b' wb'. AllocWriteBuffer mal' sz h1 wb1 = Some (Some a, h1(a \<mapsto> b'), wb') \<and>
      handed_out g 8 sz b'"
    using AllocWriteBuffer_hit [OF r(2), of sz i a "xss ! i" mal'] ji lim j i r n x assms(5,7) by auto
  then obtain b' wb' where al: "AllocWriteBuffer mal' sz h1 wb1 = Some (Some a, h1(a \<mapsto> b'), wb')"
    and b': "handed_out g 8 sz b'" by blast
  obtain k where k: "hb_size b' = (int k + 1) * g" "sz \<le> hb_size b'" "hb_size b' < sz + g" "hb_curSize b' = 0"
    using b' by (auto simp: handed_out_def pool_size_def)
  have "(int k + 1) * g < (int i + 2) * g" "(int i + 1) * g < (int k + 2) * g"
    using i k assms(6,7) by (auto simp: algebra_simps)
  then have "k = i" using g by (simp add: mult_less_cancel_right)
  with r(1) al k i show ?thesis by auto
qed

theorem release_then_alloc_witness:
  "\<exists>h wb. HttpWriteBuffer_init (arena_malloc 4) True Map.empty 2 1 = Some (h, wb) \<and>
     (\<exists>h1 wb1 h2 wb2 a h3 wb3. AllocWriteBuffer (arena_malloc 4) 3 h wb = Some (Some a, h1, wb1) \<and>
        ReleaseWriteBuffer (Some a) h1 wb1 = Some (h2, wb2) \<and>
        AllocWriteBuffer (\<lambda>_ _. None) 4 h2 wb2 = Some (Some a, h3, wb3))"
proof -
  have "\<exists>h0 wb0. HttpWriteBuffer_init (arena_malloc 4) True Map.empty 2 1 = Some (h0, wb0) \<and>
      (\<exists>h1 wb1. AllocWriteBuffer (arena_malloc 4) 3 h0 wb0 = Some (Some 1, h1, wb1))"
    by (simp add: HttpWriteBuffer_init_def InitBuffer_def numeral_eq_Suc AllocHttpBuffer_def
        arena_malloc_def sizeof_defs AllocWriteBuffer_def slot_index_def slot_get_def
        signed_divide_int_def signed_modulo_int_def)
  then obtain h0 wb0 h1 wb1 where i: "HttpWriteBuffer_init (arena_malloc 4) True Map.empty 2 1 = Some (h0, wb0)"
    and al: "AllocWriteBuffer (arena_malloc 4) 3 h0 wb0 = Some (Some 1, h1, wb1)" by blast
  obtain F where F: "wb_pool (arena_malloc 4) 2 8 h0 wb0 F"
    using wb_pool_init [OF arena_malloc_ok] i by fastforce
  obtain b where b: "h1 = h0(1 \<mapsto> b)" "wb_pool (arena_malloc 4) 2 8 h1 wb1 (F - {1})" "handed_out 2 8 3 b"
    using wb_pool_alloc_in [OF F, of 3] al by auto
  then have "pool_block 2 8 b" "3 \<le> hb_size b" "hb_size b < 5" "4 \<le> hb_size b"
    by (auto simp: handed_out_def pool_block_def pool_size_def)
  then show ?thesis
    using release_then_alloc [OF b(2), of 1 b 4 "\<lambda>_ _. None"] b(1) i al by auto
qed

text \<open>
  The pending-write list is a FIFO: blocks that are allocated, distinct and unlinked (as
  \<open>AllocWriteBuffer\<close> hands them out) come back from \<open>PopFront\<close> in the order of their
  \<open>PushBack\<close>, after which the list is empty again.
\<close>

theorem pending_writes_fifo:
  assumes "distinct as" and "\<And>a. a \<in> set as \<Longrightarrow> \<exists>b. h a = Some b \<and> hb_next b = None"
  shows "\<exists>h' l' l''. push_all PushBack as h HttpBufferList_init = Some (h', l') \<and>
     GetFront l' = (if as = [] then None else Some (hd as)) \<and>
     pop_times PopFront (length as) h' l' = Some (map Some as, l'') \<and> l'' = HttpBufferList_init"
proof -
  have "bl_repr h HttpBufferList_init []" by (simp add: bl_repr_def HttpBufferList_init_def)
  from blq.push_all_ok [OF this assms(1)] assms(2) obtain h' l' where
    p: "push_all PushBack as h HttpBufferList_init = Some (h', l')" "bl_repr h' l' as" by auto
  obtain l'' where l'': "pop_times PopFront (length as) h' l' = Some (map Some as, l'')" "bl_repr h' l'' []"
    using blq.pop_times_ok [OF p(2)] by blast
  then have "l'' = HttpBufferList_init" by (cases l'') (simp add: bl_repr_def HttpBufferList_init_def)
  with p l'' blq.front_ok [OF p(2)] show ?thesis by auto
qed

theorem pending_writes_fifo_witness:
  "let b = \<lparr>hb_size = 1, hb_curSize = 0, hb_curPtr = 0, hb_next = None, hb_memory = replicate 9 CHR ''x''\<rparr>
   in \<exists>h' l' l''. push_all PushBack [5, 3] [3 \<mapsto> b, 5 \<mapsto> b] HttpBufferList_init = Some (h', l') \<and>
     GetFront l' = Some 5 \<and> pop_times PopFront 2 h' l' = Some ([Some 5, Some 3], l'')"
proof -
  define b where "b = \<lparr>hb_size = 1, hb_curSize = 0, hb_curPtr = 0, hb_next = None, hb_memory = replicate 9 CHR ''x''\<rparr>"
  have "\<exists>h' l' l''. push_all PushBack [5, 3] [3 \<mapsto> b, 5 \<mapsto> b] HttpBufferList_init = Some (h', l') \<and>
     GetFront l' = (if [5, 3 :: nat] = [] then None else Some (hd [5, 3])) \<and>
     pop_times PopFront (length [5, 3 :: nat]) h' l' = Some (map Some [5, 3], l'') \<and> l'' = HttpBufferList_init"
    by (rule pending_writes_fifo) (auto simp: b_def)
  then show ?thesis by (auto simp: Let_def b_def numeral_2_eq_2)
qed

end
