(* ===== verification/HttpRequest.thy ===== *)
theory HttpRequest
  imports Prelude
begin

text \<open>
  \<open>http/HttpRequest.h\<close>: the parsed request. The body is a \<open>std::string\<close> whose capacity the
  code reads (\<open>AppendBody\<close>), so the capacity is part of the state; how far \<open>reserve\<close> and
  \<open>append\<close> grow it is the library's choice and a parameter, of which the standard only promises
  that the capacity covers what was asked for (\<open>grow_ok\<close>).
\<close>

datatype HttpMethod = HM_GET | HM_POST | HM_HEAD | HM_PUT | HM_DELETE | HM_INVALID

datatype HttpVersion = HV_10 | HV_11 | HV_INVALID

record HttpRequest =
  rq_bodyLen :: nat
  rq_method :: HttpMethod
  rq_version :: HttpVersion
  rq_reqUrl :: string
  rq_urlData :: string
  rq_httpBody :: string
  rq_bodyCap :: nat
  rq_httpHeader :: smap

definition MaxBodyLength :: nat where
  "MaxBodyLength = 4096"

text \<open>\<open>grow c n\<close>: the capacity after asking a string of capacity \<open>c\<close> for at least \<open>n\<close>.\<close>

type_synonym grower = "nat \<Rightarrow> nat \<Rightarrow> nat"

definition grow_ok :: "grower \<Rightarrow> bool" where
  "grow_ok grow \<longleftrightarrow> (\<forall>c n. n \<le> grow c n)"

definition HttpRequest_init :: "nat \<Rightarrow> HttpRequest" where
  "HttpRequest_init cap0 =
     \<lparr>rq_bodyLen = 0, rq_method = HM_INVALID, rq_version = HV_INVALID, rq_reqUrl = [],
      rq_urlData = [], rq_httpBody = [], rq_bodyCap = cap0, rq_httpHeader = []\<rparr>"

definition SetHttpMethod :: "string \<Rightarrow> HttpRequest \<Rightarrow> bool \<times> HttpRequest" where
  "SetHttpMethod m r =
     (let r0 = r\<lparr>rq_method := HM_INVALID\<rparr>;
          r1 = (if m = ''GET'' then r0\<lparr>rq_method := HM_GET\<rparr>
                else if m = ''POST'' then r0\<lparr>rq_method := HM_POST\<rparr>
                else if m = ''HEAD'' then r0\<lparr>rq_method := HM_HEAD\<rparr>
                else if m = ''PUT'' then r0\<lparr>rq_method := HM_PUT\<rparr>
                else if m = ''DELETE'' then r0\<lparr>rq_method := HM_DELETE\<rparr>
                else r0)
      in (rq_method r1 \<noteq> HM_INVALID, r1))"

fun method_name :: "HttpMethod \<Rightarrow> string" where
  "method_name HM_GET = ''GET''"
| "method_name HM_POST = ''POST''"
| "method_name HM_HEAD = ''HEAD''"
| "method_name HM_PUT = ''PUT''"
| "method_name HM_DELETE = ''DELETE''"
| "method_name HM_INVALID = ''UNKNOWN''"

definition GetHttpMethodName :: "HttpRequest \<Rightarrow> string" where
  "GetHttpMethodName r = method_name (rq_method r)"

definition GetHttpMethod :: "HttpRequest \<Rightarrow> HttpMethod" where
  "GetHttpMethod r = rq_method r"

definition SetVersion :: "string \<Rightarrow> HttpRequest \<Rightarrow> bool \<times> HttpRequest" where
  "SetVersion v r =
     (let r0 = r\<lparr>rq_version := HV_INVALID\<rparr>;
          r1 = (if v = ''HTTP/1.1'' then r0\<lparr>rq_version := HV_11\<rparr>
                else if v = ''HTTP/1.0'' then r0\<lparr>rq_version := HV_10\<rparr>
                else r0)
      in (rq_version r1 \<noteq> HV_INVALID, r1))"

definition GetVersionName :: "HttpRequest \<Rightarrow> string" where
  "GetVersionName r =
     (if rq_version r = HV_10 then ''HTTP/1.0''
      else if rq_version r = HV_11 then ''HTTP/1.1''
      else ''UNKNOWN'')"

definition SetUrl :: "string \<Rightarrow> HttpRequest \<Rightarrow> HttpRequest" where
  "SetUrl url r = r\<lparr>rq_reqUrl := url\<rparr>"

definition SetUrlData :: "string \<Rightarrow> HttpRequest \<Rightarrow> HttpRequest" where
  "SetUrlData d r = r\<lparr>rq_urlData := d\<rparr>"

definition SetBodySize :: "grower \<Rightarrow> nat \<Rightarrow> HttpRequest \<Rightarrow> HttpRequest" where
  "SetBodySize grow sz r =
     r\<lparr>rq_bodyLen := sz, rq_bodyCap := grow (rq_bodyCap r) (max sz (length (rq_httpBody r)))\<rparr>"

definition GetCurBodyLength :: "HttpRequest \<Rightarrow> nat" where
  "GetCurBodyLength r = length (rq_httpBody r)"

definition GetBodyLength :: "HttpRequest \<Rightarrow> nat" where
  "GetBodyLength r = rq_bodyLen r"

text \<open>\<open>std::string::append\<close> grows the capacity only when the result does not fit.\<close>

definition string_append :: "grower \<Rightarrow> string \<Rightarrow> HttpRequest \<Rightarrow> HttpRequest" where
  "string_append grow d r =
     (let b = rq_httpBody r @ d in
      r\<lparr>rq_httpBody := b,
        rq_bodyCap := (if length b \<le> rq_bodyCap r then rq_bodyCap r else grow (rq_bodyCap r) (length b))\<rparr>)"

definition AppendBody_cstr :: "grower \<Rightarrow> string \<Rightarrow> HttpRequest \<Rightarrow> HttpRequest" where
  "AppendBody_cstr grow d r = string_append grow (c_str d) r"

definition AppendBody :: "grower \<Rightarrow> string \<Rightarrow> HttpRequest \<Rightarrow> HttpRequest" where
  "AppendBody grow d r = (if length d \<ge> rq_bodyCap r then r else string_append grow d r)"

definition AddRequestHeader :: "string \<Rightarrow> string \<Rightarrow> HttpRequest \<Rightarrow> HttpRequest" where
  "AddRequestHeader key val r = r\<lparr>rq_httpHeader := smap_set (c_str key) (c_str val) (rq_httpHeader r)\<rparr>"

definition GetHeaderValue :: "string \<Rightarrow> HttpRequest \<Rightarrow> string" where
  "GetHeaderValue key r = (case map_of (rq_httpHeader r) key of None \<Rightarrow> [] | Some v \<Rightarrow> v)"

text \<open>\<open>CleanUp\<close> leaves the method and the version as they are.\<close>

definition CleanUpRequest :: "HttpRequest \<Rightarrow> HttpRequest" where
  "CleanUpRequest r = r\<lparr>rq_reqUrl := [], rq_urlData := [], rq_httpBody := [], rq_httpHeader := [], rq_bodyLen := 0\<rparr>"

section \<open>Properties\<close>

text \<open>Header maps stay ordered, so that lookups see every header added.\<close>

definition rq_ok :: "HttpRequest \<Rightarrow> bool" where
  "rq_ok r \<longleftrightarrow> smap_ok (rq_httpHeader r)"

lemma rq_ok_ops [simp]:
  "rq_ok (HttpRequest_init c)" "rq_ok (CleanUpRequest r)"
  "rq_ok (SetUrl u r) = rq_ok r" "rq_ok (SetUrlData u r) = rq_ok r"
  "rq_ok (SetBodySize g n r) = rq_ok r" "rq_ok (AppendBody g d r) = rq_ok r"
  "rq_ok (snd (SetHttpMethod m r)) = rq_ok r" "rq_ok (snd (SetVersion v r)) = rq_ok r"
  by (simp_all add: rq_ok_def HttpRequest_init_def CleanUpRequest_def SetUrl_def SetUrlData_def SetBodySize_def
      AppendBody_def string_append_def SetHttpMethod_def SetVersion_def Let_def)

lemma rq_ok_AddRequestHeader [simp]: "rq_ok r \<Longrightarrow> rq_ok (AddRequestHeader k v r)"
  by (simp add: rq_ok_def AddRequestHeader_def smap_ok_set)

lemma GetHeaderValue_AddRequestHeader:
  "rq_ok r \<Longrightarrow> GetHeaderValue k' (AddRequestHeader k v r) =
     (if k' = c_str k then c_str v else GetHeaderValue k' r)"
  by (simp add: rq_ok_def GetHeaderValue_def AddRequestHeader_def map_of_smap_set)

lemma SetHttpMethod_name:
  "fst (SetHttpMethod m r) \<longleftrightarrow> m \<in> {''GET'', ''POST'', ''HEAD'', ''PUT'', ''DELETE''}"
  "fst (SetHttpMethod m r) \<Longrightarrow> GetHttpMethodName (snd (SetHttpMethod m r)) = m"
  by (auto simp: SetHttpMethod_def GetHttpMethodName_def Let_def split: if_splits)

lemma SetHttpMethod_frame:
  "snd (SetHttpMethod m r) = r\<lparr>rq_method := rq_method (snd (SetHttpMethod m r))\<rparr>"
  by (simp add: SetHttpMethod_def Let_def)

lemma SetVersion_name:
  "fst (SetVersion v r) \<longleftrightarrow> v \<in> {''HTTP/1.0'', ''HTTP/1.1''}"
  "fst (SetVersion v r) \<Longrightarrow> GetVersionName (snd (SetVersion v r)) = v"
  by (auto simp: SetVersion_def GetVersionName_def Let_def split: if_splits)

text \<open>
  Names and codes agree both ways: a method name is accepted exactly when it is one of the
  five known ones, \<open>GetHttpMethodName\<close> then returns the very bytes parsed, and setting the printed
  name of any valid method gives that method back; the same holds for the version.
\<close>

theorem method_version_roundtrip:
  "(fst (SetHttpMethod m r) \<longleftrightarrow> m \<in> {''GET'', ''POST'', ''HEAD'', ''PUT'', ''DELETE''}) \<and>
   (fst (SetHttpMethod m r) \<longrightarrow> GetHttpMethodName (snd (SetHttpMethod m r)) = m) \<and>
   (rq_method r \<noteq> HM_INVALID \<longrightarrow> SetHttpMethod (GetHttpMethodName r) r = (True, r)) \<and>
   (fst (SetVersion v r) \<longleftrightarrow> v \<in> {''HTTP/1.0'', ''HTTP/1.1''}) \<and>
   (fst (SetVersion v r) \<longrightarrow> GetVersionName (snd (SetVersion v r)) = v) \<and>
   (rq_version r \<noteq> HV_INVALID \<longrightarrow> SetVersion (GetVersionName r) r = (True, r))"
proof (intro conjI impI)
  assume "rq_method r \<noteq> HM_INVALID"
  then show "SetHttpMethod (GetHttpMethodName r) r = (True, r)"
    by (cases "rq_method r") (simp_all add: SetHttpMethod_def GetHttpMethodName_def Let_def)
next
  assume "rq_version r \<noteq> HV_INVALID"
  then show "SetVersion (GetVersionName r) r = (True, r)"
    by (cases "rq_version r") (simp_all add: SetVersion_def GetVersionName_def Let_def)
qed (fact SetHttpMethod_name SetVersion_name)+

theorem method_version_roundtrip_witness:
  "fst (SetHttpMethod ''PUT'' (HttpRequest_init 15)) \<and>
   GetHttpMethodName (snd (SetHttpMethod ''PUT'' (HttpRequest_init 15))) = ''PUT'' \<and>
   fst (SetVersion ''HTTP/1.0'' (HttpRequest_init 15)) \<and>
   GetVersionName (snd (SetVersion ''HTTP/1.0'' (HttpRequest_init 15))) = ''HTTP/1.0''"
  using method_version_roundtrip [of "''PUT''" "HttpRequest_init 15" "''HTTP/1.0''"] by simp

end
