(* ===== verification/HttpResponse.thy ===== *)
theory HttpResponse
  imports Prelude
begin

text \<open>
  \<open>http/HttpResponse.h\<close>: the response under construction and its serialisation.
  \<open>GenerateResponse\<close> writes into raw memory (the argument is the memory from the C pointer
  \<open>buffer\<close> on, which may extend past the \<open>bsize\<close> the function is told); every \<open>memcpy\<close> is
  bounds-checked by the model, so that a fault-free run is a memory-safe one.
\<close>

datatype HttpStatusCode =
  HSC_UNKNOWN | HSC_200 | HSC_400 | HSC_401 | HSC_403 | HSC_404 | HSC_500 | HSC_503

fun status_code :: "HttpStatusCode \<Rightarrow> nat" where
  "status_code HSC_UNKNOWN = 0"
| "status_code HSC_200 = 200"
| "status_code HSC_400 = 400"
| "status_code HSC_401 = 401"
| "status_code HSC_403 = 403"
| "status_code HSC_404 = 404"
| "status_code HSC_500 = 500"
| "status_code HSC_503 = 503"

record HttpResponse =
  rs_response :: bool
  rs_closeConn :: bool
  rs_msgLen :: nat
  rs_statusCode :: HttpStatusCode
  rs_statusMsg :: string
  rs_httpBody :: string
  rs_httpHeader :: smap

text \<open>The constructor leaves \<open>closeConn_\<close> and \<open>statusCode_\<close> indeterminate: \<open>c\<close> and \<open>s\<close>.\<close>

definition HttpResponse_init :: "bool \<Rightarrow> HttpStatusCode \<Rightarrow> HttpResponse" where
  "HttpResponse_init c s =
     \<lparr>rs_response = False, rs_closeConn = c, rs_msgLen = 13 + 2, rs_statusCode = s,
      rs_statusMsg = [], rs_httpBody = [], rs_httpHeader = []\<rparr>"

definition SetShouldResponse :: "bool \<Rightarrow> HttpResponse \<Rightarrow> HttpResponse" where
  "SetShouldResponse b r = r\<lparr>rs_response := b\<rparr>"

definition SetCloseConn :: "bool \<Rightarrow> HttpResponse \<Rightarrow> HttpResponse" where
  "SetCloseConn b r = r\<lparr>rs_closeConn := b\<rparr>"

definition SetStatusCode :: "HttpStatusCode \<Rightarrow> HttpResponse \<Rightarrow> HttpResponse" where
  "SetStatusCode c r = r\<lparr>rs_statusCode := c\<rparr>"

definition AddResponseHeader :: "string \<Rightarrow> string \<Rightarrow> HttpResponse \<Rightarrow> HttpResponse" where
  "AddResponseHeader key val r =
     r\<lparr>rs_msgLen := rs_msgLen r + length (c_str key) + 2 + length (c_str val) + 2,
       rs_httpHeader := smap_set (c_str key) (c_str val) (rs_httpHeader r)\<rparr>"

definition SetStatusMessage :: "string \<Rightarrow> HttpResponse \<Rightarrow> HttpResponse" where
  "SetStatusMessage msg r = r\<lparr>rs_statusMsg := c_str msg\<rparr>"

definition SetBody :: "string \<Rightarrow> HttpResponse \<Rightarrow> HttpResponse" where
  "SetBody body r = r\<lparr>rs_httpBody := c_str body\<rparr>"

abbreviation NUL :: char where
  "NUL \<equiv> CHR 0x00"

abbreviation crlf :: string where
  "crlf \<equiv> [CHR 0x0D, CHR 0x0A]"

text \<open>\<open>strcat\<close>: append at the first NUL byte of the destination.\<close>

definition strcat :: "bytes \<Rightarrow> string \<Rightarrow> bytes option" where
  "strcat mem s = memcpy_to mem (std_find NUL mem) (s @ [NUL])"

text \<open>The header loop; \<open>Inl\<close> is the early \<open>return false\<close>.\<close>

fun gen_headers :: "smap \<Rightarrow> nat \<Rightarrow> bytes \<Rightarrow> nat \<Rightarrow> (bytes + nat \<times> bytes) option" where
  "gen_headers [] bsize mem sz = Some (Inr (sz, mem))"
| "gen_headers ((key, val) # hs) bsize mem sz =
     (if sz + length key + 1 \<ge> bsize then Some (Inl mem)
      else do {
        m1 \<leftarrow> memcpy_to mem sz (key @ [NUL]);
        let sz1 = sz + length key;
        if sz1 + 3 > bsize then Some (Inl m1)
        else do {
          m2 \<leftarrow> memcpy_to m1 sz1 ('': '' @ [NUL]);
          let sz2 = sz1 + 2;
          if sz2 + length val + 3 \<ge> bsize then Some (Inl m2)
          else do {
            m3 \<leftarrow> memcpy_to m2 sz2 (val @ [NUL]);
            m4 \<leftarrow> memcpy_to m3 (sz2 + length val) (crlf @ [NUL]);
            gen_headers hs bsize m4 (sz2 + length val + 2)
          }
        }
      })"

definition status_line :: "HttpResponse \<Rightarrow> string" where
  "status_line r = ''HTTP/1.1 '' @ dec (status_code (rs_statusCode r)) @ '' ''"

text \<open>What follows the header loop: the empty line, unchecked, and the body.\<close>

definition gen_tail :: "HttpResponse \<Rightarrow> nat \<Rightarrow> bytes \<Rightarrow> nat \<Rightarrow> (nat \<times> bytes) option" where
  "gen_tail r bsize m4 sz1 = do {
     m5 \<leftarrow> memcpy_to m4 sz1 (crlf @ [NUL]);
     let sz2 = sz1 + 2;
     if sz2 + length (rs_httpBody r) + 1 \<ge> bsize then Some (0, m5)
     else do {
       m6 \<leftarrow> memcpy_to m5 sz2 (rs_httpBody r @ [NUL]);
       Some (sz2 + length (rs_httpBody r), m6)
     }
   }"

text \<open>\<open>snprintf\<close> with limit 32 always has room for the status line (at most 13 bytes).\<close>

definition GenerateResponse :: "HttpResponse \<Rightarrow> bytes \<Rightarrow> nat \<Rightarrow> (nat \<times> bytes) option" where
  "GenerateResponse r mem bsize = do {
     m1 \<leftarrow> memcpy_to mem 0 (status_line r @ [NUL]);
     let sz = length (status_line r);
     let tmp = length (rs_statusMsg r);
     if tmp + sz + 2 \<ge> bsize then Some (0, m1)
     else do {
       m2 \<leftarrow> memcpy_to m1 sz (rs_statusMsg r @ [NUL]);
       m3 \<leftarrow> strcat m2 crlf;
       res \<leftarrow> gen_headers (rs_httpHeader r) bsize m3 (sz + (tmp + 2));
       case res of
         Inl m \<Rightarrow> Some (0, m)
       | Inr (sz1, m4) \<Rightarrow> gen_tail r bsize m4 sz1
     }
   }"

definition CleanUpResponse :: "HttpResponse \<Rightarrow> HttpResponse" where
  "CleanUpResponse r = r\<lparr>rs_closeConn := False, rs_response := False, rs_msgLen := 0,
     rs_statusMsg := [], rs_httpBody := [], rs_httpHeader := []\<rparr>"

definition GetResponseSize :: "HttpResponse \<Rightarrow> nat" where
  "GetResponseSize r = rs_msgLen r + length (rs_statusMsg r) + 2 + length (rs_httpBody r) + 2"

section \<open>The response as text\<close>

fun render_headers :: "smap \<Rightarrow> string" where
  "render_headers [] = []"
| "render_headers ((k, v) # hs) = k @ '': '' @ v @ crlf @ render_headers hs"

definition render :: "HttpResponse \<Rightarrow> string" where
  "render r = status_line r @ rs_statusMsg r @ crlf @ render_headers (rs_httpHeader r) @ crlf @ rs_httpBody r"

text \<open>The status message holds no NUL byte (it is set from a C string).\<close>

definition rs_ok :: "HttpResponse \<Rightarrow> bool" where
  "rs_ok r \<longleftrightarrow> NUL \<notin> set (rs_statusMsg r)"

lemma rs_ok_ops [simp]:
  "rs_ok (HttpResponse_init c s)" "rs_ok (CleanUpResponse r)" "rs_ok (SetStatusMessage m r)"
  "rs_ok (SetBody b r) = rs_ok r" "rs_ok (AddResponseHeader k v r) = rs_ok r"
  "rs_ok (SetStatusCode sc r) = rs_ok r" "rs_ok (SetCloseConn cc r) = rs_ok r"
  "rs_ok (SetShouldResponse sr r) = rs_ok r"
  by (simp_all add: rs_ok_def HttpResponse_init_def CleanUpResponse_def SetStatusMessage_def SetBody_def
      AddResponseHeader_def SetStatusCode_def SetCloseConn_def SetShouldResponse_def)

lemma length_status_line: "length (status_line r) \<le> 13"
  by (cases "rs_statusCode r") (simp_all add: status_line_def dec.simps)

lemma status_line_no_nul: "NUL \<notin> set (status_line r)"
  by (cases "rs_statusCode r") (simp_all add: status_line_def dec.simps)

text \<open>\<open>holds mem xs\<close>: the memory starts with \<open>xs\<close>. Every write of the serialiser appends.\<close>

definition holds :: "bytes \<Rightarrow> string \<Rightarrow> bool" where
  "holds mem xs \<longleftrightarrow> take (length xs) mem = xs"

lemma holds_iff: "holds mem xs \<longleftrightarrow> (\<exists>r. mem = xs @ r)"
  unfolding holds_def by (metis append_eq_conv_conj append_take_drop_id)

lemma holds_prefix: "holds mem (xs @ ys) \<Longrightarrow> holds mem xs"
  by (auto simp: holds_iff)

lemma memcpy_appends:
  assumes "holds mem xs" and "length xs + length ys \<le> length mem"
  shows "\<exists>mem'. memcpy_to mem (length xs) ys = Some mem' \<and> holds mem' (xs @ ys) \<and> length mem' = length mem"
proof -
  obtain r where "mem = xs @ r" using assms(1) by (auto simp: holds_iff)
  with assms(2) show ?thesis by (auto simp: memcpy_to_def holds_iff)
qed

lemma strcat_appends:
  assumes "holds mem (xs @ [NUL])" and "NUL \<notin> set xs" and "length xs + length s + 1 \<le> length mem"
  shows "\<exists>mem'. strcat mem s = Some mem' \<and> holds mem' (xs @ s @ [NUL]) \<and> length mem' = length mem"
proof -
  obtain r where "mem = xs @ NUL # r" using assms(1) by (auto simp: holds_iff)
  then have "std_find NUL mem = length xs" using assms(2) by (simp add: std_find_append)
  moreover have "holds mem xs" using assms(1) by (rule holds_prefix)
  ultimately show ?thesis
    using memcpy_appends [of mem xs "s @ [NUL]"] assms(3) by (auto simp: strcat_def)
qed

lemma gen_headers_spec:
  assumes "holds mem xs" and "bsize + 2 \<le> length mem" and "length xs < bsize"
  shows "\<exists>res. gen_headers hs bsize mem (length xs) = Some res \<and>
     (case res of
        Inl m \<Rightarrow> bsize \<le> length xs + length (render_headers hs) + 1 \<and> length m = length mem
      | Inr (sz, m) \<Rightarrow> sz = length xs + length (render_headers hs) \<and> sz < bsize \<and>
          holds m (xs @ render_headers hs) \<and> length m = length mem)"
  using assms
proof (induction hs arbitrary: mem xs)
  case Nil
  then show ?case by auto
next
  case (Cons h hs)
  obtain k v where h: "h = (k, v)" by (cases h)
  let ?r = "render_headers hs"
  show ?case
  proof (cases "bsize \<le> length xs + length k + 1 \<or> length xs + length k + 3 > bsize \<or>
      length xs + length k + 2 + length v + 3 \<ge> bsize")
    case True
    then show ?thesis
      using h Cons.prems by (auto simp: memcpy_to_def Let_def)
  next
    case False
    obtain m1 where m1: "memcpy_to mem (length xs) (k @ [NUL]) = Some m1" "holds m1 (xs @ k @ [NUL])"
      "length m1 = length mem" using memcpy_appends [OF Cons.prems(1), of "k @ [NUL]"] False Cons.prems by auto
    obtain m2 where m2: "memcpy_to m1 (length (xs @ k)) ('': '' @ [NUL]) = Some m2"
      "holds m2 ((xs @ k) @ '': '' @ [NUL])" "length m2 = length mem"
      using memcpy_appends [of m1 "xs @ k" "'': '' @ [NUL]"] holds_prefix [of m1 "xs @ k"] m1 False Cons.prems by auto
    obtain m3 where m3: "memcpy_to m2 (length (xs @ k @ '': '')) (v @ [NUL]) = Some m3"
      "holds m3 ((xs @ k @ '': '') @ v @ [NUL])" "length m3 = length mem"
      using memcpy_appends [of m2 "xs @ k @ '': ''" "v @ [NUL]"] holds_prefix [of m2 "xs @ k @ '': ''" "[NUL]"]
        m2 False Cons.prems by auto
    obtain m4 where m4: "memcpy_to m3 (length (xs @ k @ '': '' @ v)) (crlf @ [NUL]) = Some m4"
      "holds m4 ((xs @ k @ '': '' @ v) @ crlf @ [NUL])" "length m4 = length mem"
      using memcpy_appends [of m3 "xs @ k @ '': '' @ v" "crlf @ [NUL]"]
        holds_prefix [of m3 "xs @ k @ '': '' @ v" "[NUL]"] m3 False Cons.prems by auto
    let ?xs = "xs @ k @ '': '' @ v @ crlf"
    have step: "gen_headers (h # hs) bsize mem (length xs) = gen_headers hs bsize m4 (length ?xs)"
      using h m1(1) m2(1) m3(1) m4(1) False by (simp add: Let_def add.assoc)
    have "holds m4 ?xs" using holds_prefix [of m4 ?xs "[NUL]"] m4(2) by simp
    moreover have "length ?xs < bsize" using False by simp
    ultimately obtain res where "gen_headers hs bsize m4 (length ?xs) = Some res"
      "case res of Inl m \<Rightarrow> bsize \<le> length ?xs + length ?r + 1 \<and> length m = length m4
        | Inr (sz, m) \<Rightarrow> sz = length ?xs + length ?r \<and> sz < bsize \<and> holds m (?xs @ ?r) \<and> length m = length m4"
      using Cons.IH [of m4 ?xs] Cons.prems(2) m4(3) by auto
    then show ?thesis using step h m4(3) by (auto split: sum.splits)
  qed
qed

lemma gen_tail_spec:
  assumes "holds mem xs" and "length xs < bsize" and "bsize + 2 \<le> length mem"
  shows "\<exists>m. gen_tail r bsize mem (length xs) =
       Some (if length xs + 2 + length (rs_httpBody r) + 1 < bsize
             then length xs + 2 + length (rs_httpBody r) else 0, m) \<and>
     length m = length mem \<and>
     (length xs + 2 + length (rs_httpBody r) + 1 < bsize \<longrightarrow> holds m (xs @ crlf @ rs_httpBody r))"
proof -
  obtain m5 where m5: "memcpy_to mem (length xs) (crlf @ [NUL]) = Some m5" "holds m5 (xs @ crlf @ [NUL])"
    "length m5 = length mem" using memcpy_appends [OF assms(1), of "crlf @ [NUL]"] assms by auto
  have h5: "holds m5 (xs @ crlf)" using holds_prefix [of m5 "xs @ crlf" "[NUL]"] m5(2) by simp
  show ?thesis
  proof (cases "length xs + 2 + length (rs_httpBody r) + 1 < bsize")
    case True
    obtain m6 where "memcpy_to m5 (length (xs @ crlf)) (rs_httpBody r @ [NUL]) = Some m6"
      "holds m6 ((xs @ crlf) @ rs_httpBody r @ [NUL])" "length m6 = length mem"
      using memcpy_appends [OF h5, of "rs_httpBody r @ [NUL]"] m5(3) True assms(3) by auto
    moreover from this have "holds m6 (xs @ crlf @ rs_httpBody r)"
      using holds_prefix [of m6 "xs @ crlf @ rs_httpBody r" "[NUL]"] by simp
    ultimately show ?thesis using m5 True by (auto simp: gen_tail_def Let_def)
  next
    case False
    then show ?thesis using m5 by (auto simp: gen_tail_def Let_def)
  qed
qed

text \<open>The serialiser computes \<open>render\<close> exactly when it fits with its terminating NUL.\<close>

lemma GenerateResponse_spec:
  assumes ok: "rs_ok r" and mem: "bsize + 2 \<le> length mem" "14 \<le> length mem"
  shows "\<exists>m. GenerateResponse r mem bsize =
       Some (if length (render r) + 1 < bsize then length (render r) else 0, m) \<and>
     length m = length mem \<and> (length (render r) + 1 < bsize \<longrightarrow> holds m (render r))"
proof -
  let ?l = "status_line r" and ?s = "rs_statusMsg r" and ?h = "render_headers (rs_httpHeader r)"
  have "holds mem []" by (simp add: holds_def)
  from memcpy_appends [OF this, of "?l @ [NUL]"] obtain m1 where
    m1: "memcpy_to mem 0 (?l @ [NUL]) = Some m1" "holds m1 (?l @ [NUL])" "length m1 = length mem"
    using length_status_line [of r] mem(2) by auto
  show ?thesis
  proof (cases "length ?s + length ?l + 2 \<ge> bsize")
    case True
    then show ?thesis using m1 by (auto simp: GenerateResponse_def render_def)
  next
    case False
    obtain m2 where m2: "memcpy_to m1 (length ?l) (?s @ [NUL]) = Some m2" "holds m2 ((?l @ ?s) @ [NUL])"
      "length m2 = length mem"
      using memcpy_appends [OF holds_prefix [OF m1(2)], of "?s @ [NUL]"] m1 False mem by auto
    have "NUL \<notin> set (?l @ ?s)" using ok status_line_no_nul [of r] by (simp add: rs_ok_def)
    then obtain m3 where m3: "strcat m2 crlf = Some m3" "holds m3 (?l @ ?s @ crlf)" "length m3 = length mem"
      using strcat_appends [OF m2(2), of crlf] m2(3) False mem holds_prefix [of _ "?l @ ?s @ crlf" "[NUL]"] by auto
    let ?xs = "?l @ ?s @ crlf"
    obtain res where res: "gen_headers (rs_httpHeader r) bsize m3 (length ?xs) = Some res"
      "case res of Inl m \<Rightarrow> bsize \<le> length ?xs + length ?h + 1 \<and> length m = length m3
        | Inr (sz, m) \<Rightarrow> sz = length ?xs + length ?h \<and> sz < bsize \<and>
            holds m (?xs @ ?h) \<and> length m = length m3"
      using gen_headers_spec [OF m3(2)] m3(3) mem(1) False by fastforce
    have gen: "GenerateResponse r mem bsize =
      (case res of Inl m \<Rightarrow> Some (0, m) | Inr (sz1, m4) \<Rightarrow> gen_tail r bsize m4 sz1)"
      using m1(1) m2(1) m3(1) res(1) False
      by (simp add: GenerateResponse_def Let_def add.commute)
    show ?thesis
    proof (cases res)
      case (Inl m)
      then show ?thesis using gen res(2) m3(3) by (auto simp: render_def)
    next
      case (Inr p)
      then obtain sz m where p: "res = Inr (sz, m)" by (cases p) auto
      then have "sz = length (?xs @ ?h)" and "holds m (?xs @ ?h)" and "length (?xs @ ?h) < bsize" "length m = length mem"
        using res(2) m3(3) by auto
      then show ?thesis using gen p gen_tail_spec [of m "?xs @ ?h" bsize r] mem(1) by (auto simp: render_def)
    qed
  qed
qed

section \<open>Properties\<close>

lemma render_headers_set:
  "length (render_headers (smap_set k v m)) \<le> length (render_headers m) + length k + length v + 4"
  by (induction k v m rule: smap_set.induct) auto

text \<open>The running length: \<open>msgLen_\<close> covers status line and headers, counted from the constructor.\<close>

definition msgLen_ok :: "HttpResponse \<Rightarrow> bool" where
  "msgLen_ok r \<longleftrightarrow> 15 + length (render_headers (rs_httpHeader r)) \<le> rs_msgLen r"

lemma msgLen_ok_ops:
  "msgLen_ok (HttpResponse_init c s)"
  "msgLen_ok r \<Longrightarrow> msgLen_ok (AddResponseHeader k v r)"
  "msgLen_ok (SetStatusMessage m r) = msgLen_ok r" "msgLen_ok (SetBody b r) = msgLen_ok r"
  "msgLen_ok (SetStatusCode sc r) = msgLen_ok r" "msgLen_ok (SetCloseConn cc r) = msgLen_ok r"
  "msgLen_ok (SetShouldResponse sr r) = msgLen_ok r"
  using render_headers_set [of "c_str k" "c_str v" "rs_httpHeader r"]
  by (auto simp: msgLen_ok_def HttpResponse_init_def AddResponseHeader_def SetStatusMessage_def SetBody_def
      SetStatusCode_def SetCloseConn_def SetShouldResponse_def)

text \<open>What a request handler may do to a response between construction and serialisation.\<close>

datatype response_op =
  Op_AddHeader string string | Op_SetStatusMessage string | Op_SetBody string
  | Op_SetStatusCode HttpStatusCode | Op_SetCloseConn bool | Op_SetShouldResponse bool

fun apply_op :: "response_op \<Rightarrow> HttpResponse \<Rightarrow> HttpResponse" where
  "apply_op (Op_AddHeader k v) r = AddResponseHeader k v r"
| "apply_op (Op_SetStatusMessage m) r = SetStatusMessage m r"
| "apply_op (Op_SetBody b) r = SetBody b r"
| "apply_op (Op_SetStatusCode c) r = SetStatusCode c r"
| "apply_op (Op_SetCloseConn b) r = SetCloseConn b r"
| "apply_op (Op_SetShouldResponse b) r = SetShouldResponse b r"

lemma handler_keeps:
  "msgLen_ok r \<Longrightarrow> msgLen_ok (fold apply_op ops r)" "rs_ok r \<Longrightarrow> rs_ok (fold apply_op ops r)"
proof (induction ops arbitrary: r)
  case (Cons x xs)
  { case 1 then show ?case using Cons.IH(1) by (cases x) (simp_all add: msgLen_ok_ops) }
  { case 2 then show ?case using Cons.IH(2) by (cases x) simp_all }
qed simp_all

lemma GenerateResponse_fits:
  assumes "msgLen_ok r" and ok: "rs_ok r" and "GetResponseSize r \<le> bsize" and "bsize + 8 \<le> length mem"
  shows "\<exists>m. GenerateResponse r mem bsize = Some (length (render r), m) \<and> holds m (render r) \<and>
     length m = length mem \<and> length (render r) < bsize"
proof -
  have "length (render r) + 1 < bsize"
    using assms length_status_line [of r] by (auto simp: msgLen_ok_def GetResponseSize_def render_def)
  moreover have "14 \<le> length mem" using assms by (simp add: GetResponseSize_def msgLen_ok_def)
  ultimately show ?thesis using GenerateResponse_spec [OF ok, of bsize mem] assms(4) by auto
qed

text \<open>
  C8. A response built from a freshly constructed object by any sequence of setters fits the
  buffer that \<open>GetResponseSize\<close> asks for: serialising it there (or into anything larger, given the
  slack every block has) does not fault, returns the exact length, and the buffer then starts with
  the status line, the headers in key order, the empty line and the body.
\<close>

theorem response_fits:
  assumes "r = fold apply_op ops (HttpResponse_init c s)"
    and "GetResponseSize r \<le> bsize" and "bsize + 8 \<le> length mem"
  shows "\<exists>m. GenerateResponse r mem bsize = Some (length (render r), m) \<and> holds m (render r) \<and>
     length (render r) < bsize"
  using GenerateResponse_fits [of r bsize mem] assms handler_keeps [of "HttpResponse_init c s" ops]
  by (auto simp: msgLen_ok_ops)

theorem response_fits_witness:
  "\<exists>m. GenerateResponse (fold apply_op [Op_SetStatusMessage ''OK'', Op_AddHeader ''A'' ''b'', Op_SetBody ''hi'']
         (HttpResponse_init False HSC_200)) (replicate 40 NUL) 32 =
       Some (length (''HTTP/1.1 200 OK'' @ crlf @ ''A: b'' @ crlf @ crlf @ ''hi''), m) \<and>
     holds m (''HTTP/1.1 200 OK'' @ crlf @ ''A: b'' @ crlf @ crlf @ ''hi'')"
  using response_fits [of _ "[Op_SetStatusMessage ''OK'', Op_AddHeader ''A'' ''b'', Op_SetBody ''hi'']" False HSC_200 32
      "replicate 40 NUL"]
  by (simp add: HttpResponse_init_def SetStatusMessage_def AddResponseHeader_def SetBody_def GetResponseSize_def
      render_def status_line_def dec.simps c_str_def)

text \<open>
  \<open>CleanUp\<close> resets \<open>msgLen_\<close> to 0, not to the 15 of the constructor, so a response built after it
  is under-measured: whenever the body leaves fewer than 14 spare bytes in the granule that
  \<open>GetResponseSize\<close> asks for, the buffer is too small and \<open>GenerateResponse\<close> reports length 0,
  that is, the response is dropped.
\<close>

theorem response_lost_after_cleanup:
  assumes "r = SetBody body (SetStatusMessage ''OK'' (SetStatusCode HSC_200 (CleanUpResponse r0)))"
    and "GetResponseSize r \<le> bsize" and "bsize < GetResponseSize r + 15" and "bsize + 8 \<le> length mem"
  shows "\<exists>m. GenerateResponse r mem bsize = Some (0, m)"
proof -
  have ok: "rs_ok r" using assms(1) by simp
  have len: "length (render r) = GetResponseSize r + 13"
    using assms(1) by (simp add: render_def GetResponseSize_def CleanUpResponse_def SetBody_def SetStatusMessage_def
        SetStatusCode_def status_line_def dec.simps)
  have "6 \<le> GetResponseSize r"
    using assms(1) by (simp add: GetResponseSize_def SetBody_def SetStatusMessage_def c_str_def)
  then have "14 \<le> length mem" using assms(2,4) by simp
  with GenerateResponse_spec [OF ok, of bsize mem] assms(3,4) len show ?thesis by auto
qed

theorem response_lost_after_cleanup_witness:
  "GetResponseSize (SetBody ''0123456789'' (SetStatusMessage ''OK'' (SetStatusCode HSC_200
       (CleanUpResponse (HttpResponse_init False HSC_200))))) = 16 \<and>
   (\<exists>m. GenerateResponse (SetBody ''0123456789'' (SetStatusMessage ''OK'' (SetStatusCode HSC_200
       (CleanUpResponse (HttpResponse_init False HSC_200))))) (replicate 24 NUL) 16 = Some (0, m))"
proof -
  have sz: "GetResponseSize (SetBody ''0123456789'' (SetStatusMessage ''OK'' (SetStatusCode HSC_200
       (CleanUpResponse (HttpResponse_init False HSC_200))))) = 16"
    by (simp add: GetResponseSize_def SetBody_def SetStatusMessage_def SetStatusCode_def CleanUpResponse_def c_str_def)
  then show ?thesis
    using response_lost_after_cleanup [OF refl, of "''0123456789''" "HttpResponse_init False HSC_200" 16
        "replicate 24 NUL"] by simp
qed

end
