(* ===== verification/HttpClient.thy ===== *)
theory HttpClient
  imports Connection HttpBufferPool HttpRequest HttpResponse
begin

text \<open>
  \<open>http/HttpClient.{h,cc}\<close>: one HTTP connection as a state machine over five event handlers.
  The parsers work on offsets into the read buffer's memory, exactly as the code works on
  pointers: \<open>end\<close> is computed once per call while \<open>start\<close> is re-read after every
  \<open>ConsumeBuffer\<close>, which moves it back to the front of the memory when the content is used up.
  The state is the client, the heap of write blocks and the world behind the connection.
\<close>

datatype handler = ProcessRequestLine_h | ProcessHeader_h | ProcessBody_h | GenerateResponse_h | SendResponse_h

type_synonym http_handler = "HttpRequest \<Rightarrow> HttpResponse \<Rightarrow> HttpResponse"

record HttpClient =
  hc_keepalive :: bool
  hc_readBuffer :: HttpReadBuffer
  hc_writeBuffer :: HttpWriteBuffer
  hc_pendingWrite :: HttpBufferList
  hc_request :: HttpRequest
  hc_response :: HttpResponse
  hc_evtHandler :: handler
  hc_cgi :: "http_handler option"
  hc_conn :: "int option"

text \<open>What the code takes from the C and C++ libraries and from the socket layer.\<close>

record 'w http_env =
  he_malloc :: mallocator
  he_grow :: grower
  he_conn :: "'w conn_ops"

type_synonym 'w hstate = "HttpClient \<times> heap \<times> 'w"

section \<open>State changes\<close>

definition FinishParsingRequestLine :: "HttpClient \<Rightarrow> HttpClient" where
  "FinishParsingRequestLine c = c\<lparr>hc_evtHandler := ProcessHeader_h\<rparr>"

definition FinishParsingHeader :: "HttpClient \<Rightarrow> HttpClient" where
  "FinishParsingHeader c = c\<lparr>hc_evtHandler := ProcessBody_h\<rparr>"

definition FinishParsingBody :: "HttpClient \<Rightarrow> HttpClient" where
  "FinishParsingBody c = c\<lparr>hc_evtHandler := GenerateResponse_h\<rparr>"

definition FinishGenerateResponse :: "HttpClient \<Rightarrow> HttpClient" where
  "FinishGenerateResponse c = c\<lparr>hc_evtHandler := SendResponse_h\<rparr>"

definition FinishSendResponse :: "HttpClient \<Rightarrow> HttpClient" where
  "FinishSendResponse c = c\<lparr>hc_evtHandler := ProcessRequestLine_h\<rparr>"

lemmas finish_defs = FinishParsingRequestLine_def FinishParsingHeader_def FinishParsingBody_def
  FinishGenerateResponse_def FinishSendResponse_def

section \<open>Reading\<close>

text \<open>The bytes of a block between two offsets.\<close>

definition rng :: "HttpBuffer \<Rightarrow> int \<Rightarrow> int \<Rightarrow> string" where
  "rng b s e = take (nat (e - s)) (drop (nat s) (hb_memory b))"

definition ReadHttpData :: "'w http_env \<Rightarrow> 'w hstate \<Rightarrow> (int \<times> 'w hstate) option" where
  "ReadHttpData E st = (case st of (c, h, w) \<Rightarrow> do {
     sz \<leftarrow> GetContenLen (hc_readBuffer c);
     if sz \<noteq> 0 then Some (0, (c, h, w))
     else do {
       (off, n, rb1) \<leftarrow> GetFreeBuffer (hc_readBuffer c);
       (r, rb2, w') \<leftarrow>
         (if n \<noteq> 0
          then do {
            fd \<leftarrow> hc_conn c;
            (r, d, w') \<leftarrow> c_read (he_conn E) w fd n;
            rb2 \<leftarrow> store_bytes off d rb1;
            Some (r, rb2, w')
          }
          else Some (n, rb1, w));
       rb3 \<leftarrow> (if r > 0 then IncreaseContentRange r rb2 else Some rb2);
       Some (r, (c\<lparr>hc_readBuffer := rb3\<rparr>, h, w'))
     }
   })"

section \<open>Parsing\<close>

definition http_version_len :: int where
  "http_version_len = 8"

definition HTTP_CTRL_LEN :: int where
  "HTTP_CTRL_LEN = 2"

definition HTTP_CTRL :: string where
  "HTTP_CTRL = crlf"

definition HTTP_HEADER_DELIM :: string where
  "HTTP_HEADER_DELIM = '': ''"

text \<open>
  \<open>std::string(question_mark + 1, delim)\<close> is not a valid range when the question mark lies
  behind the delimiter: the library throws, nothing catches it.
\<close>

definition set_url :: "HttpBuffer \<Rightarrow> int \<Rightarrow> int \<Rightarrow> int \<Rightarrow> HttpRequest \<Rightarrow> HttpRequest option" where
  "set_url b start delim end req =
     (let question_mark = start + int (std_find (CHR ''?'') (rng b start end)) in
      if question_mark \<noteq> end
      then (if question_mark + 1 > delim then None
            else Some (SetUrlData (rng b (question_mark + 1) delim) (SetUrl (rng b start question_mark) req)))
      else Some (SetUrl (rng b start delim) req))"

definition ParseRequestLine :: "HttpClient \<Rightarrow> (int \<times> HttpClient) option" where
  "ParseRequestLine c = do {
     b \<leftarrow> readBuff (hc_readBuffer c);
     start \<leftarrow> GetContentStart (hc_readBuffer c);
     end \<leftarrow> GetContentEnd (hc_readBuffer c);
     let delim = start + int (std_find (CHR '' '') (rng b start end));
     if delim = end then Some (0, c)
     else (case SetHttpMethod (rng b start delim) (hc_request c) of (ok, req1) \<Rightarrow>
       if \<not> ok then Some (-1, c\<lparr>hc_request := req1\<rparr>)
       else do {
         let len1 = delim - start + 1;
         rb1 \<leftarrow> ConsumeBuffer (delim - start + 1) (hc_readBuffer c);
         start1 \<leftarrow> GetContentStart rb1;
         let delim1 = start1 + int (std_find (CHR '' '') (rng b start1 end));
         if delim1 = end then Some (len1, c\<lparr>hc_request := req1, hc_readBuffer := rb1\<rparr>)
         else do {
           req2 \<leftarrow> set_url b start1 delim1 end req1;
           let len2 = len1 + (delim1 - start1 + 1);
           rb2 \<leftarrow> ConsumeBuffer (delim1 - start1 + 1) rb1;
           start2 \<leftarrow> GetContentStart rb2;
           let end_of_req = start2 + int (std_search HTTP_CTRL (rng b start2 end));
           if end_of_req = end then Some (len2, c\<lparr>hc_request := req2, hc_readBuffer := rb2\<rparr>)
           else if end_of_req - start2 \<noteq> http_version_len
           then Some (-1, c\<lparr>hc_request := req2, hc_readBuffer := rb2\<rparr>)
           else (case SetVersion (rng b start2 end_of_req) req2 of (okv, req3) \<Rightarrow>
             if \<not> okv then Some (-1, c\<lparr>hc_request := req3, hc_readBuffer := rb2\<rparr>)
             else do {
               rb3 \<leftarrow> ConsumeBuffer (http_version_len + HTTP_CTRL_LEN) rb2;
               Some (len2 + http_version_len + HTTP_CTRL_LEN,
                     FinishParsingRequestLine (c\<lparr>hc_request := req3, hc_readBuffer := rb3\<rparr>))
             })
         }
       })
   }"

text \<open>
  The \<open>while (1)\<close> of \<open>ParseHeader\<close>: \<open>Inl\<close> is its \<open>return true\<close> on a line that is not
  complete yet, \<open>Inr\<close> leaves the loop at the end of the headers.
\<close>

partial_function (option) parse_headers ::
  "int \<Rightarrow> int \<Rightarrow> int \<Rightarrow> HttpReadBuffer \<Rightarrow> HttpRequest \<Rightarrow>
   ((HttpReadBuffer \<times> HttpRequest) + (int \<times> HttpReadBuffer \<times> HttpRequest)) res option" where
  "parse_headers start end len rb req =
     (case readBuff rb of
        None \<Rightarrow> Some Crash
      | Some b \<Rightarrow>
          let line_end = start + int (std_search HTTP_CTRL (rng b start end)) in
          if line_end = end then Some (Val (Inl (rb, req)))
          else
            let colon = start + int (std_search HTTP_HEADER_DELIM (rng b start line_end));
                consumed = line_end - start + HTTP_CTRL_LEN in
            if colon = line_end
            then rbind (lift (ConsumeBuffer consumed rb)) (\<lambda>rb'. Some (Val (Inr (len + consumed, rb', req))))
            else rbind (lift (ConsumeBuffer consumed rb)) (\<lambda>rb'.
                 rbind (lift (GetContentStart rb')) (\<lambda>start'.
                   parse_headers start' end (len + consumed) rb'
                     (AddRequestHeader (rng b start colon) (rng b (colon + 2) line_end) req))))"

definition ParseHeader :: "HttpClient \<Rightarrow> (int \<times> HttpClient) res option" where
  "ParseHeader c =
     rbind (lift (GetContentStart (hc_readBuffer c))) (\<lambda>start.
     rbind (lift (GetContentEnd (hc_readBuffer c))) (\<lambda>end.
     rbind (parse_headers start end 0 (hc_readBuffer c) (hc_request c)) (\<lambda>r.
       case r of
         Inl (rb, req) \<Rightarrow> Some (Val (1, c\<lparr>hc_readBuffer := rb, hc_request := req\<rparr>))
       | Inr (len, rb, req) \<Rightarrow>
           Some (Val (len, FinishParsingHeader (c\<lparr>hc_readBuffer := rb, hc_request := req,
             hc_keepalive := (GetHeaderValue ''Connection'' req = ''Keep-Alive'')\<rparr>))))))"

text \<open>\<open>atoi\<close> (glibc): \<open>strtol\<close>, which saturates at 64 bits, cut to 32 bits.\<close>

definition c_isspace :: "char \<Rightarrow> bool" where
  "c_isspace ch \<longleftrightarrow> ch \<in> set [CHR '' '', CHR 0x09, CHR 0x0A, CHR 0x0B, CHR 0x0C, CHR 0x0D]"

definition digit_val :: "char \<Rightarrow> int" where
  "digit_val ch = int (std_find ch ''0123456789'')"

definition c_int :: "int \<Rightarrow> int" where
  "c_int n = signed_take_bit 31 n"

definition atoi :: "string \<Rightarrow> int" where
  "atoi s =
     (let t = dropWhile c_isspace s;
          (neg, u) = (case t of
              [] \<Rightarrow> (False, t)
            | x # xs \<Rightarrow> if x = CHR ''-'' then (True, xs) else if x = CHR ''+'' then (False, xs) else (False, t));
          n = foldl (\<lambda>a ch. 10 * a + digit_val ch) 0 (takeWhile (\<lambda>ch. ch \<in> set ''0123456789'') u)
      in c_int (if neg then max (- n) (- (2 ^ 63)) else min n (2 ^ 63 - 1)))"

definition ParseBody :: "grower \<Rightarrow> HttpClient \<Rightarrow> (int \<times> HttpClient) option" where
  "ParseBody grow c = do {
     b \<leftarrow> readBuff (hc_readBuffer c);
     start \<leftarrow> GetContentStart (hc_readBuffer c);
     end \<leftarrow> GetContentEnd (hc_readBuffer c);
     if GetHttpMethod (hc_request c) \<noteq> HM_POST
     then do {
       rb \<leftarrow> ConsumeBuffer (end - start) (hc_readBuffer c);
       Some (1, FinishParsingBody (c\<lparr>hc_readBuffer := rb\<rparr>))
     }
     else do {
       let cl = GetBodyLength (hc_request c);
       let clen = GetHeaderValue ''Content-Length'' (hc_request c);
       let contentLen = (if cl = 0 then nat (atoi (c_str clen) mod 2 ^ 64) else cl);
       if cl = 0 \<and> clen = [] then Some (0, c)
       else if cl = 0 \<and> contentLen = 0 then Some (0, c)
       else if cl = 0 \<and> contentLen \<ge> MaxBodyLength then Some (-1, c)
       else do {
         let req1 = (if cl = 0 then SetBodySize grow contentLen (hc_request c) else hc_request c);
         let received = GetCurBodyLength req1;
         let c1 = c\<lparr>hc_request := req1\<rparr>;
         if received \<ge> contentLen then Some (0, c1)
         else if nat (end - start) > contentLen - received then Some (-1, c1)
         else do {
           let c2 = (if nat (end - start) = contentLen - received
                     then FinishParsingBody c1 else c1);
           rb \<leftarrow> ConsumeBuffer (end - start) (hc_readBuffer c2);
           Some (end - start,
                 c2\<lparr>hc_request := AppendBody grow (rng b start end) (hc_request c2), hc_readBuffer := rb\<rparr>)
         }
       }
     }
   }"

section \<open>Handlers\<close>

definition read_then :: "'w http_env \<Rightarrow> SocketEvent \<Rightarrow> ('w hstate \<Rightarrow> (int \<times> 'w hstate) res option) \<Rightarrow>
    'w hstate \<Rightarrow> (int \<times> 'w hstate) res option" where
  "read_then E evt parse st =
     (if ev_code evt = SC_READ
      then rbind (lift (ReadHttpData E st)) (\<lambda>(r, st'). if r < 0 then Some (Val (r, st')) else parse st')
      else parse st)"

definition ProcessRequestLine :: "'w http_env \<Rightarrow> SocketEvent \<Rightarrow> 'w hstate \<Rightarrow> (int \<times> 'w hstate) res option" where
  "ProcessRequestLine E evt =
     read_then E evt (\<lambda>(c, h, w). rbind (lift (ParseRequestLine c)) (\<lambda>(n, c'). Some (Val (n, (c', h, w)))))"

definition ProcessHeader :: "'w http_env \<Rightarrow> SocketEvent \<Rightarrow> 'w hstate \<Rightarrow> (int \<times> 'w hstate) res option" where
  "ProcessHeader E evt =
     read_then E evt (\<lambda>(c, h, w). rbind (ParseHeader c) (\<lambda>(n, c'). Some (Val (n, (c', h, w)))))"

definition ProcessBody :: "'w http_env \<Rightarrow> SocketEvent \<Rightarrow> 'w hstate \<Rightarrow> (int \<times> 'w hstate) res option" where
  "ProcessBody E evt =
     read_then E evt (\<lambda>(c, h, w). rbind (lift (ParseBody (he_grow E) c)) (\<lambda>(n, c'). Some (Val (n, (c', h, w)))))"

text \<open>Serialise into the block: \<open>buf->curSize_ = response_.GenerateResponse(buf->curPtr_, buf->size_)\<close>.\<close>

definition fill_block :: "HttpResponse \<Rightarrow> HttpBuffer \<Rightarrow> HttpBuffer option" where
  "fill_block r b = do {
     (n, m) \<leftarrow> GenerateResponse r (drop (nat (hb_curPtr b)) (hb_memory b)) (nat (hb_size b));
     Some (b\<lparr>hb_memory := take (nat (hb_curPtr b)) (hb_memory b) @ m, hb_curSize := c_int (int n)\<rparr>)
   }"

definition GenerateResponse_handler :: "'w http_env \<Rightarrow> 'w hstate \<Rightarrow> (int \<times> 'w hstate) option" where
  "GenerateResponse_handler E st = (case st of (c, h, w) \<Rightarrow> do {
     cgi \<leftarrow> hc_cgi c;
     let resp = cgi (hc_request c) (hc_response c);
     (buf, h1, wb) \<leftarrow> AllocWriteBuffer (he_malloc E) (c_int (int (GetResponseSize resp))) h (hc_writeBuffer c);
     a \<leftarrow> buf;
     b \<leftarrow> h1 a;
     b' \<leftarrow> fill_block resp b;
     (h2, pw) \<leftarrow> PushBack (h1(a \<mapsto> b')) (hc_pendingWrite c) (Some a);
     Some (1, (FinishGenerateResponse (c\<lparr>hc_writeBuffer := wb, hc_pendingWrite := pw,
                 hc_response := CleanUpResponse resp\<rparr>), h2, w))
   })"

text \<open>The loop of \<open>SendResponse\<close> over the pending blocks; \<open>None\<close> as its pointer is the drained queue.\<close>

partial_function (option) send_loop :: "'w http_env \<Rightarrow> int \<Rightarrow> ptr \<Rightarrow> 'w hstate \<Rightarrow>
    (int \<times> ptr \<times> 'w hstate) res option" where
  "send_loop E len buf st =
     (case buf of
        None \<Rightarrow> Some (Val (len, None, st))
      | Some a \<Rightarrow> (case st of (c, h, w) \<Rightarrow>
          rbind (lift (h a)) (\<lambda>b.
          rbind (lift (hc_conn c)) (\<lambda>fd.
          rbind (lift (c_send (he_conn E) w fd (rng b (hb_curPtr b) (hb_curPtr b + hb_curSize b)))) (\<lambda>(sz, w').
            if sz < 0 then Some (Val (-1, Some a, (c, h, w')))
            else if sz < hb_curSize b
            then Some (Val (len + sz, Some a,
                   (c, h(a \<mapsto> b\<lparr>hb_curPtr := hb_curPtr b + sz, hb_curSize := hb_curSize b - sz\<rparr>), w')))
            else
              rbind (lift (PopFront h (hc_pendingWrite c))) (\<lambda>(_, pw).
              rbind (lift (ReleaseWriteBuffer (Some a) h (hc_writeBuffer c))) (\<lambda>(h', wb).
                send_loop E (len + sz) (GetFront pw)
                  (c\<lparr>hc_pendingWrite := pw, hc_writeBuffer := wb\<rparr>, h', w'))))))))"

definition SendResponse :: "'w http_env \<Rightarrow> 'w hstate \<Rightarrow> (int \<times> 'w hstate) res option" where
  "SendResponse E st =
     rbind (send_loop E 0 (GetFront (hc_pendingWrite (fst st))) st) (\<lambda>(n, buf, (c, h, w)).
       if n < 0 then Some (Val (-1, (c, h, w)))
       else Some (Val (n, (if buf = None then FinishSendResponse c else c, h, w))))"

section \<open>The event loop\<close>

definition call_handler :: "'w http_env \<Rightarrow> SocketEvent \<Rightarrow> 'w hstate \<Rightarrow> (int \<times> 'w hstate) res option" where
  "call_handler E evt st =
     (case hc_evtHandler (fst st) of
        ProcessRequestLine_h \<Rightarrow> ProcessRequestLine E evt st
      | ProcessHeader_h \<Rightarrow> ProcessHeader E evt st
      | ProcessBody_h \<Rightarrow> ProcessBody E evt st
      | GenerateResponse_h \<Rightarrow> lift (GenerateResponse_handler E st)
      | SendResponse_h \<Rightarrow> SendResponse E st)"

text \<open>The draining loop of \<open>ResetClient\<close>.\<close>

partial_function (option) release_pending ::
  "heap \<Rightarrow> HttpBufferList \<Rightarrow> HttpWriteBuffer \<Rightarrow> (heap \<times> HttpBufferList \<times> HttpWriteBuffer) res option" where
  "release_pending h pw wb =
     rbind (lift (PopFront h pw)) (\<lambda>(buf, pw').
       case buf of
         None \<Rightarrow> Some (Val (h, pw', wb))
       | Some a \<Rightarrow> rbind (lift (ReleaseWriteBuffer (Some a) h wb)) (\<lambda>(h', wb'). release_pending h' pw' wb'))"

definition ResetClient :: "int option \<Rightarrow> HttpClient \<times> heap \<Rightarrow> (HttpClient \<times> heap) res option" where
  "ResetClient conn st = (case st of (c, h) \<Rightarrow>
     rbind (lift (ResetBuffer (hc_readBuffer c))) (\<lambda>rb.
     rbind (release_pending h (hc_pendingWrite c) (hc_writeBuffer c)) (\<lambda>(h', pw, wb).
       Some (Val (c\<lparr>hc_keepalive := False, hc_request := CleanUpRequest (hc_request c),
         hc_response := CleanUpResponse (hc_response c), hc_readBuffer := rb, hc_pendingWrite := pw,
         hc_writeBuffer := wb, hc_conn := conn, hc_evtHandler := ProcessRequestLine_h\<rparr>, h')))))"

definition CloseConnection :: "'w http_env \<Rightarrow> 'w hstate \<Rightarrow> 'w hstate res option" where
  "CloseConnection E st = (case st of (c, h, w) \<Rightarrow>
     rbind (lift (hc_conn c)) (\<lambda>fd.
     rbind (lift (c_close (he_conn E) w fd)) (\<lambda>w'.
     rbind (ResetClient None (c, h)) (\<lambda>(c', h'). Some (Val (c', h', w'))))))"

text \<open>The \<open>do ... while (len > 0)\<close> loop.\<close>

partial_function (option) process_loop :: "'w http_env \<Rightarrow> SocketEvent \<Rightarrow> int \<Rightarrow> 'w hstate \<Rightarrow>
    (int \<times> 'w hstate) res option" where
  "process_loop E evt ret st =
     rbind (call_handler E evt st) (\<lambda>(len, st').
       if len < 0 then rbind (CloseConnection E st') (\<lambda>st''. Some (Val (-1, st'')))
       else if len > 0 then process_loop E evt (ret + len) st'
       else Some (Val (ret + len, st')))"

definition ProcessEvent :: "'w http_env \<Rightarrow> SocketEvent \<Rightarrow> 'w hstate \<Rightarrow> (int \<times> 'w hstate) res option" where
  "ProcessEvent E evt st = process_loop E evt 0 st"

text \<open>
  The constructor: an 8 KiB read buffer and eight write blocks of 1 KiB. \<open>conn_\<close> is not
  initialised by the code; a client is used only after \<open>ResetClient\<close>, and starts here as \<open>NULL\<close>.
\<close>

definition HttpClient_init :: "'w http_env \<Rightarrow> bool \<Rightarrow> nat \<Rightarrow> bool \<Rightarrow> HttpStatusCode \<Rightarrow> http_handler option \<Rightarrow> heap \<Rightarrow>
    (HttpClient \<times> heap) option" where
  "HttpClient_init E arr_ok cap0 cl sc cgi h = do {
     (h', wb) \<leftarrow> HttpWriteBuffer_init (he_malloc E) arr_ok h 1024 8;
     Some (\<lparr>hc_keepalive = False, hc_readBuffer = HttpReadBuffer_init (he_malloc E) h (8 * 1024),
            hc_writeBuffer = wb, hc_pendingWrite = HttpBufferList_init,
            hc_request = HttpRequest_init cap0, hc_response = HttpResponse_init cl sc,
            hc_evtHandler = ProcessRequestLine_h, hc_cgi = cgi, hc_conn = None\<rparr>, h')
   }"

definition SetConnection :: "int option \<Rightarrow> HttpClient \<Rightarrow> HttpClient" where
  "SetConnection conn c = c\<lparr>hc_conn := conn\<rparr>"

definition RegisterHttpHandler :: "http_handler option \<Rightarrow> HttpClient \<Rightarrow> HttpClient" where
  "RegisterHttpHandler cgi c = c\<lparr>hc_cgi := cgi\<rparr>"

end
