(* ===== verification/HttpClientParse.thy ===== *)
theory HttpClientParse
  imports HttpClient
begin

text \<open>
  Correctness of the request parsers of \<open>http/HttpClient.cc\<close>. \<open>window\<close> splits the memory of
  the read buffer around its content, so that the pointer arithmetic of the code becomes
  concatenation. The parsers are then inverted against the text of a request.
\<close>

section \<open>The content as a window of the memory\<close>

definition window :: "HttpReadBuffer \<Rightarrow> string \<Rightarrow> string \<Rightarrow> string \<Rightarrow> bool" where
  "window rb pre xs post \<longleftrightarrow> rb_inv rb \<and> (\<exists>b. readBuff rb = Some b \<and> hb_memory b = pre @ xs @ post \<and>
     hb_curPtr b = int (length pre) \<and> hb_curSize b = int (length xs))"

lemma window_content: "window rb pre xs post \<Longrightarrow> rb_content rb = xs"
  by (auto simp: window_def rb_content_def)

lemma rb_inv_window:
  assumes "rb_inv rb"
  obtains pre post where "window rb pre (rb_content rb) post"
proof -
  obtain b where b: "readBuff rb = Some b" "blk_ok b" using assms by (rule rb_invE)
  let ?p = "nat (hb_curPtr b)" and ?n = "nat (hb_curSize b)"
  have "hb_memory b = take ?p (hb_memory b) @ take ?n (drop ?p (hb_memory b)) @ drop ?n (drop ?p (hb_memory b))"
    by (simp only: append_take_drop_id)
  then have "window rb (take ?p (hb_memory b)) (rb_content rb) (drop ?n (drop ?p (hb_memory b)))"
    using assms b blk_ok_content_length [OF b(2)] unfolding window_def rb_content_def
    by (intro conjI exI [of _ b]) (auto simp: blk_ok_def sizeof_defs min_def)
  then show thesis by (rule that)
qed

lemma rng_mid:
  "hb_memory b = p @ x @ q \<Longrightarrow> s = int (length p) \<Longrightarrow> e = s + int (length x) \<Longrightarrow> rng b s e = x"
  by (simp add: rng_def)

lemma window_consume:
  assumes "window rb pre (a @ c) post" and "c \<noteq> []"
  shows "\<exists>rb'. ConsumeBuffer (int (length a)) rb = Some rb' \<and> window rb' (pre @ a) c post"
proof -
  obtain rb' where rb': "ConsumeBuffer (int (length a)) rb = Some rb'" "rb_inv rb'"
    using ConsumeBuffer_spec [of rb "int (length a)"] assms(1) by (auto simp: window_def)
  then show ?thesis using assms by (auto simp: window_def ConsumeBuffer_def Let_def)
qed

lemma window_consume_all:
  assumes "window rb pre xs post" and "int (length xs) \<le> n"
  shows "\<exists>rb'. ConsumeBuffer n rb = Some rb' \<and> window rb' [] [] (pre @ xs @ post)"
proof -
  obtain rb' where rb': "ConsumeBuffer n rb = Some rb'" "rb_inv rb'"
    using ConsumeBuffer_spec [of rb n] assms by (auto simp: window_def)
  then show ?thesis using assms by (auto simp: window_def ConsumeBuffer_def Let_def)
qed

lemma window_size: "window rb pre xs post \<Longrightarrow> int (length pre + length xs + length post) = rb_size rb + 8"
  by (auto simp: window_def rb_inv_def blk_ok_def sizeof_defs)

text \<open>What is left after parsing: the rest, at the front of the memory when there is none.\<close>

definition remains :: "HttpReadBuffer \<Rightarrow> int \<Rightarrow> string \<Rightarrow> bool" where
  "remains rb n rest \<longleftrightarrow> rb_size rb = n \<and> (\<exists>pre post. window rb pre rest post \<and> (rest = [] \<longrightarrow> pre = []))"

lemma remains_content: "remains rb n rest \<Longrightarrow> rb_content rb = rest"
  using window_content by (auto simp: remains_def)

lemma window_start: "window rb pre xs post \<Longrightarrow> GetContentStart rb = Some (int (length pre))"
  by (auto simp: window_def GetContentStart_def)

lemma window_end: "window rb pre xs post \<Longrightarrow> GetContentEnd rb = Some (int (length pre) + int (length xs))"
  by (auto simp: window_def GetContentEnd_def)

section \<open>The request line\<close>

text \<open>Storing a request target: the part before the question mark and, if there is one, the rest.\<close>

definition req_target :: "string \<Rightarrow> HttpRequest \<Rightarrow> HttpRequest" where
  "req_target tgt r =
     (let k = std_find (CHR ''?'') tgt in
      if k < length tgt then SetUrlData (drop (Suc k) tgt) (SetUrl (take k tgt) r) else SetUrl tgt r)"

lemma set_url_ok:
  assumes mem: "hb_memory b = p @ (tgt @ rest) @ q" and s: "s = int (length p)"
    and d: "d = s + int (length tgt)" and e: "e = d + int (length rest)"
    and q: "CHR ''?'' \<in> set rest \<Longrightarrow> CHR ''?'' \<in> set tgt"
  shows "set_url b s d e r = Some (req_target tgt r)"
proof -
  let ?k = "std_find (CHR ''?'') tgt"
  have whole: "rng b s e = tgt @ rest" using mem s d e by (intro rng_mid) auto
  show ?thesis
  proof (cases "CHR ''?'' \<in> set tgt")
    case True
    then obtain u v where uv: "tgt = u @ CHR ''?'' # v" "CHR ''?'' \<notin> set u" by (meson split_list_first)
    then have k: "std_find (CHR ''?'') (tgt @ rest) = length u" "?k = length u"
      using std_find_append [of "CHR ''?''" u] by auto
    have "rng b s (s + int (length u)) = u"
      using mem s uv by (intro rng_mid [where p = p and q = "CHR ''?'' # v @ rest @ q"]) auto
    moreover have "rng b (s + int (length u) + 1) d = v"
      using mem s uv d by (intro rng_mid [where p = "p @ u @ ''?''" and q = "rest @ q"]) auto
    ultimately show ?thesis
      using whole k uv d e by (simp add: set_url_def req_target_def Let_def)
  next
    case False
    then have "CHR ''?'' \<notin> set (tgt @ rest)" using q by auto
    then have k: "std_find (CHR ''?'') (tgt @ rest) = length (tgt @ rest)" "?k = length tgt"
      using False by (simp_all only: std_find_eq_length not_False_eq_True)
    have "rng b s d = tgt" using mem s d by (intro rng_mid [where p = p and q = "rest @ q"]) auto
    then show ?thesis using whole k d e by (simp add: set_url_def req_target_def Let_def)
  qed
qed

text \<open>A question mark behind the target but none in it: the range constructor throws.\<close>

lemma set_url_bad:
  assumes mem: "hb_memory b = p @ (tgt @ rest) @ q" and s: "s = int (length p)"
    and d: "d = s + int (length tgt)" and e: "e = d + int (length rest)"
    and q: "CHR ''?'' \<in> set rest" "CHR ''?'' \<notin> set tgt"
  shows "set_url b s d e r = None"
proof -
  have whole: "rng b s e = tgt @ rest" using mem s d e by (intro rng_mid) auto
  have "std_find (CHR ''?'') (tgt @ rest) = length tgt + std_find (CHR ''?'') rest"
    using q(2) by (rule std_find_append_absent)
  moreover have "std_find (CHR ''?'') rest < length rest" using q(1) by (simp add: std_find_less)
  ultimately show ?thesis using whole d e by (simp add: set_url_def Let_def)
qed

definition request_line :: "HttpMethod \<Rightarrow> string \<Rightarrow> string \<Rightarrow> string" where
  "request_line m tgt v = method_name m @ '' '' @ tgt @ '' '' @ v @ crlf"

lemma method_name_plain: "CHR '' '' \<notin> set (method_name m)"
  by (cases m) simp_all

lemma SetHttpMethod_of_name:
  "m \<noteq> HM_INVALID \<Longrightarrow> SetHttpMethod (method_name m) r = (True, r\<lparr>rq_method := m\<rparr>)"
  by (cases m) (simp_all add: SetHttpMethod_def Let_def)

definition version_of :: "string \<Rightarrow> HttpVersion" where
  "version_of v = (if v = ''HTTP/1.1'' then HV_11 else HV_10)"

lemma SetVersion_of_name:
  "v \<in> {''HTTP/1.0'', ''HTTP/1.1''} \<Longrightarrow> SetVersion v r = (True, r\<lparr>rq_version := version_of v\<rparr>)"
  by (auto simp: SetVersion_def version_of_def Let_def)

text \<open>What the request line leaves in the request.\<close>

definition line_request :: "HttpMethod \<Rightarrow> string \<Rightarrow> string \<Rightarrow> HttpRequest \<Rightarrow> HttpRequest" where
  "line_request m tgt v r = (req_target tgt (r\<lparr>rq_method := m\<rparr>))\<lparr>rq_version := version_of v\<rparr>"

lemma ParseRequestLine_ok:
  assumes w: "window (hc_readBuffer c) pre (request_line m tgt v @ rest) post"
    and m: "m \<noteq> HM_INVALID" and v: "v \<in> {''HTTP/1.0'', ''HTTP/1.1''}" and sp: "CHR '' '' \<notin> set tgt"
    and q: "CHR ''?'' \<in> set rest \<Longrightarrow> CHR ''?'' \<in> set tgt" and rest: "rest \<noteq> []"
  shows "\<exists>rb. ParseRequestLine c = Some (int (length (request_line m tgt v)),
       FinishParsingRequestLine (c\<lparr>hc_request := line_request m tgt v (hc_request c), hc_readBuffer := rb\<rparr>)) \<and>
     window rb (pre @ request_line m tgt v) rest post"
proof -
  let ?m = "method_name m" and ?r = "v @ crlf @ rest"
  have w0: "window (hc_readBuffer c) pre ((?m @ '' '') @ tgt @ '' '' @ ?r) post"
    using w by (simp add: request_line_def)
  obtain b where b: "readBuff (hc_readBuffer c) = Some b" "hb_memory b = pre @ ((?m @ '' '') @ tgt @ '' '' @ ?r) @ post"
    "hb_curPtr b = int (length pre)" using w0 by (auto simp: window_def)
  define e where "e = int (length pre) + int (length ((?m @ '' '') @ tgt @ '' '' @ ?r))"
  have se: "GetContentStart (hc_readBuffer c) = Some (int (length pre))" "GetContentEnd (hc_readBuffer c) = Some e"
    using window_start [OF w0] window_end [OF w0] by (simp_all add: e_def)
  obtain rb1 where rb1: "ConsumeBuffer (int (length (?m @ '' ''))) (hc_readBuffer c) = Some rb1"
    "window rb1 (pre @ ?m @ '' '') (tgt @ '' '' @ ?r) post" using window_consume [OF w0] by auto
  have w1: "window rb1 (pre @ ?m @ '' '') ((tgt @ '' '') @ ?r) post" using rb1(2) by simp
  obtain rb2 where rb2: "ConsumeBuffer (int (length (tgt @ '' ''))) rb1 = Some rb2"
    "window rb2 (pre @ ?m @ '' '' @ tgt @ '' '') ((v @ crlf) @ rest) post" using window_consume [OF w1] by auto
  obtain rb3 where rb3: "ConsumeBuffer (int (length (v @ crlf))) rb2 = Some rb3"
    "window rb3 (pre @ request_line m tgt v) rest post"
    using window_consume [OF rb2(2) rest] by (auto simp: request_line_def)
  have r0: "rng b (int (length pre)) e = ?m @ CHR '' '' # tgt @ '' '' @ ?r"
    using b by (intro rng_mid [where p = pre and q = post]) (simp_all add: e_def)
  have f0: "std_find (CHR '' '') (?m @ CHR '' '' # tgt @ '' '' @ ?r) = length ?m"
    by (rule std_find_append [OF method_name_plain])
  have d0: "rng b (int (length pre)) (int (length pre) + int (length ?m)) = ?m"
    using b by (intro rng_mid [where p = pre and q = "'' '' @ tgt @ '' '' @ ?r @ post"]) simp_all
  define s1 where "s1 = int (length (pre @ ?m @ '' ''))"
  have r1: "rng b s1 e = tgt @ CHR '' '' # ?r"
    using b by (intro rng_mid [where p = "pre @ ?m @ '' ''" and q = post]) (simp_all add: e_def s1_def)
  have f1: "std_find (CHR '' '') (tgt @ CHR '' '' # ?r) = length tgt" by (rule std_find_append [OF sp])
  have url: "set_url b s1 (s1 + int (length tgt)) e r = Some (req_target tgt r)" for r
    using b v q by (intro set_url_ok [where p = "pre @ ?m @ '' ''" and rest = "'' '' @ ?r" and q = post])
      (auto simp: s1_def e_def)
  define s2 where "s2 = s1 + int (length tgt) + 1"
  have r2: "rng b s2 e = v @ crlf @ rest"
    using b by (intro rng_mid [where p = "pre @ ?m @ '' '' @ tgt @ '' ''" and q = post])
      (simp_all add: e_def s1_def s2_def)
  have f2: "std_search crlf (v @ crlf @ rest) = length v"
    using std_search2_append [of "CHR 0x0D" v "CHR 0x0A" rest] v by auto
  have d2: "rng b s2 (s2 + int (length v)) = v"
    using b by (intro rng_mid [where p = "pre @ ?m @ '' '' @ tgt @ '' ''" and q = "crlf @ rest @ post"])
      (simp_all add: s1_def s2_def)
  have st1: "GetContentStart rb1 = Some s1" using window_start [OF rb1(2)] by (simp add: s1_def)
  have st2: "GetContentStart rb2 = Some s2" using window_start [OF rb2(2)] by (simp add: s1_def s2_def)
  have e1: "e = s1 + int (length tgt) + 1 + int (length ?r)" by (simp add: e_def s1_def)
  have e2: "e = s2 + int (length v) + 2 + int (length rest)" by (simp add: e1 s2_def)
  have lv: "length v = 8" using v by auto
  have c1: "ConsumeBuffer (int (length ?m) + 1) (hc_readBuffer c) = Some rb1" using rb1(1) by (simp add: add.commute)
  have c2: "ConsumeBuffer (int (length tgt) + 1) rb1 = Some rb2" using rb2(1) by (simp add: add.commute)
  have c3: "ConsumeBuffer 10 rb2 = Some rb3" using rb3(1) lv by simp
  have "ParseRequestLine c = Some (int (length (request_line m tgt v)),
       FinishParsingRequestLine (c\<lparr>hc_request := line_request m tgt v (hc_request c), hc_readBuffer := rb3\<rparr>))"
    unfolding ParseRequestLine_def
    using b(1) se r0 f0 d0 m c1 st1 r1 f1 url e1 c2 st2 s2_def r2 f2 e2 d2 v lv c3
    by (simp add: SetHttpMethod_of_name SetVersion_of_name HTTP_CTRL_def http_version_len_def HTTP_CTRL_LEN_def
        line_request_def request_line_def Let_def e_def)
  with rb3(2) show ?thesis by blast
qed

section \<open>The header block\<close>

text \<open>A header the parser can read back: no carriage return, and no colon in its name.\<close>

definition header_ok :: "string \<times> string \<Rightarrow> bool" where
  "header_ok h \<longleftrightarrow> (case h of (k, v) \<Rightarrow> CHR 0x0D \<notin> set k \<and> CHR 0x0D \<notin> set v \<and> CHR '':'' \<notin> set k)"

abbreviation add_headers :: "smap \<Rightarrow> HttpRequest \<Rightarrow> HttpRequest" where
  "add_headers hs r \<equiv> fold (\<lambda>(k, v). AddRequestHeader k v) hs r"

lemma std_search_crlf: "CHR 0x0D \<notin> set l \<Longrightarrow> std_search HTTP_CTRL (l @ crlf @ rest) = length l"
  using std_search2_append [of "CHR 0x0D" l "CHR 0x0A" rest] by (simp add: HTTP_CTRL_def)

lemma std_search_delim: "CHR '':'' \<notin> set k \<Longrightarrow> std_search HTTP_HEADER_DELIM (k @ '': '' @ v) = length k"
  using std_search2_append [of "CHR '':''" k "CHR '' ''" v] by (simp add: HTTP_HEADER_DELIM_def)

text \<open>One complete line: either it is a header, or it ends the headers.\<close>

lemma parse_headers_end:
  assumes w: "window rb pre (l @ crlf @ rest) post" and l: "CHR 0x0D \<notin> set l"
    and d: "std_search HTTP_HEADER_DELIM l = length l" and e: "e = int (length pre) + int (length (l @ crlf @ rest))"
  shows "\<exists>rb'. parse_headers (int (length pre)) e len rb req =
       Some (Val (Inr (len + int (length l) + 2, rb', req))) \<and> remains rb' (rb_size rb) rest"
proof -
  obtain b where b: "readBuff rb = Some b" "hb_memory b = pre @ (l @ crlf @ rest) @ post"
    using w by (auto simp: window_def)
  have line: "rng b (int (length pre)) e = l @ crlf @ rest"
    using b e by (intro rng_mid [where p = pre and q = post]) auto
  have ltext: "rng b (int (length pre)) (int (length pre) + int (length l)) = l"
    using b by (intro rng_mid [where p = pre and q = "crlf @ rest @ post"]) auto
  have "\<exists>rb'. ConsumeBuffer (int (length l) + 2) rb = Some rb' \<and> remains rb' (rb_size rb) rest"
  proof (cases "rest = []")
    case True
    then obtain rb' where c: "ConsumeBuffer (int (length l) + 2) rb = Some rb'"
      "window rb' [] [] (pre @ (l @ crlf @ rest) @ post)"
      using window_consume_all [OF w, of "int (length l) + 2"] by auto
    then have "rb_size rb' = rb_size rb" using window_size [OF c(2)] window_size [OF w] by simp
    with c True show ?thesis unfolding remains_def by blast
  next
    case False
    have w': "window rb pre ((l @ crlf) @ rest) post" using w by simp
    obtain rb' where c: "ConsumeBuffer (int (length l) + 2) rb = Some rb'" "window rb' (pre @ l @ crlf) rest post"
      using window_consume [OF w' False] by (auto simp: add.commute)
    then have "rb_size rb' = rb_size rb" using window_size [OF c(2)] window_size [OF w] by simp
    with c False show ?thesis unfolding remains_def by blast
  qed
  then show ?thesis
    using b(1) line ltext std_search_crlf [OF l, of rest] d e
    by (subst parse_headers.simps) (auto simp: HTTP_CTRL_LEN_def Let_def add.assoc)
qed

lemma parse_headers_line:
  assumes w: "window rb pre ((k @ '': '' @ v @ crlf) @ rest) post" and ok: "header_ok (k, v)" and rest: "rest \<noteq> []"
    and e: "e = int (length pre) + int (length ((k @ '': '' @ v @ crlf) @ rest))"
  shows "\<exists>rb'. parse_headers (int (length pre)) e len rb req =
       parse_headers (int (length (pre @ k @ '': '' @ v @ crlf))) e (len + int (length (k @ '': '' @ v @ crlf)))
         rb' (AddRequestHeader k v req) \<and> window rb' (pre @ k @ '': '' @ v @ crlf) rest post"
proof -
  let ?l = "k @ '': '' @ v"
  obtain b where b: "readBuff rb = Some b" "hb_memory b = pre @ ((?l @ crlf) @ rest) @ post"
    using w by (auto simp: window_def)
  have line: "rng b (int (length pre)) e = ?l @ crlf @ rest"
    using b e by (intro rng_mid [where p = pre and q = post]) auto
  have ltext: "rng b (int (length pre)) (int (length pre) + int (length ?l)) = ?l"
    using b by (intro rng_mid [where p = pre and q = "crlf @ rest @ post"]) auto
  have key: "rng b (int (length pre)) (int (length pre) + int (length k)) = k"
    using b by (intro rng_mid [where p = pre and q = "'': '' @ v @ crlf @ rest @ post"]) auto
  have val: "rng b (int (length pre) + int (length k) + 2) (int (length pre) + int (length ?l)) = v"
    using b by (intro rng_mid [where p = "pre @ k @ '': ''" and q = "crlf @ rest @ post"]) auto
  have cr: "CHR 0x0D \<notin> set ?l" and colon: "CHR '':'' \<notin> set k" using ok by (auto simp: header_ok_def)
  note find = std_search_crlf [OF cr, of rest] std_search_delim [OF colon, of v]
  obtain rb' where rb': "ConsumeBuffer (int (length (k @ '': '' @ v @ crlf))) rb = Some rb'"
    "window rb' (pre @ k @ '': '' @ v @ crlf) rest post" using window_consume [OF w rest] by auto
  have c: "ConsumeBuffer (int (length ?l) + 2) rb = Some rb'" using rb'(1) by (simp add: add.commute)
  have "parse_headers (int (length pre)) e len rb req =
       parse_headers (int (length (pre @ k @ '': '' @ v @ crlf))) e (len + int (length (k @ '': '' @ v @ crlf)))
         rb' (AddRequestHeader k v req)"
    using b(1) line ltext key val find c window_start [OF rb'(2)] e
    by (subst parse_headers.simps) (simp add: HTTP_CTRL_LEN_def Let_def algebra_simps)
  with rb'(2) show ?thesis by blast
qed

lemma parse_headers_ok:
  assumes "window rb pre (render_headers hs @ crlf @ rest) post" and "list_all header_ok hs"
    and "e = int (length pre) + int (length (render_headers hs @ crlf @ rest))"
  shows "\<exists>rb'. parse_headers (int (length pre)) e len rb req =
       Some (Val (Inr (len + int (length (render_headers hs)) + 2, rb', add_headers hs req))) \<and> remains rb' (rb_size rb) rest"
  using assms
proof (induction hs arbitrary: pre len rb req)
  case Nil
  then show ?case using parse_headers_end [of rb pre "[]" rest post e len req] by simp
next
  case (Cons h hs)
  obtain k v where h: "h = (k, v)" by (cases h)
  have w: "window rb pre ((k @ '': '' @ v @ crlf) @ (render_headers hs @ crlf @ rest)) post"
    using Cons.prems(1) h by simp
  have "e = int (length pre) + int (length ((k @ '': '' @ v @ crlf) @ (render_headers hs @ crlf @ rest)))"
    using Cons.prems(3) h by simp
  from parse_headers_line [OF w _ _ this, of len req] Cons.prems(2) h obtain rb1 where
    rb1: "parse_headers (int (length pre)) e len rb req =
       parse_headers (int (length (pre @ k @ '': '' @ v @ crlf))) e (len + int (length (k @ '': '' @ v @ crlf)))
         rb1 (AddRequestHeader k v req)"
    "window rb1 (pre @ k @ '': '' @ v @ crlf) (render_headers hs @ crlf @ rest) post" by auto
  have "e = int (length (pre @ k @ '': '' @ v @ crlf)) + int (length (render_headers hs @ crlf @ rest))"
    using Cons.prems(3) h by simp
  moreover have "rb_size rb1 = rb_size rb" using window_size [OF rb1(2)] window_size [OF w] by simp
  ultimately show ?case
    using Cons.IH [OF rb1(2), of "len + int (length (k @ '': '' @ v @ crlf))" "AddRequestHeader k v req"] Cons.prems(2) rb1(1)
    by (auto simp: h algebra_simps)
qed

lemma ParseHeader_ok:
  assumes "window (hc_readBuffer c) pre (render_headers hs @ crlf @ rest) post" and "list_all header_ok hs"
  shows "\<exists>rb'. ParseHeader c = Some (Val (int (length (render_headers hs)) + 2,
       FinishParsingHeader (c\<lparr>hc_readBuffer := rb', hc_request := add_headers hs (hc_request c),
         hc_keepalive := (GetHeaderValue ''Connection'' (add_headers hs (hc_request c)) = ''Keep-Alive'')\<rparr>))) \<and>
     remains rb' (rb_size (hc_readBuffer c)) rest"
  using parse_headers_ok [OF assms refl, of 0 "hc_request c"] window_start [OF assms(1)] window_end [OF assms(1)]
  by (auto simp: ParseHeader_def)

text \<open>A line without its CRLF: nothing happens.\<close>

lemma parse_headers_wait:
  assumes "window rb pre part post" and "std_search HTTP_CTRL part = length part"
    and "e = int (length pre) + int (length part)"
  shows "parse_headers (int (length pre)) e len rb req = Some (Val (Inl (rb, req)))"
proof -
  obtain b where b: "readBuff rb = Some b" "hb_memory b = pre @ part @ post"
    using assms(1) by (auto simp: window_def)
  have "rng b (int (length pre)) e = part"
    using b assms by (intro rng_mid [where p = pre and q = post]) auto
  then show ?thesis using b assms by (subst parse_headers.simps) (simp add: Let_def)
qed

lemma ParseHeader_wait:
  assumes "window (hc_readBuffer c) pre part post" and "std_search HTTP_CTRL part = length part"
  shows "ParseHeader c = Some (Val (1, c))"
  using parse_headers_wait [OF assms refl, of 0 "hc_request c"] window_start [OF assms(1)] window_end [OF assms(1)]
  by (simp add: ParseHeader_def)

text \<open>Complete header lines followed by an unfinished one: the parser keeps the unfinished part.\<close>

lemma parse_headers_partial:
  assumes "window rb pre (render_headers hs @ part) post" and "list_all header_ok hs"
    and "part \<noteq> []" and "std_search HTTP_CTRL part = length part"
    and "e = int (length pre) + int (length (render_headers hs @ part))"
  shows "\<exists>rb' pre'. parse_headers (int (length pre)) e len rb req = Some (Val (Inl (rb', add_headers hs req))) \<and>
     window rb' pre' part post"
  using assms
proof (induction hs arbitrary: pre len rb req)
  case Nil
  then show ?case using parse_headers_wait [of rb pre part post e len req] by auto
next
  case (Cons h hs)
  obtain k v where h: "h = (k, v)" by (cases h)
  have w: "window rb pre ((k @ '': '' @ v @ crlf) @ (render_headers hs @ part)) post"
    using Cons.prems(1) h by simp
  have "e = int (length pre) + int (length ((k @ '': '' @ v @ crlf) @ (render_headers hs @ part)))"
    using Cons.prems(5) h by simp
  from parse_headers_line [OF w _ _ this, of len req] Cons.prems(2,3) h obtain rb1 where
    rb1: "parse_headers (int (length pre)) e len rb req =
       parse_headers (int (length (pre @ k @ '': '' @ v @ crlf))) e (len + int (length (k @ '': '' @ v @ crlf)))
         rb1 (AddRequestHeader k v req)"
    "window rb1 (pre @ k @ '': '' @ v @ crlf) (render_headers hs @ part) post" by auto
  have "e = int (length (pre @ k @ '': '' @ v @ crlf)) + int (length (render_headers hs @ part))"
    using Cons.prems(5) h by simp
  from Cons.IH [OF rb1(2) _ Cons.prems(3,4) this, of "len + int (length (k @ '': '' @ v @ crlf))" "AddRequestHeader k v req"]
  show ?case using Cons.prems(2) rb1(1) by (auto simp: h)
qed

lemma ParseHeader_partial:
  assumes "window (hc_readBuffer c) pre (render_headers hs @ part) post" and "list_all header_ok hs"
    and "part \<noteq> []" and "std_search HTTP_CTRL part = length part"
  shows "\<exists>rb' pre'. ParseHeader c = Some (Val (1, c\<lparr>hc_readBuffer := rb', hc_request := add_headers hs (hc_request c)\<rparr>)) \<and>
     window rb' pre' part post"
  using parse_headers_partial [OF assms refl, of 0 "hc_request c"] window_start [OF assms(1)] window_end [OF assms(1)]
  by (fastforce simp: ParseHeader_def)

section \<open>Handlers with unread input\<close>

lemma ReadHttpData_skip:
  "window (hc_readBuffer c) pre xs post \<Longrightarrow> xs \<noteq> [] \<Longrightarrow> ReadHttpData E (c, h, w) = Some (0, (c, h, w))"
  by (auto simp: ReadHttpData_def GetContenLen_def window_def)

lemma read_then_skip:
  "window (hc_readBuffer c) pre xs post \<Longrightarrow> xs \<noteq> [] \<Longrightarrow> read_then E evt f (c, h, w) = f (c, h, w)"
  by (simp add: read_then_def ReadHttpData_skip)

lemma call_request_line:
  "hc_evtHandler c = ProcessRequestLine_h \<Longrightarrow> window (hc_readBuffer c) pre xs post \<Longrightarrow> xs \<noteq> [] \<Longrightarrow>
   call_handler E evt (c, h, w) =
     rbind (lift (ParseRequestLine c)) (\<lambda>(n, c'). Some (Val (n, (c', h, w))))"
  by (simp add: call_handler_def ProcessRequestLine_def read_then_skip)

lemma call_header:
  "hc_evtHandler c = ProcessHeader_h \<Longrightarrow> window (hc_readBuffer c) pre xs post \<Longrightarrow> xs \<noteq> [] \<Longrightarrow>
   call_handler E evt (c, h, w) = rbind (ParseHeader c) (\<lambda>(n, c'). Some (Val (n, (c', h, w))))"
  by (simp add: call_handler_def ProcessHeader_def read_then_skip)

text \<open>A handler that returns a positive value without changing the state is called forever.\<close>

lemma process_loop_stuck:
  assumes "call_handler E evt st = Some (Val (n, st))" and "0 < n"
  shows "process_loop E evt ret st = None"
proof (rule ccontr)
  assume "process_loop E evt ret st \<noteq> None"
  then obtain r where "process_loop E evt ret st = Some r" by auto
  then have "\<not> (\<exists>n. call_handler E evt st = Some (Val (n, st)) \<and> 0 < n)"
    by (rule process_loop.raw_induct [rotated]) auto
  with assms show False by blast
qed

lemma process_loop_step:
  "call_handler E evt st = Some (Val (n, st')) \<Longrightarrow> 0 < n \<Longrightarrow> process_loop E evt ret st = process_loop E evt (ret + n) st'"
  by (subst process_loop.simps) simp

section \<open>Properties\<close>

lemma line_request_fields:
  "rq_method (line_request m tgt v r) = m" "rq_version (line_request m tgt v r) = version_of v"
  "rq_reqUrl (line_request m tgt v r) = takeWhile (\<lambda>ch. ch \<noteq> CHR ''?'') tgt"
  "CHR ''?'' \<in> set tgt \<Longrightarrow> rq_urlData (line_request m tgt v r) = tl (dropWhile (\<lambda>ch. ch \<noteq> CHR ''?'') tgt)"
  "rq_httpHeader (line_request m tgt v r) = rq_httpHeader r"
  "rq_httpBody (line_request m tgt v r) = rq_httpBody r" "rq_bodyLen (line_request m tgt v r) = rq_bodyLen r"
proof -
  have find: "length (takeWhile (\<lambda>ch. ch \<noteq> CHR ''?'') tgt) = std_find (CHR ''?'') tgt" by (induction tgt) auto
  have take: "take (std_find (CHR ''?'') tgt) tgt = takeWhile (\<lambda>ch. ch \<noteq> CHR ''?'') tgt"
    by (induction tgt) auto
  have drop: "drop (Suc (std_find (CHR ''?'') tgt)) tgt = tl (dropWhile (\<lambda>ch. ch \<noteq> CHR ''?'') tgt)"
    by (induction tgt) auto
  have whole: "takeWhile (\<lambda>ch. ch \<noteq> CHR ''?'') tgt = tgt" if "\<not> std_find (CHR ''?'') tgt < length tgt"
    using that by (auto simp: takeWhile_eq_all_conv std_find_less)
  show "rq_reqUrl (line_request m tgt v r) = takeWhile (\<lambda>ch. ch \<noteq> CHR ''?'') tgt"
    using take whole by (cases "std_find (CHR ''?'') tgt < length tgt")
      (simp_all add: line_request_def req_target_def SetUrl_def SetUrlData_def Let_def del: takeWhile_eq_all_conv)
  show "CHR ''?'' \<in> set tgt \<Longrightarrow> rq_urlData (line_request m tgt v r) = tl (dropWhile (\<lambda>ch. ch \<noteq> CHR ''?'') tgt)"
    using drop by (simp add: line_request_def req_target_def SetUrl_def SetUrlData_def Let_def std_find_less)
qed (simp_all add: line_request_def req_target_def SetUrl_def SetUrlData_def Let_def)

lemma add_headers_fields [simp]:
  "rq_method (add_headers hs r) = rq_method r" "rq_version (add_headers hs r) = rq_version r"
  "rq_reqUrl (add_headers hs r) = rq_reqUrl r" "rq_urlData (add_headers hs r) = rq_urlData r"
  "rq_httpBody (add_headers hs r) = rq_httpBody r" "rq_bodyLen (add_headers hs r) = rq_bodyLen r"
  by (induction hs arbitrary: r) (auto simp: AddRequestHeader_def)

lemma GetHeaderValue_add_headers:
  "rq_ok r \<Longrightarrow> \<forall>(k, v) \<in> set hs. NUL \<notin> set k \<and> NUL \<notin> set v \<Longrightarrow>
   GetHeaderValue key (add_headers hs r) =
     (case map_of (rev hs) key of Some v \<Rightarrow> v | None \<Rightarrow> GetHeaderValue key r)"
proof (induction hs arbitrary: r)
  case (Cons h hs)
  obtain k v where h: "h = (k, v)" by (cases h)
  have "GetHeaderValue key (add_headers hs (AddRequestHeader k v r)) =
      (case map_of (rev hs) key of Some v \<Rightarrow> v | None \<Rightarrow> GetHeaderValue key (AddRequestHeader k v r))"
    using Cons by auto
  then show ?case
    using Cons.prems h by (auto simp: GetHeaderValue_AddRequestHeader c_str_id map_add_def split: option.splits)
qed simp

text \<open>
  C5. Parsing inverts printing. When the read buffer holds a request line, any number of headers
  and the empty line, the two parsers consume exactly that text, leave what follows in the buffer,
  and store the method, the version, the path, the query and, for every name, the value of its last
  header. (A question mark behind the target is excluded unless the target has one.)
\<close>

theorem request_parsed:
  assumes inv: "rb_inv (hc_readBuffer c)" and rq: "rq_ok (hc_request c)"
    and content: "rb_content (hc_readBuffer c) = request_line m tgt v @ render_headers hs @ crlf @ rest"
    and line: "m \<noteq> HM_INVALID" "v \<in> {''HTTP/1.0'', ''HTTP/1.1''}" "CHR '' '' \<notin> set tgt"
    and hs: "list_all header_ok hs" "\<forall>(k, v) \<in> set hs. NUL \<notin> set k \<and> NUL \<notin> set v"
    and q: "CHR ''?'' \<in> set (render_headers hs @ rest) \<Longrightarrow> CHR ''?'' \<in> set tgt"
  shows "\<exists>n1 c1 n2 c2. ParseRequestLine c = Some (n1, c1) \<and> ParseHeader c1 = Some (Val (n2, c2)) \<and>
     n1 + n2 = int (length (request_line m tgt v @ render_headers hs @ crlf)) \<and>
     hc_evtHandler c1 = ProcessHeader_h \<and> hc_evtHandler c2 = ProcessBody_h \<and>
     rb_content (hc_readBuffer c2) = rest \<and>
     GetHttpMethodName (hc_request c2) = method_name m \<and> GetVersionName (hc_request c2) = v \<and>
     rq_reqUrl (hc_request c2) = takeWhile (\<lambda>ch. ch \<noteq> CHR ''?'') tgt \<and>
     (CHR ''?'' \<in> set tgt \<longrightarrow> rq_urlData (hc_request c2) = tl (dropWhile (\<lambda>ch. ch \<noteq> CHR ''?'') tgt)) \<and>
     (\<forall>key. GetHeaderValue key (hc_request c2) =
        (case map_of (rev hs) key of Some v \<Rightarrow> v | None \<Rightarrow> GetHeaderValue key (hc_request c))) \<and>
     hc_keepalive c2 = (GetHeaderValue ''Connection'' (hc_request c2) = ''Keep-Alive'')"
proof -
  obtain pre post where w: "window (hc_readBuffer c) pre (request_line m tgt v @ render_headers hs @ crlf @ rest) post"
    using rb_inv_window [OF inv] content by metis
  have "CHR ''?'' \<in> set (render_headers hs @ crlf @ rest) \<Longrightarrow> CHR ''?'' \<in> set tgt" using q by auto
  from ParseRequestLine_ok [OF w line this] obtain rb where
    p1: "ParseRequestLine c = Some (int (length (request_line m tgt v)),
       FinishParsingRequestLine (c\<lparr>hc_request := line_request m tgt v (hc_request c), hc_readBuffer := rb\<rparr>))"
    and w1: "window rb (pre @ request_line m tgt v) (render_headers hs @ crlf @ rest) post" by auto
  let ?c1 = "FinishParsingRequestLine (c\<lparr>hc_request := line_request m tgt v (hc_request c), hc_readBuffer := rb\<rparr>)"
  have w1': "window (hc_readBuffer ?c1) (pre @ request_line m tgt v) (render_headers hs @ crlf @ rest) post"
    using w1 by (simp add: finish_defs)
  from ParseHeader_ok [OF w1' hs(1)] obtain rb2 where
    p2: "ParseHeader ?c1 = Some (Val (int (length (render_headers hs)) + 2,
       FinishParsingHeader (?c1\<lparr>hc_readBuffer := rb2, hc_request := add_headers hs (hc_request ?c1),
         hc_keepalive := (GetHeaderValue ''Connection'' (add_headers hs (hc_request ?c1)) = ''Keep-Alive'')\<rparr>)))"
    and rest2: "rb_content rb2 = rest" using remains_content by blast
  have ok: "rq_ok (line_request m tgt v (hc_request c))" using rq by (simp add: rq_ok_def line_request_fields)
  have old: "GetHeaderValue key (line_request m tgt v (hc_request c)) = GetHeaderValue key (hc_request c)" for key
    by (simp add: GetHeaderValue_def line_request_fields)
  note hv = GetHeaderValue_add_headers [OF ok hs(2)]
  have vn: "GetVersionName (add_headers hs (line_request m tgt v (hc_request c))) = v"
    using line(2) by (auto simp: GetVersionName_def line_request_fields version_of_def)
  show ?thesis
    using p1 p2 rest2 hv vn old
    by (simp add: finish_defs line_request_fields GetHttpMethodName_def cong: option.case_cong)
qed

text \<open>A client with the given unread input and nothing else, for concrete runs.\<close>

definition sample_client :: "handler \<Rightarrow> string \<Rightarrow> HttpClient" where
  "sample_client hk xs =
     \<lparr>hc_keepalive = False,
      hc_readBuffer = \<lparr>rb_size = 128, readBuff = Some \<lparr>hb_size = 128, hb_curSize = int (length xs), hb_curPtr = 0,
        hb_next = None, hb_memory = xs @ replicate (136 - length xs) NUL\<rparr>\<rparr>,
      hc_writeBuffer = \<lparr>wb_size = 1024, wb_num = 8, wb_num_slot = 8, freeBuffer = replicate 8 None\<rparr>,
      hc_pendingWrite = HttpBufferList_init, hc_request = HttpRequest_init 15,
      hc_response = HttpResponse_init False HSC_200, hc_evtHandler = hk, hc_cgi = None, hc_conn = Some 0\<rparr>"

lemma sample_client_ok:
  assumes "length xs \<le> 128"
  shows "rb_inv (hc_readBuffer (sample_client hk xs))" "rb_content (hc_readBuffer (sample_client hk xs)) = xs"
    "rq_ok (hc_request (sample_client hk xs))" "hc_evtHandler (sample_client hk xs) = hk"
    "GetHeaderValue k (hc_request (sample_client hk xs)) = []"
  using assms by (auto simp: sample_client_def rb_inv_def rb_content_def blk_ok_def sizeof_defs
      GetHeaderValue_def HttpRequest_init_def rq_ok_def smap_ok_def)

theorem request_parsed_witness:
  "\<exists>n1 c1 n2 c2. ParseRequestLine (sample_client ProcessRequestLine_h
        (''GET /a?b=1 HTTP/1.1'' @ crlf @ ''Connection: Keep-Alive'' @ crlf @ ''Host: h'' @ crlf @ crlf @ ''tl'')) = Some (n1, c1) \<and>
     ParseHeader c1 = Some (Val (n2, c2)) \<and> n1 + n2 = 56 \<and>
     rb_content (hc_readBuffer c2) = ''tl'' \<and> rq_reqUrl (hc_request c2) = ''/a'' \<and> rq_urlData (hc_request c2) = ''b=1'' \<and>
     GetHeaderValue ''Host'' (hc_request c2) = ''h'' \<and> hc_keepalive c2"
proof -
  let ?t = "''GET /a?b=1 HTTP/1.1'' @ crlf @ ''Connection: Keep-Alive'' @ crlf @ ''Host: h'' @ crlf @ crlf @ ''tl''"
  let ?c = "sample_client ProcessRequestLine_h ?t"
  have t: "rb_content (hc_readBuffer ?c) = request_line HM_GET ''/a?b=1'' ''HTTP/1.1'' @
      render_headers [(''Connection'', ''Keep-Alive''), (''Host'', ''h'')] @ crlf @ ''tl''"
    by (subst sample_client_ok) (simp_all add: request_line_def)
  have ok: "rb_inv (hc_readBuffer ?c)" "rq_ok (hc_request ?c)" by (simp_all add: sample_client_ok)
  from request_parsed [OF ok t] obtain n1 c1 n2 c2 where
    r: "ParseRequestLine ?c = Some (n1, c1)" "ParseHeader c1 = Some (Val (n2, c2))" "n1 + n2 = 56"
    "rb_content (hc_readBuffer c2) = ''tl''" "rq_reqUrl (hc_request c2) = ''/a''" "rq_urlData (hc_request c2) = ''b=1''"
    "\<And>k. GetHeaderValue k (hc_request c2) =
        (case map_of (rev [(''Connection'', ''Keep-Alive''), (''Host'', ''h'')]) k of Some v \<Rightarrow> v
         | None \<Rightarrow> GetHeaderValue k (hc_request ?c))"
    "hc_keepalive c2 = (GetHeaderValue ''Connection'' (hc_request c2) = ''Keep-Alive'')"
    by (auto simp: header_ok_def request_line_def)
  have "GetHeaderValue ''Host'' (hc_request c2) = ''h''" "hc_keepalive c2" unfolding r(7,8) by simp_all
  with r(1-6) show ?thesis by blast
qed

text \<open>
  C38. A header block that arrives in two pieces hangs the server: when the bytes read so far are a
  request line, complete headers and the start of a line without its CRLF, \<open>ParseHeader\<close> answers
  \<open>true\<close> for lack of data, \<open>ReadHttpData\<close> does not read while there is unread input, and the loop of
  \<open>ProcessEvent\<close> never returns.
\<close>

theorem split_header_livelock:
  assumes inv: "rb_inv (hc_readBuffer c)" and hdl: "hc_evtHandler c = ProcessRequestLine_h"
    and content: "rb_content (hc_readBuffer c) = request_line m tgt v @ render_headers hs @ part"
    and line: "m \<noteq> HM_INVALID" "v \<in> {''HTTP/1.0'', ''HTTP/1.1''}" "CHR '' '' \<notin> set tgt"
    and hs: "list_all header_ok hs"
    and q: "CHR ''?'' \<in> set (render_headers hs @ part) \<Longrightarrow> CHR ''?'' \<in> set tgt"
    and part: "part \<noteq> []" "std_search HTTP_CTRL part = length part"
  shows "ProcessEvent E evt (c, h, w) = None"
proof -
  obtain pre post where w0: "window (hc_readBuffer c) pre (request_line m tgt v @ render_headers hs @ part) post"
    using rb_inv_window [OF inv] content by metis
  have ne: "render_headers hs @ part \<noteq> []" "request_line m tgt v @ render_headers hs @ part \<noteq> []" using part(1) by auto
  from ParseRequestLine_ok [OF w0 line q ne(1)] obtain rb where
    p1: "ParseRequestLine c = Some (int (length (request_line m tgt v)),
       FinishParsingRequestLine (c\<lparr>hc_request := line_request m tgt v (hc_request c), hc_readBuffer := rb\<rparr>))"
    and w1: "window rb (pre @ request_line m tgt v) (render_headers hs @ part) post" by auto
  let ?c1 = "FinishParsingRequestLine (c\<lparr>hc_request := line_request m tgt v (hc_request c), hc_readBuffer := rb\<rparr>)"
  have w1': "window (hc_readBuffer ?c1) (pre @ request_line m tgt v) (render_headers hs @ part) post"
    using w1 by (simp add: finish_defs)
  from ParseHeader_partial [OF w1' hs part] obtain rb2 pre2 where
    p2: "ParseHeader ?c1 = Some (Val (1, ?c1\<lparr>hc_readBuffer := rb2, hc_request := add_headers hs (hc_request ?c1)\<rparr>))"
    and w2: "window rb2 pre2 part post" by auto
  let ?c2 = "?c1\<lparr>hc_readBuffer := rb2, hc_request := add_headers hs (hc_request ?c1)\<rparr>"
  have p3: "ParseHeader ?c2 = Some (Val (1, ?c2))" using w2 part(2) by (intro ParseHeader_wait) auto
  have w2': "window (hc_readBuffer ?c2) pre2 part post" using w2 by simp
  have hd1: "hc_evtHandler ?c1 = ProcessHeader_h" and hd2: "hc_evtHandler ?c2 = ProcessHeader_h"
    by (simp_all add: finish_defs)
  have h1: "call_handler E evt (c, h, w) = Some (Val (int (length (request_line m tgt v)), (?c1, h, w)))"
    by (simp only: call_request_line [OF hdl w0 ne(2)] p1 lift_simps rbind_simps prod.case)
  have h2: "call_handler E evt (?c1, h, w) = Some (Val (1, (?c2, h, w)))"
    by (simp only: call_header [OF hd1 w1' ne(1)] p2 rbind_simps prod.case)
  have h3: "call_handler E evt (?c2, h, w) = Some (Val (1, (?c2, h, w)))"
    by (simp only: call_header [OF hd2 w2' part(1)] p3 rbind_simps prod.case)
  have "0 < int (length (request_line m tgt v))" by (simp add: request_line_def)
  then show ?thesis
    using process_loop_step [OF h1] process_loop_step [OF h2] process_loop_stuck [OF h3] by (simp add: ProcessEvent_def)
qed

text \<open>Socket calls that never get anywhere, for concrete runs that do not reach the socket.\<close>

definition idle_env :: "unit http_env" where
  "idle_env = \<lparr>he_malloc = arena_malloc 16, he_grow = (\<lambda>_ n. n),
     he_conn = \<lparr>c_read = (\<lambda>w _ _. Some (0, [], w)), c_send = (\<lambda>w _ _. Some (0, w)), c_close = (\<lambda>w _. Some w)\<rparr>\<rparr>"

theorem split_header_livelock_witness:
  "ProcessEvent idle_env \<lparr>ev_code = SC_READ, ev_conn = Some 0\<rparr>
     (sample_client ProcessRequestLine_h (''GET /a HTTP/1.1'' @ crlf @ ''Host: h'' @ crlf @ ''Acc''), Map.empty, ()) = None"
proof -
  have t: "''GET /a HTTP/1.1'' @ crlf @ ''Host: h'' @ crlf @ ''Acc'' =
      request_line HM_GET ''/a'' ''HTTP/1.1'' @ render_headers [(''Host'', ''h'')] @ ''Acc''"
    by (simp add: request_line_def)
  show ?thesis
    by (rule split_header_livelock [where m = HM_GET and tgt = "''/a''" and v = "''HTTP/1.1''"
          and hs = "[(''Host'', ''h'')]" and part = "''Acc''"])
      (simp_all add: sample_client_ok t request_line_def header_ok_def HTTP_CTRL_def)
qed

text \<open>
  C39. A question mark anywhere behind the request target crashes the server: with a known method,
  a target without a question mark, and a question mark in the bytes read so far behind it (for
  instance in a \<open>Referer\<close> header), the construction of the query string gets an inverted range.
\<close>

theorem question_mark_crash:
  assumes inv: "rb_inv (hc_readBuffer c)" and hdl: "hc_evtHandler c = ProcessRequestLine_h"
    and content: "rb_content (hc_readBuffer c) = method_name m @ '' '' @ tgt @ '' '' @ rest"
    and line: "m \<noteq> HM_INVALID" "CHR '' '' \<notin> set tgt" "CHR ''?'' \<notin> set tgt" "CHR ''?'' \<in> set rest"
  shows "ProcessEvent E evt (c, h, w) = Some Crash"
proof -
  let ?m = "method_name m"
  obtain pre post where w0: "window (hc_readBuffer c) pre ((?m @ '' '') @ tgt @ '' '' @ rest) post"
    using rb_inv_window [OF inv] content by (metis append.assoc)
  obtain b where b: "readBuff (hc_readBuffer c) = Some b" "hb_memory b = pre @ ((?m @ '' '') @ tgt @ '' '' @ rest) @ post"
    using w0 by (auto simp: window_def)
  define e where "e = int (length pre) + int (length ((?m @ '' '') @ tgt @ '' '' @ rest))"
  have se: "GetContentStart (hc_readBuffer c) = Some (int (length pre))" "GetContentEnd (hc_readBuffer c) = Some e"
    using window_start [OF w0] window_end [OF w0] by (simp_all add: e_def)
  obtain rb1 where rb1: "ConsumeBuffer (int (length (?m @ '' ''))) (hc_readBuffer c) = Some rb1"
    "window rb1 (pre @ ?m @ '' '') (tgt @ '' '' @ rest) post" using window_consume [OF w0] by auto
  have c1: "ConsumeBuffer (int (length ?m) + 1) (hc_readBuffer c) = Some rb1" using rb1(1) by (simp add: add.commute)
  define s1 where "s1 = int (length (pre @ ?m @ '' ''))"
  have r0: "rng b (int (length pre)) e = ?m @ CHR '' '' # tgt @ '' '' @ rest"
    using b by (intro rng_mid [where p = pre and q = post]) (simp_all add: e_def)
  have f0: "std_find (CHR '' '') (?m @ CHR '' '' # tgt @ '' '' @ rest) = length ?m"
    by (rule std_find_append [OF method_name_plain])
  have d0: "rng b (int (length pre)) (int (length pre) + int (length ?m)) = ?m"
    using b by (intro rng_mid [where p = pre and q = "'' '' @ tgt @ '' '' @ rest @ post"]) simp_all
  have r1: "rng b s1 e = tgt @ CHR '' '' # rest"
    using b by (intro rng_mid [where p = "pre @ ?m @ '' ''" and q = post]) (simp_all add: e_def s1_def)
  have f1: "std_find (CHR '' '') (tgt @ CHR '' '' # rest) = length tgt" by (rule std_find_append [OF line(2)])
  have url: "set_url b s1 (s1 + int (length tgt)) e r = None" for r
    using b line by (intro set_url_bad [where p = "pre @ ?m @ '' ''" and rest = "'' '' @ rest" and q = post])
      (auto simp: s1_def e_def)
  have st1: "GetContentStart rb1 = Some s1" using window_start [OF rb1(2)] by (simp add: s1_def)
  have e1: "e = s1 + int (length tgt) + 1 + int (length rest)" by (simp add: e_def s1_def)
  have "ParseRequestLine c = None"
    unfolding ParseRequestLine_def using b(1) se r0 f0 d0 line(1) c1 st1 r1 f1 url e1
    by (simp add: SetHttpMethod_of_name Let_def e_def)
  then have "call_handler E evt (c, h, w) = Some Crash" using call_request_line [OF hdl w0] by simp
  then show ?thesis by (simp add: ProcessEvent_def process_loop.simps)
qed

theorem question_mark_crash_witness:
  "ProcessEvent idle_env \<lparr>ev_code = SC_READ, ev_conn = Some 0\<rparr>
     (sample_client ProcessRequestLine_h (''GET /a HTTP/1.1'' @ crlf @ ''Referer: http://x/?q'' @ crlf @ crlf), Map.empty, ()) =
   Some Crash"
  by (rule question_mark_crash [where m = HM_GET and tgt = "''/a''" and
        rest = "''HTTP/1.1'' @ crlf @ ''Referer: http://x/?q'' @ crlf @ crlf"])
    (simp_all add: sample_client_ok)

end
