(* ===== verification/HttpClientRun.thy ===== *)
theory HttpClientRun
  imports HttpClientParse
begin

text \<open>
  The body parser, the response path and whole events of \<open>http/HttpClient.cc\<close>. The response path
  is verified against the interface \<open>connection\<close>: what the kernel accepted so far followed by what is
  still pending never changes, whatever the socket does.
\<close>

section \<open>The request body\<close>

lemma ParseBody_other:
  assumes "window (hc_readBuffer c) pre xs post" and "GetHttpMethod (hc_request c) \<noteq> HM_POST"
  shows "\<exists>rb. ParseBody grow c = Some (1, FinishParsingBody (c\<lparr>hc_readBuffer := rb\<rparr>)) \<and>
     window rb [] [] (pre @ xs @ post)"
proof -
  obtain rb where "ConsumeBuffer (int (length xs)) (hc_readBuffer c) = Some rb" "window rb [] [] (pre @ xs @ post)"
    using window_consume_all [OF assms(1), of "int (length xs)"] by auto
  then show ?thesis
    using assms window_start [OF assms(1)] window_end [OF assms(1)] by (auto simp: ParseBody_def window_def)
qed

text \<open>
  C37. A POST body of a declared length: more bytes than declared are an error; otherwise the bytes
  read are all consumed, the body is complete exactly when the declared length is reached, and the
  bytes are stored if they are fewer than the capacity reserved for them. (\<open>AppendBody\<close> compares
  with \<open>>=\<close>: a body that arrives in one piece and exactly fills the reserved string is dropped.)
\<close>

theorem post_body_received:
  assumes inv: "rb_inv (hc_readBuffer c)" and content: "rb_content (hc_readBuffer c) = xs"
    and post: "GetHttpMethod (hc_request c) = HM_POST"
    and fresh: "rq_bodyLen (hc_request c) = 0" "rq_httpBody (hc_request c) = []"
    and clen: "GetHeaderValue ''Content-Length'' (hc_request c) = cl" "atoi (c_str cl) = int n" "0 < n" "n < 4096"
  shows "(n < length xs \<longrightarrow> (\<exists>c'. ParseBody grow c = Some (-1, c'))) \<and>
    (length xs \<le> n \<longrightarrow> (\<exists>c'. ParseBody grow c = Some (int (length xs), c') \<and>
       rb_content (hc_readBuffer c') = [] \<and> GetBodyLength (hc_request c') = n \<and>
       rq_httpBody (hc_request c') =
         (if length xs < rq_bodyCap (SetBodySize grow n (hc_request c)) then xs else []) \<and>
       hc_evtHandler c' = (if length xs = n then GenerateResponse_h else hc_evtHandler c)))"
proof -
  obtain pre post where w: "window (hc_readBuffer c) pre xs post" using rb_inv_window [OF inv] content by metis
  obtain b where b: "readBuff (hc_readBuffer c) = Some b" "hb_memory b = pre @ xs @ post" using w by (auto simp: window_def)
  have r: "rng b (int (length pre)) (int (length pre) + int (length xs)) = xs"
    using b by (intro rng_mid [where p = pre and q = post]) auto
  have ne: "cl \<noteq> []" using clen by (auto simp: c_str_def atoi_def c_int_def)
  have un: "nat (int n mod 2 ^ 64) = n" using clen by simp
  obtain rb where rb: "ConsumeBuffer (int (length xs)) (hc_readBuffer c) = Some rb" "rb_content rb = []"
    using window_consume_all [OF w, of "int (length xs)"] window_content by auto
  show ?thesis
    using post fresh clen ne un b(1) window_start [OF w] window_end [OF w] r rb
    by (auto simp: ParseBody_def Let_def GetBodyLength_def GetCurBodyLength_def SetBodySize_def AppendBody_def
        string_append_def finish_defs MaxBodyLength_def)
qed

theorem post_body_received_witness:
  "\<exists>c'. ParseBody (\<lambda>_ n. n) ((sample_client ProcessBody_h (replicate 40 CHR ''x''))
        \<lparr>hc_request := AddRequestHeader ''Content-Length'' ''40'' ((HttpRequest_init 15)\<lparr>rq_method := HM_POST\<rparr>)\<rparr>) =
       Some (40, c') \<and> rq_httpBody (hc_request c') = [] \<and> hc_evtHandler c' = GenerateResponse_h"
proof -
  let ?c = "(sample_client ProcessBody_h (replicate 40 CHR ''x''))
        \<lparr>hc_request := AddRequestHeader ''Content-Length'' ''40'' ((HttpRequest_init 15)\<lparr>rq_method := HM_POST\<rparr>)\<rparr>"
  have inv: "rb_inv (hc_readBuffer ?c)" "rb_content (hc_readBuffer ?c) = replicate 40 CHR ''x''"
    using sample_client_ok(1,2) [of "replicate 40 CHR ''x''" ProcessBody_h] by simp_all
  have rq: "GetHttpMethod (hc_request ?c) = HM_POST" "rq_bodyLen (hc_request ?c) = 0" "rq_httpBody (hc_request ?c) = []"
    "GetHeaderValue ''Content-Length'' (hc_request ?c) = ''40''" "rq_bodyCap (hc_request ?c) = 15"
    by (simp_all add: AddRequestHeader_def GetHttpMethod_def HttpRequest_init_def GetHeaderValue_def c_str_def)
  have "atoi (c_str ''40'') = int 40"
    by (simp add: atoi_def c_str_def c_isspace_def digit_val_def c_int_def)
  from post_body_received [OF inv rq(1-4) this, of "\<lambda>_ n. n"] rq(3,5) show ?thesis
    by (auto simp: SetBodySize_def)
qed

section \<open>Pending blocks\<close>

definition blk_text :: "HttpBuffer \<Rightarrow> bytes" where
  "blk_text b = rng b (hb_curPtr b) (hb_curPtr b + hb_curSize b)"

text \<open>The bytes still to be sent, in order.\<close>

definition pending :: "heap \<Rightarrow> nat list \<Rightarrow> bytes" where
  "pending h as = concat (map (\<lambda>a. case h a of None \<Rightarrow> [] | Some b \<Rightarrow> blk_text b) as)"

lemma pending_Nil [simp]: "pending h [] = []"
  by (simp add: pending_def)

lemma pending_Cons: "h a = Some b \<Longrightarrow> pending h (a # as) = blk_text b @ pending h as"
  by (simp add: pending_def)

lemma pending_append: "pending h (as @ bs) = pending h as @ pending h bs"
  by (simp add: pending_def)

lemma pending_cong: "(\<And>a. a \<in> set as \<Longrightarrow> h' a = h a) \<Longrightarrow> pending h' as = pending h as"
  unfolding pending_def by (intro arg_cong [of _ _ concat] map_cong) auto

lemma bl_repr_cong: "(\<And>a. a \<in> set as \<Longrightarrow> h' a = h a) \<Longrightarrow> bl_repr h' l as \<longleftrightarrow> bl_repr h l as"
  unfolding bl_repr_def by (intro conj_cong linked_cong) (auto simp: next_of_def)

lemma blk_text_length: "blk_ok b \<Longrightarrow> int (length (blk_text b)) = hb_curSize b"
  by (auto simp: blk_text_def rng_def blk_ok_def sizeof_defs min_def)

text \<open>Advancing a block past the bytes that were sent.\<close>

lemma blk_advance:
  assumes "blk_ok b" and "0 \<le> n" and "n \<le> hb_curSize b"
  shows "blk_ok (b\<lparr>hb_curPtr := hb_curPtr b + n, hb_curSize := hb_curSize b - n\<rparr>)"
    and "blk_text (b\<lparr>hb_curPtr := hb_curPtr b + n, hb_curSize := hb_curSize b - n\<rparr>) = drop (nat n) (blk_text b)"
  using assms by (auto simp: blk_ok_def blk_text_def rng_def drop_take nat_add_distrib nat_diff_distrib add.commute)

text \<open>The client's invariant: a good read buffer, and pending blocks that form its queue and are
  not in the allocator's free lists.\<close>

definition hc_inv :: "mallocator \<Rightarrow> HttpClient \<Rightarrow> heap \<Rightarrow> nat list \<Rightarrow> bool" where
  "hc_inv mal c h as \<longleftrightarrow> rb_inv (hc_readBuffer c) \<and> bl_repr h (hc_pendingWrite c) as \<and>
     client_ok (wb_pool mal 1024 8) (pool_block 1024 8) (h, hc_writeBuffer c, as)"

lemma hc_inv_blocks: "hc_inv mal c h as \<Longrightarrow> a \<in> set as \<Longrightarrow> \<exists>b. h a = Some b \<and> blk_ok b"
  by (auto simp: hc_inv_def client_ok_def pool_block_def)

lemma hc_inv_front: "hc_inv mal c h as \<Longrightarrow> GetFront (hc_pendingWrite c) = (if as = [] then None else Some (hd as))"
  by (auto simp: hc_inv_def GetFront_spec)

lemma hc_inv_request [simp]:
  "hc_inv mal (c\<lparr>hc_evtHandler := x\<rparr>) = hc_inv mal c" "hc_inv mal (c\<lparr>hc_request := r\<rparr>) = hc_inv mal c"
  "hc_inv mal (c\<lparr>hc_keepalive := k\<rparr>) = hc_inv mal c" "hc_inv mal (c\<lparr>hc_response := rs\<rparr>) = hc_inv mal c"
  "hc_inv mal (c\<lparr>hc_conn := cn\<rparr>) = hc_inv mal c"
  by (simp_all add: hc_inv_def fun_eq_iff)

lemma wb_pool_frame:
  assumes "wb_pool mal g n h wb F" and "\<And>x. x \<in> F \<Longrightarrow> h' x = h x"
  shows "wb_pool mal g n h' wb F"
proof -
  obtain xss where x: "malloc_ok mal" "wb_size wb = g" "wb_repr h wb xss" "length xss = n" "F = free_cells xss"
    using assms(1) by (auto simp: wb_pool_def)
  have "wb_repr h' wb xss" using x(3) by (rule wb_repr_frame) (use assms(2) x(5) in auto)
  with x show ?thesis by (auto simp: wb_pool_def)
qed

lemma client_ok_update:
  assumes "client_ok (wb_pool mal g n) good (h, wb, as)" and "a \<in> set as" and "good b"
  shows "client_ok (wb_pool mal g n) good (h(a \<mapsto> b), wb, as)"
proof -
  obtain F where F: "wb_pool mal g n h wb F" "distinct as" "set as \<inter> F = {}"
    "\<forall>a \<in> set as. \<exists>b. h a = Some b \<and> good b" using assms(1) by (auto simp: client_ok_def)
  have "wb_pool mal g n (h(a \<mapsto> b)) wb F"
    using F(1) by (rule wb_pool_frame) (use F(3) assms(2) in auto)
  then show ?thesis using F assms(3) unfolding client_ok_def by auto
qed

lemma hc_inv_advance:
  assumes inv: "hc_inv mal c h (a # as)" and b: "h a = Some b" and n: "0 \<le> n" "n \<le> hb_curSize b"
  shows "hc_inv mal c (h(a \<mapsto> b\<lparr>hb_curPtr := hb_curPtr b + n, hb_curSize := hb_curSize b - n\<rparr>)) (a # as)"
proof -
  let ?b = "b\<lparr>hb_curPtr := hb_curPtr b + n, hb_curSize := hb_curSize b - n\<rparr>"
  have good: "pool_block 1024 8 b" using inv b by (auto simp: hc_inv_def client_ok_def)
  have "blk_ok ?b" using good n by (intro blk_advance(1)) (auto simp: pool_block_def)
  then have "pool_block 1024 8 ?b" using good by (auto simp: pool_block_def pool_size_def)
  moreover have "next_of (h(a \<mapsto> ?b)) = next_of h" using b by (auto simp: next_of_def fun_eq_iff)
  ultimately show ?thesis using inv client_ok_update [of mal 1024 8 "pool_block 1024 8" h _ "a # as" a ?b]
    unfolding hc_inv_def bl_repr_def by simp
qed

text \<open>Taking a sent block off the queue and giving it back.\<close>

lemma hc_inv_pop:
  assumes inv: "hc_inv mal c h (a # as)"
  shows "\<exists>pw h' wb. PopFront h (hc_pendingWrite c) = Some (Some a, pw) \<and>
     ReleaseWriteBuffer (Some a) h (hc_writeBuffer c) = Some (h', wb) \<and>
     hc_inv mal (c\<lparr>hc_pendingWrite := pw, hc_writeBuffer := wb\<rparr>) h' as \<and> (\<forall>x. x \<noteq> a \<longrightarrow> h' x = h x)"
proof -
  obtain pw where pw: "PopFront h (hc_pendingWrite c) = Some (Some a, pw)" "bl_repr h pw as"
    using PopFront_Cons [of h "hc_pendingWrite c" a as] inv by (auto simp: hc_inv_def)
  obtain F b where F: "wb_pool mal 1024 8 h (hc_writeBuffer c) F" "distinct (a # as)" "set (a # as) \<inter> F = {}"
    "\<forall>a \<in> set as. \<exists>b. h a = Some b \<and> pool_block 1024 8 b" "h a = Some b" "pool_block 1024 8 b"
    using inv by (auto simp: hc_inv_def client_ok_def)
  then obtain h' wb where r: "ReleaseWriteBuffer (Some a) h (hc_writeBuffer c) = Some (h', wb)"
    "wb_pool mal 1024 8 h' wb (insert a F)" "\<forall>x. x \<noteq> a \<longrightarrow> h' x = h x"
    using wbp.release_ok [of mal 1024 8 h "hc_writeBuffer c" F a b] by auto
  have same: "h' x = h x" if "x \<in> set as" for x using r(3) F(2) that by auto
  have "bl_repr h' pw as" using pw(2) same by (subst bl_repr_cong) auto
  moreover have "client_ok (wb_pool mal 1024 8) (pool_block 1024 8) (h', wb, as)"
    unfolding client_ok_def using F r(2) same by (auto intro!: exI [of _ "insert a F"])
  ultimately show ?thesis using pw(1) r inv by (auto simp: hc_inv_def)
qed

section \<open>Generating the response\<close>

lemma c_int_small: "0 \<le> n \<Longrightarrow> n < 2 ^ 31 \<Longrightarrow> c_int n = n"
  unfolding c_int_def by (rule signed_take_bit_int_eq_self) auto

text \<open>The size of the block that \<open>AllocWriteBuffer\<close> hands out for a response.\<close>

definition response_block :: "HttpResponse \<Rightarrow> int" where
  "response_block r = 1024 * ((int (GetResponseSize r) + 1023) div 1024)"

lemma handed_out_size:
  assumes "handed_out 1024 n (int (GetResponseSize r)) b"
  shows "hb_size b = response_block r"
proof -
  obtain i where "hb_size b = (int i + 1) * 1024" "int (GetResponseSize r) \<le> hb_size b" "hb_size b < int (GetResponseSize r) + 1024"
    using assms by (auto simp: handed_out_def pool_size_def)
  then have "(int (GetResponseSize r) + 1023) div 1024 = int i + 1"
    by (intro quotient_eqI [where r = "int (GetResponseSize r) + 1023 - (int i + 1) * 1024"]) auto
  then show ?thesis using \<open>hb_size b = (int i + 1) * 1024\<close> by (simp add: response_block_def)
qed

lemma msgLen_ok_block:
  assumes "msgLen_ok r"
  shows "int (length (render r)) + 1 < response_block r"
proof -
  have "length (render r) + 1 < GetResponseSize r"
    using assms length_status_line [of r] by (auto simp: msgLen_ok_def GetResponseSize_def render_def)
  moreover have "int (GetResponseSize r) \<le> response_block r" unfolding response_block_def by linarith
  ultimately show ?thesis by linarith
qed

lemma fill_block_ok:
  assumes "rs_ok r" and fit: "int (length (render r)) + 1 < response_block r"
    and b: "handed_out 1024 8 (int (GetResponseSize r)) b"
  shows "\<exists>b'. fill_block r b = Some b' \<and> blk_ok b' \<and> blk_text b' = render r \<and> hb_size b' = hb_size b \<and> hb_next b' = None"
proof -
  have bk: "blk_ok b" "hb_curPtr b = 0" "hb_size b = response_block r" "hb_next b = None" "1024 \<le> hb_size b" "hb_size b \<le> 8192"
    using b handed_out_size [OF b] by (auto simp: handed_out_def pool_size_def)
  have len: "nat (hb_size b) + 8 = length (hb_memory b)" using bk by (auto simp: blk_ok_def sizeof_defs)
  moreover have lt: "length (render r) + 1 < nat (hb_size b)" using fit bk(3) by linarith
  moreover have "14 \<le> length (hb_memory b)" using len bk(5) by linarith
  ultimately obtain m where m: "GenerateResponse r (hb_memory b) (nat (hb_size b)) = Some (length (render r), m)"
    "holds m (render r)" "length m = length (hb_memory b)"
    using GenerateResponse_spec [OF assms(1), of "nat (hb_size b)" "hb_memory b"] by auto
  obtain t where t: "m = render r @ t" using m(2) by (auto simp: holds_iff)
  have "c_int (int (length (render r))) = int (length (render r))"
    using lt bk(6) by (intro c_int_small) auto
  then show ?thesis using m bk t lt
    by (auto simp: fill_block_def blk_ok_def blk_text_def rng_def sizeof_defs)
qed

lemma pending_next:
  assumes "\<And>a. a \<in> set as \<Longrightarrow> \<exists>d r. h a = Some d \<and> h' a = Some (d\<lparr>hb_next := r\<rparr>)"
  shows "pending h' as = pending h as"
  unfolding pending_def
proof (intro arg_cong [of _ _ concat] map_cong refl)
  fix a assume "a \<in> set as"
  then obtain d r where "h a = Some d" "h' a = Some (d\<lparr>hb_next := r\<rparr>)" using assms by blast
  then show "(case h' a of None \<Rightarrow> [] | Some b \<Rightarrow> blk_text b) = (case h a of None \<Rightarrow> [] | Some b \<Rightarrow> blk_text b)"
    by (simp add: blk_text_def rng_def)
qed

lemma pool_block_next [simp]: "pool_block g n (d\<lparr>hb_next := r\<rparr>) = pool_block g n d"
  by (simp add: pool_block_def pool_size_def blk_ok_def)

text \<open>Queueing a block that the client holds and that is filled and unlinked.\<close>

lemma hc_inv_push:
  assumes rb: "rb_inv (hc_readBuffer c)" and bl: "bl_repr h (hc_pendingWrite c) as"
    and ok: "client_ok (wb_pool mal 1024 8) (pool_block 1024 8) (h, wb, a # as)"
    and b: "h a = Some b" "hb_next b = None"
  shows "\<exists>h' pw. PushBack h (hc_pendingWrite c) (Some a) = Some (h', pw) \<and>
     hc_inv mal (c\<lparr>hc_writeBuffer := wb, hc_pendingWrite := pw\<rparr>) h' (as @ [a]) \<and>
     pending h' (as @ [a]) = pending h as @ blk_text b"
proof -
  obtain F where F: "wb_pool mal 1024 8 h wb F" "distinct (a # as)" "set (a # as) \<inter> F = {}"
    "\<And>x. x \<in> set (a # as) \<Longrightarrow> \<exists>d. h x = Some d \<and> pool_block 1024 8 d" using ok by (auto simp: client_ok_def)
  obtain h' pw where p: "PushBack h (hc_pendingWrite c) (Some a) = Some (h', pw)" "bl_repr h' pw (as @ [a])"
    "\<And>x. as = [] \<or> x \<noteq> last as \<Longrightarrow> h' x = h x" "\<And>x d. h x = Some d \<Longrightarrow> \<exists>r. h' x = Some (d\<lparr>hb_next := r\<rparr>)"
    using PushBack_spec [OF bl b] F(2) by auto
  have "wb_pool mal 1024 8 h' wb F"
    using F(1)
  proof (rule wb_pool_frame)
    fix x assume "x \<in> F"
    then have "as = [] \<or> x \<noteq> last as" using F(3) last_in_set [of as] by (metis disjoint_iff list.set_intros(2))
    then show "h' x = h x" by (rule p(3))
  qed
  moreover have "\<exists>d. h' x = Some d \<and> pool_block 1024 8 d" if "x \<in> set (as @ [a])" for x
    using F(4) [of x] p(4) [of x] that by fastforce
  ultimately have "client_ok (wb_pool mal 1024 8) (pool_block 1024 8) (h', wb, as @ [a])"
    using F(2,3) unfolding client_ok_def by (auto intro!: exI [of _ F])
  moreover have "pending h' (as @ [a]) = pending h (as @ [a])"
    using F(4) p(4) by (intro pending_next) fastforce
  moreover have "pending h (as @ [a]) = pending h as @ blk_text b" using b by (simp add: pending_append pending_def)
  ultimately show ?thesis using p(1,2) rb by (auto simp: hc_inv_def)
qed

lemma wb_pool_alloc_some:
  assumes "wb_pool mal g n h wb F" and "0 < sz" and "sz \<le> int n * g" and "\<And>k. sizeof_HttpBuffer \<le> k \<Longrightarrow> mal h k \<noteq> None"
  shows "\<exists>a b wb'. AllocWriteBuffer mal sz h wb = Some (Some a, h(a \<mapsto> b), wb') \<and>
     wb_pool mal g n (h(a \<mapsto> b)) wb' (F - {a}) \<and> handed_out g n sz b \<and> (h a = None \<or> a \<in> F)"
proof -
  obtain xss where x: "malloc_ok mal" "wb_size wb = g" "wb_repr h wb xss" "length xss = n" "F = free_cells xss"
    using assms(1) by (auto simp: wb_pool_def)
  have "sz \<le> wb_num_slot wb * wb_size wb" using assms wb_pool_limit by auto
  with x(3,1) assms(2) show ?thesis
  proof (cases rule: AllocWriteBuffer_cases)
    case 1
    then show ?thesis using assms(4) by blast
  qed (use x in \<open>auto simp: wb_pool_def\<close>)
qed

lemma GenerateResponse_handler_ok:
  assumes inv: "hc_inv (he_malloc E) c h as" and cgi: "hc_cgi c = Some f" and r: "r = f (hc_request c) (hc_response c)"
    and ok: "rs_ok r" "int (length (render r)) + 1 < response_block r" and small: "GetResponseSize r \<le> 8192" and mem: "\<And>n. sizeof_HttpBuffer \<le> n \<Longrightarrow> he_malloc E h n \<noteq> None"
  shows "\<exists>c' h' a pw wb. GenerateResponse_handler E (c, h, w) = Some (1, (c', h', w)) \<and>
     c' = FinishGenerateResponse (c\<lparr>hc_writeBuffer := wb, hc_pendingWrite := pw, hc_response := CleanUpResponse r\<rparr>) \<and>
     hc_inv (he_malloc E) c' h' (as @ [a]) \<and> pending h' (as @ [a]) = pending h as @ render r"
proof -
  let ?sz = "int (GetResponseSize r)"
  have sz: "0 < ?sz" "?sz \<le> 8192" "c_int ?sz = ?sz" using small by (auto simp: GetResponseSize_def intro!: c_int_small)
  obtain F where F: "wb_pool (he_malloc E) 1024 8 h (hc_writeBuffer c) F" "distinct as" "set as \<inter> F = {}"
    "\<forall>x \<in> set as. \<exists>d. h x = Some d \<and> pool_block 1024 8 d"
    using inv by (auto simp: hc_inv_def client_ok_def)
  obtain a b wb where al: "AllocWriteBuffer (he_malloc E) ?sz h (hc_writeBuffer c) = Some (Some a, h(a \<mapsto> b), wb)"
    "wb_pool (he_malloc E) 1024 8 (h(a \<mapsto> b)) wb (F - {a})" "handed_out 1024 8 ?sz b" "h a = None \<or> a \<in> F"
    using wb_pool_alloc_some [OF F(1) sz(1) _ mem] sz(2) by auto
  have fresh: "a \<notin> set as" using al(4) F(3,4) by force
  obtain b' where b': "fill_block r b = Some b'" "blk_ok b'" "blk_text b' = render r" "hb_size b' = hb_size b"
    "hb_next b' = None" using fill_block_ok [OF ok al(3)] by blast
  have pb: "pool_block 1024 8 b'" using al(3) b' by (auto simp: handed_out_def pool_block_def pool_size_def)
  have "wb_pool (he_malloc E) 1024 8 (h(a \<mapsto> b')) wb (F - {a})" using al(2) by (rule wb_pool_frame) auto
  then have cl: "client_ok (wb_pool (he_malloc E) 1024 8) (pool_block 1024 8) (h(a \<mapsto> b'), wb, a # as)"
    using F fresh pb unfolding client_ok_def by (auto intro!: exI [of _ "F - {a}"])
  have bl: "bl_repr (h(a \<mapsto> b')) (hc_pendingWrite c) as"
    using inv fresh by (subst bl_repr_cong [of as _ h]) (auto simp: hc_inv_def)
  obtain h' pw where p: "PushBack (h(a \<mapsto> b')) (hc_pendingWrite c) (Some a) = Some (h', pw)"
    "hc_inv (he_malloc E) (c\<lparr>hc_writeBuffer := wb, hc_pendingWrite := pw\<rparr>) h' (as @ [a])"
    "pending h' (as @ [a]) = pending (h(a \<mapsto> b')) as @ blk_text b'"
    using hc_inv_push [OF _ bl cl] inv b'(5) by (auto simp: hc_inv_def)
  have "pending (h(a \<mapsto> b')) as = pending h as" using fresh by (intro pending_cong) auto
  then have ptext: "pending h' (as @ [a]) = pending h as @ render r" using p(3) b'(3) by simp
  have "GenerateResponse_handler E (c, h, w) = Some (1, (FinishGenerateResponse
      (c\<lparr>hc_writeBuffer := wb, hc_pendingWrite := pw, hc_response := CleanUpResponse r\<rparr>), h', w))"
    using cgi r sz(3) al(1) b'(1) p(1) by (simp add: GenerateResponse_handler_def Let_def)
  moreover have "hc_inv (he_malloc E) (FinishGenerateResponse
      (c\<lparr>hc_writeBuffer := wb, hc_pendingWrite := pw, hc_response := CleanUpResponse r\<rparr>)) h' (as @ [a])"
    using p(2) by (simp add: finish_defs)
  ultimately show ?thesis using ptext by blast
qed

section \<open>Handlers at the socket\<close>

text \<open>A read buffer with nothing in it and its pointer at the front, as after \<open>ResetBuffer\<close>.\<close>

definition rb_empty :: "HttpReadBuffer \<Rightarrow> bool" where
  "rb_empty rb \<longleftrightarrow> rb_inv rb \<and> rb_content rb = [] \<and> GetContentStart rb = Some 0"

lemma rb_emptyE:
  assumes "rb_empty rb"
  obtains b where "readBuff rb = Some b" "blk_ok b" "hb_size b = rb_size rb" "hb_curPtr b = 0" "hb_curSize b = 0"
proof -
  obtain b where b: "readBuff rb = Some b" "blk_ok b" "hb_size b = rb_size rb"
    using assms by (auto simp: rb_empty_def elim: rb_invE)
  then have "hb_curPtr b = 0" using assms by (simp add: rb_empty_def GetContentStart_def)
  moreover have "hb_curSize b = 0"
    using rb_content_length [of rb] assms b by (simp add: rb_empty_def GetContenLen_def)
  ultimately show thesis using b by (intro that) auto
qed

lemma window_empty: "window rb [] [] post \<Longrightarrow> rb_empty rb"
  using window_start [of rb "[]" "[]" post] window_content [of rb "[]" "[]" post] by (simp add: rb_empty_def window_def)

lemma remains_empty: "remains rb n [] \<Longrightarrow> rb_empty rb"
  by (auto simp: remains_def intro: window_empty)

lemma GetFreeBuffer_empty:
  assumes "rb_empty rb"
  shows "GetFreeBuffer rb = Some (0, rb_size rb, rb)"
proof -
  obtain b where b: "readBuff rb = Some b" "blk_ok b" "hb_size b = rb_size rb" "hb_curPtr b = 0" "hb_curSize b = 0"
    using assms by (rule rb_emptyE)
  then have "MoveDataToFront b = Some (0, b)" by (auto simp: MoveDataToFront_def memcpy_to_def blk_ok_def)
  then show ?thesis using b by (auto simp: GetFreeBuffer_def)
qed

lemma ReadHttpData_empty:
  assumes e: "rb_empty (hc_readBuffer c)" and sz: "0 < rb_size (hc_readBuffer c)" and fd: "hc_conn c = Some fd"
    and rd: "c_read (he_conn E) w fd (rb_size (hc_readBuffer c)) = Some (int (length d), d, w')"
    and len: "int (length d) \<le> rb_size (hc_readBuffer c)"
  shows "\<exists>rb. ReadHttpData E (c, h, w) = Some (int (length d), (c\<lparr>hc_readBuffer := rb\<rparr>, h, w')) \<and> rb_inv rb \<and>
     rb_content rb = d \<and> rb_size rb = rb_size (hc_readBuffer c) \<and> (d = [] \<longrightarrow> rb_empty rb)"
proof -
  obtain b where b: "readBuff (hc_readBuffer c) = Some b" "blk_ok b" "hb_size b = rb_size (hc_readBuffer c)"
    "hb_curPtr b = 0" "hb_curSize b = 0" using e by (rule rb_emptyE)
  have inv: "rb_inv (hc_readBuffer c)" "rb_content (hc_readBuffer c) = []" using e by (simp_all add: rb_empty_def)
  have off: "GetContentEnd (hc_readBuffer c) = Some 0" using b by (simp add: GetContentEnd_def)
  from receive_spec [OF inv(1) off, of d] len obtain rb1 rb2 where
    r: "store_bytes 0 d (hc_readBuffer c) = Some rb1" "IncreaseContentRange (int (length d)) rb1 = Some rb2"
    "rb_inv rb2" "rb_content rb2 = d" "rb_size rb2 = rb_size (hc_readBuffer c)" using inv(2) by auto
  show ?thesis
  proof (cases "d = []")
    case True
    then have "rb1 = hc_readBuffer c" using r(1) b by (auto simp: store_bytes_def memcpy_to_def)
    then show ?thesis using True e sz fd rd r b GetFreeBuffer_empty [OF e] inv
      by (intro exI [of _ "hc_readBuffer c"]) (auto simp: ReadHttpData_def GetContenLen_def)
  next
    case False
    then show ?thesis using e sz fd rd r b GetFreeBuffer_empty [OF e]
      by (auto simp: ReadHttpData_def GetContenLen_def)
  qed
qed

lemma read_then_read:
  assumes "ev_code evt = SC_READ" and "ReadHttpData E st = Some (r, st')" and "0 \<le> r"
  shows "read_then E evt f st = f st'"
  using assms by (simp add: read_then_def)

lemma ParseRequestLine_empty: "rb_empty (hc_readBuffer c) \<Longrightarrow> ParseRequestLine c = Some (0, c)"
  by (erule rb_emptyE) (auto simp: ParseRequestLine_def GetContentStart_def GetContentEnd_def rng_def Let_def)

lemma SendResponse_one:
  assumes inv: "hc_inv mal c h [a]" and fd: "hc_conn c = Some fd"
    and snd: "c_send (he_conn E) w fd (pending h [a]) = Some (int (length (pending h [a])), w')"
  shows "\<exists>pw wb h'. SendResponse E (c, h, w) = Some (Val (int (length (pending h [a])),
       (FinishSendResponse (c\<lparr>hc_pendingWrite := pw, hc_writeBuffer := wb\<rparr>), h', w'))) \<and>
     hc_inv mal (FinishSendResponse (c\<lparr>hc_pendingWrite := pw, hc_writeBuffer := wb\<rparr>)) h' []"
proof -
  obtain b where b: "h a = Some b" "blk_ok b" using hc_inv_blocks [OF inv] by auto
  have p: "pending h [a] = blk_text b" using b by (simp add: pending_def)
  have len: "int (length (blk_text b)) = hb_curSize b" using b(2) by (rule blk_text_length)
  have call: "c_send (he_conn E) w fd (rng b (hb_curPtr b) (hb_curPtr b + hb_curSize b)) = Some (hb_curSize b, w')"
    using snd p len by (simp add: blk_text_def)
  obtain pw h' wb where q: "PopFront h (hc_pendingWrite c) = Some (Some a, pw)"
    "ReleaseWriteBuffer (Some a) h (hc_writeBuffer c) = Some (h', wb)"
    "hc_inv mal (c\<lparr>hc_pendingWrite := pw, hc_writeBuffer := wb\<rparr>) h' []" using hc_inv_pop [OF inv] by blast
  have front: "GetFront pw = None" "GetFront (hc_pendingWrite c) = Some a"
    using hc_inv_front [OF q(3)] hc_inv_front [OF inv] by simp_all
  have nn: "0 \<le> hb_curSize b" using b(2) by (simp add: blk_ok_def)
  have "send_loop E 0 (Some a) (c, h, w) =
      Some (Val (hb_curSize b, None, (c\<lparr>hc_pendingWrite := pw, hc_writeBuffer := wb\<rparr>, h', w')))"
    using b fd call q front nn by (simp add: send_loop.simps)
  then show ?thesis using front nn p len q(3) by (auto simp: SendResponse_def finish_defs)
qed

section \<open>Sending\<close>

text \<open>What one call of the send loop keeps: \<open>fd\<close> stays open, and the bytes already accepted by the
  kernel followed by the pending ones are the same as before.\<close>

definition stream_kept :: "mallocator \<Rightarrow> ('w \<Rightarrow> int \<Rightarrow> bool) \<Rightarrow> ('w \<Rightarrow> int \<Rightarrow> bytes) \<Rightarrow> int \<Rightarrow>
    'w hstate \<Rightarrow> nat list \<Rightarrow> 'w hstate \<Rightarrow> nat list \<Rightarrow> bool" where
  "stream_kept mal live sent fd st as st' as' \<longleftrightarrow> (case (st, st') of ((c, h, w), (c', h', w')) \<Rightarrow>
     hc_inv mal c' h' as' \<and> live w' fd \<and> hc_conn c' = hc_conn c \<and> hc_evtHandler c' = hc_evtHandler c \<and>
     hc_request c' = hc_request c \<and> hc_response c' = hc_response c \<and> hc_readBuffer c' = hc_readBuffer c \<and>
     hc_cgi c' = hc_cgi c \<and> sent w' fd @ pending h' as' = sent w fd @ pending h as)"

context connection
begin

lemma send_loop_spec:
  assumes "he_conn E = K" and "hc_conn c = Some fd" and "live w fd" and "hc_inv mal c h as"
  shows "\<exists>n st' as'. send_loop E len (if as = [] then None else Some (hd as)) (c, h, w) =
       Some (Val (n, (if as' = [] then None else Some (hd as')), st')) \<and>
     stream_kept mal live sent fd (c, h, w) as st' as' \<and>
     (0 \<le> n \<longrightarrow> n = len + int (length (sent (snd (snd st')) fd)) - int (length (sent w fd)))"
  using assms
proof (induction as arbitrary: c h w len)
  case Nil
  then show ?case
    by (intro exI [of _ len] exI [of _ "(c, h, w)"] exI [of _ "[]"])
      (simp add: send_loop.simps stream_kept_def)
next
  case (Cons a as)
  obtain b where b: "h a = Some b" "blk_ok b" using hc_inv_blocks [OF Cons.prems(4)] by auto
  obtain r w' where s: "c_send K w fd (blk_text b) = Some (r, w')" "live w' fd" "r \<le> int (length (blk_text b))"
    "sent w' fd = sent w fd @ take (nat r) (blk_text b)" using send_ok [OF Cons.prems(3)] by blast
  have len_b: "int (length (blk_text b)) = hb_curSize b" using b(2) by (rule blk_text_length)
  have call: "c_send (he_conn E) w fd (rng b (hb_curPtr b) (hb_curPtr b + hb_curSize b)) = Some (r, w')"
    using s(1) Cons.prems(1) by (simp add: blk_text_def)
  consider (fail) "r < 0" | (part) "0 \<le> r" "r < hb_curSize b" | (full) "0 \<le> r" "r = hb_curSize b"
    using s(3) len_b by linarith
  then show ?case
  proof cases
    case fail
    then show ?thesis using Cons.prems b call s
      by (intro exI [of _ "-1"] exI [of _ "(c, h, w')"] exI [of _ "a # as"])
        (simp add: send_loop.simps stream_kept_def)
  next
    case part
    let ?b = "b\<lparr>hb_curPtr := hb_curPtr b + r, hb_curSize := hb_curSize b - r\<rparr>"
    have inv: "hc_inv mal c (h(a \<mapsto> ?b)) (a # as)"
      using hc_inv_advance [OF Cons.prems(4) b(1)] part by simp
    have dist: "a \<notin> set as" using Cons.prems(4) by (auto simp: hc_inv_def client_ok_def)
    have "pending (h(a \<mapsto> ?b)) as = pending h as" using dist by (intro pending_cong) auto
    moreover have "blk_text ?b = drop (nat r) (blk_text b)" using blk_advance(2) [OF b(2)] part by simp
    ultimately have "sent w' fd @ pending (h(a \<mapsto> ?b)) (a # as) = sent w fd @ pending h (a # as)"
      using s(4) b(1) by (simp add: pending_Cons)
    then show ?thesis using Cons.prems b call s part inv len_b
      by (intro exI [of _ "len + r"] exI [of _ "(c, h(a \<mapsto> ?b), w')"] exI [of _ "a # as"])
        (simp add: send_loop.simps stream_kept_def)
  next
    case full
    obtain pw h' wb where p: "PopFront h (hc_pendingWrite c) = Some (Some a, pw)"
      "ReleaseWriteBuffer (Some a) h (hc_writeBuffer c) = Some (h', wb)"
      "hc_inv mal (c\<lparr>hc_pendingWrite := pw, hc_writeBuffer := wb\<rparr>) h' as" "\<forall>x. x \<noteq> a \<longrightarrow> h' x = h x"
      using hc_inv_pop [OF Cons.prems(4)] by blast
    let ?c = "c\<lparr>hc_pendingWrite := pw, hc_writeBuffer := wb\<rparr>"
    have dist: "a \<notin> set as" using Cons.prems(4) by (auto simp: hc_inv_def client_ok_def)
    have same: "pending h' as = pending h as" using dist p(4) by (intro pending_cong) auto
    have front: "GetFront pw = (if as = [] then None else Some (hd as))" using hc_inv_front [OF p(3)] by simp
    have step: "send_loop E len (Some a) (c, h, w) =
        send_loop E (len + r) (if as = [] then None else Some (hd as)) (?c, h', w')"
      using Cons.prems b call full p front by (subst send_loop.simps) simp
    have conn: "hc_conn ?c = Some fd" using Cons.prems(2) by simp
    have all: "sent w' fd = sent w fd @ blk_text b" using s(4) full len_b by simp
    from Cons.IH [OF Cons.prems(1) conn s(2) p(3), of "len + r"] obtain n st' as' where
      ih: "send_loop E (len + r) (if as = [] then None else Some (hd as)) (?c, h', w') =
         Some (Val (n, (if as' = [] then None else Some (hd as')), st'))"
      "stream_kept mal live sent fd (?c, h', w') as st' as'"
      "0 \<le> n \<longrightarrow> n = len + r + int (length (sent (snd (snd st')) fd)) - int (length (sent w' fd))" by blast
    have "stream_kept mal live sent fd (c, h, w) (a # as) st' as'"
      using ih(2) all same b(1) by (auto simp: stream_kept_def pending_Cons)
    moreover have "0 \<le> n \<longrightarrow> n = len + int (length (sent (snd (snd st')) fd)) - int (length (sent w fd))"
      using ih(3) all full len_b by auto
    ultimately show ?thesis using step ih(1)
      by (intro exI [of _ n] exI [of _ st'] exI [of _ as']) simp
  qed
qed

lemma SendResponse_spec:
  assumes "he_conn E = K" and "hc_conn c = Some fd" and "live w fd" and "hc_inv mal c h as"
  shows "\<exists>n c' h' w' as'. SendResponse E (c, h, w) = Some (Val (n, (c', h', w'))) \<and>
     hc_inv mal c' h' as' \<and> live w' fd \<and>
     sent w' fd @ pending h' as' = sent w fd @ pending h as \<and>
     (0 \<le> n \<longrightarrow> n = int (length (sent w' fd)) - int (length (sent w fd))) \<and>
     hc_evtHandler c' = (if 0 \<le> n \<and> as' = [] then ProcessRequestLine_h else hc_evtHandler c)"
proof -
  have f: "GetFront (hc_pendingWrite c) = (if as = [] then None else Some (hd as))"
    using assms(4) by (rule hc_inv_front)
  from send_loop_spec [OF assms, of 0] obtain n st' as' where
    r: "send_loop E 0 (if as = [] then None else Some (hd as)) (c, h, w) =
       Some (Val (n, (if as' = [] then None else Some (hd as')), st'))"
    "stream_kept mal live sent fd (c, h, w) as st' as'"
    "0 \<le> n \<longrightarrow> n = 0 + int (length (sent (snd (snd st')) fd)) - int (length (sent w fd))" by blast
  obtain c' h' w' where st': "st' = (c', h', w')" by (cases st')
  show ?thesis
  proof (cases "n < 0")
    case True
    then show ?thesis using r st' f
      by (intro exI [of _ "-1"] exI [of _ c'] exI [of _ h'] exI [of _ w'] exI [of _ as'])
        (simp add: SendResponse_def stream_kept_def)
  next
    case False
    let ?c = "if as' = [] then FinishSendResponse c' else c'"
    show ?thesis using r st' f False
      by (intro exI [of _ n] exI [of _ ?c] exI [of _ h'] exI [of _ w'] exI [of _ as'])
        (auto simp: SendResponse_def stream_kept_def finish_defs)
  qed
qed

end

section \<open>Resetting a client\<close>

lemma release_pending_spec:
  assumes "hc_inv mal c h as"
  shows "\<exists>h' pw wb. release_pending h (hc_pendingWrite c) (hc_writeBuffer c) = Some (Val (h', pw, wb)) \<and>
     hc_inv mal (c\<lparr>hc_pendingWrite := pw, hc_writeBuffer := wb\<rparr>) h' []"
  using assms
proof (induction as arbitrary: c h)
  case Nil
  then have "PopFront h (hc_pendingWrite c) = Some (None, hc_pendingWrite c)" by (simp add: hc_inv_def PopFront_Nil)
  then show ?case using Nil by (subst release_pending.simps) simp
next
  case (Cons a as)
  obtain pw h1 wb where p: "PopFront h (hc_pendingWrite c) = Some (Some a, pw)"
    "ReleaseWriteBuffer (Some a) h (hc_writeBuffer c) = Some (h1, wb)"
    "hc_inv mal (c\<lparr>hc_pendingWrite := pw, hc_writeBuffer := wb\<rparr>) h1 as" using hc_inv_pop [OF Cons.prems] by blast
  from Cons.IH [OF p(3)] p(1,2) show ?case by (subst release_pending.simps) auto
qed

lemma ResetClient_spec:
  assumes inv: "hc_inv mal c h as"
  shows "\<exists>c' h'. ResetClient conn (c, h) = Some (Val (c', h')) \<and> hc_inv mal c' h' [] \<and>
     rb_empty (hc_readBuffer c') \<and> rb_size (hc_readBuffer c') = rb_size (hc_readBuffer c) \<and>
     hc_evtHandler c' = ProcessRequestLine_h \<and> hc_conn c' = conn \<and> hc_cgi c' = hc_cgi c \<and>
     hc_request c' = CleanUpRequest (hc_request c) \<and> hc_response c' = CleanUpResponse (hc_response c) \<and>
     hc_keepalive c' = False"
proof -
  obtain h' pw wb where p: "release_pending h (hc_pendingWrite c) (hc_writeBuffer c) = Some (Val (h', pw, wb))"
    "hc_inv mal (c\<lparr>hc_pendingWrite := pw, hc_writeBuffer := wb\<rparr>) h' []" using release_pending_spec [OF inv] by blast
  obtain rb where rb: "ResetBuffer (hc_readBuffer c) = Some rb" "rb_inv rb" "rb_content rb = []" "rb_size rb = rb_size (hc_readBuffer c)"
    using ResetBuffer_spec inv by (auto simp: hc_inv_def)
  have "GetContentStart rb = Some 0" using rb(1) by (auto simp: ResetBuffer_def GetContentStart_def bind_eq_Some_conv)
  then have "rb_empty rb" using rb by (simp add: rb_empty_def)
  then show ?thesis using p rb by (auto simp: ResetClient_def hc_inv_def)
qed

text \<open>
  Resetting a client always returns: it hands every pending block back to the allocator, empties the
  read buffer, clears the request and the response, and the client then waits for a request line on the
  new connection.
\<close>

theorem ResetClient_releases:
  assumes "hc_inv mal c h as"
  shows "\<exists>c' h' F. ResetClient conn (c, h) = Some (Val (c', h')) \<and> wb_pool mal 1024 8 h' (hc_writeBuffer c') F \<and>
     GetFront (hc_pendingWrite c') = None \<and> rb_content (hc_readBuffer c') = [] \<and>
     hc_evtHandler c' = ProcessRequestLine_h \<and> hc_conn c' = conn \<and> rq_httpHeader (hc_request c') = [] \<and>
     rq_reqUrl (hc_request c') = [] \<and> rq_httpBody (hc_request c') = []"
proof -
  obtain c' h' where r: "ResetClient conn (c, h) = Some (Val (c', h'))" "hc_inv mal c' h' []"
     "rb_empty (hc_readBuffer c')" "hc_evtHandler c' = ProcessRequestLine_h" "hc_conn c' = conn"
     "hc_request c' = CleanUpRequest (hc_request c)" using ResetClient_spec [OF assms] by blast
  obtain F where "wb_pool mal 1024 8 h' (hc_writeBuffer c') F" using r(2) by (auto simp: hc_inv_def client_ok_def)
  then show ?thesis using r hc_inv_front [OF r(2)] by (auto simp: rb_empty_def CleanUpRequest_def)
qed

section \<open>One request, from the socket and back\<close>

lemma hc_inv_rb: "hc_inv mal c h as \<Longrightarrow> rb_inv rb \<Longrightarrow> hc_inv mal (c\<lparr>hc_readBuffer := rb\<rparr>) h as"
  by (simp add: hc_inv_def)

text \<open>The three parsing steps of a request that has no body and comes in one read.\<close>

lemma process_request_read:
  assumes evt: "ev_code evt = SC_READ" and hdl: "hc_evtHandler c = ProcessRequestLine_h"
    and e: "rb_empty (hc_readBuffer c)" and fd: "hc_conn c = Some fd"
    and rtext: "req = request_line m tgt v @ render_headers hs @ crlf"
    and line: "m \<noteq> HM_INVALID" "v \<in> {''HTTP/1.0'', ''HTTP/1.1''}" "CHR '' '' \<notin> set tgt"
    and hs: "list_all header_ok hs" and q: "CHR ''?'' \<in> set (render_headers hs) \<Longrightarrow> CHR ''?'' \<in> set tgt"
    and fit: "int (length req) \<le> rb_size (hc_readBuffer c)" and post: "m \<noteq> HM_POST"
    and rd1: "c_read (he_conn E) w fd (rb_size (hc_readBuffer c)) = Some (int (length req), req, w1)"
    and rd2: "c_read (he_conn E) w1 fd (rb_size (hc_readBuffer c)) = Some (0, [], w2)"
  shows "\<exists>rb ka. rb_empty rb \<and> rb_size rb = rb_size (hc_readBuffer c) \<and>
     process_loop E evt ret (c, h, w) = process_loop E evt (ret + int (length req) + 1)
       (FinishParsingBody (c\<lparr>hc_readBuffer := rb, hc_keepalive := ka,
          hc_request := add_headers hs (line_request m tgt v (hc_request c))\<rparr>), h, w2)"
proof -
  let ?n = "rb_size (hc_readBuffer c)"
  have req: "req \<noteq> []" "0 < ?n" using rtext fit by (auto simp: request_line_def)
  obtain rb0 where r0: "ReadHttpData E (c, h, w) = Some (int (length req), (c\<lparr>hc_readBuffer := rb0\<rparr>, h, w1))"
    "rb_inv rb0" "rb_content rb0 = req" "rb_size rb0 = ?n"
    using ReadHttpData_empty [OF e req(2) fd rd1 fit] by blast
  obtain pre post where w0: "window (hc_readBuffer (c\<lparr>hc_readBuffer := rb0\<rparr>)) pre
      (request_line m tgt v @ render_headers hs @ crlf) post"
    using rb_inv_window [OF r0(2)] r0(3) rtext by auto
  have "CHR ''?'' \<in> set (render_headers hs @ crlf) \<Longrightarrow> CHR ''?'' \<in> set tgt" using q by auto
  from ParseRequestLine_ok [OF w0 line this] obtain rb1 where
    p1: "ParseRequestLine (c\<lparr>hc_readBuffer := rb0\<rparr>) = Some (int (length (request_line m tgt v)),
       FinishParsingRequestLine (c\<lparr>hc_request := line_request m tgt v (hc_request c), hc_readBuffer := rb1\<rparr>))"
    and w1': "window rb1 (pre @ request_line m tgt v) (render_headers hs @ crlf) post" by auto
  let ?c1 = "FinishParsingRequestLine (c\<lparr>hc_request := line_request m tgt v (hc_request c), hc_readBuffer := rb1\<rparr>)"
  have h1: "call_handler E evt (c, h, w) = Some (Val (int (length (request_line m tgt v)), (?c1, h, w1)))"
    using hdl p1 read_then_read [OF evt r0(1)] by (simp add: call_handler_def ProcessRequestLine_def)
  have wc1: "window (hc_readBuffer ?c1) (pre @ request_line m tgt v) (render_headers hs @ crlf @ []) post"
    using w1' by (simp add: finish_defs)
  have sz1: "rb_size rb1 = ?n" using window_size [OF w1'] window_size [OF w0] r0(4) by simp
  define ka where "ka = (GetHeaderValue ''Connection'' (add_headers hs (line_request m tgt v (hc_request c))) = ''Keep-Alive'')"
  from ParseHeader_ok [OF wc1 hs] obtain rb2 where
    p2: "ParseHeader ?c1 = Some (Val (int (length (render_headers hs)) + 2, FinishParsingHeader
       (?c1\<lparr>hc_readBuffer := rb2, hc_request := add_headers hs (line_request m tgt v (hc_request c)), hc_keepalive := ka\<rparr>)))"
    and rem: "remains rb2 ?n []" using sz1 by (auto simp: finish_defs ka_def)
  let ?c2 = "FinishParsingHeader
       (?c1\<lparr>hc_readBuffer := rb2, hc_request := add_headers hs (line_request m tgt v (hc_request c)), hc_keepalive := ka\<rparr>)"
  have hd1: "hc_evtHandler ?c1 = ProcessHeader_h" and hd2: "hc_evtHandler ?c2 = ProcessBody_h"
    by (simp_all add: finish_defs)
  have h2: "call_handler E evt (?c1, h, w1) = Some (Val (int (length (render_headers hs)) + 2, (?c2, h, w1)))"
    using call_header [OF hd1 wc1, of E evt h w1] p2 by simp
  have e2: "rb_empty (hc_readBuffer ?c2)" and s2: "rb_size (hc_readBuffer ?c2) = ?n" and f2: "hc_conn ?c2 = Some fd"
    using remains_empty [OF rem] rem fd by (simp_all add: finish_defs remains_def)
  have rd2': "c_read (he_conn E) w1 fd (rb_size (hc_readBuffer ?c2)) = Some (int (length []), [], w2)"
    using rd2 s2 by simp
  obtain rb3 where r3: "ReadHttpData E (?c2, h, w1) = Some (0, (?c2\<lparr>hc_readBuffer := rb3\<rparr>, h, w2))"
    "rb_empty rb3" "rb_size rb3 = ?n"
    using ReadHttpData_empty [OF e2 _ f2 rd2'] req(2) s2 by auto
  obtain b3 where "readBuff rb3 = Some b3" "hb_curPtr b3 = 0" "hb_curSize b3 = 0" using r3(2) by (rule rb_emptyE)
  moreover have "rb_inv rb3" using r3(2) by (simp add: rb_empty_def)
  ultimately have w3: "window (hc_readBuffer (?c2\<lparr>hc_readBuffer := rb3\<rparr>)) [] [] (hb_memory b3)" by (auto simp: window_def)
  have "GetHttpMethod (hc_request (?c2\<lparr>hc_readBuffer := rb3\<rparr>)) \<noteq> HM_POST"
    using post by (simp add: finish_defs GetHttpMethod_def line_request_fields)
  from ParseBody_other [OF w3 this, of "he_grow E"] obtain rb4 where
    p4: "ParseBody (he_grow E) (?c2\<lparr>hc_readBuffer := rb3\<rparr>) = Some (1, FinishParsingBody (?c2\<lparr>hc_readBuffer := rb4\<rparr>))"
    and w4: "window rb4 [] [] (hb_memory b3)" by auto
  have s4: "rb_size rb4 = ?n" using window_size [OF w4] window_size [OF w3] r3(3) by simp
  let ?c4 = "FinishParsingBody (?c2\<lparr>hc_readBuffer := rb4\<rparr>)"
  have h3: "call_handler E evt (?c2, h, w1) = Some (Val (1, (?c4, h, w2)))"
    using p4 hd2 read_then_read [OF evt r3(1)] by (simp add: call_handler_def ProcessBody_def)
  have "0 < int (length (request_line m tgt v))" by (simp add: request_line_def)
  then have "process_loop E evt ret (c, h, w) = process_loop E evt
      (ret + int (length (request_line m tgt v)) + (int (length (render_headers hs)) + 2) + 1) (?c4, h, w2)"
    using process_loop_step [OF h1] process_loop_step [OF h2] process_loop_step [OF h3] by simp
  moreover have "?c4 = FinishParsingBody (c\<lparr>hc_readBuffer := rb4, hc_keepalive := ka,
          hc_request := add_headers hs (line_request m tgt v (hc_request c))\<rparr>)"
    by (simp add: finish_defs)
  ultimately show ?thesis
    using window_empty [OF w4] s4 rtext by (intro exI [of _ rb4] exI [of _ ka]) (simp add: algebra_simps)
qed

lemma get_request_run:
  assumes evt: "ev_code evt = SC_READ" and hdl: "hc_evtHandler c = ProcessRequestLine_h"
    and inv: "hc_inv (he_malloc E) c h []" and e: "rb_empty (hc_readBuffer c)" and fd: "hc_conn c = Some fd"
    and rtext: "req = request_line m tgt v @ render_headers hs @ crlf"
    and line: "m \<noteq> HM_INVALID" "v \<in> {''HTTP/1.0'', ''HTTP/1.1''}" "CHR '' '' \<notin> set tgt"
    and hs: "list_all header_ok hs" and q: "CHR ''?'' \<in> set (render_headers hs) \<Longrightarrow> CHR ''?'' \<in> set tgt"
    and fit: "int (length req) \<le> rb_size (hc_readBuffer c)" and post: "m \<noteq> HM_POST"
    and cgi: "hc_cgi c = Some f"
    and r: "r = f (add_headers hs (line_request m tgt v (hc_request c))) (hc_response c)"
    and ok: "rs_ok r" "int (length (render r)) + 1 < response_block r" "GetResponseSize r \<le> 8192" and mem: "\<And>n. sizeof_HttpBuffer \<le> n \<Longrightarrow> he_malloc E h n \<noteq> None"
    and rd1: "c_read (he_conn E) w fd (rb_size (hc_readBuffer c)) = Some (int (length req), req, w1)"
    and rd2: "c_read (he_conn E) w1 fd (rb_size (hc_readBuffer c)) = Some (0, [], w2)"
    and snd: "c_send (he_conn E) w2 fd (render r) = Some (int (length (render r)), w3)"
    and rd3: "c_read (he_conn E) w3 fd (rb_size (hc_readBuffer c)) = Some (0, [], w4)"
  shows "\<exists>c' h'. ProcessEvent E evt (c, h, w) = Some (Val (int (length req) + 2 + int (length (render r)), (c', h', w4))) \<and>
     hc_evtHandler c' = ProcessRequestLine_h \<and> hc_inv (he_malloc E) c' h' [] \<and> rb_empty (hc_readBuffer c') \<and>
     hc_conn c' = Some fd \<and> hc_cgi c' = Some f \<and> hc_request c' = add_headers hs (line_request m tgt v (hc_request c))"
proof -
  let ?n = "rb_size (hc_readBuffer c)" and ?rq = "add_headers hs (line_request m tgt v (hc_request c))"
  obtain rb ka where p: "rb_empty rb" "rb_size rb = ?n" "process_loop E evt 0 (c, h, w) =
      process_loop E evt (0 + int (length req) + 1)
        (FinishParsingBody (c\<lparr>hc_readBuffer := rb, hc_keepalive := ka, hc_request := ?rq\<rparr>), h, w2)"
    using process_request_read [OF evt hdl e fd rtext line hs q fit post rd1 rd2] by blast
  let ?c1 = "FinishParsingBody (c\<lparr>hc_readBuffer := rb, hc_keepalive := ka, hc_request := ?rq\<rparr>)"
  have inv1: "hc_inv (he_malloc E) ?c1 h []" using inv p(1) by (simp add: finish_defs hc_inv_def rb_empty_def)
  have f1: "hc_cgi ?c1 = Some f" "r = f (hc_request ?c1) (hc_response ?c1)" "hc_evtHandler ?c1 = GenerateResponse_h"
    using cgi r by (simp_all add: finish_defs)
  from GenerateResponse_handler_ok [OF inv1 f1(1,2) ok mem, unfolded append_Nil pending_Nil] obtain c2 h2 a pw wb where
    g: "GenerateResponse_handler E (?c1, h, w2) = Some (1, (c2, h2, w2))"
    "c2 = FinishGenerateResponse (?c1\<lparr>hc_writeBuffer := wb, hc_pendingWrite := pw, hc_response := CleanUpResponse r\<rparr>)"
    "hc_inv (he_malloc E) c2 h2 [a]" "pending h2 [a] = render r" by blast
  have h2: "call_handler E evt (?c1, h, w2) = Some (Val (1, (c2, h2, w2)))" using f1(3) g(1) by (simp add: call_handler_def)
  have d2: "hc_evtHandler c2 = SendResponse_h" "hc_conn c2 = Some fd" "hc_readBuffer c2 = rb" "hc_request c2 = ?rq"
    "hc_cgi c2 = Some f" using g(2) fd cgi by (simp_all add: finish_defs)
  from SendResponse_one [OF g(3) d2(2), of E w2 w3] g(4) snd obtain pw' wb' h3 where
    s: "SendResponse E (c2, h2, w2) = Some (Val (int (length (render r)),
       (FinishSendResponse (c2\<lparr>hc_pendingWrite := pw', hc_writeBuffer := wb'\<rparr>), h3, w3)))"
    "hc_inv (he_malloc E) (FinishSendResponse (c2\<lparr>hc_pendingWrite := pw', hc_writeBuffer := wb'\<rparr>)) h3 []" by auto
  let ?c3 = "FinishSendResponse (c2\<lparr>hc_pendingWrite := pw', hc_writeBuffer := wb'\<rparr>)"
  have h3: "call_handler E evt (c2, h2, w2) = Some (Val (int (length (render r)), (?c3, h3, w3)))"
    using d2(1) s(1) by (simp add: call_handler_def)
  have d3: "hc_evtHandler ?c3 = ProcessRequestLine_h" "hc_conn ?c3 = Some fd" "hc_readBuffer ?c3 = rb" "hc_request ?c3 = ?rq"
    "hc_cgi ?c3 = Some f" using d2 by (simp_all add: finish_defs)
  have rd: "c_read (he_conn E) w3 fd (rb_size (hc_readBuffer ?c3)) = Some (int (length []), [], w4)"
    using rd3 p(2) d3(3) by simp
  have "0 < ?n" using fit rtext by (auto simp: request_line_def)
  then obtain rb4 where r4: "ReadHttpData E (?c3, h3, w3) = Some (0, (?c3\<lparr>hc_readBuffer := rb4\<rparr>, h3, w4))"
    "rb_empty rb4" using ReadHttpData_empty [OF _ _ d3(2) rd] p(1,2) d3(3) by auto
  let ?c4 = "?c3\<lparr>hc_readBuffer := rb4\<rparr>"
  have "ParseRequestLine ?c4 = Some (0, ?c4)" using r4(2) by (intro ParseRequestLine_empty) simp
  then have h4: "call_handler E evt (?c3, h3, w3) = Some (Val (0, (?c4, h3, w4)))"
    using d3(1) read_then_read [OF evt r4(1)] by (simp add: call_handler_def ProcessRequestLine_def)
  have "process_loop E evt ret (?c3, h3, w3) = Some (Val (ret, (?c4, h3, w4)))" for ret
    using h4 by (subst process_loop.simps) simp
  moreover have "0 < int (length (render r))" by (simp add: render_def)
  ultimately have "ProcessEvent E evt (c, h, w) =
      Some (Val (int (length req) + 2 + int (length (render r)), (?c4, h3, w4)))"
    using p(3) process_loop_step [OF h2] process_loop_step [OF h3] by (simp add: ProcessEvent_def)
  moreover have "hc_inv (he_malloc E) ?c4 h3 []" using s(2) r4(2) by (intro hc_inv_rb) (auto simp: rb_empty_def)
  ultimately show ?thesis using d3 r4(2) by auto
qed


text \<open>A socket that plays a list of inputs and records its output, for concrete runs.\<close>

definition script_ops :: "(bytes list \<times> bytes) conn_ops" where
  "script_ops = \<lparr>c_read = (\<lambda>(ins, out) fd n. case ins of
        [] \<Rightarrow> Some (0, [], (ins, out))
      | d # ins' \<Rightarrow> Some (int (length d), d, (ins', out))),
     c_send = (\<lambda>(ins, out) fd d. Some (int (length d), (ins, out @ d))),
     c_close = (\<lambda>w fd. Some w)\<rparr>"

definition script_env :: "(bytes list \<times> bytes) http_env" where
  "script_env = \<lparr>he_malloc = arena_malloc 16, he_grow = (\<lambda>_ n. n), he_conn = script_ops\<rparr>"

lemma sample_client_idle:
  "hc_inv (arena_malloc 16) ((sample_client hk [])\<lparr>hc_cgi := cg\<rparr>) Map.empty []"
  "rb_empty (hc_readBuffer ((sample_client hk [])\<lparr>hc_cgi := cg\<rparr>))"
proof -
  have "wb_repr Map.empty \<lparr>wb_size = 1024, wb_num = 8, wb_num_slot = int 8, freeBuffer = replicate 8 None\<rparr> (replicate 8 [])"
    by (rule wb_repr_empty) simp
  then have "wb_pool (arena_malloc 16) 1024 8 Map.empty (hc_writeBuffer (sample_client hk [])) {}"
    unfolding wb_pool_def sample_client_def using arena_malloc_ok
    by (auto intro!: exI [of _ "replicate 8 []"] simp: free_cells_def)
  moreover have "bl_repr Map.empty (hc_pendingWrite (sample_client hk [])) []"
    by (simp add: sample_client_def bl_repr_def HttpBufferList_init_def)
  ultimately show "hc_inv (arena_malloc 16) ((sample_client hk [])\<lparr>hc_cgi := cg\<rparr>) Map.empty []"
    using sample_client_ok(1) [of "[]" hk] by (auto simp: hc_inv_def client_ok_def)
  show "rb_empty (hc_readBuffer ((sample_client hk [])\<lparr>hc_cgi := cg\<rparr>))"
    using sample_client_ok(1,2) [of "[]" hk] by (simp add: rb_empty_def sample_client_def GetContentStart_def)
qed


theorem ResetClient_releases_witness:
  "\<exists>c' h'. ResetClient (Some 5) ((sample_client ProcessBody_h [])\<lparr>hc_cgi := None\<rparr>, Map.empty) = Some (Val (c', h')) \<and>
     hc_evtHandler c' = ProcessRequestLine_h \<and> hc_conn c' = Some 5"
  using ResetClient_releases [OF sample_client_idle(1) [where hk = ProcessBody_h and cg = None], of "Some 5"] by blast

end
