(* ===== verification/ClientMemory.thy ===== *)
theory ClientMemory
  imports HttpClientRun
begin

text \<open>
  What a client of \<open>http/HttpClient.cc\<close> does to the heap it shares with the other clients. Whatever arrives, whatever the kernel answers and whatever the registered handler
  makes, each operation that returns leaves the client with a pool and a queue of its own, touches no block that
  it does not own, and takes on only blocks that were not allocated. Nothing is asked of the request or of the response.
\<close>

section \<open>The memory of a client\<close>

text \<open>\<open>as\<close> are the pending blocks and \<open>F\<close> those in the free lists.\<close>

definition mem_inv :: "mallocator \<Rightarrow> HttpClient \<Rightarrow> heap \<Rightarrow> nat list \<Rightarrow> nat set \<Rightarrow> bool" where
  "mem_inv mal c h as F \<longleftrightarrow> bl_repr h (hc_pendingWrite c) as \<and> wb_pool mal 1024 8 h (hc_writeBuffer c) F \<and> distinct as \<and> set as \<inter> F = {} \<and>
     (\<forall>a \<in> set as. \<exists>b. h a = Some b \<and> pool_block 1024 8 b)"

text \<open>From owning \<open>A\<close> to owning \<open>A'\<close>.\<close>

definition keeps :: "nat set \<Rightarrow> heap \<Rightarrow> nat set \<Rightarrow> heap \<Rightarrow> bool" where
  "keeps A h A' h' \<longleftrightarrow> (\<forall>x. x \<notin> A \<longrightarrow> h x \<noteq> None \<longrightarrow> h' x = h x) \<and> (\<forall>x \<in> A'. x \<in> A \<or> h x = None)"

definition own_step :: "mallocator \<Rightarrow> HttpClient \<times> heap \<Rightarrow> HttpClient \<times> heap \<Rightarrow> bool" where
  "own_step mal x y \<longleftrightarrow> (\<forall>as F. mem_inv mal (fst x) (snd x) as F \<longrightarrow>
     (\<exists>as' F'. mem_inv mal (fst y) (snd y) as' F' \<and> keeps (F \<union> set as) (snd x) (F' \<union> set as') (snd y)))"

lemma keeps_refl: "keeps A h A h"
  by (simp add: keeps_def)

lemma keeps_trans: "keeps A h A1 h1 \<Longrightarrow> keeps A1 h1 A2 h2 \<Longrightarrow> keeps A h A2 h2"
  unfolding keeps_def by metis

lemma own_step_trans: "own_step mal x y \<Longrightarrow> own_step mal y z \<Longrightarrow> own_step mal x z"
  unfolding own_step_def by (meson keeps_trans)

lemma own_step_same:
  "hc_writeBuffer c' = hc_writeBuffer c \<Longrightarrow> hc_pendingWrite c' = hc_pendingWrite c \<Longrightarrow> own_step mal (c, h) (c', h)"
  unfolding own_step_def mem_inv_def using keeps_refl by auto

lemma mem_inv_frame:
  assumes "mem_inv mal c h as F" and "\<And>x. x \<in> F \<union> set as \<Longrightarrow> h' x = h x"
  shows "mem_inv mal c h' as F"
proof -
  have eq: "h' x = h x" if "x \<in> set as" for x by (rule assms(2)) (simp add: that)
  have eqF: "h' x = h x" if "x \<in> F" for x by (rule assms(2)) (simp add: that)
  note old = assms(1) [unfolded mem_inv_def]
  have "bl_repr h' (hc_pendingWrite c) as = bl_repr h (hc_pendingWrite c) as" by (intro bl_repr_cong eq)
  moreover have "wb_pool mal 1024 8 h' (hc_writeBuffer c) F" by (rule wb_pool_frame [OF conjunct1 [OF conjunct2 [OF old]] eqF])
  moreover have "\<exists>b. h' a = Some b \<and> pool_block 1024 8 b" if "a \<in> set as" for a using old that eq [OF that] by simp
  ultimately show ?thesis using old unfolding mem_inv_def by blast
qed

lemma wb_pool_dom: "wb_pool mal g n h wb F \<Longrightarrow> x \<in> F \<Longrightarrow> h x \<noteq> None"
  by (fastforce simp: wb_pool_def wb_repr_def free_cells_def in_set_conv_nth class_block_def split: option.splits)

lemma mem_inv_dom: "mem_inv mal c h as F \<Longrightarrow> x \<in> F \<union> set as \<Longrightarrow> h x \<noteq> None"
  using wb_pool_dom [of mal 1024 8 h] by (fastforce simp: mem_inv_def)

section \<open>Blocks\<close>

text \<open>The serialiser never reports more than the size it is given, and keeps the length of the memory.\<close>

lemma gen_headers_length:
  "gen_headers hs bsize mem sz = Some r \<Longrightarrow> length (case r of Inl m \<Rightarrow> m | Inr (sz', m) \<Rightarrow> m) = length mem"
proof (induction hs arbitrary: mem sz r)
  case (Cons kv hs)
  obtain key val where kv: "kv = (key, val)" by (cases kv)
  note len = memcpy_to_length
  show ?case
  proof (cases "bsize \<le> sz + length key + 1")
    case True
    then show ?thesis using Cons.prems by (auto simp: kv Let_def)
  next
    case False
    then obtain m1 where m1: "memcpy_to mem sz (key @ [NUL]) = Some m1" using Cons.prems by (auto simp: kv bind_eq_Some_conv Let_def)
    show ?thesis
    proof (cases "bsize < sz + length key + 3")
      case True
      then show ?thesis using Cons.prems False m1 len [OF m1] by (auto simp: kv Let_def)
    next
      case small: False
      then obtain m2 where m2: "memcpy_to m1 (sz + length key) ('': '' @ [NUL]) = Some m2"
        using Cons.prems False m1 by (auto simp: kv bind_eq_Some_conv Let_def)
      show ?thesis
      proof (cases "bsize \<le> sz + length key + 2 + length val + 3")
        case True
        then show ?thesis using Cons.prems False small m1 m2 len [OF m1] len [OF m2] by (auto simp: kv Let_def)
      next
        case fits: False
        then obtain m3 m4 where m34: "memcpy_to m2 (sz + length key + 2) (val @ [NUL]) = Some m3"
          "memcpy_to m3 (sz + length key + 2 + length val) (crlf @ [NUL]) = Some m4"
          "gen_headers hs bsize m4 (sz + length key + 2 + length val + 2) = Some r"
          using Cons.prems False small m1 m2 by (auto simp: kv bind_eq_Some_conv Let_def)
        show ?thesis using Cons.IH [OF m34(3)] len [OF m1] len [OF m2] len [OF m34(1)] len [OF m34(2)] by simp
      qed
    qed
  qed
qed simp

lemma gen_tail_bound: "gen_tail r bsize mem sz = Some (n, m) \<Longrightarrow> length m = length mem \<and> (n = 0 \<or> n + 1 < bsize)"
  by (auto simp: gen_tail_def Let_def bind_eq_Some_conv dest!: memcpy_to_length split: if_splits)

lemma GenerateResponse_bound:
  assumes "GenerateResponse r mem bsize = Some (n, m)"
  shows "length m = length mem \<and> (n = 0 \<or> n + 1 < bsize)"
proof -
  obtain m1 where m1: "memcpy_to mem 0 (status_line r @ [NUL]) = Some m1" using assms by (auto simp: GenerateResponse_def bind_eq_Some_conv)
  show ?thesis
  proof (cases "bsize \<le> length (rs_statusMsg r) + length (status_line r) + 2")
    case True
    then show ?thesis using assms m1 memcpy_to_length [OF m1] by (simp add: GenerateResponse_def)
  next
    case False
    then obtain m2 m3 res where m: "memcpy_to m1 (length (status_line r)) (rs_statusMsg r @ [NUL]) = Some m2" "strcat m2 crlf = Some m3"
      "gen_headers (rs_httpHeader r) bsize m3 (length (status_line r) + (length (rs_statusMsg r) + 2)) = Some res"
      "(case res of Inl m \<Rightarrow> Some (0, m) | Inr (sz1, m4) \<Rightarrow> gen_tail r bsize m4 sz1) = Some (n, m)"
      using assms m1 by (auto simp: GenerateResponse_def bind_eq_Some_conv Let_def)
    have "length m3 = length mem" using memcpy_to_length [OF m1] memcpy_to_length [OF m(1)] m(2) by (auto simp: strcat_def dest: memcpy_to_length)
    then show ?thesis using gen_headers_length [OF m(3)] m(4) by (auto split: sum.splits dest!: gen_tail_bound)
  qed
qed

lemma fill_block_keeps:
  assumes "fill_block r b = Some b'" and "handed_out 1024 8 sz b"
  shows "pool_block 1024 8 b'" and "hb_next b' = None"
proof -
  have b: "blk_ok b" "hb_curPtr b = 0" "hb_next b = None" "pool_size 1024 8 b" "1024 \<le> hb_size b" "hb_size b \<le> 8192"
    using assms(2) by (auto simp: handed_out_def pool_size_def)
  obtain n m where g: "GenerateResponse r (hb_memory b) (nat (hb_size b)) = Some (n, m)" "b' = b\<lparr>hb_memory := m, hb_curSize := c_int (int n)\<rparr>"
    using assms(1) b(2) by (auto simp: fill_block_def bind_eq_Some_conv)
  note bound = GenerateResponse_bound [OF g(1)]
  then have "int n \<le> hb_size b" using b(5) by linarith
  then have "c_int (int n) = int n" using b(6) by (intro c_int_small) auto
  then show "pool_block 1024 8 b'" "hb_next b' = None" using g(2) b bound \<open>int n \<le> hb_size b\<close>
    by (auto simp: pool_block_def pool_size_def blk_ok_def)
qed

section \<open>The queue\<close>

lemma mem_inv_pop:
  assumes "mem_inv mal c h (a # as) F"
  shows "\<exists>pw h' wb. PopFront h (hc_pendingWrite c) = Some (Some a, pw) \<and> ReleaseWriteBuffer (Some a) h (hc_writeBuffer c) = Some (h', wb) \<and>
     mem_inv mal (c\<lparr>hc_pendingWrite := pw, hc_writeBuffer := wb\<rparr>) h' as (insert a F) \<and> keeps (F \<union> set (a # as)) h (insert a F \<union> set as) h'"
proof -
  note inv = assms [unfolded mem_inv_def]
  obtain pw where pw: "PopFront h (hc_pendingWrite c) = Some (Some a, pw)" "bl_repr h pw as"
    using PopFront_Cons [of h "hc_pendingWrite c" a as] inv by blast
  obtain b where b: "h a = Some b" "pool_block 1024 8 b" "a \<notin> F" using inv by auto
  then obtain h' wb where r: "ReleaseWriteBuffer (Some a) h (hc_writeBuffer c) = Some (h', wb)"
    "wb_pool mal 1024 8 h' wb (insert a F)" "\<forall>x. x \<noteq> a \<longrightarrow> h' x = h x"
    using wbp.release_ok [of mal 1024 8 h "hc_writeBuffer c" F a b] inv by auto
  have same: "h' x = h x" if "x \<in> set as" for x using r(3) inv that by auto
  have "bl_repr h' pw as = bl_repr h pw as" by (intro bl_repr_cong same)
  then have "mem_inv mal (c\<lparr>hc_pendingWrite := pw, hc_writeBuffer := wb\<rparr>) h' as (insert a F)"
    using pw(2) r(2) same inv by (auto simp: mem_inv_def)
  moreover have "keeps (F \<union> set (a # as)) h (insert a F \<union> set as) h'" using r(3) by (auto simp: keeps_def)
  ultimately show ?thesis using pw(1) r(1) by blast
qed

lemma release_pending_own:
  assumes "mem_inv mal c h as F"
  shows "\<exists>h' pw wb. release_pending h (hc_pendingWrite c) (hc_writeBuffer c) = Some (Val (h', pw, wb)) \<and>
     mem_inv mal (c\<lparr>hc_pendingWrite := pw, hc_writeBuffer := wb\<rparr>) h' [] (F \<union> set as) \<and> keeps (F \<union> set as) h (F \<union> set as) h'"
  using assms
proof (induction as arbitrary: c h F)
  case Nil
  then have "PopFront h (hc_pendingWrite c) = Some (None, hc_pendingWrite c)" by (simp add: mem_inv_def PopFront_Nil)
  then show ?case using Nil keeps_refl by (subst release_pending.simps) (auto simp: mem_inv_def)
next
  case (Cons a as)
  obtain pw h1 wb where p: "PopFront h (hc_pendingWrite c) = Some (Some a, pw)" "ReleaseWriteBuffer (Some a) h (hc_writeBuffer c) = Some (h1, wb)"
    "mem_inv mal (c\<lparr>hc_pendingWrite := pw, hc_writeBuffer := wb\<rparr>) h1 as (insert a F)" "keeps (F \<union> set (a # as)) h (insert a F \<union> set as) h1"
    using mem_inv_pop [OF Cons.prems] by blast
  obtain h' pw' wb' where r: "release_pending h1 pw wb = Some (Val (h', pw', wb'))"
    "mem_inv mal (c\<lparr>hc_pendingWrite := pw', hc_writeBuffer := wb'\<rparr>) h' [] (insert a F \<union> set as)" "keeps (insert a F \<union> set as) h1 (insert a F \<union> set as) h'"
    using Cons.IH [OF p(3)] by auto
  have "insert a F \<union> set as = F \<union> set (a # as)" by auto
  then show ?case using p(1,2) r keeps_trans [OF p(4) r(3)] by (subst release_pending.simps) simp
qed

lemma mem_inv_advance:
  assumes "mem_inv mal c h (a # as) F" and "h a = Some b" and "0 \<le> n" and "n \<le> hb_curSize b"
  shows "mem_inv mal c (h(a \<mapsto> b\<lparr>hb_curPtr := hb_curPtr b + n, hb_curSize := hb_curSize b - n\<rparr>)) (a # as) F"
proof -
  let ?b = "b\<lparr>hb_curPtr := hb_curPtr b + n, hb_curSize := hb_curSize b - n\<rparr>"
  note inv = assms(1) [unfolded mem_inv_def]
  have "blk_ok ?b" "pool_size 1024 8 b" using inv assms(2-4) by (auto simp: pool_block_def intro!: blk_advance(1))
  then have "pool_block 1024 8 ?b" by (simp add: pool_block_def pool_size_def)
  moreover have "next_of (h(a \<mapsto> ?b)) = next_of h" using assms(2) by (auto simp: next_of_def fun_eq_iff)
  moreover have "wb_pool mal 1024 8 (h(a \<mapsto> ?b)) (hc_writeBuffer c) F" using conjunct1 [OF conjunct2 [OF inv]] by (rule wb_pool_frame) (use inv in auto)
  ultimately show ?thesis using inv unfolding mem_inv_def bl_repr_def by auto
qed

lemma send_loop_own:
  assumes "mem_inv mal c h as F" and "send_loop E len (GetFront (hc_pendingWrite c)) (c, h, w) = Some (Val (n, buf, (c', h', w')))"
  shows "\<exists>as' F'. mem_inv mal c' h' as' F' \<and> keeps (F \<union> set as) h (F' \<union> set as') h'"
  using assms
proof (induction as arbitrary: c h F len w)
  case Nil
  then have "GetFront (hc_pendingWrite c) = None" using GetFront_spec [of h "hc_pendingWrite c" "[]"] by (simp add: mem_inv_def)
  then have "c' = c" "h' = h" using Nil by (auto simp: send_loop.simps)
  then show ?case using Nil(1) keeps_refl by blast
next
  case (Cons a as)
  have front: "GetFront (hc_pendingWrite c) = Some a" using Cons.prems(1) GetFront_spec [of h "hc_pendingWrite c" "a # as"] by (simp add: mem_inv_def)
  obtain b where b: "h a = Some b" using Cons.prems(1) by (auto simp: mem_inv_def)
  obtain fd where fd: "hc_conn c = Some fd" using Cons.prems(2) front b by (cases "hc_conn c") (auto simp: send_loop.simps)
  obtain sz w1 where sent: "c_send (he_conn E) w fd (rng b (hb_curPtr b) (hb_curPtr b + hb_curSize b)) = Some (sz, w1)"
    using Cons.prems(2) front b fd by (cases "c_send (he_conn E) w fd (rng b (hb_curPtr b) (hb_curPtr b + hb_curSize b))") (auto simp: send_loop.simps)
  consider "sz < 0" | "0 \<le> sz" "sz < hb_curSize b" | "0 \<le> sz" "hb_curSize b \<le> sz" by linarith
  then show ?case
  proof cases
    case 1
    then have "c' = c" "h' = h" using Cons.prems front b fd sent by (auto simp: send_loop.simps)
    then show ?thesis using Cons.prems(1) keeps_refl by blast
  next
    case 2
    then have "c' = c" "h' = h(a \<mapsto> b\<lparr>hb_curPtr := hb_curPtr b + sz, hb_curSize := hb_curSize b - sz\<rparr>)"
      using Cons.prems front b fd sent by (auto simp: send_loop.simps)
    moreover have "keeps (F \<union> set (a # as)) h (F \<union> set (a # as)) h'" using calculation(2) by (simp add: keeps_def)
    ultimately show ?thesis using mem_inv_advance [OF Cons.prems(1) b 2(1)] 2(2) by (metis less_imp_le)
  next
    case 3
    obtain pw h1 wb where p: "PopFront h (hc_pendingWrite c) = Some (Some a, pw)" "ReleaseWriteBuffer (Some a) h (hc_writeBuffer c) = Some (h1, wb)"
      "mem_inv mal (c\<lparr>hc_pendingWrite := pw, hc_writeBuffer := wb\<rparr>) h1 as (insert a F)" "keeps (F \<union> set (a # as)) h (insert a F \<union> set as) h1"
      using mem_inv_pop [OF Cons.prems(1)] by blast
    have p_front: "GetFront (hc_pendingWrite (c\<lparr>hc_pendingWrite := pw, hc_writeBuffer := wb\<rparr>)) = GetFront pw" by simp
    have "send_loop E (len + sz) (GetFront pw) (c\<lparr>hc_pendingWrite := pw, hc_writeBuffer := wb\<rparr>, h1, w1) = Some (Val (n, buf, (c', h', w')))"
      using Cons.prems(2) front b fd sent 3 p(1,2) by (subst (asm) send_loop.simps) simp
    from Cons.IH [OF p(3) this [folded p_front]] obtain as' F' where "mem_inv mal c' h' as' F'" "keeps (insert a F \<union> set as) h1 (F' \<union> set as') h'" by blast
    then show ?thesis using keeps_trans [OF p(4)] by blast
  qed
qed

section \<open>The handlers\<close>

lemma mem_inv_push:
  assumes bl: "bl_repr h (hc_pendingWrite c) as" and pool: "wb_pool mal 1024 8 h wb F" and d: "distinct (a # as)" "set (a # as) \<inter> F = {}"
    and good: "\<And>x. x \<in> set (a # as) \<Longrightarrow> \<exists>b. h x = Some b \<and> pool_block 1024 8 b" and b: "h a = Some b" "hb_next b = None"
    and push: "PushBack h (hc_pendingWrite c) (Some a) = Some (h', pw)"
  shows "mem_inv mal (c\<lparr>hc_writeBuffer := wb, hc_pendingWrite := pw\<rparr>) h' (as @ [a]) F" and "x \<notin> set as \<Longrightarrow> h' x = h x"
proof -
  have p: "bl_repr h' pw (as @ [a])" "\<And>x. as = [] \<or> x \<noteq> last as \<Longrightarrow> h' x = h x" "\<And>x d. h x = Some d \<Longrightarrow> \<exists>r. h' x = Some (d\<lparr>hb_next := r\<rparr>)"
    using PushBack_spec [OF bl b] d(1) push by auto
  have frame: "h' x = h x" if "x \<notin> set as" for x by (rule p(2)) (use last_in_set [of as] that in metis)
  then show "x \<notin> set as \<Longrightarrow> h' x = h x" .
  have "wb_pool mal 1024 8 h' wb F" using pool by (rule wb_pool_frame) (use frame d(2) in auto)
  moreover have "\<exists>b. h' x = Some b \<and> pool_block 1024 8 b" if "x \<in> set (as @ [a])" for x
    using good [of x] p(3) [of x] that by fastforce
  ultimately show "mem_inv mal (c\<lparr>hc_writeBuffer := wb, hc_pendingWrite := pw\<rparr>) h' (as @ [a]) F"
    using p(1) d by (auto simp: mem_inv_def)
qed

lemma GenerateResponse_own:
  assumes "GenerateResponse_handler E (c, h, w) = Some (n, (c', h', w'))"
  shows "own_step (he_malloc E) (c, h) (c', h')"
  unfolding own_step_def fst_conv snd_conv
proof (intro allI impI)
  fix as F assume m: "mem_inv (he_malloc E) c h as F"
  note inv = m [unfolded mem_inv_def]
  obtain cgi where cgi: "hc_cgi c = Some cgi" using assms by (auto simp: GenerateResponse_handler_def bind_eq_Some_conv)
  define r where "r = cgi (hc_request c) (hc_response c)"
  define sz where "sz = c_int (int (GetResponseSize r))"
  obtain buf h1 wb a b b' h2 pw where g: "AllocWriteBuffer (he_malloc E) sz h (hc_writeBuffer c) = Some (buf, h1, wb)" "buf = Some a" "h1 a = Some b"
    "fill_block r b = Some b'" "PushBack (h1(a \<mapsto> b')) (hc_pendingWrite c) (Some a) = Some (h2, pw)" "h' = h2"
    "c' = FinishGenerateResponse (c\<lparr>hc_writeBuffer := wb, hc_pendingWrite := pw, hc_response := CleanUpResponse r\<rparr>)"
    using assms cgi by (auto simp: GenerateResponse_handler_def bind_eq_Some_conv Let_def r_def sz_def)
  have pool: "wb_pool (he_malloc E) 1024 8 h (hc_writeBuffer c) F" using inv by blast
  have al: "h1 = h(a \<mapsto> b)" "wb_pool (he_malloc E) 1024 8 (h(a \<mapsto> b)) wb (F - {a})" "handed_out 1024 8 sz b" "h a = None \<or> a \<in> F"
    using wbp.alloc_in [OF pool, of sz] wbp.alloc_out [OF pool, of sz] g(1-3) by (cases "0 < sz \<and> sz \<le> int 8 * 1024"; force)+
  note b' = fill_block_keeps [OF g(4) al(3)]
  let ?h = "h(a \<mapsto> b')"
  have fresh: "a \<notin> set as" using al(4) inv by force
  have eq: "?h x = h x" if "x \<in> set as" for x using that fresh by auto
  have "bl_repr ?h (hc_pendingWrite c) as = bl_repr h (hc_pendingWrite c) as" by (intro bl_repr_cong eq)
  then have bl: "bl_repr ?h (hc_pendingWrite c) as" using inv by blast
  have wb: "wb_pool (he_malloc E) 1024 8 ?h wb (F - {a})" using al(2) by (rule wb_pool_frame) auto
  have push: "PushBack ?h (hc_pendingWrite c) (Some a) = Some (h2, pw)" using g(5) unfolding al(1) by simp
  have good: "\<exists>b. ?h x = Some b \<and> pool_block 1024 8 b" if "x \<in> set (a # as)" for x using that inv b'(1) by auto
  have d: "distinct (a # as)" "set (a # as) \<inter> (F - {a}) = {}" using inv fresh by auto
  note pushed = mem_inv_push [OF bl wb d good _ b'(2) push]
  have "mem_inv (he_malloc E) c' h' (as @ [a]) (F - {a})" using pushed(1) g(6,7) by (simp add: mem_inv_def finish_defs)
  moreover have "keeps (F \<union> set as) h (F - {a} \<union> set (as @ [a])) h'"
    unfolding keeps_def
  proof (intro conjI allI ballI impI)
    fix x assume x: "x \<notin> F \<union> set as" "h x \<noteq> None"
    then have "x \<noteq> a" using al(4) by auto
    then show "h' x = h x" using pushed(2) [of x] x(1) g(6) by simp
  qed (use al(4) in auto)
  ultimately show "\<exists>as' F'. mem_inv (he_malloc E) c' h' as' F' \<and> keeps (F \<union> set as) h (F' \<union> set as') h'" by blast
qed

text \<open>The parsers and the reading of input leave pool and queue alone.\<close>

definition same_queues :: "HttpClient \<Rightarrow> HttpClient \<Rightarrow> bool" where
  "same_queues c c' \<longleftrightarrow> hc_writeBuffer c' = hc_writeBuffer c \<and> hc_pendingWrite c' = hc_pendingWrite c"

text \<open>A condition on what a computation returns, with rules that follow its structure.\<close>

definition rets :: "('a \<Rightarrow> bool) \<Rightarrow> 'a option \<Rightarrow> bool" where
  "rets P m \<longleftrightarrow> (\<forall>x. m = Some x \<longrightarrow> P x)"

lemma rets_intros:
  "P x \<Longrightarrow> rets P (Some x)" "(\<And>x. rets P (f x)) \<Longrightarrow> rets P (Option.bind m f)"
  "rets P u \<Longrightarrow> rets P v \<Longrightarrow> rets P (if b then u else v)" "rets P (f t) \<Longrightarrow> rets P (Let t f)"
  "(\<And>a b. rets P (g a b)) \<Longrightarrow> rets P (case y of (a, b) \<Rightarrow> g a b)"
  by (auto simp: rets_def bind_eq_Some_conv split: prod.splits)

lemma retsD: "rets P m \<Longrightarrow> m = Some x \<Longrightarrow> P x"
  by (simp add: rets_def)

lemma ReadHttpData_same: "ReadHttpData E (c, h, w) = Some (r, (c', h', w')) \<Longrightarrow> same_queues c c' \<and> h' = h"
proof -
  have "rets (\<lambda>(r, (c', h', w')). same_queues c c' \<and> h' = h) (ReadHttpData E (c, h, w))"
    unfolding ReadHttpData_def prod.case by (intro rets_intros) (simp_all add: same_queues_def)
  from retsD [OF this] show "ReadHttpData E (c, h, w) = Some (r, (c', h', w')) \<Longrightarrow> same_queues c c' \<and> h' = h" by simp
qed

lemma ParseRequestLine_same: "ParseRequestLine c = Some (n, c') \<Longrightarrow> same_queues c c'"
proof -
  have "rets (\<lambda>(n, c'). same_queues c c') (ParseRequestLine c)"
    unfolding ParseRequestLine_def by (intro rets_intros) (simp_all add: same_queues_def finish_defs)
  from retsD [OF this] show "ParseRequestLine c = Some (n, c') \<Longrightarrow> same_queues c c'" by simp
qed

lemma ParseHeader_same: "ParseHeader c = Some (Val (n, c')) \<Longrightarrow> same_queues c c'"
proof -
  assume "ParseHeader c = Some (Val (n, c'))"
  then obtain r where "(case r of Inl (rb, req) \<Rightarrow> Some (Val (1, c\<lparr>hc_readBuffer := rb, hc_request := req\<rparr>))
    | Inr (len, rb, req) \<Rightarrow> Some (Val (len, FinishParsingHeader (c\<lparr>hc_readBuffer := rb, hc_request := req,
        hc_keepalive := (GetHeaderValue ''Connection'' req = ''Keep-Alive'')\<rparr>)))) = Some (Val (n, c'))"
    unfolding ParseHeader_def rbind_eq_Some by blast
  then show ?thesis by (cases r) (auto simp: same_queues_def finish_defs)
qed

lemma ParseBody_same: "ParseBody grow c = Some (n, c') \<Longrightarrow> same_queues c c'"
proof -
  have "rets (\<lambda>(n, c'). same_queues c c') (ParseBody grow c)"
    unfolding ParseBody_def by (intro rets_intros) (simp_all add: same_queues_def finish_defs)
  from retsD [OF this] show "ParseBody grow c = Some (n, c') \<Longrightarrow> same_queues c c'" by simp
qed

lemma same_queues_trans: "same_queues c c1 \<Longrightarrow> same_queues c1 c2 \<Longrightarrow> same_queues c c2"
  by (simp add: same_queues_def)

lemma read_then_same:
  assumes "read_then E evt parse (c, h, w) = Some (Val (n, (c', h', w')))"
    and "\<And>c1 h1 w1 n c' h' w'. parse (c1, h1, w1) = Some (Val (n, (c', h', w'))) \<Longrightarrow> same_queues c1 c' \<and> h' = h1"
  shows "same_queues c c' \<and> h' = h"
proof (cases "ev_code evt = SC_READ")
  case True
  then obtain r c1 h1 w1 where r: "ReadHttpData E (c, h, w) = Some (r, (c1, h1, w1))"
    "(if r < 0 then Some (Val (r, (c1, h1, w1))) else parse (c1, h1, w1)) = Some (Val (n, (c', h', w')))"
    using assms(1) by (auto simp: read_then_def rbind_eq_Some lift_def split: option.splits)
  then show ?thesis using ReadHttpData_same [OF r(1)] assms(2) same_queues_trans by (auto split: if_splits)
qed (use assms in \<open>simp add: read_then_def\<close>)

lemma same_queues_own: "same_queues c c' \<and> h' = h \<Longrightarrow> own_step mal (c, h) (c', h')"
  using own_step_same by (simp add: same_queues_def)

lemma SendResponse_own:
  assumes "SendResponse E (c, h, w) = Some (Val (n, (c', h', w')))"
  shows "own_step mal (c, h) (c', h')"
proof -
  obtain n1 buf c1 h1 w1 where r: "send_loop E 0 (GetFront (hc_pendingWrite c)) (c, h, w) = Some (Val (n1, buf, (c1, h1, w1)))"
    "(if n1 < 0 then Some (Val (-1, (c1, h1, w1))) else Some (Val (n1, (if buf = None then FinishSendResponse c1 else c1, h1, w1)))) =
       Some (Val (n, (c', h', w')))"
    using assms by (auto simp: SendResponse_def rbind_eq_Some)
  have "own_step mal (c, h) (c1, h1)" unfolding own_step_def using send_loop_own r(1) by auto
  moreover have "own_step mal (c1, h1) (c', h')" using r(2) by (intro same_queues_own) (auto simp: same_queues_def finish_defs split: if_splits)
  ultimately show ?thesis by (rule own_step_trans)
qed

lemma call_handler_own:
  assumes "call_handler E evt (c, h, w) = Some (Val (n, (c', h', w')))"
  shows "own_step (he_malloc E) (c, h) (c', h')"
proof (cases "hc_evtHandler c")
  case ProcessRequestLine_h
  then have "read_then E evt (\<lambda>(c, h, w). rbind (lift (ParseRequestLine c)) (\<lambda>(n, c'). Some (Val (n, (c', h, w))))) (c, h, w) = Some (Val (n, (c', h', w')))"
    using assms by (simp add: call_handler_def ProcessRequestLine_def)
  then show ?thesis
    by (intro same_queues_own, rule read_then_same) (auto simp: rbind_eq_Some lift_def ParseRequestLine_same split: option.splits)
next
  case ProcessHeader_h
  then have "read_then E evt (\<lambda>(c, h, w). rbind (ParseHeader c) (\<lambda>(n, c'). Some (Val (n, (c', h, w))))) (c, h, w) = Some (Val (n, (c', h', w')))"
    using assms by (simp add: call_handler_def ProcessHeader_def)
  then show ?thesis by (intro same_queues_own, rule read_then_same) (auto simp: rbind_eq_Some ParseHeader_same)
next
  case ProcessBody_h
  then have "read_then E evt (\<lambda>(c, h, w). rbind (lift (ParseBody (he_grow E) c)) (\<lambda>(n, c'). Some (Val (n, (c', h, w))))) (c, h, w) = Some (Val (n, (c', h', w')))"
    using assms by (simp add: call_handler_def ProcessBody_def)
  then show ?thesis
    by (intro same_queues_own, rule read_then_same) (auto simp: rbind_eq_Some lift_def ParseBody_same split: option.splits)
next
  case GenerateResponse_h
  then show ?thesis using assms GenerateResponse_own [of E c h w n c' h' w'] by (auto simp: call_handler_def lift_def split: option.splits)
next
  case SendResponse_h
  then show ?thesis using assms SendResponse_own [of E c h w] by (simp add: call_handler_def)
qed

lemma ResetClient_own:
  assumes "ResetClient conn (c, h) = Some (Val (c', h'))"
  shows "own_step mal (c, h) (c', h')"
  unfolding own_step_def fst_conv snd_conv
proof (intro allI impI)
  fix as F assume "mem_inv mal c h as F"
  then obtain h1 pw wb where r: "release_pending h (hc_pendingWrite c) (hc_writeBuffer c) = Some (Val (h1, pw, wb))"
    "mem_inv mal (c\<lparr>hc_pendingWrite := pw, hc_writeBuffer := wb\<rparr>) h1 [] (F \<union> set as)" "keeps (F \<union> set as) h (F \<union> set as) h1"
    using release_pending_own by blast
  have "h' = h1" "hc_pendingWrite c' = pw" "hc_writeBuffer c' = wb"
    using assms r(1) by (auto simp: ResetClient_def rbind_eq_Some lift_def split: option.splits)
  then have "mem_inv mal c' h' [] (F \<union> set as)" using r(2) by (simp add: mem_inv_def)
  then show "\<exists>as' F'. mem_inv mal c' h' as' F' \<and> keeps (F \<union> set as) h (F' \<union> set as') h'" using r(3) \<open>h' = h1\<close> by (metis Un_empty_right empty_set)
qed

lemma CloseConnection_own:
  assumes "CloseConnection E (c, h, w) = Some (Val (c', h', w'))"
  shows "own_step mal (c, h) (c', h')"
  using assms by (auto simp: CloseConnection_def rbind_eq_Some intro!: ResetClient_own)

lemma process_loop_own:
  assumes "process_loop E evt ret st = Some r"
  shows "\<forall>n c' h' w'. r = Val (n, (c', h', w')) \<longrightarrow> own_step (he_malloc E) (fst st, fst (snd st)) (c', h')"
  using assms
proof (rule process_loop.raw_induct [rotated])
  fix loop E evt ret st r
  assume IH: "\<And>E evt ret st r. loop E evt ret st = Some r \<Longrightarrow>
      \<forall>n c' h' w'. r = Val (n, (c', h', w')) \<longrightarrow> own_step (he_malloc E) (fst st, fst (snd st)) (c', h')"
    and run: "rbind (call_handler E evt st) (\<lambda>(len, st'). if len < 0 then rbind (CloseConnection E st') (\<lambda>st''. Some (Val (-1, st'')))
       else if len > 0 then loop E evt (ret + len) st' else Some (Val (ret + len, st'))) = Some r"
  obtain c h w where st: "st = (c, h, w)" by (cases st)
  show "\<forall>n c' h' w'. r = Val (n, (c', h', w')) \<longrightarrow> own_step (he_malloc E) (fst st, fst (snd st)) (c', h')"
  proof (intro allI impI)
    fix n c' h' w' assume r: "r = Val (n, (c', h', w'))"
    then obtain len c1 h1 w1 where call: "call_handler E evt (c, h, w) = Some (Val (len, (c1, h1, w1)))"
      and rest: "(if len < 0 then rbind (CloseConnection E (c1, h1, w1)) (\<lambda>st''. Some (Val (-1, st'')))
         else if len > 0 then loop E evt (ret + len) (c1, h1, w1) else Some (Val (ret + len, (c1, h1, w1)))) = Some (Val (n, (c', h', w')))"
      using run st by (auto simp: rbind_eq_Some)
    have "own_step (he_malloc E) (c1, h1) (c', h')"
      using rest IH [of E evt "ret + len" "(c1, h1, w1)"] CloseConnection_own [of E c1 h1 w1] own_step_same [of c1 c1]
      by (auto simp: rbind_eq_Some split: if_splits)
    with call_handler_own [OF call] show "own_step (he_malloc E) (fst st, fst (snd st)) (c', h')" by (simp add: st own_step_trans)
  qed
qed

text \<open>A whole event.\<close>

lemma ProcessEvent_own:
  "ProcessEvent E evt (c, h, w) = Some (Val (n, (c', h', w'))) \<Longrightarrow> own_step (he_malloc E) (c, h) (c', h')"
  unfolding ProcessEvent_def by (drule process_loop_own) simp

text \<open>A new client: its free lists hold only new blocks.\<close>

lemma HttpClient_init_own:
  assumes "malloc_ok (he_malloc E)" and "HttpClient_init E arr_ok cap0 cl sc cgi h = Some (c, h')"
  shows "\<exists>F. mem_inv (he_malloc E) c h' [] F \<and> keeps {} h F h'"
proof -
  obtain wb where wb: "HttpWriteBuffer_init (he_malloc E) arr_ok h 1024 8 = Some (h', wb)" "hc_writeBuffer c = wb" "hc_pendingWrite c = HttpBufferList_init"
    using assms(2) by (auto simp: HttpClient_init_def bind_eq_Some_conv)
  obtain ys where ys: "wb_repr h' wb (ys # replicate 7 [])" "wb_size wb = 1024" "\<forall>x. h x \<noteq> None \<longrightarrow> h' x = h x" "\<forall>a \<in> set ys. h a = None"
    using HttpWriteBuffer_init_spec [OF assms(1) _ wb(1)] by auto
  have "wb_pool (he_malloc E) 1024 8 h' wb (free_cells (ys # replicate 7 []))"
    using assms(1) ys(1,2) by (auto simp: wb_pool_def intro!: exI [of _ "ys # replicate 7 []"])
  moreover have "free_cells (ys # replicate 7 []) = set ys" by (simp add: free_cells_def)
  ultimately show ?thesis using wb(2,3) ys(3,4) by (auto simp: mem_inv_def keeps_def bl_repr_def HttpBufferList_init_def intro!: exI [of _ "set ys"])
qed

end
