(* ===== verification/SocketPoll.thy ===== *)
theory SocketPoll
  imports Connection "HOL-Library.Word"
begin

text \<open>
  \<open>http/SocketPoll.{h,cc}\<close>: the wrapper of \<open>epoll\<close>, and the operating system behind it. The system
  calls are fields of a record over a kernel state \<open>'k\<close>; \<open>kernel_ok\<close> collects what POSIX and Linux
  document of them and the server relies on. \<open>out k fd\<close> stands for the bytes the kernel has accepted
  for sending on \<open>fd\<close>, and \<open>armed k fd\<close> for a descriptor that \<open>epoll_wait\<close> may report.
\<close>

unbundle bit_operations_syntax

datatype errno = EINTR | EAGAIN | EINPROGRESS | EOTHER

datatype epoll_op = EPOLL_CTL_ADD | EPOLL_CTL_MOD | EPOLL_CTL_DEL

type_synonym epoll_flags = "32 word"

text \<open>An address of \<open>getaddrinfo\<close>'s list, known by its printed form.\<close>

type_synonym addrinfo = string

record 'k kernel =
  sys_write :: "'k \<Rightarrow> int \<Rightarrow> bytes \<Rightarrow> int \<times> errno \<times> 'k"
  sys_read :: "'k \<Rightarrow> int \<Rightarrow> int \<Rightarrow> int \<times> bytes \<times> errno \<times> 'k"
  sys_close :: "'k \<Rightarrow> int \<Rightarrow> 'k"
  sys_epoll_ctl :: "'k \<Rightarrow> epoll_op \<Rightarrow> int \<Rightarrow> epoll_flags \<Rightarrow> int \<Rightarrow> int \<times> 'k"
  sys_epoll_wait :: "'k \<Rightarrow> nat \<Rightarrow> int \<times> (epoll_flags \<times> int) list \<times> 'k"
  sys_accept :: "'k \<Rightarrow> int \<Rightarrow> int \<times> string \<times> 'k"
  sys_getsockopt_error :: "'k \<Rightarrow> int \<Rightarrow> int \<times> int \<times> 'k"
  sys_getpeername :: "'k \<Rightarrow> int \<Rightarrow> string option \<times> 'k"
  sys_getaddrinfo :: "'k \<Rightarrow> string \<Rightarrow> string \<Rightarrow> int \<times> addrinfo list \<times> 'k"
  sys_socket :: "'k \<Rightarrow> addrinfo \<Rightarrow> int \<times> 'k"
  sys_connect :: "'k \<Rightarrow> int \<Rightarrow> addrinfo \<Rightarrow> int \<times> errno \<times> 'k"
  sys_setsockopt_reuse :: "'k \<Rightarrow> int \<Rightarrow> int \<times> 'k"
  sys_bind :: "'k \<Rightarrow> int \<Rightarrow> addrinfo \<Rightarrow> int \<times> 'k"
  sys_listen :: "'k \<Rightarrow> int \<Rightarrow> int \<Rightarrow> int \<times> 'k"

text \<open>What the code relies on: \<open>read\<close> and \<open>write\<close> report how much they moved, within what was asked,
  and no other call sends anything.\<close>

definition kernel_ok :: "'k kernel \<Rightarrow> ('k \<Rightarrow> int \<Rightarrow> bytes) \<Rightarrow> bool" where
  "kernel_ok K out \<longleftrightarrow>
     (\<forall>k fd d n e k'. sys_write K k fd d = (n, e, k') \<longrightarrow>
        n \<le> int (length d) \<and> out k' fd = out k fd @ take (nat n) d) \<and>
     (\<forall>k fd sz n d e k'. sys_read K k fd sz = (n, d, e, k') \<longrightarrow>
        (0 \<le> sz \<longrightarrow> n \<le> sz) \<and> int (length d) = max n 0 \<and> out k' = out k) \<and>
     (\<forall>k fd. out (sys_close K k fd) = out k) \<and>
     (\<forall>k op fd fl dt n k'. sys_epoll_ctl K k op fd fl dt = (n, k') \<longrightarrow> out k' = out k)"

section \<open>The poller\<close>

definition EPOLLIN :: epoll_flags where
  "EPOLLIN = 1"

definition EPOLLOUT :: epoll_flags where
  "EPOLLOUT = 4"

definition EPOLLONESHOT :: epoll_flags where
  "EPOLLONESHOT = push_bit 30 1"

text \<open>The descriptor of the \<open>epoll\<close> instance itself stays inside the kernel state. The user data of
  a registration is the address of the socket's slot, here the slot's index.\<close>

record PollEvent =
  pe_data :: int
  pe_read :: bool
  pe_write :: bool

definition poll_flags :: "bool \<Rightarrow> epoll_flags" where
  "poll_flags write = EPOLLIN OR (if write then EPOLLOUT else 0) OR EPOLLONESHOT"

definition AddSocket :: "'k kernel \<Rightarrow> int \<Rightarrow> int \<Rightarrow> bool \<Rightarrow> 'k \<Rightarrow> bool \<times> 'k" where
  "AddSocket K file data write k =
     (case sys_epoll_ctl K k EPOLL_CTL_ADD file (poll_flags write) data of (ret, k') \<Rightarrow> (ret \<noteq> -1, k'))"

definition RemoveSocket :: "'k kernel \<Rightarrow> int \<Rightarrow> 'k \<Rightarrow> bool \<times> 'k" where
  "RemoveSocket K file k =
     (case sys_epoll_ctl K k EPOLL_CTL_DEL file 0 0 of (ret, k') \<Rightarrow> (ret \<noteq> -1, k'))"

definition ModifySocket :: "'k kernel \<Rightarrow> int \<Rightarrow> int \<Rightarrow> bool \<Rightarrow> 'k \<Rightarrow> bool \<times> 'k" where
  "ModifySocket K file data write k =
     (case sys_epoll_ctl K k EPOLL_CTL_MOD file (poll_flags write) data of (ret, k') \<Rightarrow> (ret \<noteq> -1, k'))"

definition poll_event :: "epoll_flags \<times> int \<Rightarrow> PollEvent" where
  "poll_event ev = (case ev of (flag, data) \<Rightarrow>
     \<lparr>pe_data = data, pe_read = (flag AND EPOLLIN \<noteq> 0), pe_write = (flag AND EPOLLOUT \<noteq> 0)\<rparr>)"

text \<open>Fills the first \<open>n\<close> entries of \<open>ve\<close> and returns \<open>n\<close>.\<close>

definition WaitAll :: "'k kernel \<Rightarrow> PollEvent list \<Rightarrow> nat \<Rightarrow> 'k \<Rightarrow> int \<times> PollEvent list \<times> 'k" where
  "WaitAll K ve mx k =
     (case sys_epoll_wait K k mx of (n, evs, k') \<Rightarrow>
        (n, map poll_event (take (nat n) evs) @ drop (length (take (nat n) evs)) ve, k'))"

text \<open>
  The descriptor of the \<open>epoll\<close> instance and the flags of a descriptor. Only the constructor, the destructor and \<open>SetSocketNonBlocking\<close> use these
  calls, which are therefore arguments: \<open>create\<close> is \<open>epoll_create\<close>, \<open>getfl\<close> and \<open>setfl\<close> are the two uses of \<open>fcntl\<close>.
  A failing assertion is \<open>None\<close>.
\<close>

definition SocketPoll_Init :: "('k \<Rightarrow> int \<Rightarrow> int \<times> 'k) \<Rightarrow> 'k \<Rightarrow> (int \<times> 'k) option" where
  "SocketPoll_Init create k = (case create k 1024 of (epoll, k') \<Rightarrow> if epoll \<noteq> -1 then Some (epoll, k') else None)"

definition SocketPoll_Release :: "'k kernel \<Rightarrow> int \<Rightarrow> 'k \<Rightarrow> 'k" where
  "SocketPoll_Release K epoll k = sys_close K k epoll"

definition O_NONBLOCK :: "32 word" where
  "O_NONBLOCK = push_bit 11 1"

definition SetSocketNonBlocking :: "('k \<Rightarrow> int \<Rightarrow> 32 word \<times> 'k) \<Rightarrow> ('k \<Rightarrow> int \<Rightarrow> 32 word \<Rightarrow> int \<times> 'k) \<Rightarrow> int \<Rightarrow> 'k \<Rightarrow> bool \<times> 'k" where
  "SetSocketNonBlocking getfl setfl fd k =
     (case getfl k fd of (flag, k1) \<Rightarrow>
        if flag = -1 then (False, k1)
        else (case setfl k1 fd (flag OR O_NONBLOCK) of (ret, k2) \<Rightarrow> (ret \<noteq> -1, k2)))"

lemma poller_out:
  assumes "kernel_ok K out"
  shows "out (snd (AddSocket K fd d wr k)) = out k" "out (snd (RemoveSocket K fd k)) = out k"
    "out (snd (ModifySocket K fd d wr k)) = out k"
  using assms by (auto simp: AddSocket_def RemoveSocket_def ModifySocket_def kernel_ok_def split: prod.splits)

lemma poll_event_of_flags:
  "pe_read (poll_event (poll_flags wr, d))" "pe_write (poll_event (poll_flags wr, d)) = wr"
  by (simp_all add: poll_event_def poll_flags_def EPOLLIN_def EPOLLOUT_def EPOLLONESHOT_def)

text \<open>On descriptors whose calls do what their manual says, \<open>SetSocketNonBlocking\<close> turns one flag on, and keeps the other flags and descriptors.\<close>

lemma SetSocketNonBlocking_spec:
  assumes "\<And>k fd. getfl k fd = (case k fd of None \<Rightarrow> (-1, k) | Some fl \<Rightarrow> (fl, k))"
    and "\<And>k fd fl. setfl k fd fl = (case k fd of None \<Rightarrow> (-1, k) | Some _ \<Rightarrow> (0, k(fd \<mapsto> fl)))"
  shows "SetSocketNonBlocking getfl setfl fd k =
     (case k fd of None \<Rightarrow> (False, k) | Some fl \<Rightarrow> if fl = -1 then (False, k) else (True, k(fd \<mapsto> fl OR O_NONBLOCK)))"
  and "bit (fl OR O_NONBLOCK) n = (n = 11 \<or> bit fl n)"
proof -
  show "SetSocketNonBlocking getfl setfl fd k =
     (case k fd of None \<Rightarrow> (False, k) | Some fl \<Rightarrow> if fl = -1 then (False, k) else (True, k(fd \<mapsto> fl OR O_NONBLOCK)))"
    by (simp add: SetSocketNonBlocking_def assms split: option.split)
  show "bit (fl OR O_NONBLOCK) n = (n = 11 \<or> bit fl n)"
    unfolding O_NONBLOCK_def push_bit_of_1 bit_or_iff bit_exp_iff by (auto simp: possible_bit_word)
qed

end
