(* ===== verification/SocketServer.thy ===== *)
theory SocketServer
  imports SocketPoll
begin

text \<open>
  \<open>http/SocketServer.cc\<close>: the table of sockets indexed by descriptor, the operations on it and the
  polling loop with its two static queues. A \<open>SocketConnection*\<close> is the index of its slot. An access
  outside the table, a failing assertion and a \<open>NULL\<close> dereference are \<open>None\<close>.
\<close>

datatype SocketStatus = SS_INVALID | SS_LISTENING | SS_CONNECTED | SS_CONNECTING | SS_PACCEPT

record SocketConnection =
  so_fd :: int
  so_status :: SocketStatus
  so_opaque :: nat
  so_buff :: string

record ServerImpl =
  connNum :: int
  pollEventIndex :: int
  pollEventNum :: int
  maxSocket :: int
  isRunning :: bool
  watchAccepted :: bool
  sockets :: "SocketConnection list"
  pollEvent :: "PollEvent list"
  accept_queue :: "SocketEvent list"
  read_write_queue :: "SocketEvent list"

type_synonym 'k sstate = "ServerImpl \<times> 'k"

definition get_sock :: "int \<Rightarrow> ServerImpl \<Rightarrow> SocketConnection option" where
  "get_sock fd s = (if 0 \<le> fd \<and> fd < int (length (sockets s)) then Some (sockets s ! nat fd) else None)"

definition put_sock :: "int \<Rightarrow> SocketConnection \<Rightarrow> ServerImpl \<Rightarrow> ServerImpl" where
  "put_sock fd c s = (if 0 \<le> fd then s\<lparr>sockets := (sockets s)[nat fd := c]\<rparr> else s)"

text \<open>The constructor: every slot is invalid; its other fields are not initialised (\<open>junk\<close>).\<close>

definition ServerImpl_init :: "SocketConnection list \<Rightarrow> PollEvent list \<Rightarrow> ServerImpl" where
  "ServerImpl_init junk pe =
     \<lparr>connNum = 0, pollEventIndex = 0, pollEventNum = 0, maxSocket = int (length junk), isRunning = False,
      watchAccepted = False, sockets = map (\<lambda>c. c\<lparr>so_status := SS_INVALID\<rparr>) junk, pollEvent = pe,
      accept_queue = [], read_write_queue = []\<rparr>"

definition IsConnected :: "SocketConnection \<Rightarrow> bool" where
  "IsConnected c \<longleftrightarrow> so_status c = SS_CONNECTED \<or> so_status c = SS_LISTENING"

definition GetConnNumber :: "ServerImpl \<Rightarrow> int" where
  "GetConnNumber s = connNum s"

definition SetWatchAcceptedSock :: "bool \<Rightarrow> ServerImpl \<Rightarrow> ServerImpl" where
  "SetWatchAcceptedSock watch s = s\<lparr>watchAccepted := watch\<rparr>"

definition ResetSocketSlot :: "int \<Rightarrow> ServerImpl \<Rightarrow> ServerImpl option" where
  "ResetSocketSlot i s = map_option (\<lambda>c. put_sock i (c\<lparr>so_status := SS_INVALID\<rparr>) s) (get_sock i s)"

definition ForceSocketClose :: "'k kernel \<Rightarrow> int \<Rightarrow> 'k sstate \<Rightarrow> 'k sstate option" where
  "ForceSocketClose K i st = (case st of (s, k) \<Rightarrow> do {
     c \<leftarrow> get_sock i s;
     if so_status c = SS_INVALID then Some (s, k)
     else do {
       let k1 = snd (RemoveSocket K (so_fd c) k);
       s1 \<leftarrow> ResetSocketSlot i (s\<lparr>connNum := connNum s - 1\<rparr>);
       Some (s1, sys_close K k1 (so_fd c))
     }
   })"

fun close_from :: "'k kernel \<Rightarrow> nat \<Rightarrow> nat \<Rightarrow> 'k sstate \<Rightarrow> 'k sstate option" where
  "close_from K i 0 st = Some st"
| "close_from K i (Suc n) st = Option.bind (ForceSocketClose K (int i) st) (close_from K (Suc i) n)"

definition ShutDownAllSockets :: "'k kernel \<Rightarrow> 'k sstate \<Rightarrow> 'k sstate option" where
  "ShutDownAllSockets K st =
     map_option (\<lambda>(s, k). (s\<lparr>isRunning := False\<rparr>, k)) (close_from K 0 (nat (maxSocket (fst st))) st)"

text \<open>Returns the slot, or \<open>None\<close> in the inner option for \<open>NULL\<close>.\<close>

definition SetupSocketConnection :: "'k kernel \<Rightarrow> int \<Rightarrow> nat \<Rightarrow> bool \<Rightarrow> 'k sstate \<Rightarrow>
    (int option \<times> 'k sstate) option" where
  "SetupSocketConnection K fd opaque poll st = (case st of (s, k) \<Rightarrow> do {
     c \<leftarrow> get_sock fd s;
     if so_status c \<noteq> SS_INVALID then None
     else do {
       let s1 = put_sock fd (c\<lparr>so_fd := fd, so_opaque := opaque\<rparr>) s;
       let (ok, k1) = (if poll then AddSocket K fd fd False k else (True, k));
       if \<not> ok then do {
         s2 \<leftarrow> ResetSocketSlot fd s1;
         Some (None, (s2, k1))
       }
       else Some (Some fd, (s1, k1))
     }
   })"

definition SendBuffer :: "'k kernel \<Rightarrow> int \<Rightarrow> bytes \<Rightarrow> 'k sstate \<Rightarrow> (int \<times> 'k sstate) option" where
  "SendBuffer K fd buffer st = (case st of (s, k) \<Rightarrow> do {
     c \<leftarrow> get_sock fd s;
     if so_status c = SS_INVALID \<or> so_fd c \<noteq> fd then Some (-2, (s, k))
     else if so_status c = SS_LISTENING then None
     else (case sys_write K k fd buffer of (n0, err, k1) \<Rightarrow>
       if n0 < 0 \<and> \<not> (err = EINTR \<or> err = EAGAIN) then Some (-1, (s, k1))
       else
         let n = (if n0 < 0 then 0 else n0) in
         Some (n, (s, snd (ModifySocket K (so_fd c) fd (n < int (length buffer)) k1))))
   })"

text \<open>Returns the result and the bytes stored at \<open>buffer\<close>.\<close>

definition ReadBuffer :: "'k kernel \<Rightarrow> int \<Rightarrow> int \<Rightarrow> 'k sstate \<Rightarrow> (int \<times> bytes \<times> 'k sstate) option" where
  "ReadBuffer K fd sz st = (case st of (s, k) \<Rightarrow>
     if \<not> (0 \<le> fd \<and> fd \<le> maxSocket s) then None
     else do {
       c \<leftarrow> get_sock fd s;
       if sz = 0 then None
       else if so_status c = SS_INVALID then None
       else (case sys_read K k fd sz of (n, d, err, k1) \<Rightarrow>
         let k2 = snd (ModifySocket K (so_fd c) fd False k1) in
         if n < 0 then (if err = EINTR \<or> err = EAGAIN then Some (0, d, (s, k2)) else Some (-1, d, (s, k2)))
         else if n = 0 then Some (-1, d, (s, k2))
         else Some (n, d, (s, k2)))
     })"

definition TryConnectTo :: "'k kernel \<Rightarrow> int \<Rightarrow> addrinfo \<Rightarrow> 'k \<Rightarrow> int \<times> 'k" where
  "TryConnectTo K fd ai k = (case sys_connect K k fd ai of (status, err, k1) \<Rightarrow>
     if status \<noteq> 0 \<and> err \<noteq> EINPROGRESS then (-1, k1) else if status = 0 then (1, k1) else (2, k1))"

definition TryListenTo :: "'k kernel \<Rightarrow> int \<Rightarrow> addrinfo \<Rightarrow> 'k \<Rightarrow> int \<times> 'k" where
  "TryListenTo K fd ai k = (case sys_setsockopt_reuse K k fd of (ret, k1) \<Rightarrow>
     if ret = -1 then (-1, k1)
     else (case sys_bind K k1 fd ai of (ret2, k2) \<Rightarrow>
       if ret2 = -1 then (-1, k2)
       else (case sys_listen K k2 fd 64 of (ret3, k3) \<Rightarrow> if ret3 = -1 then (-1, k3) else (1, k3))))"

text \<open>The loop over \<open>ai_list\<close>: the first address on which \<open>proc\<close> succeeds, with its socket and status.\<close>

fun try_addrs :: "'k kernel \<Rightarrow> (int \<Rightarrow> addrinfo \<Rightarrow> 'k \<Rightarrow> int \<times> 'k) \<Rightarrow> addrinfo list \<Rightarrow> 'k \<Rightarrow>
    (addrinfo \<times> int \<times> int) option \<times> 'k" where
  "try_addrs K proc [] k = (None, k)"
| "try_addrs K proc (ai # ais) k = (case sys_socket K k ai of (sock, k1) \<Rightarrow>
     if sock < 0 then try_addrs K proc ais k1
     else (case proc sock ai k1 of (status, k2) \<Rightarrow>
       if status > 0 then (Some (ai, sock, status), k2)
       else try_addrs K proc ais (sys_close K k2 sock)))"

definition AllocSocketFd :: "'k kernel \<Rightarrow> (int \<Rightarrow> addrinfo \<Rightarrow> 'k \<Rightarrow> int \<times> 'k) \<Rightarrow> string \<Rightarrow> string \<Rightarrow> 'k \<Rightarrow>
    (addrinfo \<times> int \<times> int) option \<times> 'k" where
  "AllocSocketFd K proc host port k = (case sys_getaddrinfo K k host port of (status, ais, k1) \<Rightarrow>
     if status \<noteq> 0 then (None, k1) else try_addrs K proc ais k1)"

text \<open>\<open>sprintf\<close> with the format \<open>%d\<close>.\<close>

definition int_text :: "int \<Rightarrow> string" where
  "int_text p = (if p < 0 then ''-'' @ dec (nat (- p)) else dec (nat p))"

definition ConnectTo :: "'k kernel \<Rightarrow> string \<Rightarrow> int \<Rightarrow> nat \<Rightarrow> 'k sstate \<Rightarrow> (int option \<times> 'k sstate) option" where
  "ConnectTo K host port opaque st = (case st of (s, k) \<Rightarrow>
     (case AllocSocketFd K (TryConnectTo K) host (int_text port) k of
        (None, k1) \<Rightarrow> Some (None, (s, k1))
      | (Some (ai, sock, status), k1) \<Rightarrow> do {
          (slot, (s1, k2)) \<leftarrow> SetupSocketConnection K sock opaque True (s, k1);
          i \<leftarrow> slot;
          c \<leftarrow> get_sock i s1;
          if status = 1
          then Some (Some i, (put_sock i (c\<lparr>so_buff := ai, so_status := SS_CONNECTED\<rparr>) s1, k2))
          else Some (Some i, (put_sock i (c\<lparr>so_status := SS_CONNECTING\<rparr>) s1,
                 snd (ModifySocket K (so_fd c) i True k2)))
        }))"

definition ListenTo :: "'k kernel \<Rightarrow> string \<Rightarrow> int \<Rightarrow> 'k \<Rightarrow> int \<times> 'k" where
  "ListenTo K host port k = (case AllocSocketFd K (TryListenTo K) host (int_text port) k of
     (None, k1) \<Rightarrow> (-1, k1) | (Some (ai, fd, status), k1) \<Rightarrow> (fd, k1))"

definition ServerImpl_ListenTo :: "'k kernel \<Rightarrow> string \<Rightarrow> int \<Rightarrow> nat \<Rightarrow> 'k sstate \<Rightarrow> (int \<times> 'k sstate) option" where
  "ServerImpl_ListenTo K host port opaque st = (case st of (s, k) \<Rightarrow>
     (case ListenTo K host port k of (fd, k1) \<Rightarrow>
       if fd < 0 then Some (-1, (s, k1))
       else do {
         (slot, (s1, k2)) \<leftarrow> SetupSocketConnection K fd opaque True (s, k1);
         i \<leftarrow> slot;
         c \<leftarrow> get_sock i s1;
         Some (fd, (put_sock i (c\<lparr>so_status := SS_LISTENING\<rparr>) s1, k2))
       }))"

definition CloseSocket :: "'k kernel \<Rightarrow> int \<Rightarrow> 'k sstate \<Rightarrow> (bool \<times> 'k sstate) option" where
  "CloseSocket K fd st = (case st of (s, k) \<Rightarrow> do {
     c \<leftarrow> get_sock fd s;
     if so_status c = SS_INVALID \<or> so_fd c \<noteq> fd then Some (False, (s, k))
     else map_option (\<lambda>st'. (True, st')) (ForceSocketClose K fd (s, k))
   })"

definition WatchSocket :: "'k kernel \<Rightarrow> int \<Rightarrow> bool \<Rightarrow> 'k sstate \<Rightarrow> (bool \<times> 'k sstate) option" where
  "WatchSocket K fd listen st = (case st of (s, k) \<Rightarrow> do {
     c \<leftarrow> get_sock fd s;
     if so_status c = SS_PACCEPT \<or> so_status c = SS_INVALID
     then (case AddSocket K (so_fd c) fd False k of (ok, k1) \<Rightarrow>
       if \<not> ok then map_option (\<lambda>s1. (False, (s1, k1))) (ResetSocketSlot fd s)
       else if so_status c = SS_PACCEPT \<or> (\<not> listen \<and> so_status c = SS_INVALID)
       then Some (True, (put_sock fd (c\<lparr>so_status := SS_CONNECTED\<rparr>) s, k1))
       else Some (True, (put_sock fd (c\<lparr>so_status := SS_LISTENING\<rparr>) s, k1)))
     else Some (False, (s, k))
   })"

definition WatchRawSocket :: "'k kernel \<Rightarrow> int \<Rightarrow> bool \<Rightarrow> 'k sstate \<Rightarrow> (bool \<times> 'k sstate) option" where
  "WatchRawSocket K fd listen st = (case st of (s, k) \<Rightarrow> do {
     c \<leftarrow> get_sock fd s;
     if so_status c \<noteq> SS_INVALID then Some (False, (s, k))
     else do {
       let s1 = put_sock fd (c\<lparr>so_fd := fd, so_status := (if listen then SS_LISTENING else SS_CONNECTED)\<rparr>) s;
       let (ok, k1) = AddSocket K fd fd False k;
       if \<not> ok then map_option (\<lambda>s2. (False, (s2, k1))) (ResetSocketSlot fd s1)
       else Some (True, (s1, k1))
     }
   })"

definition UnwatchSocket :: "'k kernel \<Rightarrow> int \<Rightarrow> 'k sstate \<Rightarrow> (bool \<times> 'k sstate) option" where
  "UnwatchSocket K fd st = (case st of (s, k) \<Rightarrow> do {
     c \<leftarrow> get_sock fd s;
     if so_status c = SS_INVALID then Some (False, (s, k))
     else (case RemoveSocket K fd k of (ok, k1) \<Rightarrow>
       if \<not> ok then Some (False, (s, k1))
       else map_option (\<lambda>s1. (True, (s1, k1))) (ResetSocketSlot fd s))
   })"

definition HandleConnectDone :: "'k kernel \<Rightarrow> int \<Rightarrow> 'k sstate \<Rightarrow> (SocketCode \<times> 'k sstate) option" where
  "HandleConnectDone K i st = (case st of (s, k) \<Rightarrow> do {
     c \<leftarrow> get_sock i s;
     (case sys_getsockopt_error K k (so_fd c) of (code, error, k1) \<Rightarrow>
       if code < 0 \<or> error \<noteq> 0 then Some (SC_FAIL_CONN, (s, k1))
       else
         let k2 = snd (ModifySocket K (so_fd c) i False k1) in
         (case sys_getpeername K k2 (so_fd c) of (peer, k3) \<Rightarrow>
           Some (SC_CONNECTED, (put_sock i (c\<lparr>so_status := SS_CONNECTED,
              so_buff := (case peer of Some p \<Rightarrow> p | None \<Rightarrow> so_buff c)\<rparr>) s, k3))))
   })"

text \<open>\<open>conn\<close> is a reference: on an accept error the caller's value stays.\<close>

definition HandleAcceptReady :: "'k kernel \<Rightarrow> int \<Rightarrow> int option \<Rightarrow> 'k sstate \<Rightarrow>
    (SocketCode \<times> int option \<times> 'k sstate) option" where
  "HandleAcceptReady K i conn st = (case st of (s, k) \<Rightarrow> do {
     c \<leftarrow> get_sock i s;
     (case sys_accept K k (so_fd c) of (client_fd, peer, k1) \<Rightarrow>
       if client_fd < 0 then Some (SC_ERROR, conn, (s, k1))
       else do {
         (slot, (s1, k2)) \<leftarrow> SetupSocketConnection K client_fd (so_opaque c) (watchAccepted s)
                               (s\<lparr>connNum := connNum s + 1\<rparr>, k1);
         j \<leftarrow> slot;
         n \<leftarrow> get_sock j s1;
         Some (SC_SUCC, Some j, (put_sock j (n\<lparr>so_status := (if watchAccepted s then SS_CONNECTED else SS_PACCEPT),
                so_buff := peer\<rparr>) s1, k2))
       })
   })"

definition WaitPollerIfNecessary :: "'k kernel \<Rightarrow> 'k sstate \<Rightarrow> int \<times> 'k sstate" where
  "WaitPollerIfNecessary K st = (case st of (s, k) \<Rightarrow>
     if pollEventIndex s \<noteq> pollEventNum s then (1, (s, k))
     else (case WaitAll K (pollEvent s) (nat (maxSocket s)) k of (n, ve, k1) \<Rightarrow>
       let s1 = s\<lparr>pollEvent := ve, pollEventIndex := 0\<rparr> in
       if n > 0 then (1, (s1\<lparr>pollEventNum := n\<rparr>, k1)) else (-1, (s1\<lparr>pollEventNum := 0\<rparr>, k1))))"

text \<open>One round of the inner loop. \<open>junk\<close> is the value of the uninitialised \<open>evt.code\<close>, which stays
  when the event reports neither readiness.\<close>

definition handle_poll_event :: "'k kernel \<Rightarrow> SocketCode \<Rightarrow> PollEvent \<Rightarrow> 'k sstate \<Rightarrow> 'k sstate option" where
  "handle_poll_event K junk event st = (case st of (s, k) \<Rightarrow> do {
     c \<leftarrow> get_sock (pe_data event) s;
     (case so_status c of
        SS_CONNECTING \<Rightarrow> do {
          (code, (s1, k1)) \<leftarrow> HandleConnectDone K (pe_data event) (s, k);
          Some (s1\<lparr>read_write_queue := read_write_queue s1 @ [\<lparr>ev_code = code, ev_conn = Some (pe_data event)\<rparr>]\<rparr>, k1)
        }
      | SS_LISTENING \<Rightarrow> do {
          (ret, conn, (s1, k1)) \<leftarrow> HandleAcceptReady K (pe_data event) (Some (pe_data event)) (s, k);
          Some (if ret = SC_SUCC
                then s1\<lparr>accept_queue := accept_queue s1 @ [\<lparr>ev_code = SC_ACCEPTED, ev_conn = conn\<rparr>]\<rparr> else s1, k1)
        }
      | SS_INVALID \<Rightarrow> Some (s, k)
      | _ \<Rightarrow>
          Some (s\<lparr>read_write_queue := read_write_queue s @
            [\<lparr>ev_code = (if pe_read event then SC_READ else if pe_write event then SC_WRITE else junk),
              ev_conn = Some (pe_data event)\<rparr>]\<rparr>, k))
   })"

text \<open>The inner loop, over the \<open>n\<close> events that are left.\<close>

fun drain_events :: "'k kernel \<Rightarrow> SocketCode \<Rightarrow> nat \<Rightarrow> 'k sstate \<Rightarrow> 'k sstate option" where
  "drain_events K junk 0 st = Some st"
| "drain_events K junk (Suc n) (s, k) =
     (if 0 \<le> pollEventIndex s \<and> pollEventIndex s < int (length (pollEvent s))
      then Option.bind (handle_poll_event K junk (pollEvent s ! nat (pollEventIndex s))
             (s\<lparr>pollEventIndex := pollEventIndex s + 1\<rparr>, k)) (drain_events K junk n)
      else None)"

partial_function (option) RunPoll :: "'k kernel \<Rightarrow> SocketCode \<Rightarrow> 'k sstate \<Rightarrow> (SocketEvent \<times> 'k sstate) res option" where
  "RunPoll K junk st = (case st of (s, k) \<Rightarrow>
     (case accept_queue s of
        e # q \<Rightarrow> Some (Val (e, (s\<lparr>accept_queue := q\<rparr>, k)))
      | [] \<Rightarrow> (case read_write_queue s of
            e # q \<Rightarrow> Some (Val (e, (s\<lparr>read_write_queue := q\<rparr>, k)))
          | [] \<Rightarrow> (case WaitPollerIfNecessary K (s, k) of (ret, (s1, k1)) \<Rightarrow>
                if ret < 0 then RunPoll K junk (s1, k1)
                else rbind (lift (drain_events K junk (nat (pollEventNum s1 - pollEventIndex s1)) (s1, k1)))
                       (RunPoll K junk)))))"

definition StartServer :: "ServerImpl \<Rightarrow> ServerImpl" where
  "StartServer s = (if isRunning s then s else s\<lparr>isRunning := True\<rparr>)"

definition StopServer :: "'k kernel \<Rightarrow> 'k sstate \<Rightarrow> 'k sstate option" where
  "StopServer K st = (if \<not> isRunning (fst st) then Some st else ShutDownAllSockets K st)"

section \<open>The calls of a connection\<close>

text \<open>\<open>SocketConnection::ReadBuffer\<close>, \<open>SendBuffer\<close> and \<open>CloseConnection\<close> on slot \<open>i\<close> pass the slot's
  descriptor to the server.\<close>

definition conn_read :: "'k kernel \<Rightarrow> 'k sstate \<Rightarrow> int \<Rightarrow> int \<Rightarrow> (int \<times> bytes \<times> 'k sstate) option" where
  "conn_read K st i sz = Option.bind (get_sock i (fst st)) (\<lambda>c. ReadBuffer K (so_fd c) sz st)"

definition conn_send :: "'k kernel \<Rightarrow> 'k sstate \<Rightarrow> int \<Rightarrow> bytes \<Rightarrow> (int \<times> 'k sstate) option" where
  "conn_send K st i buff = Option.bind (get_sock i (fst st)) (\<lambda>c. SendBuffer K (so_fd c) buff st)"

definition conn_close :: "'k kernel \<Rightarrow> 'k sstate \<Rightarrow> int \<Rightarrow> 'k sstate option" where
  "conn_close K st i = Option.bind (get_sock i (fst st)) (\<lambda>c. map_option snd (CloseSocket K (so_fd c) st))"

definition sock_ops :: "'k kernel \<Rightarrow> 'k sstate conn_ops" where
  "sock_ops K = \<lparr>c_read = conn_read K, c_send = conn_send K, c_close = conn_close K\<rparr>"

section \<open>The table of sockets\<close>

lemma get_sock_put [simp]:
  "get_sock i (put_sock j c s) = (if i = j \<and> get_sock j s \<noteq> None then Some c else get_sock i s)"
  by (auto simp: get_sock_def put_sock_def nth_list_update)

lemma put_sock_fields [simp]:
  "maxSocket (put_sock j c s) = maxSocket s" "connNum (put_sock j c s) = connNum s"
  "length (sockets (put_sock j c s)) = length (sockets s)" "watchAccepted (put_sock j c s) = watchAccepted s"
  "accept_queue (put_sock j c s) = accept_queue s" "read_write_queue (put_sock j c s) = read_write_queue s"
  "pollEventIndex (put_sock j c s) = pollEventIndex s" "pollEvent (put_sock j c s) = pollEvent s"
  by (simp_all add: put_sock_def)

lemma get_sock_update [simp]:
  "get_sock i (s\<lparr>connNum := n\<rparr>) = get_sock i s" "get_sock i (s\<lparr>accept_queue := q\<rparr>) = get_sock i s"
  "get_sock i (s\<lparr>read_write_queue := q\<rparr>) = get_sock i s" "get_sock i (s\<lparr>pollEventIndex := x\<rparr>) = get_sock i s"
  "get_sock i (s\<lparr>pollEventNum := x\<rparr>) = get_sock i s" "get_sock i (s\<lparr>pollEvent := pe\<rparr>) = get_sock i s"
  "get_sock i (s\<lparr>isRunning := b\<rparr>) = get_sock i s" "get_sock i (s\<lparr>watchAccepted := b\<rparr>) = get_sock i s"
  by (simp_all add: get_sock_def)

text \<open>Every slot in use carries its own index as its descriptor, and the table has the declared size.\<close>

definition slots_ok :: "ServerImpl \<Rightarrow> bool" where
  "slots_ok s \<longleftrightarrow> maxSocket s = int (length (sockets s)) \<and>
     (\<forall>i c. get_sock i s = Some c \<longrightarrow> so_status c \<noteq> SS_INVALID \<longrightarrow> so_fd c = i)"

lemma slots_ok_init: "slots_ok (ServerImpl_init junk pe)"
  by (auto simp: slots_ok_def ServerImpl_init_def get_sock_def nat_less_iff)

text \<open>The calls a program may make on the server and on its connections, each with the states it leads to.
  \<open>CallPoll\<close> carries the value of the uninitialised \<open>evt.code\<close>.\<close>

datatype server_call =
    CallStart | CallStop | CallSetWatchAccepted bool
  | CallListen string int nat | CallConnect string int nat
  | CallWatch int bool | CallWatchRaw int bool | CallUnwatch int
  | CallRead int int | CallSend int bytes | CallClose int
  | CallPoll SocketCode

fun server_call1 :: "'k kernel \<Rightarrow> server_call \<Rightarrow> 'k sstate \<Rightarrow> 'k sstate option" where
  "server_call1 K CallStart st = Some (apfst StartServer st)"
| "server_call1 K CallStop st = StopServer K st"
| "server_call1 K (CallSetWatchAccepted b) st = Some (apfst (SetWatchAcceptedSock b) st)"
| "server_call1 K (CallListen host port op) st = map_option snd (ServerImpl_ListenTo K host port op st)"
| "server_call1 K (CallConnect host port op) st = map_option snd (ConnectTo K host port op st)"
| "server_call1 K (CallWatch fd l) st = map_option snd (WatchSocket K fd l st)"
| "server_call1 K (CallWatchRaw fd l) st = map_option snd (WatchRawSocket K fd l st)"
| "server_call1 K (CallUnwatch fd) st = map_option snd (UnwatchSocket K fd st)"
| "server_call1 K (CallRead i sz) st = map_option (\<lambda>(n, d, st'). st') (conn_read K st i sz)"
| "server_call1 K (CallSend i d) st = map_option snd (conn_send K st i d)"
| "server_call1 K (CallClose i) st = conn_close K st i"
| "server_call1 K (CallPoll junk) st = (case RunPoll K junk st of Some (Val (e, st')) \<Rightarrow> Some st' | _ \<Rightarrow> None)"

fun server_calls :: "'k kernel \<Rightarrow> server_call list \<Rightarrow> 'k sstate \<Rightarrow> 'k sstate option" where
  "server_calls K [] st = Some st"
| "server_calls K (c # cs) st = Option.bind (server_call1 K c st) (server_calls K cs)"

lemma server_calls_append: "server_calls K (xs @ ys) st = Option.bind (server_calls K xs st) (server_calls K ys)"
  by (induction xs arbitrary: st) (auto split: bind_splits)

text \<open>What every call but \<open>WatchSocket\<close> does to a slot: it gives the slot its own descriptor, or it keeps the descriptor
  and does not bring the slot into use.\<close>

definition slot_step :: "int \<Rightarrow> SocketConnection \<Rightarrow> SocketConnection \<Rightarrow> bool" where
  "slot_step i c c' \<longleftrightarrow> so_fd c' = i \<or> so_fd c' = so_fd c \<and> (so_status c \<noteq> SS_INVALID \<or> so_status c' = SS_INVALID)"

definition tab_step :: "ServerImpl \<Rightarrow> ServerImpl \<Rightarrow> bool" where
  "tab_step s s' \<longleftrightarrow> (\<forall>i. rel_option (slot_step i) (get_sock i s) (get_sock i s'))"

lemma tab_step_refl [simp, intro]: "tab_step s s"
  by (auto simp: tab_step_def slot_step_def intro: option.rel_refl)

lemma tab_step_trans [trans]:
  assumes "tab_step s s1" and "tab_step s1 s2"
  shows "tab_step s s2"
  unfolding tab_step_def
proof
  fix i
  have "rel_option (slot_step i) (get_sock i s) (get_sock i s1)" "rel_option (slot_step i) (get_sock i s1) (get_sock i s2)"
    using assms by (auto simp: tab_step_def)
  then show "rel_option (slot_step i) (get_sock i s) (get_sock i s2)"
    by (cases "get_sock i s"; cases "get_sock i s1"; cases "get_sock i s2") (auto simp: slot_step_def)
qed

lemma tab_step_put: "tab_step s s1 \<Longrightarrow> get_sock i s1 = Some c \<Longrightarrow> slot_step i c c' \<Longrightarrow> tab_step s (put_sock i c' s1)"
  by (rule tab_step_trans) (auto simp: tab_step_def slot_step_def intro: option.rel_refl)

lemma tab_step_update [simp]:
  "tab_step s (s'\<lparr>connNum := n\<rparr>) = tab_step s s'" "tab_step s (s'\<lparr>accept_queue := q\<rparr>) = tab_step s s'"
  "tab_step s (s'\<lparr>read_write_queue := q\<rparr>) = tab_step s s'" "tab_step s (s'\<lparr>pollEventIndex := x\<rparr>) = tab_step s s'"
  "tab_step s (s'\<lparr>pollEventNum := x\<rparr>) = tab_step s s'" "tab_step s (s'\<lparr>pollEvent := pe\<rparr>) = tab_step s s'"
  "tab_step s (s'\<lparr>isRunning := b\<rparr>) = tab_step s s'" "tab_step s (s'\<lparr>watchAccepted := b\<rparr>) = tab_step s s'"
  "tab_step (s\<lparr>connNum := n\<rparr>) s' = tab_step s s'" "tab_step (s\<lparr>pollEventIndex := x\<rparr>) s' = tab_step s s'"
  by (simp_all add: tab_step_def)

lemma ResetSocketSlot_tab: "ResetSocketSlot i s = Some s' \<Longrightarrow> tab_step s s'"
  by (auto simp: ResetSocketSlot_def slot_step_def intro!: tab_step_put)

lemma Setup_tab:
  assumes "SetupSocketConnection K fd op poll (s, k) = Some (slot, (s', k'))"
  shows "tab_step s s'" and "slot = Some j \<Longrightarrow> j = fd \<and> (\<exists>c. get_sock fd s' = Some c \<and> so_fd c = fd)"
proof -
  obtain c where c: "get_sock fd s = Some c" "so_status c = SS_INVALID"
    using assms by (auto simp: SetupSocketConnection_def bind_eq_Some_conv split: if_splits)
  have ok: "tab_step s (put_sock fd (c\<lparr>so_fd := fd, so_opaque := op\<rparr>) s)"
    using c by (intro tab_step_put) (auto simp: slot_step_def)
  show "tab_step s s'" "slot = Some j \<Longrightarrow> j = fd \<and> (\<exists>c. get_sock fd s' = Some c \<and> so_fd c = fd)"
    using assms c ok
    by (auto simp: SetupSocketConnection_def bind_eq_Some_conv Let_def split: if_splits prod.splits
        dest: ResetSocketSlot_tab intro: tab_step_trans)
qed

lemma ForceSocketClose_tab: "ForceSocketClose K i (s, k) = Some (s', k') \<Longrightarrow> tab_step s s'"
  by (auto simp: ForceSocketClose_def bind_eq_Some_conv Let_def split: if_splits dest!: ResetSocketSlot_tab)

lemma close_from_tab: "close_from K i n (s, k) = Some (s', k') \<Longrightarrow> tab_step s s'"
  by (induction n arbitrary: i s k)
    (auto simp: bind_eq_Some_conv dest!: ForceSocketClose_tab intro: tab_step_trans)

lemma WatchRawSocket_tab:
  assumes "WatchRawSocket K fd l (s, k) = Some (b, (s', k'))"
  shows "tab_step s s'"
proof -
  obtain c where c: "get_sock fd s = Some c" using assms by (auto simp: WatchRawSocket_def bind_eq_Some_conv)
  have "tab_step s (put_sock fd (c\<lparr>so_fd := fd, so_status := x\<rparr>) s)" for x
    using c by (intro tab_step_put) (auto simp: slot_step_def)
  then show ?thesis using assms c
    by (auto simp: WatchRawSocket_def Let_def split: if_splits prod.splits dest!: ResetSocketSlot_tab intro: tab_step_trans)
qed

lemma handle_poll_event_tab:
  assumes "handle_poll_event K junk ev (s, k) = Some (s', k')"
  shows "tab_step s s'"
proof -
  obtain c where c: "get_sock (pe_data ev) s = Some c" using assms by (auto simp: handle_poll_event_def bind_eq_Some_conv)
  show ?thesis
  proof (cases "so_status c")
    case SS_LISTENING
    then obtain ret conn s1 where a: "HandleAcceptReady K (pe_data ev) (Some (pe_data ev)) (s, k) = Some (ret, conn, (s1, k'))"
      and s': "tab_step s s' = tab_step s s1"
      using assms c by (auto simp: handle_poll_event_def bind_eq_Some_conv)
    have "tab_step s s1" using a c
      by (auto simp: HandleAcceptReady_def bind_eq_Some_conv slot_step_def split: if_splits prod.splits
          intro!: tab_step_put dest: Setup_tab)
    then show ?thesis using s' by simp
  next
    case SS_CONNECTING
    then show ?thesis using assms c
      by (auto simp: handle_poll_event_def HandleConnectDone_def bind_eq_Some_conv Let_def slot_step_def
          split: if_splits prod.splits intro!: tab_step_put)
  qed (use assms c in \<open>auto simp: handle_poll_event_def\<close>)
qed

lemma drain_events_tab: "drain_events K junk n (s, k) = Some (s', k') \<Longrightarrow> tab_step s s'"
proof (induction n arbitrary: s k)
  case (Suc n)
  then obtain s1 k1 where "handle_poll_event K junk (pollEvent s ! nat (pollEventIndex s)) (s\<lparr>pollEventIndex := pollEventIndex s + 1\<rparr>, k)
      = Some (s1, k1)" "drain_events K junk n (s1, k1) = Some (s', k')"
    by (auto simp: bind_eq_Some_conv split: if_splits)
  from handle_poll_event_tab [OF this(1)] Suc.IH [OF this(2)] show ?case by (simp add: tab_step_trans)
qed simp

lemma WaitPoller_tab: "WaitPollerIfNecessary K (s, k) = (ret, (s', k')) \<Longrightarrow> tab_step s s'"
  by (auto simp: WaitPollerIfNecessary_def Let_def split: if_splits prod.splits)

lemma RunPoll_tab: "RunPoll K junk st = Some r \<Longrightarrow> (case r of Val (e, st') \<Rightarrow> tab_step (fst st) (fst st') | _ \<Rightarrow> True)"
proof (rule RunPoll.raw_induct [rotated], assumption)
  fix F and K :: "'a kernel" and junk st r
  assume IH: "\<And>K junk st r. F K junk st = Some r \<Longrightarrow> (case r of Val (e, st') \<Rightarrow> tab_step (fst st) (fst st') | _ \<Rightarrow> True)"
    and run: "(case st of (s, k) \<Rightarrow>
     (case accept_queue s of
        e # q \<Rightarrow> Some (Val (e, (s\<lparr>accept_queue := q\<rparr>, k)))
      | [] \<Rightarrow> (case read_write_queue s of
            e # q \<Rightarrow> Some (Val (e, (s\<lparr>read_write_queue := q\<rparr>, k)))
          | [] \<Rightarrow> (case WaitPollerIfNecessary K (s, k) of (ret, (s1, k1)) \<Rightarrow>
                if ret < 0 then F K junk (s1, k1)
                else rbind (lift (drain_events K junk (nat (pollEventNum s1 - pollEventIndex s1)) (s1, k1))) (F K junk))))) = Some r"
  obtain s k where st: "st = (s, k)" by (cases st)
  obtain ret s1 k1 where w: "WaitPollerIfNecessary K (s, k) = (ret, (s1, k1))" by (cases "WaitPollerIfNecessary K (s, k)") auto
  note t1 = WaitPoller_tab [OF w]
  show "case r of Val (e, st') \<Rightarrow> tab_step (fst st) (fst st') | _ \<Rightarrow> True"
  proof (cases "accept_queue s = [] \<and> read_write_queue s = []")
    case True
    show ?thesis
    proof (cases "ret < 0")
      case True
      then have "F K junk (s1, k1) = Some r" using run \<open>accept_queue s = [] \<and> _\<close> by (simp add: st w)
      from IH [OF this] t1 show ?thesis by (auto simp: st split: res.splits intro: tab_step_trans)
    next
      case False
      then have "rbind (lift (drain_events K junk (nat (pollEventNum s1 - pollEventIndex s1)) (s1, k1))) (F K junk) = Some r"
        using run True by (simp add: st w)
      then consider "r = Crash" | s2 k2 where "drain_events K junk (nat (pollEventNum s1 - pollEventIndex s1)) (s1, k1) = Some (s2, k2)" "F K junk (s2, k2) = Some r"
        by (auto simp: rbind_eq_Some lift_def split: option.splits)
      then show ?thesis
      proof cases
        case 2
        from IH [OF 2(2)] drain_events_tab [OF 2(1)] t1 show ?thesis by (auto simp: st split: res.splits intro: tab_step_trans)
      qed simp
    qed
  next
    case False
    then show ?thesis using run by (auto simp: st split: list.splits)
  qed
qed

lemma ConnectTo_tab: "ConnectTo K host port op (s, k) = Some (p, (s', k')) \<Longrightarrow> tab_step s s'"
  by (auto simp: ConnectTo_def bind_eq_Some_conv slot_step_def split: if_splits prod.splits option.splits
      intro!: tab_step_put dest: Setup_tab)

lemma ListenTo_tab: "ServerImpl_ListenTo K host port op (s, k) = Some (n, (s', k')) \<Longrightarrow> tab_step s s'"
  by (auto simp: ServerImpl_ListenTo_def bind_eq_Some_conv slot_step_def split: if_splits prod.splits
      intro!: tab_step_put dest: Setup_tab)

lemma quiet_calls_tab:
  "SendBuffer K fd d (s, k) = Some (n, (s', k')) \<Longrightarrow> tab_step s s'"
  "ReadBuffer K fd sz (s, k) = Some (m, b, (s', k')) \<Longrightarrow> tab_step s s'"
  "UnwatchSocket K fd (s, k) = Some (ok, (s', k')) \<Longrightarrow> tab_step s s'"
  "CloseSocket K fd (s, k) = Some (ok, (s', k')) \<Longrightarrow> tab_step s s'"
  "StopServer K (s, k) = Some (s', k') \<Longrightarrow> tab_step s s'"
  by (auto simp: SendBuffer_def ReadBuffer_def UnwatchSocket_def CloseSocket_def StopServer_def ShutDownAllSockets_def
      bind_eq_Some_conv Let_def split: if_splits prod.splits dest: ResetSocketSlot_tab ForceSocketClose_tab close_from_tab)

text \<open>\<open>WatchSocket\<close> also brings a free slot into use, under the descriptor the slot has.\<close>

lemma WatchSocket_tab:
  assumes "WatchSocket K fd l (s, k) = Some (b, (s', k'))"
  shows "rel_option (\<lambda>c c'. slot_step i c c' \<or> i = fd \<and> so_status c = SS_INVALID \<and> so_fd c' = so_fd c) (get_sock i s) (get_sock i s')"
  using assms
  by (cases "get_sock i s")
    (auto simp: WatchSocket_def ResetSocketSlot_def bind_eq_Some_conv slot_step_def rel_option_iff split: if_splits prod.splits option.splits)

lemma server_call1_slot:
  assumes "server_call1 K c (s, k) = Some (s', k')"
  shows "rel_option (\<lambda>d d'. slot_step i d d' \<or> (\<exists>l. c = CallWatch i l) \<and> so_status d = SS_INVALID \<and> so_fd d' = so_fd d) (get_sock i s) (get_sock i s')"
proof (cases "\<exists>fd l. c = CallWatch fd l")
  case True
  then obtain fd l b where c: "c = CallWatch fd l" "WatchSocket K fd l (s, k) = Some (b, (s', k'))" using assms by auto
  from WatchSocket_tab [OF c(2), of i] show ?thesis by (rule option.rel_mono_strong) (auto simp: c(1))
next
  case False
  then have "tab_step s s'"
    using assms
    by (cases c)
      (auto simp: StartServer_def SetWatchAcceptedSock_def conn_read_def conn_send_def conn_close_def bind_eq_Some_conv
        split: option.splits res.splits prod.splits
        dest: quiet_calls_tab ConnectTo_tab ListenTo_tab WatchRawSocket_tab RunPoll_tab)
  then have "rel_option (slot_step i) (get_sock i s) (get_sock i s')" by (simp add: tab_step_def)
  then show ?thesis by (rule option.rel_mono_strong) simp
qed

section \<open>The connection interface\<close>

text \<open>A slot a client may use: set up, not a listening socket, on a kernel that behaves.\<close>

definition sock_live :: "'k kernel \<Rightarrow> ('k \<Rightarrow> int \<Rightarrow> bytes) \<Rightarrow> 'k sstate \<Rightarrow> int \<Rightarrow> bool" where
  "sock_live K out st i \<longleftrightarrow> kernel_ok K out \<and> maxSocket (fst st) = int (length (sockets (fst st))) \<and>
     (case get_sock i (fst st) of None \<Rightarrow> False
      | Some c \<Rightarrow> so_fd c = i \<and> so_status c \<noteq> SS_INVALID \<and> so_status c \<noteq> SS_LISTENING)"

definition sock_sent :: "('k \<Rightarrow> int \<Rightarrow> bytes) \<Rightarrow> 'k sstate \<Rightarrow> int \<Rightarrow> bytes" where
  "sock_sent out st i = out (snd st) i"

lemma sock_liveE:
  assumes "sock_live K out (s, k) i"
  obtains c where "kernel_ok K out" "get_sock i s = Some c" "so_fd c = i" "so_status c \<noteq> SS_INVALID"
    "so_status c \<noteq> SS_LISTENING" "0 \<le> i" "i \<le> maxSocket s"
proof -
  obtain c where c: "get_sock i s = Some c" using assms by (auto simp: sock_live_def split: option.splits)
  then have "0 \<le> i" "i \<le> maxSocket s" using assms by (auto simp: sock_live_def get_sock_def split: if_splits)
  with c assms show thesis by (intro that [of c]) (auto simp: sock_live_def)
qed

lemma conn_read_ok:
  assumes "sock_live K out st i" and "0 < n"
  shows "\<exists>r d st'. conn_read K st i n = Some (r, d, st') \<and> sock_live K out st' i \<and> sock_sent out st' i = sock_sent out st i \<and>
     r \<le> n \<and> int (length d) = max r 0"
proof -
  obtain s k where st: "st = (s, k)" by (cases st)
  obtain c where c: "kernel_ok K out" "get_sock i s = Some c" "so_fd c = i" "so_status c \<noteq> SS_INVALID"
    "so_status c \<noteq> SS_LISTENING" "0 \<le> i" "i \<le> maxSocket s" using assms(1) st by (auto elim: sock_liveE)
  obtain m d e k1 where r: "sys_read K k i n = (m, d, e, k1)" by (cases "sys_read K k i n") auto
  then have law: "m \<le> n" "int (length d) = max m 0" "out k1 = out k" using c(1) assms(2) by (auto simp: kernel_ok_def)
  have keep: "sock_live K out (s, k2) i" for k2 using assms(1) st by (simp add: sock_live_def)
  show ?thesis
    using st c r law keep assms(2) poller_out(3) [OF c(1), of i i False k1]
    by (auto simp: conn_read_def ReadBuffer_def sock_sent_def Let_def)
qed

lemma conn_send_ok:
  assumes "sock_live K out st i"
  shows "\<exists>r st'. conn_send K st i d = Some (r, st') \<and> sock_live K out st' i \<and> r \<le> int (length d) \<and>
     sock_sent out st' i = sock_sent out st i @ take (nat r) d"
proof -
  obtain s k where st: "st = (s, k)" by (cases st)
  obtain c where c: "kernel_ok K out" "get_sock i s = Some c" "so_fd c = i" "so_status c \<noteq> SS_INVALID"
    "so_status c \<noteq> SS_LISTENING" using assms st by (auto elim: sock_liveE)
  obtain m e k1 where r: "sys_write K k i d = (m, e, k1)" by (cases "sys_write K k i d") auto
  then have law: "m \<le> int (length d)" "out k1 i = out k i @ take (nat m) d" using c(1) by (auto simp: kernel_ok_def)
  have keep: "sock_live K out (s, k2) i" for k2 using assms st by (simp add: sock_live_def)
  show ?thesis
    using st c r law keep poller_out(3) [OF c(1)]
    by (auto simp: conn_send_def SendBuffer_def sock_sent_def Let_def)
qed

lemma conn_close_ok:
  assumes "sock_live K out st i"
  shows "\<exists>st'. conn_close K st i = Some st' \<and> sock_sent out st' i = sock_sent out st i"
proof -
  obtain s k where st: "st = (s, k)" by (cases st)
  obtain c where c: "kernel_ok K out" "get_sock i s = Some c" "so_fd c = i" "so_status c \<noteq> SS_INVALID"
    using assms st by (auto elim: sock_liveE)
  have "out (sys_close K k1 i) = out k1" for k1 using c(1) by (simp add: kernel_ok_def)
  then show ?thesis using st c poller_out(2) [OF c(1), of i k]
    by (auto simp: conn_close_def CloseSocket_def ForceSocketClose_def ResetSocketSlot_def sock_sent_def Let_def)
qed

interpretation sock: connection "sock_ops K" "sock_live K out" "sock_sent out" for K out
  by unfold_locales (unfold sock_ops_def conn_ops.simps, (fact conn_read_ok conn_send_ok conn_close_ok)+)

section \<open>The polling loop\<close>

text \<open>The event reported for a connected socket.\<close>

definition io_event :: "PollEvent \<Rightarrow> SocketEvent" where
  "io_event e = \<lparr>ev_code = (if pe_read e then SC_READ else SC_WRITE), ev_conn = Some (pe_data e)\<rparr>"

definition io_ready :: "ServerImpl \<Rightarrow> PollEvent \<Rightarrow> bool" where
  "io_ready s e \<longleftrightarrow> (pe_read e \<or> pe_write e) \<and>
     (case get_sock (pe_data e) s of None \<Rightarrow> False | Some c \<Rightarrow> so_status c = SS_CONNECTED)"

lemma handle_io_event:
  "io_ready s e \<Longrightarrow> handle_poll_event K junk e (s, k) = Some (s\<lparr>read_write_queue := read_write_queue s @ [io_event e]\<rparr>, k)"
  by (auto simp: io_ready_def handle_poll_event_def io_event_def split: option.splits)

text \<open>A listening socket in the batch, and the event reported for a connection accepted from it.\<close>

definition listens :: "ServerImpl \<Rightarrow> PollEvent \<Rightarrow> bool" where
  "listens s e \<longleftrightarrow> (case get_sock (pe_data e) s of None \<Rightarrow> False | Some c \<Rightarrow> so_status c = SS_LISTENING)"

definition accepted_event :: "int \<Rightarrow> SocketEvent" where
  "accepted_event fd = \<lparr>ev_code = SC_ACCEPTED, ev_conn = Some fd\<rparr>"

text \<open>What the kernel is asked for a batch: for every event of a listening socket, in order, one \<open>accept\<close> and, when it gives a
  descriptor and accepted sockets are watched, its registration. The result is the accepted descriptors and the kernel's state.\<close>

fun accept_run :: "'k kernel \<Rightarrow> ServerImpl \<Rightarrow> PollEvent list \<Rightarrow> 'k \<Rightarrow> int list \<times> 'k" where
  "accept_run K s [] k = ([], k)"
| "accept_run K s (e # es) k =
     (case get_sock (pe_data e) s of
        None \<Rightarrow> accept_run K s es k
      | Some c \<Rightarrow>
          if so_status c \<noteq> SS_LISTENING then accept_run K s es k
          else (case sys_accept K k (so_fd c) of (n, peer, k1) \<Rightarrow>
            if n < 0 then accept_run K s es k1
            else apfst (Cons n) (accept_run K s es (if watchAccepted s then snd (AddSocket K n n False k1) else k1))))"

text \<open>What POSIX documents of \<open>accept\<close>: a new descriptor is one that was not open (\<open>fds k\<close> are the open ones) and lies below the
  limit of the process, which is the size of the table. Registering a new descriptor is taken to succeed.\<close>

definition accept_ok :: "'k kernel \<Rightarrow> ('k \<Rightarrow> int set) \<Rightarrow> int \<Rightarrow> bool" where
  "accept_ok K fds limit \<longleftrightarrow>
     (\<forall>k fd n p k'. sys_accept K k fd = (n, p, k') \<longrightarrow>
        (if n < 0 then fds k' = fds k else n < limit \<and> n \<notin> fds k \<and> fds k' = insert n (fds k))) \<and>
     (\<forall>k fd fl d n k'. sys_epoll_ctl K k EPOLL_CTL_ADD fd fl d = (n, k') \<longrightarrow> n \<noteq> -1 \<and> fds k' = fds k)"

text \<open>Successive calls of \<open>RunPoll\<close>, with the events they return.\<close>

fun run_polls :: "'k kernel \<Rightarrow> SocketCode \<Rightarrow> nat \<Rightarrow> 'k sstate \<Rightarrow> (SocketEvent list \<times> 'k sstate) option" where
  "run_polls K junk 0 st = Some ([], st)"
| "run_polls K junk (Suc n) st = (case RunPoll K junk st of
     Some (Val (e, st1)) \<Rightarrow> map_option (apfst (Cons e)) (run_polls K junk n st1)
   | _ \<Rightarrow> None)"

text \<open>While a batch is handled the slots in use stay as they are, and the slots of closed descriptors stay free.\<close>

definition during_batch :: "('k \<Rightarrow> int set) \<Rightarrow> ServerImpl \<Rightarrow> 'k sstate \<Rightarrow> bool" where
  "during_batch fds s st \<longleftrightarrow> (case st of (s1, k1) \<Rightarrow>
     length (sockets s1) = length (sockets s) \<and> watchAccepted s1 = watchAccepted s \<and>
     (\<forall>i c. get_sock i s = Some c \<longrightarrow> so_status c \<noteq> SS_INVALID \<longrightarrow> get_sock i s1 = Some c) \<and>
     (\<forall>i c. get_sock i s1 = Some c \<longrightarrow> i \<notin> fds k1 \<longrightarrow> so_status c = SS_INVALID))"

lemma during_batch_update [simp]:
  "during_batch fds s (s1\<lparr>pollEventIndex := x\<rparr>, k) = during_batch fds s (s1, k)"
  "during_batch fds s (s1\<lparr>read_write_queue := q\<rparr>, k) = during_batch fds s (s1, k)"
  "during_batch fds s (s1\<lparr>accept_queue := q\<rparr>, k) = during_batch fds s (s1, k)"
  by (simp_all add: during_batch_def)

lemma during_batch_slot:
  "during_batch fds s (s1, k1) \<Longrightarrow> get_sock i s = Some c \<Longrightarrow> so_status c \<noteq> SS_INVALID \<Longrightarrow> get_sock i s1 = Some c"
  unfolding during_batch_def prod.case by blast

lemma during_batch_free: "during_batch fds s (s1, k1) \<Longrightarrow> get_sock i s1 = Some c \<Longrightarrow> i \<notin> fds k1 \<Longrightarrow> so_status c = SS_INVALID"
  unfolding during_batch_def prod.case by blast

lemma during_batchI:
  assumes "length (sockets s1) = length (sockets s)" and "watchAccepted s1 = watchAccepted s"
    and "\<And>i c. get_sock i s = Some c \<Longrightarrow> so_status c \<noteq> SS_INVALID \<Longrightarrow> get_sock i s1 = Some c"
    and "\<And>i c. get_sock i s1 = Some c \<Longrightarrow> i \<notin> fds k1 \<Longrightarrow> so_status c = SS_INVALID"
  shows "during_batch fds s (s1, k1)"
  using assms unfolding during_batch_def prod.case by blast

lemma handle_accept_event:
  assumes law: "accept_ok K fds (int (length (sockets s)))" and b: "during_batch fds s (s1, k1)"
    and c: "get_sock (pe_data e) s = Some c" "so_status c = SS_LISTENING" and a: "accept_run K s [e] k1 = (ds, k2)"
  shows "\<exists>s2. handle_poll_event K junk e (s1, k1) = Some (s2, k2) \<and> during_batch fds s (s2, k2) \<and>
     accept_queue s2 = accept_queue s1 @ map accepted_event ds \<and> read_write_queue s2 = read_write_queue s1 \<and>
     pollEvent s2 = pollEvent s1 \<and> pollEventIndex s2 = pollEventIndex s1 \<and> pollEventNum s2 = pollEventNum s1"
proof -
  have c1: "get_sock (pe_data e) s1 = Some c" using during_batch_slot [OF b c(1)] c(2) by simp
  obtain n peer k where acc: "sys_accept K k1 (so_fd c) = (n, peer, k)" by (cases "sys_accept K k1 (so_fd c)") auto
  show ?thesis
  proof (cases "n < 0")
    case True
    then have "fds k = fds k1" using law acc by (auto simp: accept_ok_def split: if_splits)
    then have "during_batch fds s (s1, k)" using b unfolding during_batch_def prod.case by metis
    moreover have "ds = []" "k2 = k" using a c acc True by auto
    ultimately show ?thesis using True c c1 acc by (simp add: handle_poll_event_def HandleAcceptReady_def)
  next
    case False
    then have n: "n < int (length (sockets s))" "n \<notin> fds k1" "fds k = insert n (fds k1)"
      using law acc by (auto simp: accept_ok_def split: if_splits)
    have "\<exists>d. get_sock n s1 = Some d" using n(1) False b by (auto simp: get_sock_def during_batch_def)
    then obtain d where d: "get_sock n s1 = Some d" by blast
    have inv: "so_status d = SS_INVALID" using b d n(2) by (auto simp: during_batch_def)
    let ?w = "watchAccepted s"
    have k2: "k2 = (if ?w then snd (AddSocket K n n False k) else k)" and ds: "ds = [n]" using a c acc False by auto
    have add: "fst (AddSocket K n n False k)" "fds (snd (AddSocket K n n False k)) = fds k"
      using law by (auto simp: AddSocket_def accept_ok_def split: prod.splits)
    then have su: "SetupSocketConnection K n (so_opaque c) ?w (s1\<lparr>connNum := connNum s1 + 1\<rparr>, k) =
        Some (Some n, (put_sock n (d\<lparr>so_fd := n, so_opaque := so_opaque c\<rparr>) (s1\<lparr>connNum := connNum s1 + 1\<rparr>), k2))"
      using d inv k2 by (auto simp: SetupSocketConnection_def Let_def split: prod.splits)
    have w: "watchAccepted s1 = ?w" using b by (simp add: during_batch_def)
    let ?s1 = "put_sock n (d\<lparr>so_fd := n, so_opaque := so_opaque c\<rparr>) (s1\<lparr>connNum := connNum s1 + 1\<rparr>)"
    let ?s2 = "put_sock n (d\<lparr>so_fd := n, so_opaque := so_opaque c, so_status := (if ?w then SS_CONNECTED else SS_PACCEPT), so_buff := peer\<rparr>) ?s1"
    have h: "handle_poll_event K junk e (s1, k1) = Some (?s2\<lparr>accept_queue := accept_queue ?s2 @ [accepted_event n]\<rparr>, k2)"
      using c c1 acc False su d by (simp add: handle_poll_event_def HandleAcceptReady_def w accepted_event_def)
    have f: "fds k2 = insert n (fds k1)" using k2 add(2) n(3) by simp
    have "during_batch fds s (?s2, k2)"
    proof (rule during_batchI)
      show "length (sockets ?s2) = length (sockets s)" "watchAccepted ?s2 = watchAccepted s" using b by (simp_all add: during_batch_def)
      show "get_sock i ?s2 = Some x" if x: "get_sock i s = Some x" "so_status x \<noteq> SS_INVALID" for i x
      proof -
        have "get_sock i s1 = Some x" using during_batch_slot [OF b] x by blast
        moreover from this have "i \<noteq> n" using d inv x(2) by auto
        ultimately show ?thesis by simp
      qed
      show "so_status x = SS_INVALID" if x: "get_sock i ?s2 = Some x" "i \<notin> fds k2" for i x
      proof -
        have "i \<noteq> n" "i \<notin> fds k1" using x(2) f by simp_all
        then show ?thesis using during_batch_free [OF b, of i x] x(1) by simp
      qed
    qed
    with h ds show ?thesis by (intro exI [of _ "?s2\<lparr>accept_queue := accept_queue ?s2 @ [accepted_event n]\<rparr>"]) (simp add: put_sock_def)
  qed
qed

lemma accept_run_Cons:
  assumes "accept_run K s (e # es) k = (ds, k2)"
  obtains as k1 bs where "accept_run K s [e] k = (as, k1)" "accept_run K s es k1 = (bs, k2)" "ds = as @ bs"
proof -
  obtain as k1 where a: "accept_run K s [e] k = (as, k1)" by fastforce
  obtain bs k3 where b: "accept_run K s es k1 = (bs, k3)" by fastforce
  have "accept_run K s (e # es) k = (as @ bs, k3)"
    using a b by (auto split: option.splits if_splits prod.splits)
  with assms a b show thesis by (auto intro: that)
qed

lemma drain_batch:
  assumes law: "accept_ok K fds (int (length (sockets s)))"
    and "during_batch fds s (s1, k1)" and "pollEventIndex s1 = int j" and "j + n \<le> length (pollEvent s1)"
    and "\<forall>e \<in> set (take n (drop j (pollEvent s1))). io_ready s e \<or> listens s e"
    and "accept_run K s (take n (drop j (pollEvent s1))) k1 = (ds, k2)"
  shows "\<exists>s2. drain_events K junk n (s1, k1) = Some (s2, k2) \<and> during_batch fds s (s2, k2) \<and>
     accept_queue s2 = accept_queue s1 @ map accepted_event ds \<and>
     read_write_queue s2 = read_write_queue s1 @ map io_event (filter (io_ready s) (take n (drop j (pollEvent s1)))) \<and>
     pollEventIndex s2 = int (j + n) \<and> pollEventNum s2 = pollEventNum s1"
  using assms(2-)
proof (induction n arbitrary: s1 k1 j ds)
  case (Suc n)
  let ?e = "pollEvent s1 ! j" and ?s = "s1\<lparr>pollEventIndex := int (Suc j)\<rparr>"
  have split: "take (Suc n) (drop j (pollEvent s1)) = ?e # take n (drop (Suc j) (pollEvent s1))"
    using Suc.prems(3) by (simp add: Cons_nth_drop_Suc [symmetric])
  obtain as k bs where run: "accept_run K s [?e] k1 = (as, k)" "accept_run K s (take n (drop (Suc j) (pollEvent s1))) k = (bs, k2)" "ds = as @ bs"
    using Suc.prems(5) unfolding split by (rule accept_run_Cons)
  have e: "io_ready s ?e \<or> listens s ?e" using Suc.prems(4) split by simp
  have b: "during_batch fds s (?s, k1)" using Suc.prems(1) by simp
  have "\<exists>s2. handle_poll_event K junk ?e (?s, k1) = Some (s2, k) \<and> during_batch fds s (s2, k) \<and>
     accept_queue s2 = accept_queue s1 @ map accepted_event as \<and>
     read_write_queue s2 = read_write_queue s1 @ map io_event (filter (io_ready s) [?e]) \<and>
     pollEvent s2 = pollEvent s1 \<and> pollEventIndex s2 = int (Suc j) \<and> pollEventNum s2 = pollEventNum s1"
  proof (cases "listens s ?e")
    case True
    then obtain c where c: "get_sock (pe_data ?e) s = Some c" "so_status c = SS_LISTENING"
      by (auto simp: listens_def split: option.splits)
    then have "\<not> io_ready s ?e" by (simp add: io_ready_def)
    with handle_accept_event [OF law b c run(1)] show ?thesis by auto
  next
    case False
    then have ready: "io_ready s ?e" using e by simp
    then obtain c where c: "get_sock (pe_data ?e) s = Some c" "so_status c = SS_CONNECTED"
      by (auto simp: io_ready_def split: option.splits)
    then have "io_ready ?s ?e" using ready during_batch_slot [OF Suc.prems(1) c(1)] by (simp add: io_ready_def)
    from handle_io_event [OF this, of K junk k1] show ?thesis using b ready run(1) c by auto
  qed
  then obtain s2 where s2: "handle_poll_event K junk ?e (?s, k1) = Some (s2, k)" "during_batch fds s (s2, k)"
    "accept_queue s2 = accept_queue s1 @ map accepted_event as"
    "read_write_queue s2 = read_write_queue s1 @ map io_event (filter (io_ready s) [?e])"
    "pollEvent s2 = pollEvent s1" "pollEventIndex s2 = int (Suc j)" "pollEventNum s2 = pollEventNum s1" by blast
  have "drain_events K junk (Suc n) (s1, k1) = drain_events K junk n (s2, k)"
    using Suc.prems(2,3) s2(1) by (simp add: add.commute)
  moreover have "\<exists>s3. drain_events K junk n (s2, k) = Some (s3, k2) \<and> during_batch fds s (s3, k2) \<and>
     accept_queue s3 = accept_queue s2 @ map accepted_event bs \<and>
     read_write_queue s3 = read_write_queue s2 @ map io_event (filter (io_ready s) (take n (drop (Suc j) (pollEvent s2)))) \<and>
     pollEventIndex s3 = int (Suc j + n) \<and> pollEventNum s3 = pollEventNum s2"
    using Suc.prems(3,4) run(2) s2 split by (intro Suc.IH) auto
  ultimately show ?case using s2 run(3) unfolding split by (auto simp: map_append [symmetric] simp del: map_append)
qed simp

text \<open>What is queued is returned by the next calls, accepted connections first.\<close>

lemma run_polls_queued:
  "run_polls K junk (length (accept_queue s @ read_write_queue s)) (s, k) =
     Some (accept_queue s @ read_write_queue s, (s\<lparr>accept_queue := [], read_write_queue := []\<rparr>, k))"
proof (induction "length (accept_queue s @ read_write_queue s)" arbitrary: s)
  case 0
  then show ?case by simp
next
  case (Suc n)
  show ?case
  proof (cases "accept_queue s")
    case (Cons e q)
    with Suc.hyps(1) [of "s\<lparr>accept_queue := q\<rparr>"] Suc.hyps(2) show ?thesis by (simp add: RunPoll.simps)
  next
    case Nil
    then obtain e q where "read_write_queue s = e # q" using Suc.hyps(2) by (cases "read_write_queue s") auto
    with Nil Suc.hyps(1) [of "s\<lparr>read_write_queue := q\<rparr>"] Suc.hyps(2) show ?thesis by (simp add: RunPoll.simps)
  qed
qed

lemma run_polls_cong: "RunPoll K junk st = RunPoll K junk st' \<Longrightarrow> 0 < n \<Longrightarrow> run_polls K junk n st = run_polls K junk n st'"
  by (cases n) auto

section \<open>Properties\<close>

text \<open>A program has watched descriptor \<open>i\<close> by \<open>WatchSocket\<close> while its slot was free and still had the descriptor \<open>fd\<close>.\<close>

definition watched_unset :: "'k kernel \<Rightarrow> 'k sstate \<Rightarrow> server_call list \<Rightarrow> int \<Rightarrow> int \<Rightarrow> bool" where
  "watched_unset K st cs i fd \<longleftrightarrow> (\<exists>xs l ys st1 c. cs = xs @ CallWatch i l # ys \<and> server_calls K xs st = Some st1 \<and>
     get_sock i (fst st1) = Some c \<and> so_status c = SS_INVALID \<and> so_fd c = fd)"

lemma watched_unset_more: "watched_unset K st cs i fd \<Longrightarrow> watched_unset K st (cs @ ds) i fd"
  unfolding watched_unset_def by fastforce

lemma slots_after_calls:
  assumes "server_calls K cs (ServerImpl_init junk pe, k) = Some (s, k')" and "get_sock i s = Some c"
  shows "so_fd c = i \<or> so_fd c = so_fd (junk ! nat i) \<and>
     (so_status c \<noteq> SS_INVALID \<longrightarrow> watched_unset K (ServerImpl_init junk pe, k) cs i (so_fd (junk ! nat i)))"
  using assms
proof (induction cs arbitrary: s k' c rule: rev_induct)
  case Nil
  then show ?case by (auto simp: ServerImpl_init_def get_sock_def nat_less_iff split: if_splits)
next
  case (snoc a cs)
  let ?st = "(ServerImpl_init junk pe, k)" and ?fd = "so_fd (junk ! nat i)"
  obtain s1 k1 where st1: "server_calls K cs ?st = Some (s1, k1)" "server_call1 K a (s1, k1) = Some (s, k')"
    using snoc.prems(1) by (auto simp: server_calls_append bind_eq_Some_conv)
  obtain d where d: "get_sock i s1 = Some d"
    "slot_step i d c \<or> (\<exists>l. a = CallWatch i l) \<and> so_status d = SS_INVALID \<and> so_fd c = so_fd d"
    using server_call1_slot [OF st1(2), of i] snoc.prems(2) by (auto simp: option_rel_Some2)
  note ih = snoc.IH [OF st1(1) d(1)]
  from d(2) show ?case
  proof
    assume "slot_step i d c"
    with ih show ?case by (auto simp: slot_step_def intro: watched_unset_more)
  next
    assume w: "(\<exists>l. a = CallWatch i l) \<and> so_status d = SS_INVALID \<and> so_fd c = so_fd d"
    then have "watched_unset K ?st (cs @ [a]) i (so_fd d)" using st1(1) d(1) unfolding watched_unset_def by fastforce
    with ih w show ?case by auto
  qed
qed

text \<open>
  C10. Whatever sequence of calls a program makes on the server and its connections after the construction, whatever the
  kernel answers and whatever the constructor left in the table, every slot in use carries its own descriptor, so that the calls through
  the slot reach the socket it stands for. The one exception is a slot the program handed to \<open>WatchSocket\<close> before it was
  ever set up: it keeps the indeterminate descriptor the constructor left there.
\<close>

theorem slots_reachable:
  assumes "server_calls K cs (ServerImpl_init junk pe, k) = Some (s, k')"
    and "get_sock i s = Some c" and "so_status c \<noteq> SS_INVALID"
  shows "so_fd c = i \<or>
     so_fd c = so_fd (junk ! nat i) \<and> watched_unset K (ServerImpl_init junk pe, k) cs i (so_fd (junk ! nat i))"
  using slots_after_calls [OF assms(1,2)] assms(3) by blast

text \<open>A kernel without peers, for concrete runs: registrations succeed, a single batch of events waits
  in its state, and what is written is recorded.\<close>

definition quiet_kernel :: "((epoll_flags \<times> int) list \<times> bytes) kernel" where
  "quiet_kernel = \<lparr>sys_write = (\<lambda>(q, out) fd d. (int (length d), EOTHER, (q, out @ d))),
     sys_read = (\<lambda>k fd n. (-1, [], EAGAIN, k)), sys_close = (\<lambda>k fd. k),
     sys_epoll_ctl = (\<lambda>k op fd fl d. (0, k)),
     sys_epoll_wait = (\<lambda>(q, out) n. (int (length q), q, ([], out))),
     sys_accept = (\<lambda>k fd. (-1, [], k)), sys_getsockopt_error = (\<lambda>k fd. (0, 0, k)),
     sys_getpeername = (\<lambda>k fd. (None, k)), sys_getaddrinfo = (\<lambda>k host port. (1, [], k)),
     sys_socket = (\<lambda>k ai. (-1, k)), sys_connect = (\<lambda>k fd ai. (-1, EOTHER, k)),
     sys_setsockopt_reuse = (\<lambda>k fd. (0, k)), sys_bind = (\<lambda>k fd ai. (0, k)), sys_listen = (\<lambda>k fd n. (0, k))\<rparr>"

definition sample_slots :: "SocketConnection list" where
  "sample_slots = replicate 4 \<lparr>so_fd = 77, so_status = SS_INVALID, so_opaque = 0, so_buff = []\<rparr>"

theorem slots_reachable_witness:
  "\<exists>s k c. server_calls quiet_kernel [CallStart, CallWatchRaw 2 True] (ServerImpl_init sample_slots [], ([], [])) = Some (s, k) \<and>
     get_sock 2 s = Some c \<and> so_status c = SS_LISTENING \<and> so_fd c = 2"
proof -
  let ?cs = "[CallStart, CallWatchRaw 2 True]" and ?st = "(ServerImpl_init sample_slots [], ([], []))"
  have "\<exists>s k c. server_calls quiet_kernel ?cs ?st = Some (s, k) \<and> get_sock 2 s = Some c \<and> so_status c = SS_LISTENING"
    by (simp add: StartServer_def WatchRawSocket_def quiet_kernel_def ServerImpl_init_def sample_slots_def get_sock_def put_sock_def
        AddSocket_def numeral_eq_Suc Let_def)
  then obtain s k c where w: "server_calls quiet_kernel ?cs ?st = Some (s, k)"
    and c: "get_sock 2 s = Some c" "so_status c = SS_LISTENING" by blast
  have "\<not> watched_unset quiet_kernel ?st ?cs 2 fd" for fd by (auto simp: watched_unset_def Cons_eq_append_conv append_eq_Cons_conv)
  then have "so_fd c = 2" using slots_reachable [OF w c(1)] c(2) by auto
  with w c show ?thesis by blast
qed

text \<open>The exception is real: \<open>WatchSocket\<close> on a slot that was never set up registers whatever the constructor left there.\<close>

lemma watch_unset_slot:
  "\<exists>s k c. server_calls quiet_kernel [CallWatch 2 False] (ServerImpl_init sample_slots [], ([], [])) = Some (s, k) \<and>
     get_sock 2 s = Some c \<and> so_status c = SS_CONNECTED \<and> so_fd c = 77"
  by (simp add: WatchSocket_def quiet_kernel_def ServerImpl_init_def sample_slots_def get_sock_def put_sock_def
      AddSocket_def numeral_eq_Suc Let_def)

text \<open>
  C9. A batch of readiness events is delivered completely, accepted connections first. Suppose that nothing is queued and the previous
  batch is used up, that \<open>epoll_wait\<close> reports a batch of events of connected sockets (readable or writable) and of listening
  sockets, that \<open>accept\<close> gives only new descriptors below the size of the table, that registering one succeeds, and that the slots
  of closed descriptors are free. Then, as soon as there is anything to report, the next calls of \<open>RunPoll\<close> return one event for each connection that was accepted, in
  the order of the accepts, and after them one event for each connected socket of the batch, in the order
  in which the kernel reported them, where read readiness wins over write readiness. They leave nothing queued, ask the kernel for nothing but the accepts and the
  registrations, and leave every slot that was in use as it was. Events of sockets that are being connected, of
  free slots and of accepted sockets that are not watched yet are not part of such a batch.
\<close>

theorem RunPoll_batch:
  assumes q: "accept_queue s = []" "read_write_queue s = []" "pollEventIndex s = pollEventNum s"
    and wait: "sys_epoll_wait K k (nat (maxSocket s)) = (int (length evs), evs, k')"
    and ready: "\<forall>e \<in> set evs. io_ready s (poll_event e) \<or> listens s (poll_event e)"
    and law: "accept_ok K fds (int (length (sockets s)))"
    and free: "\<forall>i c. get_sock i s = Some c \<longrightarrow> i \<notin> fds k' \<longrightarrow> so_status c = SS_INVALID"
    and acc: "accept_run K s (map poll_event evs) k' = (ds, k2)"
    and out: "out = map accepted_event ds @ map io_event (filter (io_ready s) (map poll_event evs))" "out \<noteq> []"
  shows "\<exists>s'. run_polls K junk (length out) (s, k) = Some (out, (s', k2)) \<and>
     accept_queue s' = [] \<and> read_write_queue s' = [] \<and> pollEventIndex s' = pollEventNum s' \<and>
     (\<forall>i c. get_sock i s = Some c \<longrightarrow> so_status c \<noteq> SS_INVALID \<longrightarrow> get_sock i s' = Some c)"
proof -
  let ?n = "length evs"
  define ve where "ve = map poll_event evs @ drop ?n (pollEvent s)"
  let ?s1 = "s\<lparr>pollEvent := ve, pollEventIndex := 0, pollEventNum := int ?n\<rparr>"
  have ne: "evs \<noteq> []" using out acc by auto
  have w: "WaitPollerIfNecessary K (s, k) = (1, (?s1, k'))"
    using q(3) wait ne by (simp add: WaitPollerIfNecessary_def WaitAll_def ve_def)
  have tk: "take ?n (drop 0 (pollEvent ?s1)) = map poll_event evs" by (simp add: ve_def)
  have b: "during_batch fds s (?s1, k')" using free by (simp add: during_batch_def)
  have "\<exists>s2. drain_events K junk ?n (?s1, k') = Some (s2, k2) \<and> during_batch fds s (s2, k2) \<and>
     accept_queue s2 = accept_queue ?s1 @ map accepted_event ds \<and>
     read_write_queue s2 = read_write_queue ?s1 @ map io_event (filter (io_ready s) (take ?n (drop 0 (pollEvent ?s1)))) \<and>
     pollEventIndex s2 = int (0 + ?n) \<and> pollEventNum s2 = pollEventNum ?s1"
    by (rule drain_batch [OF law b]) (use ready acc tk in \<open>auto simp: ve_def\<close>)
  then obtain s2 where s2: "drain_events K junk ?n (?s1, k') = Some (s2, k2)" "during_batch fds s (s2, k2)"
    "accept_queue s2 @ read_write_queue s2 = out" "pollEventIndex s2 = pollEventNum s2"
    unfolding tk using q out(1) by auto
  have "RunPoll K junk (s, k) = RunPoll K junk (s2, k2)"
    using q w s2(1) by (subst RunPoll.simps) simp
  then have "run_polls K junk (length out) (s, k) = run_polls K junk (length out) (s2, k2)" using out(2) by (intro run_polls_cong) auto
  also have "\<dots> = Some (out, (s2\<lparr>accept_queue := [], read_write_queue := []\<rparr>, k2))" using run_polls_queued [of K junk s2 k2] s2(3) by simp
  finally show ?thesis using s2(4) during_batch_slot [OF s2(2)] by (intro exI [of _ "s2\<lparr>accept_queue := [], read_write_queue := []\<rparr>"]) simp
qed

definition busy_server :: "SocketStatus \<Rightarrow> ServerImpl" where
  "busy_server stat = (ServerImpl_init sample_slots [])
     \<lparr>sockets := sample_slots[1 := \<lparr>so_fd = 1, so_status = stat, so_opaque = 0, so_buff = []\<rparr>], watchAccepted := True\<rparr>"

lemma busy_server_slot [simp]:
  "get_sock 1 (busy_server stat) = Some \<lparr>so_fd = 1, so_status = stat, so_opaque = 0, so_buff = []\<rparr>"
  "get_sock 2 (busy_server stat) = Some \<lparr>so_fd = 77, so_status = SS_INVALID, so_opaque = 0, so_buff = []\<rparr>"
  by (simp_all add: busy_server_def get_sock_def sample_slots_def numeral_eq_Suc)

lemma busy_server_fields [simp]:
  "accept_queue (busy_server stat) = []" "read_write_queue (busy_server stat) = []"
  "pollEventIndex (busy_server stat) = 0" "pollEventNum (busy_server stat) = 0" "watchAccepted (busy_server stat)"
  "maxSocket (busy_server stat) = 4" "length (sockets (busy_server stat)) = 4" "connNum (busy_server stat) = 0"
  by (simp_all add: busy_server_def ServerImpl_init_def sample_slots_def)

text \<open>A kernel whose \<open>accept\<close> hands out the descriptors in its state one after the other; the open ones are the others.\<close>

definition handing_kernel :: "((epoll_flags \<times> int) list \<times> int list) kernel" where
  "handing_kernel = \<lparr>sys_write = (\<lambda>k fd d. (int (length d), EOTHER, k)),
     sys_read = (\<lambda>k fd n. (-1, [], EAGAIN, k)), sys_close = (\<lambda>k fd. k),
     sys_epoll_ctl = (\<lambda>k op fd fl d. (0, k)),
     sys_epoll_wait = (\<lambda>(q, fs) n. (int (length q), q, ([], fs))),
     sys_accept = (\<lambda>(q, fs) fd. case filter (\<lambda>f. 0 \<le> f \<and> f < 4) fs of [] \<Rightarrow> (-1, [], (q, fs)) | f # _ \<Rightarrow> (f, ''peer'', (q, filter (\<lambda>g. g \<noteq> f) fs))),
     sys_getsockopt_error = (\<lambda>k fd. (0, 0, k)),
     sys_getpeername = (\<lambda>k fd. (None, k)), sys_getaddrinfo = (\<lambda>k host port. (1, [], k)),
     sys_socket = (\<lambda>k ai. (-1, k)), sys_connect = (\<lambda>k fd ai. (-1, EOTHER, k)),
     sys_setsockopt_reuse = (\<lambda>k fd. (0, k)), sys_bind = (\<lambda>k fd ai. (0, k)), sys_listen = (\<lambda>k fd n. (0, k))\<rparr>"

definition mixed_server :: ServerImpl where
  "mixed_server = (busy_server SS_CONNECTED)
     \<lparr>sockets := (sockets (busy_server SS_CONNECTED))[0 := \<lparr>so_fd = 0, so_status = SS_LISTENING, so_opaque = 0, so_buff = []\<rparr>]\<rparr>"

lemma mixed_server_slots:
  "get_sock 0 mixed_server = Some \<lparr>so_fd = 0, so_status = SS_LISTENING, so_opaque = 0, so_buff = []\<rparr>"
  "get_sock 1 mixed_server = Some \<lparr>so_fd = 1, so_status = SS_CONNECTED, so_opaque = 0, so_buff = []\<rparr>"
  by (simp_all add: mixed_server_def busy_server_def get_sock_def sample_slots_def numeral_eq_Suc)

lemma mixed_server_free:
  assumes "get_sock i mixed_server = Some c" and "i \<noteq> 0" and "i \<noteq> 1"
  shows "so_status c = SS_INVALID"
proof -
  have "i = 2 \<or> i = 3" using assms by (auto simp: get_sock_def mixed_server_def split: if_splits)
  then show ?thesis using assms(1)
    by (auto simp: get_sock_def mixed_server_def busy_server_def sample_slots_def numeral_eq_Suc split: if_splits)
qed

lemma handing_kernel_ok: "accept_ok handing_kernel (\<lambda>(q, fs). - set fs) 4"
  by (auto simp: accept_ok_def handing_kernel_def split: list.splits if_splits
      dest: filter_eq_ConsD)

theorem RunPoll_batch_witness:
  "\<exists>s'. run_polls handing_kernel SC_ERROR 3 (mixed_server, ([(5, 1), (1, 0), (4, 1)], [2, 3])) =
       Some ([\<lparr>ev_code = SC_ACCEPTED, ev_conn = Some 2\<rparr>, \<lparr>ev_code = SC_READ, ev_conn = Some 1\<rparr>, \<lparr>ev_code = SC_WRITE, ev_conn = Some 1\<rparr>],
         (s', ([], [3]))) \<and> accept_queue s' = [] \<and> read_write_queue s' = []"
proof -
  let ?evs = "[(5, 1), (1, 0), (4, 1)] :: (epoll_flags \<times> int) list" and ?k = "([], [2, 3]) :: (epoll_flags \<times> int) list \<times> int list"
  let ?out = "[accepted_event 2, io_event (poll_event (5, 1)), io_event (poll_event (4, 1))]"
  have p: "poll_event (5, 1) = \<lparr>pe_data = 1, pe_read = True, pe_write = True\<rparr>"
    "poll_event (1, 0) = \<lparr>pe_data = 0, pe_read = True, pe_write = False\<rparr>"
    "poll_event (4, 1) = \<lparr>pe_data = 1, pe_read = False, pe_write = True\<rparr>"
    by (simp_all add: poll_event_def EPOLLIN_def EPOLLOUT_def)
  have f: "pollEventIndex mixed_server = pollEventNum mixed_server" "accept_queue mixed_server = []" "read_write_queue mixed_server = []"
    "watchAccepted mixed_server" "length (sockets mixed_server) = 4"
    by (simp_all add: mixed_server_def)
  have ev: "io_ready mixed_server (poll_event (5, 1))" "\<not> io_ready mixed_server (poll_event (1, 0))" "io_ready mixed_server (poll_event (4, 1))"
    "listens mixed_server (poll_event (1, 0))"
    by (simp_all add: p io_ready_def listens_def mixed_server_slots)
  have "\<exists>s'. run_polls handing_kernel SC_ERROR (length ?out) (mixed_server, (?evs, [2, 3])) = Some (?out, (s', ([], [3]))) \<and>
     accept_queue s' = [] \<and> read_write_queue s' = [] \<and> pollEventIndex s' = pollEventNum s' \<and>
     (\<forall>i c. get_sock i mixed_server = Some c \<longrightarrow> so_status c \<noteq> SS_INVALID \<longrightarrow> get_sock i s' = Some c)"
  proof (rule RunPoll_batch [OF f(2,3,1), where evs = ?evs and k' = ?k and fds = "\<lambda>(q, fs). - set fs" and ds = "[2]"])
    show "accept_ok handing_kernel (\<lambda>(q, fs). - set fs) (int (length (sockets mixed_server)))" using handing_kernel_ok f(5) by simp
    show "\<forall>i c. get_sock i mixed_server = Some c \<longrightarrow> i \<notin> (\<lambda>(q, fs). - set fs) ?k \<longrightarrow> so_status c = SS_INVALID"
      using mixed_server_free by auto
    show "accept_run handing_kernel mixed_server (map poll_event ?evs) ?k = ([2], ([], [3]))"
      by (simp add: p mixed_server_slots f(4) handing_kernel_def AddSocket_def)
  qed (use ev in \<open>simp_all add: handing_kernel_def\<close>)
  then show ?thesis by (auto simp: p io_event_def accepted_event_def numeral_3_eq_3)
qed

text \<open>What Linux documents of one-shot registrations: only \<open>epoll_ctl\<close> on a descriptor arms it.\<close>

definition oneshot_ok :: "'k kernel \<Rightarrow> ('k \<Rightarrow> int \<Rightarrow> bool) \<Rightarrow> bool" where
  "oneshot_ok K armed \<longleftrightarrow>
     (\<forall>k fd n p k'. sys_accept K k fd = (n, p, k') \<longrightarrow> armed k' = armed k) \<and>
     (\<forall>k op fd fl d n k' x. sys_epoll_ctl K k op fd fl d = (n, k') \<longrightarrow> x \<noteq> fd \<longrightarrow> armed k' x = armed k x)"

text \<open>
  A listening socket is accepted from once: every registration is one-shot, and handling an accept
  event does not register the listening socket again, so after the kernel has disarmed it to report the
  event it stays disarmed, whether or not the accept succeeds.
\<close>

theorem listen_not_rearmed:
  assumes ok: "oneshot_ok K armed" and c: "get_sock (pe_data ev) s = Some c" "so_status c = SS_LISTENING"
    and off: "\<not> armed k (pe_data ev)"
    and run: "handle_poll_event K junk ev (s, k) = Some (s', k')"
  shows "\<not> armed k' (pe_data ev) \<and> get_sock (pe_data ev) s' = Some c"
proof -
  let ?i = "pe_data ev"
  obtain cfd peer k1 where a: "sys_accept K k (so_fd c) = (cfd, peer, k1)" by (cases "sys_accept K k (so_fd c)") auto
  have k1: "armed k1 = armed k" using ok a by (auto simp: oneshot_ok_def)
  show ?thesis
  proof (cases "cfd < 0")
    case True
    then show ?thesis using run c a k1 off by (auto simp: handle_poll_event_def HandleAcceptReady_def)
  next
    case False
    then obtain s1 j n where su: "SetupSocketConnection K cfd (so_opaque c) (watchAccepted s) (s\<lparr>connNum := connNum s + 1\<rparr>, k1)
        = Some (Some j, (s1, k'))" and n: "get_sock j s1 = Some n"
      and s': "get_sock ?i s' = get_sock ?i (put_sock j (n\<lparr>so_status := (if watchAccepted s then SS_CONNECTED else SS_PACCEPT),
                so_buff := peer\<rparr>) s1)"
      using run c a by (auto simp: handle_poll_event_def HandleAcceptReady_def bind_eq_Some_conv split: if_splits)
    obtain d where d: "get_sock cfd s = Some d" "so_status d = SS_INVALID"
      using su by (auto simp: SetupSocketConnection_def bind_eq_Some_conv split: if_splits)
    then have "cfd \<noteq> ?i" using c by auto
    moreover have j: "j = cfd" and s1: "get_sock ?i s1 = get_sock ?i (put_sock cfd (d\<lparr>so_fd := cfd, so_opaque := so_opaque c\<rparr>) s)"
      using su d by (auto simp: SetupSocketConnection_def bind_eq_Some_conv Let_def split: if_splits prod.splits)
    moreover have "armed k' ?i = armed k1 ?i"
      using su d \<open>cfd \<noteq> ?i\<close> ok
      by (auto simp: SetupSocketConnection_def AddSocket_def oneshot_ok_def bind_eq_Some_conv Let_def split: if_splits prod.splits)
    ultimately show ?thesis using s' c k1 off by (auto split: if_splits)
  qed
qed

theorem listen_not_rearmed_witness:
  "\<exists>s' k'. handle_poll_event (quiet_kernel\<lparr>sys_accept := (\<lambda>k fd. (2, ''peer'', k))\<rparr>) SC_ERROR
       \<lparr>pe_data = 1, pe_read = True, pe_write = False\<rparr> (busy_server SS_LISTENING, ([], [])) = Some (s', k') \<and>
     accept_queue s' = [\<lparr>ev_code = SC_ACCEPTED, ev_conn = Some 2\<rparr>] \<and>
     \<not> (\<lambda>(_ :: (epoll_flags \<times> int) list \<times> bytes) fd. fd = 2) k' (1 :: int)"
proof -
  let ?K = "quiet_kernel\<lparr>sys_accept := (\<lambda>k fd. (2, ''peer'', k))\<rparr>"
  let ?e = "\<lparr>pe_data = 1, pe_read = True, pe_write = False\<rparr>"
  have "\<exists>s' k'. handle_poll_event ?K SC_ERROR ?e (busy_server SS_LISTENING, ([], [])) = Some (s', k') \<and>
      accept_queue s' = [\<lparr>ev_code = SC_ACCEPTED, ev_conn = Some 2\<rparr>]"
    by (simp add: handle_poll_event_def HandleAcceptReady_def SetupSocketConnection_def AddSocket_def quiet_kernel_def Let_def)
  then obtain s' k' where h: "handle_poll_event ?K SC_ERROR ?e (busy_server SS_LISTENING, ([], [])) = Some (s', k')"
    "accept_queue s' = [\<lparr>ev_code = SC_ACCEPTED, ev_conn = Some 2\<rparr>]" by blast
  have "oneshot_ok ?K (\<lambda>_ fd. fd = 2)" by (auto simp: oneshot_ok_def quiet_kernel_def)
  from listen_not_rearmed [OF this _ _ _ h(1)] h show ?thesis by auto
qed

text \<open>
  An accepted connection that cannot be registered with the poller stops the server: with accepted
  sockets being watched, a failing \<open>epoll_ctl\<close> makes \<open>SetupSocketConnection\<close> return \<open>NULL\<close>, which
  \<open>HandleAcceptReady\<close> dereferences.
\<close>

theorem accept_unregistered_crash:
  assumes "get_sock (pe_data ev) s = Some c" and "so_status c = SS_LISTENING" and "watchAccepted s"
    and "sys_accept K k (so_fd c) = (cfd, peer, k1)" and "0 \<le> cfd"
    and "sys_epoll_ctl K k1 EPOLL_CTL_ADD cfd (poll_flags False) cfd = (-1, k2)"
  shows "handle_poll_event K junk ev (s, k) = None"
  using assms
  by (auto simp: handle_poll_event_def HandleAcceptReady_def SetupSocketConnection_def AddSocket_def Let_def
      ResetSocketSlot_def split: option.splits bind_split)

theorem accept_unregistered_crash_witness:
  "handle_poll_event (quiet_kernel\<lparr>sys_accept := (\<lambda>k fd. (2, ''peer'', k)), sys_epoll_ctl := (\<lambda>k op fd fl d. (-1, k))\<rparr>) SC_ERROR
     \<lparr>pe_data = 1, pe_read = True, pe_write = False\<rparr> (busy_server SS_LISTENING, ([], [])) = None"
  by (rule accept_unregistered_crash [where cfd = 2 and peer = "''peer''"])
    (auto simp: quiet_kernel_def)

end
