(* ===== verification/HttpServer.thy ===== *)
theory HttpServer
  imports HttpClientRun SocketServer
begin

text \<open>
  \<open>http/HttpServer.{h,cc}\<close>: one client object per descriptor, driven by the events of the socket server.
  The state is the server with its table of clients, the heap of write blocks and the kernel. What the
  objects leave uninitialised and what the C library provides (the date, capacities, whether the
  allocation of a table succeeds) are fields of the environment.
\<close>

record 'k server_env =
  sv_kernel :: "'k kernel"
  sv_malloc :: mallocator
  sv_grow :: grower
  sv_date :: string
  sv_arr_ok :: bool
  sv_cap0 :: nat
  sv_closeConn :: bool
  sv_statusCode :: HttpStatusCode
  sv_code :: SocketCode

definition sv_env :: "'k server_env \<Rightarrow> 'k sstate http_env" where
  "sv_env V = \<lparr>he_malloc = sv_malloc V, he_grow = sv_grow V, he_conn = sock_ops (sv_kernel V)\<rparr>"

record HttpServer =
  hs_stop :: bool
  hs_watching :: bool
  hs_listenFd :: int
  hs_tcpServer :: ServerImpl
  hs_conn :: "HttpClient option list"

type_synonym 'k hsstate = "HttpServer \<times> heap \<times> 'k"

section \<open>The default request handler\<close>

definition page_head :: string where
  \<open>page_head = ''<!DOCTYPE HTML PUBLIC "-//W3C//DTD HTML 1.0 Frameset//EN" "http://www.w3.org/TR/xhtml1/DTD/xhtml1-Frameset.dtd">'' @
     ''<html><head>    <meta http-equiv="Content-Type" content="text/html; charset=gb2312" />'' @
     ''    <title>miliao http server</title></head><body> <p>''\<close>

definition page_tail :: string where
  "page_tail = ''</p>             </body>             </html>''"

fun header_lines :: "smap \<Rightarrow> string" where
  "header_lines [] = []"
| "header_lines ((k, v) # hs) = k @ '':'' @ v @ ''</p>'' @ header_lines hs"

definition page_body :: "HttpRequest \<Rightarrow> string" where
  "page_body req = page_head @ ''Page auto-generated from http request header:'' @ crlf @ ''</p>'' @ ''<p>'' @
     header_lines (rq_httpHeader req) @ ''</p>'' @ ''Body from request: </p> '' @ rq_httpBody req @ page_tail"

definition DefaultHttpRequestHandler :: "string \<Rightarrow> http_handler" where
  "DefaultHttpRequestHandler date req response =
     (let r1 = SetStatusMessage ''OK'' (SetStatusCode HSC_200 (SetShouldResponse True response));
          body = page_body req;
          r2 = SetBody body r1;
          r3 = AddResponseHeader ''Connection'' ''close'' r2;
          r4 = AddResponseHeader ''Host'' ''miliao server'' r3;
          r5 = AddResponseHeader ''Content-Type'' ''text/html;charset=utf-8'' r4;
          r6 = AddResponseHeader ''Content-Length'' (int_text (c_int (int (length body)))) r5;
          r7 = AddResponseHeader ''Date'' date r6
      in SetCloseConn False r7)"

section \<open>Operations\<close>

text \<open>The table of clients is not initialised before \<open>RunServer\<close> (\<open>junk\<close>).\<close>

definition HttpServer_init :: "ServerImpl \<Rightarrow> HttpClient option list \<Rightarrow> HttpServer" where
  "HttpServer_init tcp junk =
     \<lparr>hs_stop = False, hs_watching = False, hs_listenFd = -1, hs_tcpServer = tcp, hs_conn = junk\<rparr>"

definition SetStop :: "HttpServer \<Rightarrow> HttpServer" where
  "SetStop sv = sv\<lparr>hs_stop := True\<rparr>"

definition SetListenSock :: "'k server_env \<Rightarrow> int \<Rightarrow> 'k hsstate \<Rightarrow> 'k hsstate option" where
  "SetListenSock V fd st = (case st of (sv, h, k) \<Rightarrow> do {
     (ok, (tcp, k1)) \<leftarrow> WatchRawSocket (sv_kernel V) fd True (hs_tcpServer sv, k);
     Some (sv\<lparr>hs_listenFd := fd, hs_watching := ok, hs_tcpServer := tcp\<rparr>, h, k1)
   })"

definition get_client :: "int \<Rightarrow> HttpServer \<Rightarrow> HttpClient option option" where
  "get_client i sv = (if 0 \<le> i \<and> i < int (length (hs_conn sv)) then Some (hs_conn sv ! nat i) else None)"

definition put_client :: "int \<Rightarrow> HttpClient \<Rightarrow> HttpServer \<Rightarrow> HttpServer" where
  "put_client i c sv = sv\<lparr>hs_conn := (hs_conn sv)[nat i := Some c]\<rparr>"

text \<open>\<open>if (conn_[id] == NULL) conn_[id] = new HttpClient(DefaultHttpRequestHandler)\<close>.\<close>

definition ensure_client :: "'k server_env \<Rightarrow> int \<Rightarrow> HttpServer \<times> heap \<Rightarrow> (HttpClient \<times> HttpServer \<times> heap) option" where
  "ensure_client V i st = (case st of (sv, h) \<Rightarrow> do {
     slot \<leftarrow> get_client i sv;
     (case slot of
        Some c \<Rightarrow> Some (c, sv, h)
      | None \<Rightarrow> do {
          (c, h1) \<leftarrow> HttpClient_init (sv_env V) (sv_arr_ok V) (sv_cap0 V) (sv_closeConn V) (sv_statusCode V)
                      (Some (DefaultHttpRequestHandler (sv_date V))) h;
          Some (c, put_client i c sv, h1)
        })
   })"

definition PollHandler :: "'k server_env \<Rightarrow> SocketEvent \<Rightarrow> 'k hsstate \<Rightarrow> 'k hsstate res option" where
  "PollHandler V evt st = (case st of (sv, h, k) \<Rightarrow>
     rbind (lift (ev_conn evt)) (\<lambda>i.
     rbind (lift (get_sock i (hs_tcpServer sv))) (\<lambda>so.
     rbind (lift (ensure_client V (so_fd so) (sv, h))) (\<lambda>(c, sv1, h1).
       case ev_code evt of
         SC_READ \<Rightarrow> rbind (ProcessEvent (sv_env V) evt (c, h1, (hs_tcpServer sv1, k))) (\<lambda>(_, (c', h', (tcp, k'))).
           Some (Val ((put_client (so_fd so) c' sv1)\<lparr>hs_tcpServer := tcp\<rparr>, h', k')))
       | SC_WRITE \<Rightarrow> rbind (ProcessEvent (sv_env V) evt (c, h1, (hs_tcpServer sv1, k))) (\<lambda>(_, (c', h', (tcp, k'))).
           Some (Val ((put_client (so_fd so) c' sv1)\<lparr>hs_tcpServer := tcp\<rparr>, h', k')))
       | SC_ACCEPTED \<Rightarrow> rbind (ResetClient (Some i) (c, h1)) (\<lambda>(c', h').
           Some (Val (put_client (so_fd so) c' sv1, h', k)))
       | SC_FAIL_CONN \<Rightarrow> rbind (lift (conn_close (sv_kernel V) (hs_tcpServer sv1, k) i)) (\<lambda>(tcp, k').
           Some (Val (sv1\<lparr>hs_tcpServer := tcp\<rparr>, h1, k')))
       | _ \<Rightarrow> Some (Val (sv1, h1, k))))))"

text \<open>The head of the loop: stop watching the listening socket above seven eighths of the table, watch it
  again at half of it.\<close>

definition adjust_watch :: "'k server_env \<Rightarrow> 'k hsstate \<Rightarrow> 'k hsstate option" where
  "adjust_watch V st = (case st of (sv, h, k) \<Rightarrow>
     let total = maxSocket (hs_tcpServer sv); num_conn = GetConnNumber (hs_tcpServer sv) in
     if hs_watching sv \<and> num_conn > total - total sdiv 8
     then do {
       (ok, (tcp, k1)) \<leftarrow> UnwatchSocket (sv_kernel V) (hs_listenFd sv) (hs_tcpServer sv, k);
       Some (sv\<lparr>hs_watching := \<not> ok, hs_tcpServer := tcp\<rparr>, h, k1)
     }
     else if \<not> hs_watching sv \<and> num_conn \<le> total sdiv 2
     then do {
       (ok, (tcp, k1)) \<leftarrow> WatchRawSocket (sv_kernel V) (hs_listenFd sv) True (hs_tcpServer sv, k);
       Some (sv\<lparr>hs_watching := ok, hs_tcpServer := tcp\<rparr>, h, k1)
     }
     else Some (sv, h, k))"

definition poll_once :: "'k server_env \<Rightarrow> 'k hsstate \<Rightarrow> 'k hsstate res option" where
  "poll_once V st =
     rbind (lift (adjust_watch V st)) (\<lambda>(sv, h, k).
     rbind (RunPoll (sv_kernel V) (sv_code V) (hs_tcpServer sv, k)) (\<lambda>(evt, (tcp, k1)).
       PollHandler V evt (sv\<lparr>hs_tcpServer := tcp\<rparr>, h, k1)))"

partial_function (option) HttpServer_RunPoll :: "'k server_env \<Rightarrow> 'k hsstate \<Rightarrow> 'k hsstate res option" where
  "HttpServer_RunPoll V st =
     (if hs_stop (fst st) then Some (Val st) else rbind (poll_once V st) (HttpServer_RunPoll V))"

definition RunServer :: "'k server_env \<Rightarrow> 'k hsstate \<Rightarrow> 'k hsstate res option" where
  "RunServer V st = (case st of (sv, h, k) \<Rightarrow>
     HttpServer_RunPoll V (sv\<lparr>hs_tcpServer := SetWatchAcceptedSock True (hs_tcpServer sv),
       hs_conn := replicate (length (hs_conn sv)) None\<rparr>, h, k))"

section \<open>Properties\<close>

text \<open>
  C3. Sending on a connection of the socket server never loses, repeats or reorders a byte: whatever the
  kernel accepts in each call, \<open>SendResponse\<close> returns, and the bytes accepted so far followed by those
  still pending are the same before and after; it reports how many were accepted, and the client waits
  for the next request exactly when nothing is pending any more.
\<close>

theorem response_stream_kept:
  assumes "he_conn E = sock_ops K" and "hc_conn c = Some fd" and "sock_live K out st fd" and "hc_inv mal c h as"
  shows "\<exists>n c' h' st' as'. SendResponse E (c, h, st) = Some (Val (n, (c', h', st'))) \<and>
     hc_inv mal c' h' as' \<and> sock_live K out st' fd \<and>
     out (snd st') fd @ pending h' as' = out (snd st) fd @ pending h as \<and>
     (0 \<le> n \<longrightarrow> n = int (length (out (snd st') fd)) - int (length (out (snd st) fd))) \<and>
     hc_evtHandler c' = (if 0 \<le> n \<and> as' = [] then ProcessRequestLine_h else hc_evtHandler c)"
  using connection.SendResponse_spec [OF sock.connection_axioms assms] unfolding sock_sent_def by blast

definition sample_env :: "((epoll_flags \<times> int) list \<times> bytes) sstate http_env" where
  "sample_env = \<lparr>he_malloc = arena_malloc 16, he_grow = (\<lambda>_ n. n), he_conn = sock_ops quiet_kernel\<rparr>"

lemma quiet_kernel_ok: "kernel_ok quiet_kernel (\<lambda>(q, out) fd. out)"
  by (auto simp: kernel_ok_def quiet_kernel_def)

lemma busy_server_live: "sock_live quiet_kernel (\<lambda>(q, out) fd. out) (busy_server SS_CONNECTED, ([], [])) 1"
  by (simp add: sock_live_def quiet_kernel_ok)

definition sample_block :: HttpBuffer where
  "sample_block = \<lparr>hb_size = 1024, hb_curSize = 2, hb_curPtr = 0, hb_next = None, hb_memory = ''hi'' @ replicate 1030 NUL\<rparr>"

definition sending_client :: HttpClient where
  "sending_client = (sample_client SendResponse_h [])\<lparr>hc_conn := Some 1, hc_pendingWrite := \<lparr>hl_head = Some 0, hl_tail = Some 0\<rparr>\<rparr>"

lemma sending_client_inv: "hc_inv (arena_malloc 16) sending_client [0 \<mapsto> sample_block] [0]"
proof -
  have "wb_repr [0 \<mapsto> sample_block] \<lparr>wb_size = 1024, wb_num = 8, wb_num_slot = int 8, freeBuffer = replicate 8 None\<rparr> (replicate 8 [])"
    by (rule wb_repr_empty) simp
  then have "wb_pool (arena_malloc 16) 1024 8 [0 \<mapsto> sample_block] (hc_writeBuffer sending_client) {}"
    unfolding wb_pool_def sending_client_def sample_client_def using arena_malloc_ok
    by (auto intro!: exI [of _ "replicate 8 []"] simp: free_cells_def)
  moreover have "pool_block 1024 8 sample_block"
    by (simp add: pool_block_def blk_ok_def sample_block_def sizeof_defs pool_size_def)
  moreover have "bl_repr [0 \<mapsto> sample_block] (hc_pendingWrite sending_client) [0]"
    by (simp add: sending_client_def bl_repr_def next_of_def sample_block_def)
  moreover have "rb_inv (hc_readBuffer sending_client)"
    using sample_client_ok(1) [of "[]" SendResponse_h] by (simp add: sending_client_def)
  ultimately show ?thesis by (auto simp: hc_inv_def client_ok_def)
qed

theorem response_stream_kept_witness:
  "\<exists>n c' h' st' as'. SendResponse sample_env (sending_client, [0 \<mapsto> sample_block], (busy_server SS_CONNECTED, ([], []))) =
     Some (Val (n, (c', h', st'))) \<and> snd (snd st') @ pending h' as' = ''hi''"
proof -
  have E: "he_conn sample_env = sock_ops quiet_kernel" by (simp add: sample_env_def)
  have fd: "hc_conn sending_client = Some 1" by (simp add: sending_client_def)
  have p: "pending [0 \<mapsto> sample_block] [0] = ''hi''"
    by (simp add: pending_def blk_text_def rng_def sample_block_def)
  from response_stream_kept [OF E fd busy_server_live sending_client_inv] p show ?thesis
    by (auto simp: case_prod_beta)
qed

lemma watch_keeps:
  "UnwatchSocket K fd (s, k) = Some (ok, (s', k')) \<Longrightarrow> connNum s' = connNum s \<and> maxSocket s' = maxSocket s"
  "WatchRawSocket K fd l (s, k) = Some (ok, (s', k')) \<Longrightarrow> connNum s' = connNum s \<and> maxSocket s' = maxSocket s"
  by (auto simp: UnwatchSocket_def WatchRawSocket_def ResetSocketSlot_def bind_eq_Some_conv Let_def
      split: if_splits prod.splits)

text \<open>
  The two thresholds of the accept throttle do not oscillate: once the server has stopped or resumed
  watching the listening socket, the same test made again without an event in between changes nothing.
\<close>

theorem watch_hysteresis:
  assumes "adjust_watch V (sv, h, k) = Some (sv1, h1, k1)" and "hs_watching sv1 \<noteq> hs_watching sv"
    and "0 \<le> maxSocket (hs_tcpServer sv)"
  shows "adjust_watch V (sv1, h1, k1) = Some (sv1, h1, k1)"
proof -
  let ?t = "maxSocket (hs_tcpServer sv)" and ?n = "connNum (hs_tcpServer sv)"
  have half: "?t sdiv 2 = ?t div 2" "?t sdiv 8 = ?t div 8" using assms(3) by (simp_all add: sdiv_nonneg)
  have "?t div 2 \<le> ?t - ?t div 8" using assms(3) by linarith
  moreover have "connNum (hs_tcpServer sv1) = ?n" "maxSocket (hs_tcpServer sv1) = ?t"
    using assms(1) by (auto simp: adjust_watch_def Let_def bind_eq_Some_conv split: if_splits dest: watch_keeps)
  moreover have "if hs_watching sv then ?n > ?t - ?t div 8 else ?n \<le> ?t div 2"
    using assms(1,2) half by (auto simp: adjust_watch_def GetConnNumber_def Let_def split: if_splits)
  ultimately show ?thesis using assms(2) half
    by (auto simp: adjust_watch_def GetConnNumber_def Let_def split: if_splits)
qed

definition sample_server_env :: "'k kernel \<Rightarrow> 'k server_env" where
  "sample_server_env K = \<lparr>sv_kernel = K, sv_malloc = arena_malloc 16, sv_grow = (\<lambda>_ n. n), sv_date = ''now'',
     sv_arr_ok = True, sv_cap0 = 15, sv_closeConn = False, sv_statusCode = HSC_UNKNOWN, sv_code = SC_ERROR\<rparr>"

definition full_server :: HttpServer where
  "full_server = \<lparr>hs_stop = False, hs_watching = True, hs_listenFd = 1,
     hs_tcpServer = (busy_server SS_LISTENING)\<lparr>connNum := 5\<rparr>, hs_conn = []\<rparr>"

theorem watch_hysteresis_witness:
  "\<exists>sv1 h1 k1. adjust_watch (sample_server_env quiet_kernel) (full_server, Map.empty, ([], [])) = Some (sv1, h1, k1) \<and>
     \<not> hs_watching sv1 \<and> adjust_watch (sample_server_env quiet_kernel) (sv1, h1, k1) = Some (sv1, h1, k1)"
proof -
  have "\<exists>sv1 h1 k1. adjust_watch (sample_server_env quiet_kernel) (full_server, Map.empty, ([], [])) = Some (sv1, h1, k1) \<and>
      \<not> hs_watching sv1"
    by (simp add: adjust_watch_def full_server_def GetConnNumber_def sample_server_env_def quiet_kernel_def UnwatchSocket_def
        RemoveSocket_def ResetSocketSlot_def sdiv_nonneg)
  then obtain sv1 h1 k1 where a: "adjust_watch (sample_server_env quiet_kernel) (full_server, Map.empty, ([], [])) = Some (sv1, h1, k1)"
    "\<not> hs_watching sv1" by blast
  have "adjust_watch (sample_server_env quiet_kernel) (sv1, h1, k1) = Some (sv1, h1, k1)"
    by (rule watch_hysteresis [OF a(1)]) (use a(2) in \<open>simp_all add: full_server_def\<close>)
  with a show ?thesis by blast
qed

section \<open>A request served by the whole server\<close>

lemma handler_rs_ok: "rs_ok (DefaultHttpRequestHandler date req rs)"
  by (simp add: DefaultHttpRequestHandler_def Let_def)

lemma conn_read_eq:
  assumes "sock_live K out (s, k) i" and "sz \<noteq> 0" and "sys_read K k i sz = (n, d, e, k1)"
    and "0 < n \<or> n < 0 \<and> (e = EAGAIN \<or> e = EINTR)"
  shows "conn_read K (s, k) i sz = Some (max n 0, d, (s, snd (ModifySocket K i i False k1)))"
  using assms(1)
proof (rule sock_liveE)
  fix c assume "get_sock i s = Some c" "so_fd c = i" "so_status c \<noteq> SS_INVALID" "0 \<le> i" "i \<le> maxSocket s"
  then show ?thesis using assms(2-4) by (auto simp: conn_read_def ReadBuffer_def Let_def)
qed

lemma conn_send_eq:
  assumes "sock_live K out (s, k) i" and "sys_write K k i d = (int (length d), e, k1)"
  shows "conn_send K (s, k) i d = Some (int (length d), (s, snd (ModifySocket K i i False k1)))"
  using assms(1)
proof (rule sock_liveE)
  fix c assume "get_sock i s = Some c" "so_fd c = i" "so_status c \<noteq> SS_INVALID" "so_status c \<noteq> SS_LISTENING"
  then show ?thesis using assms(2) by (auto simp: conn_send_def SendBuffer_def Let_def)
qed

text \<open>A client that waits for a request on connection \<open>i\<close>, as every accepted connection starts out.\<close>

definition waiting :: "'k server_env \<Rightarrow> HttpClient \<Rightarrow> heap \<Rightarrow> int \<Rightarrow> bool" where
  "waiting V c h i \<longleftrightarrow> hc_inv (sv_malloc V) c h [] \<and> rb_empty (hc_readBuffer c) \<and> hc_conn c = Some i \<and>
     hc_evtHandler c = ProcessRequestLine_h \<and> hc_cgi c = Some (DefaultHttpRequestHandler (sv_date V))"


text \<open>A kernel that plays a list of inputs on every descriptor and records what is written.\<close>

definition script_kernel :: "(bytes list \<times> bytes) kernel" where
  "script_kernel = \<lparr>sys_write = (\<lambda>(ins, out) fd d. (int (length d), EOTHER, (ins, out @ d))),
     sys_read = (\<lambda>(ins, out) fd n. case ins of
         [] \<Rightarrow> (-1, [], EAGAIN, (ins, out))
       | d # ins' \<Rightarrow> let d' = take (nat n) d in (int (length d'), d', EOTHER, (ins', out))),
     sys_close = (\<lambda>k fd. k), sys_epoll_ctl = (\<lambda>k op fd fl d. (0, k)), sys_epoll_wait = (\<lambda>k n. (0, [], k)),
     sys_accept = (\<lambda>k fd. (-1, [], k)), sys_getsockopt_error = (\<lambda>k fd. (0, 0, k)),
     sys_getpeername = (\<lambda>k fd. (None, k)), sys_getaddrinfo = (\<lambda>k host port. (1, [], k)),
     sys_socket = (\<lambda>k ai. (-1, k)), sys_connect = (\<lambda>k fd ai. (-1, EOTHER, k)),
     sys_setsockopt_reuse = (\<lambda>k fd. (0, k)), sys_bind = (\<lambda>k fd ai. (0, k)), sys_listen = (\<lambda>k fd n. (0, k))\<rparr>"

definition script_out :: "bytes list \<times> bytes \<Rightarrow> int \<Rightarrow> bytes" where
  "script_out k fd = snd k"

lemma script_kernel_ok: "kernel_ok script_kernel script_out"
  by (auto simp: kernel_ok_def script_kernel_def script_out_def fun_eq_iff Let_def split: list.splits)

definition page_client :: HttpClient where
  "page_client = (sample_client ProcessRequestLine_h [])\<lparr>hc_cgi := Some (DefaultHttpRequestHandler ''now''), hc_conn := Some 1\<rparr>"

definition page_server :: HttpServer where
  "page_server = \<lparr>hs_stop = False, hs_watching = True, hs_listenFd = 0,
     hs_tcpServer = busy_server SS_CONNECTED, hs_conn = [None, Some page_client]\<rparr>"

definition sample_page :: HttpResponse where
  "sample_page = DefaultHttpRequestHandler ''now'' (line_request HM_GET ''/a'' ''HTTP/1.1'' (HttpRequest_init 15))
     (HttpResponse_init False HSC_200)"

lemma sample_page_size: "GetResponseSize sample_page \<le> 8192"
  by code_simp


end
