(* ===== verification/HttpMain.thy ===== *)
theory HttpMain
  imports HttpServer
begin

text \<open>
  The life of the server program, \<open>http/main.cc\<close>, with the constructors and destructors of \<open>http/HttpServer.cc\<close> and \<open>http/SocketServer.cc\<close>
  around it: the size of the tables, the worker processes, and what the end of a server gives back.
\<close>

section \<open>The size of the tables\<close>

text \<open>\<open>CalcMaxFileDesc\<close> returns the limit as a \<open>size_t\<close>; \<open>maxSocket_\<close> and \<open>max_conn_id\<close> keep it as an \<open>int\<close>. A negative length of an array is an error.\<close>

definition CalcMaxFileDesc :: "64 word \<Rightarrow> 64 word" where
  "CalcMaxFileDesc rlim_max = rlim_max"

definition max_conn_id :: "64 word \<Rightarrow> int" where
  "max_conn_id rlim_max = c_int (uint (CalcMaxFileDesc rlim_max))"

definition ServerImpl_new :: "64 word \<Rightarrow> (nat \<Rightarrow> SocketConnection) \<Rightarrow> (nat \<Rightarrow> PollEvent) \<Rightarrow> ServerImpl option" where
  "ServerImpl_new rlim_max junk pe = (let n = max_conn_id rlim_max in
     if n < 0 then None else Some (ServerImpl_init (map junk [0..<nat n]) (map pe [0..<nat n])))"

text \<open>The table is as long as the limit when this is below \<open>2 ^ 31\<close>; without a limit there is no server.\<close>

lemma ServerImpl_new_size:
  assumes "uint rl < 2 ^ 31"
  shows "\<exists>s. ServerImpl_new rl junk pe = Some s \<and> int (length (sockets s)) = uint rl \<and> slots_ok s"
proof -
  have "max_conn_id rl = uint rl" using assms by (simp add: max_conn_id_def CalcMaxFileDesc_def c_int_small)
  then show ?thesis by (simp add: ServerImpl_new_def Let_def slots_ok_init) (simp add: ServerImpl_init_def)
qed

lemma unlimited_no_server: "ServerImpl_new (-1) junk pe = None"
  by (simp add: ServerImpl_new_def max_conn_id_def CalcMaxFileDesc_def c_int_def unsigned_minus_1_eq_mask bit_mask_iff Let_def)

section \<open>The end of a server\<close>

text \<open>
  The destructor of a client has no body; of its members only the write buffer gives blocks of the heap back. The destructor of the queue of
  pending blocks does nothing. (The block of the read buffer is freed with it and belongs to no heap here.)
\<close>

definition HttpClient_delete :: "HttpClient \<Rightarrow> heap \<Rightarrow> heap option" where
  "HttpClient_delete c h = DestroyBuffer h (hc_writeBuffer c)"

fun destroy_clients :: "HttpClient option list \<Rightarrow> heap \<Rightarrow> heap option" where
  "destroy_clients [] h = Some h"
| "destroy_clients (conn # conns) h = do {
     h' \<leftarrow> (case conn of Some c \<Rightarrow> HttpClient_delete c h | None \<Rightarrow> Some h);
     destroy_clients conns h'
   }"

definition DestroyServer :: "HttpServer \<Rightarrow> heap \<Rightarrow> heap option" where
  "DestroyServer sv h = destroy_clients (hs_conn sv) h"

text \<open>\<open>~HttpServer\<close>, after which the member \<open>tcpServer_\<close> is destroyed.\<close>

definition HttpServer_delete :: "'k server_env \<Rightarrow> 'k hsstate \<Rightarrow> (heap \<times> 'k sstate) option" where
  "HttpServer_delete V st = (case st of (sv, h, k) \<Rightarrow> do {
     h' \<leftarrow> DestroyServer sv h;
     st' \<leftarrow> ShutDownAllSockets (sv_kernel V) (hs_tcpServer sv, k);
     Some (h', st')
   })"

section \<open>The program\<close>

text \<open>\<open>WorkerProc\<close>, with a server that was constructed from \<open>tcp\<close> and a table that is not initialised.\<close>

definition WorkerProc :: "'k server_env \<Rightarrow> ServerImpl \<Rightarrow> HttpClient option list \<Rightarrow> int \<Rightarrow> heap \<times> 'k \<Rightarrow> (heap \<times> 'k sstate) res option" where
  "WorkerProc V tcp junk fd w = (case w of (h, k) \<Rightarrow>
     rbind (lift (SetListenSock V fd (HttpServer_init tcp junk, h, k))) (\<lambda>st.
     rbind (RunServer V st) (\<lambda>st'. lift (HttpServer_delete V st'))))"

text \<open>The processes there are when the loop of forks is over: a child leaves the loop at its fork and becomes a worker. \<open>ok i\<close> says that
  the fork of round \<open>i\<close> succeeds.\<close>

datatype server_proc = Supervisor | ServerWorker int

function fork_loop :: "(int \<Rightarrow> bool) \<Rightarrow> int \<Rightarrow> int \<Rightarrow> server_proc list" where
  "fork_loop ok i num = (if i < num then (if ok i then [ServerWorker i] else []) @ fork_loop ok (i + 1) num else [Supervisor])"
  by pat_completeness auto
termination
  by (relation "measure (\<lambda>(ok, i, num). nat (num - i))") auto

declare fork_loop.simps [simp del]

datatype main_result = NoAddress | ListenFailed | Serving int "server_proc list"

text \<open>\<open>argv\<close> is without the name of the program; \<open>level\<close> is the level of the log, \<open>num\<close> the number of processors.\<close>

definition main :: "'k kernel \<Rightarrow> int \<Rightarrow> (int \<Rightarrow> bool) \<Rightarrow> string list \<Rightarrow> int \<times> 'k \<Rightarrow> main_result \<times> int \<times> 'k" where
  "main K num ok argv w = (case w of (level, k) \<Rightarrow>
     if argv = [] then (NoAddress, level, k)
     else (let port = (if length argv \<ge> 2 then atoi (argv ! 1) else 80);
               level = (if length argv \<ge> 3 then atoi (argv ! 2) else level) in
       case ListenTo K (argv ! 0) port k of (fd, k1) \<Rightarrow>
         if fd < 0 then (ListenFailed, level, k1) else (Serving fd (fork_loop ok 0 num), level, k1)))"

section \<open>Properties\<close>

text \<open>One worker for each fork that succeeded, no process twice, and one process that waits.\<close>

lemma fork_loop_workers:
  "i \<le> num \<Longrightarrow> fork_loop ok i num = map ServerWorker (filter ok [i..num - 1]) @ [Supervisor]"
proof (induction ok i num rule: fork_loop.induct)
  case (1 ok i num)
  show ?case
  proof (cases "i < num")
    case True
    then have "[i..num - 1] = i # [i + 1..num - 1]" by (simp add: upto_rec1)
    then show ?thesis using 1 True by (subst fork_loop.simps) simp
  qed (use 1 in \<open>subst fork_loop.simps; simp\<close>)
qed

lemma adjust_watch_stop: "adjust_watch V (sv, h, k) = Some (sv', h', k') \<Longrightarrow> hs_stop sv' = hs_stop sv"
  by (auto simp: adjust_watch_def Let_def bind_eq_Some_conv split: if_splits)

lemma ensure_client_stop: "ensure_client V i (sv, h) = Some (c, sv', h') \<Longrightarrow> hs_stop sv' = hs_stop sv"
  by (auto simp: ensure_client_def put_client_def bind_eq_Some_conv split: option.splits)

lemma PollHandler_stop: "PollHandler V evt (sv, h, k) = Some (Val (sv', h', k')) \<Longrightarrow> hs_stop sv' = hs_stop sv"
  by (cases "ev_code evt")
    (auto simp: PollHandler_def rbind_eq_Some lift_def put_client_def split: option.splits dest!: ensure_client_stop)

lemma poll_once_stop: "poll_once V st = Some (Val st') \<Longrightarrow> hs_stop (fst st') = hs_stop (fst st)"
  by (cases st; cases st')
    (fastforce simp: poll_once_def rbind_eq_Some lift_def split: option.splits dest: adjust_watch_stop PollHandler_stop)

lemma RunPoll_returns_stopped:
  assumes "HttpServer_RunPoll V st = Some r"
  shows "r = Crash \<or> hs_stop (fst st)"
  using assms
proof (rule HttpServer_RunPoll.raw_induct [rotated])
  fix F V st r
  assume IH: "\<And>V st r. F V st = Some r \<Longrightarrow> r = Crash \<or> hs_stop (fst st)"
    and run: "(if hs_stop (fst st) then Some (Val st) else rbind (poll_once V st) (F V)) = Some r"
  then show "r = Crash \<or> hs_stop (fst st)" using poll_once_stop [of V st] by (fastforce simp: rbind_eq_Some split: if_splits)
qed

text \<open>
  The end of a worker is never reached: whatever the kernel does, a worker process serves for ever or dies in a fault. Nothing in its loop sets
  \<open>stop_\<close>, so that its server is never destroyed.
\<close>

theorem worker_never_returns: "WorkerProc V tcp junk fd w \<in> {None, Some Crash}"
proof -
  obtain h k where w: "w = (h, k)" by fastforce
  show ?thesis
  proof (cases "SetListenSock V fd (HttpServer_init tcp junk, h, k)")
    case None
    then show ?thesis by (simp add: WorkerProc_def w)
  next
    case (Some st)
    obtain sv h1 k1 where st: "st = (sv, h1, k1)" by (cases st)
    have "\<not> hs_stop sv" using Some st by (auto simp: SetListenSock_def HttpServer_init_def bind_eq_Some_conv)
    then have "RunServer V st = None \<or> RunServer V st = Some Crash"
      by (cases "RunServer V st") (auto simp: RunServer_def st dest!: RunPoll_returns_stopped)
    then show ?thesis using Some by (auto simp: WorkerProc_def w)
  qed
qed

text \<open>
  The end of the socket server: every slot is free, every socket that was in use is closed once, and the number of connections has gone down by one for each of
  them, the listening socket included, which \<open>WatchRawSocket\<close> had not counted.
\<close>

definition used_from :: "nat \<Rightarrow> ServerImpl \<Rightarrow> nat" where
  "used_from i s = length (filter (\<lambda>c. so_status c \<noteq> SS_INVALID) (drop i (sockets s)))"

lemma close_from_spec:
  "i + n = length (sockets s) \<Longrightarrow> \<exists>s' k'. close_from K i n (s, k) = Some (s', k') \<and> length (sockets s') = length (sockets s) \<and>
     (\<forall>j < i. sockets s' ! j = sockets s ! j) \<and> (\<forall>j < n. so_status (sockets s' ! (i + j)) = SS_INVALID) \<and>
     connNum s' = connNum s - int (used_from i s)"
proof (induction n arbitrary: i s k)
  case 0
  then show ?case by (simp add: used_from_def)
next
  case (Suc n)
  let ?c = "sockets s ! i"
  have i: "i < length (sockets s)" using Suc.prems by simp
  have used: "used_from i s = (if so_status ?c \<noteq> SS_INVALID then 1 else 0) + used_from (Suc i) s"
    unfolding used_from_def Cons_nth_drop_Suc [OF i, symmetric] by simp
  obtain s1 k1 where f: "ForceSocketClose K (int i) (s, k) = Some (s1, k1)" "length (sockets s1) = length (sockets s)"
    "so_status (sockets s1 ! i) = SS_INVALID" "\<forall>j. j \<noteq> i \<longrightarrow> sockets s1 ! j = sockets s ! j" "drop (Suc i) (sockets s1) = drop (Suc i) (sockets s)"
    "connNum s1 = connNum s - (if so_status ?c \<noteq> SS_INVALID then 1 else 0)"
    using i by (cases "so_status ?c = SS_INVALID") (auto simp: ForceSocketClose_def ResetSocketSlot_def get_sock_def put_sock_def)
  obtain s' k' where r: "close_from K (Suc i) n (s1, k1) = Some (s', k')" "length (sockets s') = length (sockets s1)"
    "\<forall>j < Suc i. sockets s' ! j = sockets s1 ! j" "\<forall>j < n. so_status (sockets s' ! (Suc i + j)) = SS_INVALID"
    "connNum s' = connNum s1 - int (used_from (Suc i) s1)"
    using Suc.IH [of "Suc i" s1 k1] Suc.prems f(2) by auto
  have "so_status (sockets s' ! (i + j)) = SS_INVALID" if "j < Suc n" for j
    using that r(3,4) f(3) by (cases j) auto
  moreover have "used_from (Suc i) s1 = used_from (Suc i) s" using f(5) by (simp add: used_from_def)
  ultimately show ?case using f r used by (intro exI [of _ s'] exI [of _ k']) auto
qed

lemma shutdown_closes_all:
  assumes "slots_ok s"
  shows "\<exists>s' k'. ShutDownAllSockets K (s, k) = Some (s', k') \<and> (\<forall>c \<in> set (sockets s'). so_status c = SS_INVALID) \<and>
     connNum s' = connNum s - int (used_from 0 s) \<and> \<not> isRunning s'"
proof -
  have "0 + nat (maxSocket s) = length (sockets s)" using assms by (simp add: slots_ok_def)
  from close_from_spec [OF this, of K k] obtain s' k' where
    "close_from K 0 (nat (maxSocket s)) (s, k) = Some (s', k')" "length (sockets s') = length (sockets s)"
    "\<forall>j < nat (maxSocket s). so_status (sockets s' ! j) = SS_INVALID" "connNum s' = connNum s - int (used_from 0 s)" by auto
  moreover have "\<forall>c \<in> set (sockets s'). so_status c = SS_INVALID"
    using calculation(2,3) assms by (auto simp: slots_ok_def in_set_conv_nth)
  ultimately show ?thesis by (auto simp: ShutDownAllSockets_def)
qed

text \<open>The blocks a client's allocator keeps.\<close>

definition conn_pool :: "mallocator \<Rightarrow> heap \<Rightarrow> HttpClient option \<Rightarrow> nat set \<Rightarrow> bool" where
  "conn_pool mal h conn F \<longleftrightarrow> (case conn of None \<Rightarrow> F = {} | Some c \<Rightarrow> wb_pool mal 1024 8 h (hc_writeBuffer c) F)"

lemma conn_pool_frame: "conn_pool mal h conn F \<Longrightarrow> (\<And>x. x \<in> F \<Longrightarrow> h' x = h x) \<Longrightarrow> conn_pool mal h' conn F"
  by (auto simp: conn_pool_def intro: wb_pool_frame split: option.splits)

lemma conn_pool_delete:
  "conn_pool mal h conn F \<Longrightarrow> (case conn of Some c \<Rightarrow> HttpClient_delete c h | None \<Rightarrow> Some h) = Some (h |` (- F))"
  by (auto simp: conn_pool_def HttpClient_delete_def wb_pool_def DestroyBuffer_spec split: option.splits)

lemma destroy_clients_spec:
  "list_all2 (conn_pool mal h) conns Fs \<Longrightarrow> sorted_wrt (\<lambda>A B. A \<inter> B = {}) Fs \<Longrightarrow>
     destroy_clients conns h = Some (h |` (- \<Union>(set Fs)))"
proof (induction Fs arbitrary: conns h)
  case (Cons F Fs)
  then obtain conn conns' where conns: "conns = conn # conns'" "conn_pool mal h conn F" and rest: "list_all2 (conn_pool mal h) conns' Fs"
    by (auto simp: list_all2_Cons2)
  have "list_all2 (conn_pool mal (h |` (- F))) conns' Fs"
    using rest
  proof (rule list.rel_mono_strong)
    fix conn' F' assume "F' \<in> set Fs" and pool: "conn_pool mal h conn' F'"
    then have "F \<inter> F' = {}" using Cons.prems by simp
    then have eq: "(h |` (- F)) x = h x" if "x \<in> F'" for x using that by (auto simp: restrict_map_def)
    show "conn_pool mal (h |` (- F)) conn' F'" by (rule conn_pool_frame [OF pool]) (rule eq)
  qed
  then show ?case using Cons.IH [of "h |` (- F)" conns'] Cons.prems conn_pool_delete [OF conns(2)] conns(1) by simp
qed (auto simp: restrict_map_def)

text \<open>
  Destroying a server with no fault: when the allocators of its clients keep disjoint blocks, their destructors return these blocks and no other. What a
  client has not yet sent stays allocated with its bytes: no destructor gives it back.
\<close>

theorem destroy_leaks_pending:
  assumes "list_all2 (conn_pool mal h) (hs_conn sv) Fs" and "sorted_wrt (\<lambda>A B. A \<inter> B = {}) Fs"
    and "Some c \<in> set (hs_conn sv)" and "hc_inv mal c h as" and "set as \<inter> \<Union>(set Fs) = {}"
  shows "\<exists>h'. DestroyServer sv h = Some h' \<and> dom h' = dom h - \<Union>(set Fs) \<and> set as \<subseteq> dom h' \<and> pending h' as = pending h as"
proof -
  let ?h = "h |` (- \<Union>(set Fs))"
  have "DestroyServer sv h = Some ?h" using assms(1,2) by (simp add: DestroyServer_def destroy_clients_spec)
  moreover have "pending ?h as = pending h as" using assms(5) by (intro pending_cong) (auto simp: restrict_map_def)
  moreover have "dom ?h = dom h - \<Union>(set Fs)" by auto
  moreover have "set as \<subseteq> dom h" using hc_inv_blocks [OF assms(4)] by (meson domI subsetI)
  ultimately show ?thesis using assms(5) by (intro exI [of _ ?h]) (simp only: simp_thms Diff_subset_conv, blast)
qed

theorem destroy_leaks_pending_witness:
  "\<exists>h'. DestroyServer \<lparr>hs_stop = True, hs_watching = True, hs_listenFd = 0, hs_tcpServer = busy_server SS_CONNECTED,
       hs_conn = [None, Some sending_client]\<rparr> [0 \<mapsto> sample_block] = Some h' \<and> 0 \<in> dom h'"
proof -
  let ?sv = "\<lparr>hs_stop = True, hs_watching = True, hs_listenFd = 0, hs_tcpServer = busy_server SS_CONNECTED,
       hs_conn = [None, Some sending_client]\<rparr>"
  obtain F where F: "wb_pool (arena_malloc 16) 1024 8 [0 \<mapsto> sample_block] (hc_writeBuffer sending_client) F" "set [0] \<inter> F = {}"
    using sending_client_inv by (auto simp: hc_inv_def client_ok_def)
  have "list_all2 (conn_pool (arena_malloc 16) [0 \<mapsto> sample_block]) (hs_conn ?sv) [{}, F]" using F by (simp add: conn_pool_def)
  from destroy_leaks_pending [OF this _ _ sending_client_inv] F(2) show ?thesis by auto
qed

end
