(* ===== verification/ServerMemory.thy ===== *)
theory ServerMemory
  imports ClientMemory HttpMain
begin

text \<open>
  The heap that all clients of \<open>http/HttpServer.cc\<close> share, over whole runs of the polling loop: the blocks of different clients never overlap, memory of
  others is never touched, and a server can be destroyed at any time without a fault.
\<close>

section \<open>The memory of a server\<close>

definition slot_mem :: "mallocator \<Rightarrow> heap \<Rightarrow> HttpClient option \<Rightarrow> nat list \<Rightarrow> nat set \<Rightarrow> bool" where
  "slot_mem mal h conn as F \<longleftrightarrow> (case conn of None \<Rightarrow> as = [] \<and> F = {} | Some c \<Rightarrow> mem_inv mal c h as F)"

text \<open>\<open>h0\<close> is the heap at the start, and \<open>as i\<close> and \<open>F i\<close> are the pending and the free blocks of client \<open>i\<close>.\<close>

definition server_mem :: "mallocator \<Rightarrow> heap \<Rightarrow> HttpClient option list \<Rightarrow> heap \<Rightarrow> (nat \<Rightarrow> nat list) \<Rightarrow> (nat \<Rightarrow> nat set) \<Rightarrow> bool" where
  "server_mem mal h0 conns h as F \<longleftrightarrow> (\<forall>i < length conns. slot_mem mal h (conns ! i) (as i) (F i)) \<and>
     (\<forall>i < length conns. \<forall>j < length conns. i \<noteq> j \<longrightarrow> (F i \<union> set (as i)) \<inter> (F j \<union> set (as j)) = {}) \<and>
     (\<forall>i < length conns. \<forall>x \<in> F i \<union> set (as i). h0 x = None) \<and> (\<forall>x. h0 x \<noteq> None \<longrightarrow> h x = h0 x)"

lemma slot_mem_dom: "slot_mem mal h conn as F \<Longrightarrow> x \<in> F \<union> set as \<Longrightarrow> h x \<noteq> None"
  using mem_inv_dom by (auto simp: slot_mem_def split: option.splits)

lemma slot_mem_frame: "slot_mem mal h conn as F \<Longrightarrow> (\<And>x. x \<in> F \<union> set as \<Longrightarrow> h' x = h x) \<Longrightarrow> slot_mem mal h' conn as F"
  using mem_inv_frame [of mal _ h as F h'] by (cases conn) (simp_all add: slot_mem_def)

lemma server_mem_update:
  assumes "server_mem mal h0 conns h as F" and i: "i < length conns" and new: "mem_inv mal c' h' as' F'" and k: "keeps (F i \<union> set (as i)) h (F' \<union> set as') h'"
  shows "server_mem mal h0 (conns[i := Some c']) h' (as(i := as')) (F(i := F'))"
proof -
  have old: "\<And>j. j < length conns \<Longrightarrow> slot_mem mal h (conns ! j) (as j) (F j)"
    "\<And>j k. j < length conns \<Longrightarrow> k < length conns \<Longrightarrow> j \<noteq> k \<Longrightarrow> (F j \<union> set (as j)) \<inter> (F k \<union> set (as k)) = {}"
    "\<And>j x. j < length conns \<Longrightarrow> x \<in> F j \<union> set (as j) \<Longrightarrow> h0 x = None" "\<And>x. h0 x \<noteq> None \<Longrightarrow> h x = h0 x"
    using assms(1) unfolding server_mem_def by blast+
  have dom: "h x \<noteq> None" if "j < length conns" "x \<in> F j \<union> set (as j)" for j x using slot_mem_dom [OF old(1) [OF that(1)] that(2)] .
  have same: "h' x = h x" if "x \<notin> F i \<union> set (as i)" "h x \<noteq> None" for x
    using conjunct1 [OF k [unfolded keeps_def]] that by simp
  have origin: "x \<in> F i \<union> set (as i) \<or> h x = None" if "x \<in> F' \<union> set as'" for x
    by (rule bspec [OF conjunct2 [OF k [unfolded keeps_def]] that])
  have slot: "slot_mem mal h' (conns ! j) (as j) (F j)" if j: "j < length conns" "j \<noteq> i" for j
  proof (rule slot_mem_frame [OF old(1) [OF j(1)]])
    fix x assume x: "x \<in> F j \<union> set (as j)"
    then have "x \<notin> F i \<union> set (as i)" using old(2) [OF j(1) i j(2)] by (auto simp only: disjoint_iff)
    then show "h' x = h x" using dom [OF j(1) x] by (rule same)
  qed
  have disj: "(F j \<union> set (as j)) \<inter> (F' \<union> set as') = {}" if j: "j < length conns" "j \<noteq> i" for j
  proof (rule ccontr)
    assume "(F j \<union> set (as j)) \<inter> (F' \<union> set as') \<noteq> {}"
    then obtain x where "x \<in> F j \<union> set (as j)" "x \<in> F' \<union> set as'" by blast
    then show False using origin [of x] dom [of j x] old(2) [OF j(1) i j(2)] j(1) by (auto simp only: disjoint_iff)
  qed
  have fresh: "h0 x = None" if "x \<in> F' \<union> set as'" for x
  proof (cases "x \<in> F i \<union> set (as i)")
    case False
    then have "h x = None" using origin [OF that] by blast
    then show ?thesis using old(4) [of x] by (cases "h0 x") auto
  qed (rule old(3) [OF i])
  have base: "h' x = h0 x" if "h0 x \<noteq> None" for x
  proof -
    have "x \<notin> F i \<union> set (as i)" using old(3) [OF i, of x] that by blast
    then show ?thesis using same [of x] old(4) [OF that] that by simp
  qed
  have conv: "(conns[i := Some c']) ! j = (if j = i then Some c' else conns ! j)" if "j < length conns" for j using that by simp
  show ?thesis
    unfolding server_mem_def length_list_update
  proof (intro conjI allI impI ballI)
    fix j assume j: "j < length conns"
    then show "slot_mem mal h' (conns[i := Some c'] ! j) ((as(i := as')) j) ((F(i := F')) j)"
      using slot [of j] new conv [OF j] by (cases "j = i") (simp_all add: slot_mem_def)
    show "h0 x = None" if "x \<in> (F(i := F')) j \<union> set ((as(i := as')) j)" for x
      using that fresh [of x] old(3) [OF j, of x] by (cases "j = i") auto
    show "((F(i := F')) j \<union> set ((as(i := as')) j)) \<inter> ((F(i := F')) l \<union> set ((as(i := as')) l)) = {}" if "l < length conns" "j \<noteq> l" for l
      using disj [of j] disj [of l] old(2) [OF j that(1,2)] j that by (cases "j = i"; cases "l = i") (simp_all add: Int_commute)
  qed (rule base)
qed

lemma server_mem_own:
  assumes "server_mem mal h0 conns h as F" and "i < length conns" and "conns ! i = Some c" and "own_step mal (c, h) (c', h')"
  shows "\<exists>as F. server_mem mal h0 (conns[i := Some c']) h' as F"
proof -
  have "mem_inv mal c h (as i) (F i)" using assms(1-3) by (auto simp: server_mem_def slot_mem_def split: option.splits)
  then obtain as' F' where "mem_inv mal c' h' as' F'" "keeps (F i \<union> set (as i)) h (F' \<union> set as') h'"
    using assms(4) unfolding own_step_def fst_conv snd_conv by blast
  then show ?thesis using server_mem_update [OF assms(1,2)] by blast
qed

section \<open>The polling loop\<close>

lemma ensure_client_mem:
  assumes "malloc_ok (sv_malloc V)" and "server_mem (sv_malloc V) h0 (hs_conn sv) h as F" and "ensure_client V i (sv, h) = Some (c, sv1, h1)"
  shows "(\<exists>as F. server_mem (sv_malloc V) h0 (hs_conn sv1) h1 as F) \<and> nat i < length (hs_conn sv1) \<and> hs_conn sv1 ! nat i = Some c \<and>
     length (hs_conn sv1) = length (hs_conn sv)"
proof -
  obtain slot where slot: "get_client i sv = Some slot" using assms(3) by (auto simp: ensure_client_def bind_eq_Some_conv)
  then have i: "nat i < length (hs_conn sv)" "slot = hs_conn sv ! nat i" by (auto simp: get_client_def split: if_splits)
  show ?thesis
  proof (cases slot)
    case None
    then obtain h2 where init: "HttpClient_init (sv_env V) (sv_arr_ok V) (sv_cap0 V) (sv_closeConn V) (sv_statusCode V)
        (Some (DefaultHttpRequestHandler (sv_date V))) h = Some (c, h2)" "sv1 = put_client i c sv" "h1 = h2"
      using assms(3) slot by (auto simp: ensure_client_def bind_eq_Some_conv)
    have mal: "he_malloc (sv_env V) = sv_malloc V" by (simp add: sv_env_def)
    obtain F' where F': "mem_inv (sv_malloc V) c h1 [] F'" "keeps {} h F' h1"
      using HttpClient_init_own [of "sv_env V"] init(1,3) assms(1) unfolding mal by blast
    have "as (nat i) = []" "F (nat i) = {}" using assms(2) i None by (auto simp: server_mem_def slot_mem_def)
    then have "server_mem (sv_malloc V) h0 ((hs_conn sv)[nat i := Some c]) h1 (as(nat i := [])) (F(nat i := F'))"
      using F' by (intro server_mem_update [OF assms(2) i(1)]) simp_all
    then show ?thesis using init(2) i(1) by (auto simp: put_client_def)
  next
    case (Some c0)
    then show ?thesis using assms(2,3) slot i by (auto simp: ensure_client_def)
  qed
qed

lemma PollHandler_mem:
  assumes "malloc_ok (sv_malloc V)" and "server_mem (sv_malloc V) h0 (hs_conn sv) h as F" and "PollHandler V evt (sv, h, k) = Some (Val (sv', h', k'))"
  shows "(\<exists>as F. server_mem (sv_malloc V) h0 (hs_conn sv') h' as F) \<and> length (hs_conn sv') = length (hs_conn sv)"
proof -
  obtain i so c sv1 h1 where en: "ev_conn evt = Some i" "get_sock i (hs_tcpServer sv) = Some so" "ensure_client V (so_fd so) (sv, h) = Some (c, sv1, h1)"
    using assms(3) by (auto simp: PollHandler_def rbind_eq_Some lift_def split: option.splits)
  obtain as1 F1 where m: "server_mem (sv_malloc V) h0 (hs_conn sv1) h1 as1 F1" "nat (so_fd so) < length (hs_conn sv1)"
    "hs_conn sv1 ! nat (so_fd so) = Some c" "length (hs_conn sv1) = length (hs_conn sv)" using ensure_client_mem [OF assms(1,2) en(3)] by blast
  have mal: "he_malloc (sv_env V) = sv_malloc V" by (simp add: sv_env_def)
  have upd: ?thesis if "own_step (sv_malloc V) (c, h1) (c', h')" "hs_conn sv' = (hs_conn sv1)[nat (so_fd so) := Some c']" for c'
    using server_mem_own [OF m(1-3) that(1)] that(2) m(4) by simp
  have same: ?thesis if "h' = h1" "hs_conn sv' = hs_conn sv1" using m(1,4) that by auto
  have event: ?thesis if ev: "rbind (ProcessEvent (sv_env V) evt (c, h1, (hs_tcpServer sv1, k))) (\<lambda>(_, (c', h', (tcp, k'))).
      Some (Val ((put_client (so_fd so) c' sv1)\<lparr>hs_tcpServer := tcp\<rparr>, h', k'))) = Some (Val (sv', h', k'))"
  proof -
    obtain n c' tcp where "ProcessEvent (sv_env V) evt (c, h1, (hs_tcpServer sv1, k)) = Some (Val (n, (c', h', (tcp, k'))))"
      "sv' = (put_client (so_fd so) c' sv1)\<lparr>hs_tcpServer := tcp\<rparr>" using ev by (auto simp: rbind_eq_Some)
    then show ?thesis using ProcessEvent_own [of "sv_env V" evt c h1] unfolding mal by (intro upd [of c']) (auto simp: put_client_def)
  qed
  note body = assms(3) [unfolded PollHandler_def prod.case en(1,2) lift_simps rbind_simps en(3)]
  show ?thesis
  proof (cases "ev_code evt")
    case SC_READ
    then show ?thesis using body event by simp
  next
    case SC_WRITE
    then show ?thesis using body event by simp
  next
    case SC_ACCEPTED
    then obtain c' where "ResetClient (Some i) (c, h1) = Some (Val (c', h'))" "sv' = put_client (so_fd so) c' sv1" using body by (auto simp: rbind_eq_Some)
    then show ?thesis by (intro upd [of c']) (auto simp: put_client_def intro: ResetClient_own)
  next
    case SC_FAIL_CONN
    then show ?thesis using body by (intro same) (auto simp: rbind_eq_Some)
  qed (use body same in auto)
qed

definition poll_step :: "'k server_env \<Rightarrow> 'k hsstate \<Rightarrow> 'k hsstate \<Rightarrow> bool" where
  "poll_step V st st' \<longleftrightarrow> poll_once V st = Some (Val st')"

lemma poll_step_mem:
  assumes "malloc_ok (sv_malloc V)" and "server_mem (sv_malloc V) h0 (hs_conn sv) h as F" and "poll_step V (sv, h, k) (sv', h', k')"
  shows "(\<exists>as F. server_mem (sv_malloc V) h0 (hs_conn sv') h' as F) \<and> length (hs_conn sv') = length (hs_conn sv)"
proof -
  obtain sv1 h1 k1 evt tcp k2 where s: "adjust_watch V (sv, h, k) = Some (sv1, h1, k1)"
    "PollHandler V evt (sv1\<lparr>hs_tcpServer := tcp\<rparr>, h1, k2) = Some (Val (sv', h', k'))"
    using assms(3) by (auto simp: poll_step_def poll_once_def rbind_eq_Some lift_def split: option.splits)
  have "hs_conn sv1 = hs_conn sv" "h1 = h" using s(1) by (auto simp: adjust_watch_def Let_def bind_eq_Some_conv split: if_splits)
  then show ?thesis using PollHandler_mem [OF assms(1) _ s(2)] assms(2) by simp
qed

text \<open>
  C4. The clients of a server do not disturb one another. Starting with an empty table, after any number of rounds of the polling loop, whatever events the
  kernel reports, whatever arrives and whatever is answered: every client has its own pool and its own queue of pending blocks, blocks of different clients
  are different, memory that was allocated before is as it was, and destroying the server then returns exactly the free blocks of the clients.
\<close>

theorem server_memory_disjoint:
  assumes "malloc_ok (sv_malloc V)" and "(poll_step V)\<^sup>*\<^sup>* (sv0, h0, k0) (sv, h, k)" and "hs_conn sv0 = replicate n None"
  shows "\<exists>as F. (\<forall>i < n. \<forall>c. hs_conn sv ! i = Some c \<longrightarrow> mem_inv (sv_malloc V) c h (as i) (F i)) \<and>
     (\<forall>i < n. \<forall>j < n. i \<noteq> j \<longrightarrow> (F i \<union> set (as i)) \<inter> (F j \<union> set (as j)) = {}) \<and> (\<forall>x. h0 x \<noteq> None \<longrightarrow> h x = h0 x) \<and>
     DestroyServer sv h = Some (h |` (- (\<Union>i < n. F i)))"
proof -
  let ?ok = "\<lambda>(sv, h, k). (\<exists>as F. server_mem (sv_malloc V) h0 (hs_conn sv) h as F) \<and> length (hs_conn sv) = n"
  have "?ok (sv0, h0, k0)" using assms(3) by (auto simp: server_mem_def slot_mem_def intro!: exI [of _ "\<lambda>_. []"] exI [of _ "\<lambda>_. {}"])
  with assms(2) have "?ok (sv, h, k)"
  proof (induction rule: rtranclp_induct)
    case (step y z)
    obtain sv1 h1 k1 sv2 h2 k2 where yz: "y = (sv1, h1, k1)" "z = (sv2, h2, k2)" by (cases y; cases z)
    then obtain as F where "server_mem (sv_malloc V) h0 (hs_conn sv1) h1 as F" "length (hs_conn sv1) = n" using step.IH step.prems by auto
    then show ?case using poll_step_mem [OF assms(1), of h0 sv1 h1 as F k1 sv2 h2 k2] step.hyps(2) yz by simp
  qed
  then obtain as F where m: "server_mem (sv_malloc V) h0 (hs_conn sv) h as F" and n: "length (hs_conn sv) = n" by auto
  have slots: "slot_mem (sv_malloc V) h (hs_conn sv ! i) (as i) (F i)" if "i < n" for i using m n that by (simp add: server_mem_def)
  have disj: "(F i \<union> set (as i)) \<inter> (F j \<union> set (as j)) = {}" if "i < n" "j < n" "i \<noteq> j" for i j using m n that unfolding server_mem_def by blast
  have "conn_pool (sv_malloc V) h (hs_conn sv ! i) (F i)" if "i < n" for i
    using slots [OF that] by (cases "hs_conn sv ! i") (auto simp: conn_pool_def slot_mem_def mem_inv_def)
  then have "list_all2 (conn_pool (sv_malloc V) h) (hs_conn sv) (map F [0..<n])" using n by (simp add: list_all2_conv_all_nth)
  moreover have "sorted_wrt (\<lambda>A B. A \<inter> B = {}) (map F [0..<n])"
    unfolding sorted_wrt_iff_nth_less
  proof (intro allI impI)
    fix i j assume "i < j" "j < length (map F [0..<n])"
    then show "map F [0..<n] ! i \<inter> map F [0..<n] ! j = {}" using disj [of i j] by auto
  qed
  ultimately have "DestroyServer sv h = Some (h |` (- \<Union>(set (map F [0..<n]))))" unfolding DestroyServer_def by (rule destroy_clients_spec)
  moreover have "\<Union>(set (map F [0..<n])) = (\<Union>i < n. F i)" by (auto simp: lessThan_atLeast0)
  ultimately have del: "DestroyServer sv h = Some (h |` (- (\<Union>i < n. F i)))" by (simp only:)
  show ?thesis
  proof (intro exI conjI allI impI)
    show "mem_inv (sv_malloc V) c h (as i) (F i)" if "i < n" "hs_conn sv ! i = Some c" for i c using slots [OF that(1)] that(2) by (simp add: slot_mem_def)
    show "h x = h0 x" if "h0 x \<noteq> None" for x using m that unfolding server_mem_def by blast
  qed (fact disj del)+
qed

section \<open>A round that accepts a connection\<close>

lemma fill_arena:
  "(\<And>a. h a = None \<longleftrightarrow> m \<le> a) \<Longrightarrow> m + n \<le> k \<Longrightarrow> 0 \<le> wb_size wb \<Longrightarrow> freeBuffer wb \<noteq> [] \<Longrightarrow>
     \<exists>h' wb'. InitBuffer_fill (arena_malloc k) n h wb = Some (True, h', wb')"
proof (induction n arbitrary: h m wb)
  case (Suc n)
  have "List.find (\<lambda>a. h a = None) [0..<k] = Some m" using Suc.prems(1,2) by (simp add: find_Some_iff, intro exI [of _ m], simp)
  then obtain b where al: "AllocHttpBuffer (arena_malloc k) h (wb_size wb) = (Some m, h(m \<mapsto> b))"
    using Suc.prems(3) by (auto simp: AllocHttpBuffer_def arena_malloc_def sizeof_defs)
  obtain f fs where fb: "freeBuffer wb = f # fs" using Suc.prems(4) by (cases "freeBuffer wb") auto
  have "\<exists>h' wb'. InitBuffer_fill (arena_malloc k) n (h(m \<mapsto> b\<lparr>hb_next := f\<rparr>)) (wb\<lparr>freeBuffer := Some m # fs\<rparr>) = Some (True, h', wb')"
  proof (rule Suc.IH [of _ "Suc m"])
    fix a
    show "((h(m \<mapsto> b\<lparr>hb_next := f\<rparr>)) a = None) = (Suc m \<le> a)" using Suc.prems(1) [of a] by (cases "a = m") auto
  qed (use Suc.prems(2,3) in simp_all)
  then show ?case using al fb by simp
qed simp

definition accepting_kernel :: "((epoll_flags \<times> int) list \<times> bytes) kernel" where
  "accepting_kernel = quiet_kernel\<lparr>sys_accept := (\<lambda>k fd. (2, ''peer'', k))\<rparr>"

definition accepting_server :: HttpServer where
  "accepting_server = \<lparr>hs_stop = False, hs_watching = True, hs_listenFd = 1,
     hs_tcpServer = busy_server SS_LISTENING, hs_conn = replicate 4 None\<rparr>"

declare RunPoll.simps [code]

lemma accepting_polled:
  "case RunPoll accepting_kernel SC_ERROR (busy_server SS_LISTENING, ([(EPOLLIN, 1)], [])) of
     Some (Val (evt, (tcp, k))) \<Rightarrow> evt = \<lparr>ev_code = SC_ACCEPTED, ev_conn = Some 2\<rparr> \<and> map_option so_fd (get_sock 2 tcp) = Some 2
   | _ \<Rightarrow> False"
  by code_simp

lemma accepting_init:
  "\<exists>c h. HttpClient_init (sv_env (sample_server_env K)) True cap0 cl sc cgi Map.empty = Some (c, h) \<and>
     readBuff (hc_readBuffer c) \<noteq> None"
proof -
  have "\<exists>h' wb'. InitBuffer_fill (arena_malloc 16) 8 Map.empty \<lparr>wb_size = 1024, wb_num = 8, wb_num_slot = 8, freeBuffer = replicate 8 None\<rparr> =
      Some (True, h', wb')" by (rule fill_arena [of _ 0]) auto
  moreover have "List.find (\<lambda>a. True) [0..<16] = Some (0 :: nat)" by (simp add: upt_conv_Cons)
  then have "readBuff (HttpReadBuffer_init (arena_malloc 16) Map.empty 8192) \<noteq> None"
    by (simp add: HttpReadBuffer_init_def AllocHttpBuffer_def arena_malloc_def sizeof_defs)
  ultimately show ?thesis
    by (auto simp: HttpClient_init_def HttpWriteBuffer_init_def InitBuffer_def sv_env_def sample_server_env_def)
qed

lemma accepting_round:
  "\<exists>sv h k c. poll_step (sample_server_env accepting_kernel) (accepting_server, Map.empty, ([(EPOLLIN, 1)], [])) (sv, h, k) \<and> hs_conn sv ! 2 = Some c"
proof -
  let ?V = "sample_server_env accepting_kernel"
  have watch: "adjust_watch ?V (accepting_server, Map.empty, ([(EPOLLIN, 1)], [])) = Some (accepting_server, Map.empty, ([(EPOLLIN, 1)], []))"
    by (simp add: adjust_watch_def accepting_server_def GetConnNumber_def sdiv_nonneg)
  obtain tcp k so where polled: "RunPoll accepting_kernel SC_ERROR (busy_server SS_LISTENING, ([(EPOLLIN, 1)], [])) =
      Some (Val (\<lparr>ev_code = SC_ACCEPTED, ev_conn = Some 2\<rparr>, (tcp, k)))" "get_sock 2 tcp = Some so" "so_fd so = 2"
    using accepting_polled by (auto split: option.splits res.splits)
  obtain c h where init: "HttpClient_init (sv_env ?V) True 15 False HSC_UNKNOWN (Some (DefaultHttpRequestHandler ''now'')) Map.empty = Some (c, h)"
    "readBuff (hc_readBuffer c) \<noteq> None" using accepting_init by blast
  obtain F where "mem_inv (arena_malloc 16) c h [] F"
    using HttpClient_init_own [OF _ init(1)] arena_malloc_ok by (auto simp: sv_env_def sample_server_env_def)
  then obtain h' pw wb where "release_pending h (hc_pendingWrite c) (hc_writeBuffer c) = Some (Val (h', pw, wb))" using release_pending_own by blast
  then obtain c' where reset: "ResetClient (Some 2) (c, h) = Some (Val (c', h'))"
    using init(2) by (auto simp: ResetClient_def ResetBuffer_def)
  let ?sv = "accepting_server\<lparr>hs_tcpServer := tcp\<rparr>"
  have "get_client 2 ?sv = Some None" by (simp add: get_client_def accepting_server_def)
  then have en: "ensure_client ?V 2 (?sv, Map.empty) = Some (c, put_client 2 c ?sv, h)"
    using init(1) by (simp add: ensure_client_def sample_server_env_def)
  have "PollHandler ?V \<lparr>ev_code = SC_ACCEPTED, ev_conn = Some 2\<rparr> (?sv, Map.empty, k) = Some (Val (put_client 2 c' (put_client 2 c ?sv), h', k))"
    using polled(2,3) en reset by (simp add: PollHandler_def)
  moreover have "hs_conn (put_client 2 c' (put_client 2 c ?sv)) ! 2 = Some c'" by (simp add: put_client_def accepting_server_def)
  moreover have "sv_kernel ?V = accepting_kernel" "sv_code ?V = SC_ERROR" "hs_tcpServer accepting_server = busy_server SS_LISTENING"
    by (simp_all add: sample_server_env_def accepting_server_def)
  ultimately show ?thesis using watch polled(1) by (auto simp: poll_step_def poll_once_def)
qed

theorem server_memory_disjoint_witness:
  "\<exists>sv h k c as F. (poll_step (sample_server_env accepting_kernel))\<^sup>*\<^sup>* (accepting_server, Map.empty, ([(EPOLLIN, 1)], [])) (sv, h, k) \<and>
     hs_conn sv ! 2 = Some c \<and> mem_inv (arena_malloc 16) c h (as (2 :: nat)) (F 2) \<and> DestroyServer sv h = Some (h |` (- (\<Union>i < (4 :: nat). F i)))"
proof -
  obtain sv h k c where r: "poll_step (sample_server_env accepting_kernel) (accepting_server, Map.empty, ([(EPOLLIN, 1)], [])) (sv, h, k)"
    "hs_conn sv ! 2 = Some c" using accepting_round by blast
  have mal: "malloc_ok (sv_malloc (sample_server_env accepting_kernel))" by (simp add: sample_server_env_def arena_malloc_ok)
  have conns: "hs_conn accepting_server = replicate 4 None" by (simp add: accepting_server_def)
  have run: "(poll_step (sample_server_env accepting_kernel))\<^sup>*\<^sup>* (accepting_server, Map.empty, ([(EPOLLIN, 1)], [])) (sv, h, k)" using r(1) by simp
  from server_memory_disjoint [OF mal run conns] obtain as F where
    "\<forall>i < 4. \<forall>c. hs_conn sv ! i = Some c \<longrightarrow> mem_inv (sv_malloc (sample_server_env accepting_kernel)) c h (as i) (F i)"
    "DestroyServer sv h = Some (h |` (- (\<Union>i < 4. F i)))" by blast
  moreover have "sv_malloc (sample_server_env accepting_kernel) = arena_malloc 16" by (simp add: sample_server_env_def)
  ultimately have "mem_inv (arena_malloc 16) c h (as 2) (F 2)" using r(2) by simp
  then show ?thesis using run r(2) \<open>DestroyServer sv h = _\<close> by blast
qed

end
