(* ===== verification/LogStream.thy ===== *)
theory LogStream
  imports Prelude "HOL-Library.Word"
begin

text \<open>
  \<open>slog/LogStream.{h,cc}\<close>: text formatting into a caller's buffer. \<open>m_cur\<close> and \<open>m_size\<close> are
  \<open>size_t\<close>, so that the free space \<open>m_size - m_cur\<close> wraps around as it does in the code. A write
  outside the buffer's memory and a failing assertion are \<open>None\<close>.
\<close>

record LogStream =
  ls_buff :: bytes
  ls_cur :: "64 word"
  ls_size :: "64 word"

definition LogStream_init :: "bytes \<Rightarrow> 64 word \<Rightarrow> LogStream" where
  "LogStream_init buff sz = \<lparr>ls_buff = buff, ls_cur = 0, ls_size = sz\<rparr>"

text \<open>\<open>m_buff[i] = c\<close>.\<close>

definition put_char :: "nat \<Rightarrow> char \<Rightarrow> bytes \<Rightarrow> bytes option" where
  "put_char i c mem = (if i < length mem then Some (mem[i := c]) else None)"

definition Reset :: "LogStream \<Rightarrow> LogStream option" where
  "Reset s = map_option (\<lambda>m. s\<lparr>ls_buff := m, ls_cur := 0\<rparr>) (put_char 0 (CHR 0x00) (ls_buff s))"

definition Length :: "LogStream \<Rightarrow> 64 word" where
  "Length s = ls_cur s"

definition EmptyBuff :: "LogStream \<Rightarrow> LogStream option" where
  "EmptyBuff s = map_option (\<lambda>m. s\<lparr>ls_buff := m\<rparr>) (memcpy_to (ls_buff s) 0 (replicate (unat (ls_size s)) (CHR 0x00)))"

definition SetTrailingNull :: "LogStream \<Rightarrow> LogStream option" where
  "SetTrailingNull s = map_option (\<lambda>m. s\<lparr>ls_buff := m\<rparr>) (put_char (unat (ls_cur s)) (CHR 0x00) (ls_buff s))"

definition Append :: "string \<Rightarrow> LogStream \<Rightarrow> (64 word \<times> LogStream) option" where
  "Append data s =
     (let len = word_of_nat (length data) in
      if ls_size s - ls_cur s \<ge> len
      then map_option (\<lambda>m. (len, s\<lparr>ls_buff := m, ls_cur := ls_cur s + len\<rparr>)) (memcpy_to (ls_buff s) (unat (ls_cur s)) data)
      else None)"

text \<open>
  \<open>FmtAppend\<close>: \<open>text\<close> is what \<open>snprintf\<close> formats; it stores as much of it as fits in \<open>left\<close> bytes with the
  terminator, and returns the length of all of it. (\<open>left\<close> is an \<open>int\<close>, passed on as a \<open>size_t\<close>.)
\<close>

definition FmtAppend :: "string \<Rightarrow> LogStream \<Rightarrow> (int \<times> LogStream) option" where
  "FmtAppend text s =
     (let left = signed_take_bit 31 (uint (ls_size s - ls_cur s));
          n = int (length text);
          room = nat (left mod 2 ^ 64) in
      do {
        m \<leftarrow> (if room = 0 then Some (ls_buff s)
              else memcpy_to (ls_buff s) (unat (ls_cur s)) (take (room - 1) text @ [CHR 0x00]));
        if n \<le> 0 then Some (0, s\<lparr>ls_buff := m\<rparr>)
        else Some (n, s\<lparr>ls_buff := m, ls_cur := ls_cur s + word_of_int n\<rparr>)
      })"

definition g_digits :: string where
  "g_digits = ''9876543210123456789''"

definition g_digits_hex :: string where
  "g_digits_hex = ''0123456789ABCDEF''"

text \<open>\<open>g_zero[lsd]\<close>, for \<open>lsd\<close> from -9 to 9.\<close>

definition g_zero :: "int \<Rightarrow> char option" where
  "g_zero lsd = (if 0 \<le> 9 + lsd \<and> 9 + lsd < int (length g_digits) then Some (g_digits ! nat (9 + lsd)) else None)"

lemma sdiv_10_smaller: "(i :: int) sdiv 10 \<noteq> 0 \<Longrightarrow> \<bar>i sdiv 10\<bar> < \<bar>i\<bar>"
  by (auto simp: signed_divide_int_def sgn_if abs_mult split: if_splits)

text \<open>The loop of the template \<open>convert\<close>, for \<open>T\<close> signed or unsigned: C's remainder and quotient truncate.\<close>

function convert_loop :: "int \<Rightarrow> nat \<Rightarrow> bytes \<Rightarrow> (nat \<times> bytes) option" where
  "convert_loop i p mem = do {
     let lsd = i smod 10;
     let i' = i sdiv 10;
     c \<leftarrow> g_zero lsd;
     mem' \<leftarrow> put_char p c mem;
     if i' \<noteq> 0 then convert_loop i' (Suc p) mem' else Some (Suc p, mem')
   }"
  by pat_completeness auto

termination
  by (relation "measure (\<lambda>(i, _, _). nat \<bar>i\<bar>)") (auto intro: sdiv_10_smaller)

declare convert_loop.simps [simp del]

definition convert :: "nat \<Rightarrow> int \<Rightarrow> bytes \<Rightarrow> (nat \<times> bytes) option" where
  "convert buf val mem = do {
     (p, mem1) \<leftarrow> convert_loop val buf mem;
     mem2 \<leftarrow> put_char p (CHR 0x00) mem1;
     Some (p - buf, mem2)
   }"

text \<open>\<open>std::reverse(buff + a, buff + b)\<close>.\<close>

definition reverse_range :: "nat \<Rightarrow> nat \<Rightarrow> bytes \<Rightarrow> bytes" where
  "reverse_range a b mem = take a mem @ rev (take (b - a) (drop a mem)) @ drop b mem"

definition Convert64 :: "64 word \<Rightarrow> LogStream \<Rightarrow> (nat \<times> LogStream) option" where
  "Convert64 val s =
     (if ls_size s - ls_cur s < 32 then Some (0, s)
      else do {
        let ps = unat (ls_cur s);
        (len, m1) \<leftarrow> convert ps (sint val) (ls_buff s);
        let cur1 = ls_cur s + word_of_nat len;
        (cur2, m2) \<leftarrow>
          (if sint val < 0
           then do {
             m \<leftarrow> put_char (unat cur1) (CHR ''-'') m1;
             m' \<leftarrow> put_char (unat (cur1 + 1)) (CHR 0x00) m;
             Some (cur1 + 1, m')
           }
           else Some (cur1, m1));
        Some (unat cur2 - ps, s\<lparr>ls_buff := reverse_range ps (unat cur2) m2, ls_cur := cur2\<rparr>)
      })"

definition Convert64U :: "64 word \<Rightarrow> LogStream \<Rightarrow> (nat \<times> LogStream) option" where
  "Convert64U val s =
     (if ls_size s - ls_cur s < 32 then Some (0, s)
      else do {
        let ps = unat (ls_cur s);
        (len, m1) \<leftarrow> convert ps (uint val) (ls_buff s);
        let cur1 = ls_cur s + word_of_nat len;
        Some (len, s\<lparr>ls_buff := reverse_range ps (unat cur1) m1, ls_cur := cur1\<rparr>)
      })"

function hex_loop :: "nat \<Rightarrow> nat \<Rightarrow> bytes \<Rightarrow> (nat \<times> bytes) option" where
  "hex_loop i p mem = do {
     let lsd = i mod 16;
     let i' = i div 16;
     mem' \<leftarrow> put_char p (g_digits_hex ! lsd) mem;
     if i' \<noteq> 0 then hex_loop i' (Suc p) mem' else Some (Suc p, mem')
   }"
  by pat_completeness auto
termination
  by (relation "measure (\<lambda>(i, _, _). i)") auto

declare hex_loop.simps [simp del]

definition ConvertHex :: "64 word \<Rightarrow> LogStream \<Rightarrow> (nat \<times> LogStream) option" where
  "ConvertHex val s = do {
     let buff = unat (ls_cur s);
     (p, m1) \<leftarrow> hex_loop (unat val) buff (ls_buff s);
     m2 \<leftarrow> memcpy_to m1 p ''x0'';
     m3 \<leftarrow> put_char (p + 2) (CHR 0x00) m2;
     let len = p + 2 - buff;
     Some (len, s\<lparr>ls_buff := reverse_range buff (p + 2) m3, ls_cur := ls_cur s + word_of_nat len\<rparr>)
   }"

text \<open>What the overloads of \<open>operator<<\<close> take. \<open>LI\<close> and \<open>LU\<close> are the arithmetic types widened to 64
  bits, signed and unsigned; \<open>LA\<close> is an array argument, whose last element is not appended; \<open>LD\<close> is a
  floating-point number given by its formatted text.\<close>

datatype log_item = LI "64 word" | LU "64 word" | LS string | LC string | LA string | LCh char | LB bool | LP "64 word" | LD string | LEndl

definition stream_put :: "log_item \<Rightarrow> LogStream \<Rightarrow> LogStream option" where
  "stream_put x s = (case x of
       LI v \<Rightarrow> map_option snd (Convert64 v s)
     | LU v \<Rightarrow> map_option snd (Convert64U v s)
     | LS v \<Rightarrow> map_option snd (Append v s)
     | LC v \<Rightarrow> map_option snd (Append (c_str v) s)
     | LA v \<Rightarrow> map_option snd (Append (butlast v) s)
     | LCh c \<Rightarrow> map_option snd (Append [c] s)
     | LB b \<Rightarrow> map_option snd (Append (if b then ''1'' else ''0'') s)
     | LP v \<Rightarrow> map_option snd (ConvertHex v s)
     | LD t \<Rightarrow> map_option snd (FmtAppend t s)
     | LEndl \<Rightarrow> map_option snd (Append [CHR 0x0A] s))"

section \<open>Digits\<close>

lemma memcpy_to_Cons: "memcpy_to mem p (c # cs) = Option.bind (put_char p c mem) (\<lambda>m. memcpy_to m (Suc p) cs)"
proof (cases "p < length mem")
  case True
  then have "take (Suc p) (mem[p := c]) = take p mem @ [c]" by (simp add: take_Suc_conv_app_nth)
  with True show ?thesis by (simp add: memcpy_to_def put_char_def)
qed (simp add: memcpy_to_def put_char_def)

lemma memcpy_to_Nil: "p \<le> length mem \<Longrightarrow> memcpy_to mem p [] = Some mem"
  by (simp add: memcpy_to_def)

lemma put_char_memcpy: "put_char p c mem = memcpy_to mem p [c]"
  by (simp add: memcpy_to_Cons memcpy_to_Nil put_char_def bind_def split: option.splits)

lemma memcpy_to_append:
  assumes "memcpy_to mem p xs = Some m1"
  shows "memcpy_to m1 (p + length xs) ys = memcpy_to mem p (xs @ ys)"
  using assms by (auto simp: memcpy_to_def ac_simps split: if_splits)

lemma g_zero_digit: "g_zero (i smod 10) = Some (''0123456789'' ! (nat \<bar>i\<bar> mod 10))"
proof -
  define n where "n = nat \<bar>i\<bar> mod 10"
  have "n < 10" by (simp add: n_def)
  then have n: "n \<in> {0, 1, 2, 3, 4, 5, 6, 7, 8, 9}" by (auto simp: numeral_eq_Suc less_Suc_eq)
  have "i smod 10 = sgn i * int n"
    by (auto simp: signed_modulo_int_def signed_divide_int_def n_def sgn_if nat_mod_distrib minus_div_mult_eq_mod [symmetric])
  then have "i smod 10 = int n \<or> i smod 10 = - int n" by (auto simp: sgn_if n_def)
  with n show ?thesis unfolding n_def [symmetric] g_zero_def g_digits_def by auto
qed

lemma sdiv_10_abs: "nat \<bar>i sdiv 10\<bar> = nat \<bar>i\<bar> div 10"
  by (auto simp: signed_divide_int_def sgn_if abs_mult nat_div_distrib)

lemma rev_dec:
  "rev (dec n) = ''0123456789'' ! (n mod 10) # (if n div 10 \<noteq> 0 then rev (dec (n div 10)) else [])"
  by (subst dec.simps) auto

lemma convert_loop_spec:
  "convert_loop i p mem =
     map_option (\<lambda>m. (p + length (dec (nat \<bar>i\<bar>)), m)) (memcpy_to mem p (rev (dec (nat \<bar>i\<bar>))))"
proof (induction i p mem rule: convert_loop.induct)
  case (1 i p mem)
  define n where "n = nat \<bar>i\<bar>"
  have z: "i sdiv 10 \<noteq> 0 \<longleftrightarrow> n div 10 \<noteq> 0" using sdiv_10_abs [of i] unfolding n_def by (metis abs_eq_0 nat_0_iff abs_ge_zero order_antisym nat_0)
  have len: "length (dec n) = Suc (if n div 10 \<noteq> 0 then length (dec (n div 10)) else 0)"
    using arg_cong [OF rev_dec [of n], of length] by (simp split: if_splits)
  show ?case
  proof (cases "put_char p (''0123456789'' ! (n mod 10)) mem")
    case None
    then show ?thesis using g_zero_digit [of i] unfolding n_def [symmetric]
      by (subst convert_loop.simps) (simp add: rev_dec [of n] memcpy_to_Cons)
  next
    case (Some m)
    have pm: "Suc p \<le> length m" using Some by (auto simp: put_char_def split: if_splits)
    have step: "convert_loop i p mem = (if n div 10 \<noteq> 0 then convert_loop (i sdiv 10) (Suc p) m else Some (Suc p, m))"
      using Some g_zero_digit [of i] z unfolding n_def [symmetric] by (subst convert_loop.simps) (simp add: Let_def)
    have ih: "convert_loop (i sdiv 10) (Suc p) m =
        map_option (\<lambda>m. (Suc p + length (dec (n div 10)), m)) (memcpy_to m (Suc p) (rev (dec (n div 10))))" if "n div 10 \<noteq> 0"
      using 1 [OF refl refl, of "''0123456789'' ! (n mod 10)" m] that Some g_zero_digit [of i] z sdiv_10_abs [of i]
      unfolding n_def [symmetric] by simp
    show ?thesis unfolding n_def [symmetric]
      using step ih Some pm by (simp add: rev_dec [of n] memcpy_to_Cons memcpy_to_Nil len)
  qed
qed

text \<open>The hexadecimal digits of a number.\<close>

fun hex :: "nat \<Rightarrow> string" where
  "hex n = (if n < 16 then [g_digits_hex ! n] else hex (n div 16) @ [g_digits_hex ! (n mod 16)])"

declare hex.simps [simp del]

lemma rev_hex: "rev (hex n) = g_digits_hex ! (n mod 16) # (if n div 16 \<noteq> 0 then rev (hex (n div 16)) else [])"
  by (subst hex.simps) auto

lemma hex_loop_spec:
  "hex_loop i p mem = map_option (\<lambda>m. (p + length (hex i), m)) (memcpy_to mem p (rev (hex i)))"
proof (induction i p mem rule: hex_loop.induct)
  case (1 i p mem)
  have len: "length (hex i) = Suc (if i div 16 \<noteq> 0 then length (hex (i div 16)) else 0)"
    using arg_cong [OF rev_hex [of i], of length] by (simp split: if_splits)
  show ?case
  proof (cases "put_char p (g_digits_hex ! (i mod 16)) mem")
    case None
    then show ?thesis by (subst hex_loop.simps) (simp add: rev_hex [of i] memcpy_to_Cons)
  next
    case (Some m)
    have pm: "Suc p \<le> length m" using Some by (auto simp: put_char_def split: if_splits)
    have "hex_loop i p mem = (if i div 16 \<noteq> 0 then hex_loop (i div 16) (Suc p) m else Some (Suc p, m))"
      using Some by (subst hex_loop.simps) (simp add: Let_def)
    then show ?thesis using 1 [OF refl refl Some] Some pm
      by (simp add: rev_hex [of i] memcpy_to_Cons memcpy_to_Nil len)
  qed
qed

lemma dec_length: "n < 10 ^ k \<Longrightarrow> 0 < k \<Longrightarrow> length (dec n) \<le> k"
proof (induction k arbitrary: n)
  case (Suc k)
  show ?case
  proof (cases "n < 10")
    case True
    then show ?thesis by (simp add: dec.simps)
  next
    case False
    then have "0 < k" using Suc.prems(1) by (cases k) auto
    moreover have "n div 10 < 10 ^ k" using Suc.prems(1) by (simp add: less_mult_imp_div_less mult.commute)
    ultimately show ?thesis using Suc.IH [of "n div 10"] False by (subst dec.simps) simp
  qed
qed simp

lemma hex_length: "n < 16 ^ k \<Longrightarrow> 0 < k \<Longrightarrow> length (hex n) \<le> k"
proof (induction k arbitrary: n)
  case (Suc k)
  show ?case
  proof (cases "n < 16")
    case True
    then show ?thesis by (simp add: hex.simps)
  next
    case False
    then have "0 < k" using Suc.prems(1) by (cases k) auto
    moreover have "n div 16 < 16 ^ k" using Suc.prems(1) by (simp add: less_mult_imp_div_less mult.commute)
    ultimately show ?thesis using Suc.IH [of "n div 16"] False by (subst hex.simps) simp
  qed
qed simp

lemma unat64: "unat (w :: 64 word) < 2 ^ 64"
  using unsigned_less [of w, where ?'a = nat] by simp

section \<open>The stream appends\<close>

definition ls_ok :: "LogStream \<Rightarrow> bool" where
  "ls_ok s \<longleftrightarrow> unat (ls_cur s) \<le> unat (ls_size s) \<and> unat (ls_size s) \<le> length (ls_buff s)"

definition ls_text :: "LogStream \<Rightarrow> string" where
  "ls_text s = take (unat (ls_cur s)) (ls_buff s)"

text \<open>\<open>s'\<close> is \<open>s\<close> with \<open>t\<close> appended.\<close>

definition appended :: "string \<Rightarrow> LogStream \<Rightarrow> LogStream \<Rightarrow> bool" where
  "appended t s s' \<longleftrightarrow> ls_ok s' \<and> ls_text s' = ls_text s @ t \<and> ls_size s' = ls_size s \<and>
     length (ls_buff s') = length (ls_buff s)"

definition room :: "LogStream \<Rightarrow> nat" where
  "room s = unat (ls_size s) - unat (ls_cur s)"

lemma room_word: "ls_ok s \<Longrightarrow> unat (ls_size s - ls_cur s) = room s"
  unfolding room_def ls_ok_def by (rule unat_sub) (simp add: word_le_nat_alt)

lemma cur_plus:
  assumes "ls_ok s" and "n \<le> room s"
  shows "unat (ls_cur s + word_of_nat n) = unat (ls_cur s) + n"
proof -
  have "unat (ls_cur s) + n \<le> unat (ls_size s)" using assms by (auto simp: ls_ok_def room_def)
  moreover have "unat (ls_size s) < 2 ^ 64" using unat64 [of "ls_size s"] by simp
  ultimately have lt: "unat (ls_cur s) + n < 2 ^ 64" by linarith
  then have "unat (word_of_nat n :: 64 word) = n" by (simp add: unat_of_nat take_bit_nat_eq_self)
  with lt show ?thesis by (subst unat_add_lem [THEN iffD1]) simp_all
qed

text \<open>Whatever puts \<open>t\<close> behind the text and advances \<open>m_cur\<close> by its length appends \<open>t\<close>.\<close>

lemma appendedI:
  assumes "ls_ok s" and "length t \<le> room s" and "m = take (unat (ls_cur s)) (ls_buff s) @ t @ r"
    and "length m = length (ls_buff s)" and "s' = s\<lparr>ls_buff := m, ls_cur := ls_cur s + word_of_nat (length t)\<rparr>"
  shows "appended t s s'"
proof -
  have c: "unat (ls_cur s + word_of_nat (length t)) = unat (ls_cur s) + length t" using assms(1,2) by (rule cur_plus)
  have l: "unat (ls_cur s) \<le> length (ls_buff s)" using assms(1) by (simp add: ls_ok_def)
  have "ls_ok s'" using assms c by (auto simp: ls_ok_def room_def)
  moreover have "ls_text s' = ls_text s @ t" using assms(3,5) c l by (simp add: ls_text_def min_def)
  ultimately show ?thesis using assms(4,5) by (simp add: appended_def)
qed

lemma Append_ok:
  assumes "ls_ok s" and "length data \<le> room s"
  shows "\<exists>n s'. Append data s = Some (n, s') \<and> appended data s s'"
proof -
  let ?len = "word_of_nat (length data) :: 64 word"
  have "length data < 2 ^ 64" using assms(2) unat64 [of "ls_size s"] by (simp add: room_def)
  then have u: "unat ?len = length data" by (simp add: unat_of_nat take_bit_nat_eq_self)
  have ge: "ls_size s - ls_cur s \<ge> ?len" using assms u room_word [OF assms(1)] by (simp add: word_le_nat_alt)
  have fits: "unat (ls_cur s) + length data \<le> length (ls_buff s)" using assms by (auto simp: ls_ok_def room_def)
  let ?m = "take (unat (ls_cur s)) (ls_buff s) @ data @ drop (unat (ls_cur s) + length data) (ls_buff s)"
  have "Append data s = Some (?len, s\<lparr>ls_buff := ?m, ls_cur := ls_cur s + ?len\<rparr>)"
    using ge fits by (simp add: Append_def Let_def memcpy_to_Some)
  moreover have "appended data s (s\<lparr>ls_buff := ?m, ls_cur := ls_cur s + ?len\<rparr>)"
    using assms fits by (intro appendedI [where m = ?m]) auto
  ultimately show ?thesis by blast
qed

lemma reverse_range_mid: "length a = p \<Longrightarrow> q = p + length x \<Longrightarrow> reverse_range p q (a @ x @ r) = a @ rev x @ r"
  by (simp add: reverse_range_def)

lemma convert_spec:
  assumes "p + length (dec (nat \<bar>i\<bar>)) < length mem"
  shows "convert p i mem = Some (length (dec (nat \<bar>i\<bar>)),
     take p mem @ rev (dec (nat \<bar>i\<bar>)) @ CHR 0x00 # drop (p + length (dec (nat \<bar>i\<bar>)) + 1) mem)"
proof -
  let ?d = "rev (dec (nat \<bar>i\<bar>))"
  obtain m1 where m1: "memcpy_to mem p ?d = Some m1" using assms by (simp add: memcpy_to_Some)
  have "put_char (p + length ?d) (CHR 0x00) m1 = memcpy_to mem p (?d @ [CHR 0x00])"
    unfolding put_char_memcpy using memcpy_to_append [OF m1] by simp
  also have "\<dots> = Some (take p mem @ ?d @ CHR 0x00 # drop (p + length ?d + 1) mem)"
    using assms by (simp add: memcpy_to_Some)
  finally show ?thesis using m1 by (simp add: convert_def convert_loop_spec)
qed

text \<open>The decimal text of a signed number.\<close>

definition sdec :: "int \<Rightarrow> string" where
  "sdec i = (if i < 0 then ''-'' else []) @ dec (nat \<bar>i\<bar>)"

lemma dec_length_64:
  "length (dec (nat \<bar>sint (v :: 64 word)\<bar>)) \<le> 20" "length (dec (nat (uint (v :: 64 word)))) \<le> 20"
proof -
  have "\<bar>sint v\<bar> \<le> 2 ^ 63" using sint_lt [of v] sint_ge [of v] by simp
  then have "nat \<bar>sint v\<bar> < 10 ^ 20" by simp
  then show "length (dec (nat \<bar>sint v\<bar>)) \<le> 20" by (rule dec_length) simp
  have "nat (uint v) < 10 ^ 20" using unat64 [of v] by simp
  then show "length (dec (nat (uint v))) \<le> 20" by (rule dec_length) simp
qed

lemma Convert64_ok:
  assumes ok: "ls_ok s" and rm: "32 \<le> room s"
  shows "\<exists>s'. Convert64 v s = Some (length (sdec (sint v)), s') \<and> appended (sdec (sint v)) s s'"
proof -
  let ?d = "dec (nat \<bar>sint v\<bar>)" and ?p = "unat (ls_cur s)" and ?mem = "ls_buff s"
  have len: "length ?d \<le> 20" by (rule dec_length_64)
  have fits: "?p + 32 \<le> length ?mem" using ok rm by (auto simp: ls_ok_def room_def)
  have ge: "\<not> ls_size s - ls_cur s < 32" using room_word [OF ok] rm by (simp add: word_less_nat_alt)
  have conv: "convert ?p (sint v) ?mem = Some (length ?d, take ?p ?mem @ rev ?d @ CHR 0x00 # drop (?p + length ?d + 1) ?mem)"
    using len fits by (intro convert_spec) linarith
  have c1: "unat (ls_cur s + word_of_nat (length ?d)) = ?p + length ?d" using len rm by (intro cur_plus [OF ok]) linarith
  have tp: "length (take ?p ?mem) = ?p" using fits by simp
  show ?thesis
  proof (cases "sint v < 0")
    case False
    let ?r = "CHR 0x00 # drop (?p + length ?d + 1) ?mem"
    let ?s = "s\<lparr>ls_buff := take ?p ?mem @ ?d @ ?r, ls_cur := ls_cur s + word_of_nat (length ?d)\<rparr>"
    have "reverse_range ?p (?p + length ?d) (take ?p ?mem @ rev ?d @ ?r) = take ?p ?mem @ ?d @ ?r"
      using reverse_range_mid [OF tp, of "?p + length ?d" "rev ?d" ?r] by simp
    then have "Convert64 v s = Some (length ?d, ?s)"
      using False ge conv c1 by (simp add: Convert64_def Let_def)
    moreover have "appended ?d s ?s"
      using len rm fits by (intro appendedI [OF ok, where r = ?r]) auto
    ultimately show ?thesis using False by (simp add: sdec_def)
  next
    case True
    let ?r = "CHR 0x00 # drop (?p + length ?d + 2) ?mem"
    let ?m1 = "take ?p ?mem @ rev ?d @ CHR 0x00 # drop (?p + length ?d + 1) ?mem"
    let ?s = "s\<lparr>ls_buff := take ?p ?mem @ (''-'' @ ?d) @ ?r, ls_cur := ls_cur s + word_of_nat (length (''-'' @ ?d))\<rparr>"
    have c2: "unat (ls_cur s + word_of_nat (length (''-'' @ ?d))) = ?p + length (''-'' @ ?d)"
      using len rm by (intro cur_plus [OF ok]) simp
    have w: "ls_cur s + word_of_nat (length ?d) + 1 = ls_cur s + word_of_nat (length (''-'' @ ?d))" by simp
    have split: "drop (?p + length ?d + 1) ?mem = ?mem ! (?p + length ?d + 1) # drop (?p + length ?d + 2) ?mem"
      using len fits by (simp add: Cons_nth_drop_Suc)
    have a: "put_char (?p + length ?d) (CHR ''-'') ?m1 = Some (take ?p ?mem @ rev ?d @ ''-'' @ drop (?p + length ?d + 1) ?mem)"
      using fits len by (simp add: put_char_def list_update_append tp)
    have b: "put_char (?p + length (''-'' @ ?d)) (CHR 0x00) (take ?p ?mem @ rev ?d @ ''-'' @ drop (?p + length ?d + 1) ?mem) =
        Some (take ?p ?mem @ (rev ?d @ ''-'') @ ?r)"
      using fits len unfolding split by (simp add: put_char_def list_update_append tp)
    have rv: "reverse_range ?p (?p + length (''-'' @ ?d)) (take ?p ?mem @ (rev ?d @ ''-'') @ ?r) = take ?p ?mem @ (''-'' @ ?d) @ ?r"
      using reverse_range_mid [OF tp, of "?p + length (''-'' @ ?d)" "rev ?d @ ''-''" ?r] by simp
    have "Convert64 v s = Some (length (''-'' @ ?d), ?s)"
      unfolding Convert64_def Let_def using True ge conv c1 c2 a b rv
      by (simp only: w if_True if_False not_False_eq_True bind.bind_lunit prod.case) simp
    moreover have "appended (''-'' @ ?d) s ?s"
      using len rm fits by (intro appendedI [OF ok, where r = ?r]) auto
    ultimately show ?thesis using True by (simp add: sdec_def)
  qed
qed

lemma Convert64U_ok:
  assumes ok: "ls_ok s" and rm: "32 \<le> room s"
  shows "\<exists>s'. Convert64U v s = Some (length (dec (unat v)), s') \<and> appended (dec (unat v)) s s'"
proof -
  let ?d = "dec (unat v)" and ?p = "unat (ls_cur s)" and ?mem = "ls_buff s"
  have n: "nat \<bar>uint v\<bar> = unat v" by simp
  have len: "length ?d \<le> 20" using dec_length_64(2) [of v] by simp
  have fits: "?p + 32 \<le> length ?mem" using ok rm by (auto simp: ls_ok_def room_def)
  have ge: "\<not> ls_size s - ls_cur s < 32" using room_word [OF ok] rm by (simp add: word_less_nat_alt)
  let ?r = "CHR 0x00 # drop (?p + length ?d + 1) ?mem"
  have conv: "convert ?p (uint v) ?mem = Some (length ?d, take ?p ?mem @ rev ?d @ ?r)"
    using convert_spec [of ?p "uint v" ?mem] len fits unfolding n by simp
  have c1: "unat (ls_cur s + word_of_nat (length ?d)) = ?p + length ?d" using len rm by (intro cur_plus [OF ok]) linarith
  have tp: "length (take ?p ?mem) = ?p" using fits by simp
  let ?s = "s\<lparr>ls_buff := take ?p ?mem @ ?d @ ?r, ls_cur := ls_cur s + word_of_nat (length ?d)\<rparr>"
  have "reverse_range ?p (?p + length ?d) (take ?p ?mem @ rev ?d @ ?r) = take ?p ?mem @ ?d @ ?r"
    using reverse_range_mid [OF tp, of "?p + length ?d" "rev ?d" ?r] by simp
  then have "Convert64U v s = Some (length ?d, ?s)" using ge conv c1 by (simp add: Convert64U_def Let_def)
  moreover have "appended ?d s ?s" using len rm fits by (intro appendedI [OF ok, where r = ?r]) auto
  ultimately show ?thesis by blast
qed

definition hex_text :: "64 word \<Rightarrow> string" where
  "hex_text v = ''0x'' @ hex (unat v)"

lemma ConvertHex_ok:
  assumes ok: "ls_ok s" and rm: "length (hex_text v) < room s"
  shows "\<exists>s'. ConvertHex v s = Some (length (hex_text v), s') \<and> appended (hex_text v) s s'"
proof -
  let ?h = "hex (unat v)" and ?p = "unat (ls_cur s)" and ?mem = "ls_buff s"
  let ?x = "rev ?h @ ''x0''" and ?r = "CHR 0x00 # drop (?p + length ?h + 3) ?mem"
  have fits: "?p + length ?h + 3 \<le> length ?mem" using ok rm by (auto simp: ls_ok_def room_def hex_text_def)
  obtain m1 where m1: "memcpy_to ?mem ?p (rev ?h) = Some m1" using fits by (simp add: memcpy_to_Some)
  obtain m2 where m2: "memcpy_to ?mem ?p ?x = Some m2" using fits by (simp add: memcpy_to_Some)
  have a: "memcpy_to m1 (?p + length ?h) ''x0'' = Some m2" using memcpy_to_append [OF m1, of "''x0''"] m2 by simp
  have "put_char (?p + length ?x) (CHR 0x00) m2 = memcpy_to ?mem ?p (?x @ [CHR 0x00])"
    unfolding put_char_memcpy using memcpy_to_append [OF m2] by simp
  also have "\<dots> = Some (take ?p ?mem @ ?x @ ?r)" using fits by (simp add: memcpy_to_Some numeral_eq_Suc)
  finally have b: "put_char (?p + length ?h + 2) (CHR 0x00) m2 = Some (take ?p ?mem @ ?x @ ?r)" by (simp add: add.assoc)
  have tp: "length (take ?p ?mem) = ?p" using fits by simp
  have rv: "reverse_range ?p (?p + length ?h + 2) (take ?p ?mem @ ?x @ ?r) = take ?p ?mem @ hex_text v @ ?r"
    using reverse_range_mid [OF tp, of "?p + length ?h + 2" ?x ?r] by (simp add: hex_text_def)
  let ?s = "s\<lparr>ls_buff := take ?p ?mem @ hex_text v @ ?r, ls_cur := ls_cur s + word_of_nat (length (hex_text v))\<rparr>"
  have "ConvertHex v s = Some (length (hex_text v), ?s)"
    using m1 a b rv by (simp add: ConvertHex_def hex_loop_spec Let_def hex_text_def)
  moreover have "appended (hex_text v) s ?s"
    using rm fits by (intro appendedI [OF ok, where r = ?r]) (auto simp: hex_text_def)
  ultimately show ?thesis by blast
qed

lemma FmtAppend_ok:
  assumes ok: "ls_ok s" and rm: "length t < room s" and small: "unat (ls_size s) < 2 ^ 31"
  shows "\<exists>s'. FmtAppend t s = Some (int (length t), s') \<and> appended t s s'"
proof -
  let ?p = "unat (ls_cur s)" and ?mem = "ls_buff s"
  let ?r = "CHR 0x00 # drop (?p + length t + 1) ?mem"
  have "uint (ls_size s - ls_cur s) = int (room s)" by (simp only: room_word [OF ok, symmetric] uint_nat)
  moreover have "room s < 2 ^ 31" using small by (simp add: room_def)
  ultimately have left: "signed_take_bit 31 (uint (ls_size s - ls_cur s)) = int (room s)"
    by (simp add: signed_take_bit_int_eq_self)
  have rw: "nat (int (room s) mod 2 ^ 64) = room s" using \<open>room s < 2 ^ 31\<close> by simp
  have fits: "?p + length t + 1 \<le> length ?mem" using ok rm by (auto simp: ls_ok_def room_def)
  have m: "memcpy_to ?mem ?p (take (room s - 1) t @ [CHR 0x00]) = Some (take ?p ?mem @ t @ ?r)"
    using rm fits by (simp add: memcpy_to_Some)
  let ?s = "s\<lparr>ls_buff := take ?p ?mem @ t @ ?r, ls_cur := ls_cur s + word_of_nat (length t)\<rparr>"
  have "FmtAppend t s = Some (int (length t), ?s)"
    using left rw m rm by (cases "t = []") (simp_all add: FmtAppend_def Let_def)
  moreover have "appended t s ?s" using rm fits by (intro appendedI [OF ok, where r = ?r]) auto
  ultimately show ?thesis by blast
qed

section \<open>Properties\<close>

text \<open>The text of an item, and the free space its operator needs.\<close>

fun item_text :: "log_item \<Rightarrow> string" where
  "item_text (LI v) = sdec (sint v)"
| "item_text (LU v) = dec (unat v)"
| "item_text (LS t) = t"
| "item_text (LC t) = c_str t"
| "item_text (LA t) = butlast t"
| "item_text (LCh c) = [c]"
| "item_text (LB b) = (if b then ''1'' else ''0'')"
| "item_text (LP v) = hex_text v"
| "item_text (LD t) = t"
| "item_text LEndl = [CHR 0x0A]"

fun item_room :: "log_item \<Rightarrow> nat" where
  "item_room (LI v) = 32"
| "item_room (LU v) = 32"
| "item_room (LP v) = Suc (length (hex_text v))"
| "item_room (LD t) = Suc (length t)"
| "item_room x = length (item_text x)"

lemma stream_put_ok:
  assumes "ls_ok s" and "item_room x \<le> room s" and "unat (ls_size s) < 2 ^ 31"
  shows "\<exists>s'. stream_put x s = Some s' \<and> appended (item_text x) s s'"
proof (cases x)
  case (LI v)
  then show ?thesis using Convert64_ok [of s v] assms by (auto simp: stream_put_def)
next
  case (LU v)
  then show ?thesis using Convert64U_ok [of s v] assms by (auto simp: stream_put_def)
next
  case (LP v)
  then show ?thesis using ConvertHex_ok [of s v] assms by (auto simp: stream_put_def)
next
  case (LD t)
  then show ?thesis using FmtAppend_ok [of s t] assms by (auto simp: stream_put_def)
qed (use assms Append_ok [of s "item_text x"] in \<open>auto simp: stream_put_def\<close>)

fun stream_run :: "log_item list \<Rightarrow> LogStream \<Rightarrow> LogStream option" where
  "stream_run [] s = Some s"
| "stream_run (x # xs) s = Option.bind (stream_put x s) (stream_run xs)"

fun items_fit :: "log_item list \<Rightarrow> nat \<Rightarrow> bool" where
  "items_fit [] n = True"
| "items_fit (x # xs) n = (item_room x \<le> n \<and> items_fit xs (n - length (item_text x)))"

lemma ls_text_length: "ls_ok s \<Longrightarrow> length (ls_text s) = unat (ls_cur s)"
  by (auto simp: ls_ok_def ls_text_def)

lemma appended_room:
  assumes "appended t s s'" and "ls_ok s"
  shows "room s' = room s - length t"
proof -
  have "ls_ok s'" "ls_text s' = ls_text s @ t" "ls_size s' = ls_size s" using assms(1) by (simp_all add: appended_def)
  then show ?thesis using ls_text_length [of s] ls_text_length [of s'] assms(2) by (simp add: room_def)
qed

lemma stream_run_ok:
  assumes "ls_ok s" and "items_fit xs (room s)" and "unat (ls_size s) < 2 ^ 31"
  shows "\<exists>s'. stream_run xs s = Some s' \<and> appended (concat (map item_text xs)) s s'"
  using assms
proof (induction xs arbitrary: s)
  case Nil
  then show ?case by (auto simp: appended_def)
next
  case (Cons x xs)
  obtain s1 where s1: "stream_put x s = Some s1" "appended (item_text x) s s1"
    using stream_put_ok [of s x] Cons.prems by auto
  have "items_fit xs (room s1)" using Cons.prems appended_room [OF s1(2)] by simp
  then obtain s2 where "stream_run xs s1 = Some s2" "appended (concat (map item_text xs)) s1 s2"
    using Cons.IH [of s1] s1(2) Cons.prems(3) by (auto simp: appended_def)
  then show ?case using s1 by (auto simp: appended_def)
qed

text \<open>
  C34. A log line holds exactly the texts of what was streamed into it, in order: any sequence of
  insertions for which there is room never faults and leaves the concatenation of their texts.
\<close>

theorem log_stream_session:
  assumes "unat sz \<le> length buff" and "unat sz < 2 ^ 31" and "items_fit xs (unat sz)"
  shows "\<exists>s. stream_run xs (LogStream_init buff sz) = Some s \<and> ls_text s = concat (map item_text xs) \<and>
     unat (Length s) = length (concat (map item_text xs))"
proof -
  let ?s = "LogStream_init buff sz"
  have ok: "ls_ok ?s" "room ?s = unat sz" "ls_size ?s = sz" "ls_text ?s = []"
    using assms(1) by (simp_all add: ls_ok_def room_def LogStream_init_def ls_text_def)
  then obtain s where s: "stream_run xs ?s = Some s" "appended (concat (map item_text xs)) ?s s"
    using stream_run_ok [of ?s xs] assms by auto
  then have "ls_text s = concat (map item_text xs)" "ls_ok s" using ok(4) by (auto simp: appended_def)
  moreover have "length (ls_text s) = unat (ls_cur s)" using \<open>ls_ok s\<close> by (simp add: ls_ok_def ls_text_def)
  ultimately show ?thesis using s(1) by (auto simp: Length_def)
qed

theorem log_stream_session_witness:
  "\<exists>s. stream_run [LC ''x='', LI (-42), LCh (CHR '' ''), LP 255, LB True] (LogStream_init (replicate 64 (CHR 0x00)) 64) = Some s \<and>
     ls_text s = ''x=-42 0xFF1''"
proof -
  let ?xs = "[LC ''x='', LI (-42), LCh (CHR '' ''), LP 255, LB True]"
  have t: "concat (map item_text ?xs) = ''x=-42 0xFF1''"
    by (simp add: sdec_def dec.simps hex_text_def hex.simps g_digits_hex_def c_str_def)
  have "items_fit ?xs (unat (64 :: 64 word))"
    by (simp add: sdec_def dec.simps hex_text_def hex.simps g_digits_hex_def c_str_def)
  from log_stream_session [OF _ _ this, of "replicate 64 (CHR 0x00)"] t show ?thesis by auto
qed

text \<open>Reading a decimal number back.\<close>

definition read_nat :: "string \<Rightarrow> int" where
  "read_nat t = foldl (\<lambda>a c. 10 * a + int (std_find c ''0123456789'')) 0 t"

definition read_int :: "string \<Rightarrow> int" where
  "read_int t = (case t of [] \<Rightarrow> 0 | c # cs \<Rightarrow> if c = CHR ''-'' then - read_nat cs else read_nat t)"

lemma read_digit: "n < 10 \<Longrightarrow> std_find (''0123456789'' ! n) ''0123456789'' = n"
proof -
  assume "n < 10"
  then have "n \<in> {0, 1, 2, 3, 4, 5, 6, 7, 8, 9}" by (auto simp: numeral_eq_Suc less_Suc_eq)
  then show ?thesis by auto
qed

lemma read_nat_dec: "read_nat (dec n) = int n"
proof (induction n rule: dec.induct)
  case (1 n)
  show ?case
  proof (cases "n < 10")
    case True
    then show ?thesis using read_digit [OF True] by (subst dec.simps) (simp add: read_nat_def del: std_find.simps)
  next
    case False
    then have "read_nat (dec n) = 10 * read_nat (dec (n div 10)) + int (n mod 10)"
      using read_digit [of "n mod 10"] by (subst dec.simps) (simp add: read_nat_def del: std_find.simps)
    also have "\<dots> = int (10 * (n div 10) + n mod 10)"
      using 1 False by (simp only: of_nat_add of_nat_mult of_nat_numeral not_False_eq_True)
    finally show ?thesis by (simp only: mult_div_mod_eq)
  qed
qed

lemma read_int_sdec: "read_int (sdec i) = i"
proof (cases "i < 0")
  case True
  then show ?thesis by (simp add: sdec_def read_int_def read_nat_dec)
next
  case False
  have "dec (nat i) \<noteq> []" by (subst dec.simps) simp
  then obtain c cs where c: "dec (nat i) = c # cs" by (cases "dec (nat i)") auto
  then have "c \<noteq> CHR ''-''" using dec_digits [of c "nat i"] by auto
  then show ?thesis using False c read_nat_dec [of "nat i"] by (simp add: sdec_def read_int_def)
qed

text \<open>
  C35. Every 64-bit integer, the most negative one included, is printed so that it reads back: with 32
  free bytes the signed and the unsigned conversion append a text whose value is the number, without
  writing outside the buffer; with fewer they append nothing.
\<close>

theorem integer_text_roundtrip:
  assumes "ls_ok s"
  shows "(32 \<le> room s \<longrightarrow> (\<exists>t s' u s''. Convert64 v s = Some (length t, s') \<and> ls_text s' = ls_text s @ t \<and> read_int t = sint v \<and>
       Convert64U v s = Some (length u, s'') \<and> ls_text s'' = ls_text s @ u \<and> read_int u = uint v)) \<and>
     (room s < 32 \<longrightarrow> Convert64 v s = Some (0, s) \<and> Convert64U v s = Some (0, s))"
proof (intro conjI impI)
  assume "32 \<le> room s"
  then obtain s' s'' where "Convert64 v s = Some (length (sdec (sint v)), s')" "appended (sdec (sint v)) s s'"
    "Convert64U v s = Some (length (dec (unat v)), s'')" "appended (dec (unat v)) s s''"
    using Convert64_ok [OF assms] Convert64U_ok [OF assms] by blast
  moreover have "read_int (dec (unat v)) = uint v" using read_int_sdec [of "uint v"] by (simp add: sdec_def)
  ultimately show "\<exists>t s' u s''. Convert64 v s = Some (length t, s') \<and> ls_text s' = ls_text s @ t \<and> read_int t = sint v \<and>
       Convert64U v s = Some (length u, s'') \<and> ls_text s'' = ls_text s @ u \<and> read_int u = uint v"
    using read_int_sdec by (auto simp: appended_def)
next
  assume "room s < 32"
  then have "ls_size s - ls_cur s < 32" using room_word [OF assms] by (simp add: word_less_nat_alt)
  then show "Convert64 v s = Some (0, s)" "Convert64U v s = Some (0, s)" by (simp_all add: Convert64_def Convert64U_def)
qed

theorem integer_text_roundtrip_witness:
  "\<exists>t s'. Convert64 (0x8000000000000000) (LogStream_init (replicate 40 (CHR 0x00)) 40) = Some (length t, s') \<and>
     read_int t = - (2 ^ 63)"
proof -
  let ?s = "LogStream_init (replicate 40 (CHR 0x00)) 40"
  have "ls_ok ?s" "32 \<le> room ?s" by (simp_all add: ls_ok_def room_def LogStream_init_def)
  with integer_text_roundtrip [of ?s "0x8000000000000000"] show ?thesis by auto
qed

text \<open>
  A number formatted with \<open>FmtAppend\<close> that does not fit ends the bounds checks: \<open>snprintf\<close> reports
  the untruncated length, \<open>m_cur\<close> moves beyond \<open>m_size\<close>, the free space wraps around to almost 2^64, and
  the assertion of the next \<open>Append\<close> accepts anything although no byte is left in the buffer.
\<close>

theorem fmt_append_overrun:
  assumes ok: "ls_ok s" and mem: "length (ls_buff s) = unat (ls_size s)" and small: "unat (ls_size s) < 2 ^ 31"
    and big: "room s < length t" "length t < 2 ^ 31" and some: "0 < room s"
    and data: "length data < 2 ^ 62" "data \<noteq> []"
  shows "\<exists>s'. FmtAppend t s = Some (int (length t), s') \<and> unat (ls_size s') < unat (ls_cur s') \<and>
     word_of_nat (length data) \<le> ls_size s' - ls_cur s' \<and> Append data s' = None"
proof -
  let ?p = "unat (ls_cur s)" and ?n = "unat (ls_size s)"
  have rw: "uint (ls_size s - ls_cur s) = int (room s)" by (simp only: room_word [OF ok, symmetric] uint_nat)
  have rs: "room s < 2 ^ 31" "?p + room s = ?n" using small ok by (auto simp: room_def ls_ok_def)
  have left: "signed_take_bit 31 (uint (ls_size s - ls_cur s)) = int (room s)"
    unfolding rw using rs(1) by (simp add: signed_take_bit_int_eq_self)
  have rm: "nat (int (room s) mod 2 ^ 64) = room s" using rs(1) by simp
  have "?p + length (take (room s - 1) t @ [CHR 0x00]) \<le> length (ls_buff s)" using some rs(2) mem by simp
  then obtain m where m: "memcpy_to (ls_buff s) ?p (take (room s - 1) t @ [CHR 0x00]) = Some m"
    by (simp add: memcpy_to_Some)
  have lm: "length m = ?n" using memcpy_to_length [OF m] mem by simp
  let ?s = "s\<lparr>ls_buff := m, ls_cur := ls_cur s + word_of_nat (length t)\<rparr>"
  have run: "FmtAppend t s = Some (int (length t), ?s)"
    using left rm m some big(1) by (simp add: FmtAppend_def Let_def)
  have "?p + length t < 2 ^ 64" using rs big(2) small by simp
  moreover have "unat (word_of_nat (length t) :: 64 word) = length t"
    using big(2) by (simp add: unat_of_nat take_bit_nat_eq_self)
  ultimately have cur: "unat (ls_cur ?s) = ?p + length t" by (simp add: unat_word_ariths)
  then have over: "?n < unat (ls_cur ?s)" using rs(2) big(1) by linarith
  define d where "d = unat (ls_cur ?s) - ?n"
  have d: "0 < d" "d < 2 ^ 32" using over cur rs big(2) by (auto simp: d_def)
  have "uint (ls_size ?s - ls_cur ?s) = (int ?n - int (unat (ls_cur ?s))) mod 2 ^ 64"
    by (simp add: uint_word_ariths)
  also have "\<dots> = (- int d) mod 2 ^ 64" using over by (simp add: d_def)
  also have "\<dots> = (2 ^ 64 - int d) mod 2 ^ 64" using mod_add_self1 [of "2 ^ 64" "- int d"] by simp
  also have "\<dots> = 2 ^ 64 - int d" using d by (intro mod_pos_pos_trivial) simp_all
  finally have free: "uint (ls_size ?s - ls_cur ?s) = 2 ^ 64 - int d" .
  have "uint (word_of_nat (length data) :: 64 word) = int (length data)"
    using data(1) by (simp add: unsigned_of_nat take_bit_nat_eq_self)
  then have pass: "word_of_nat (length data) \<le> ls_size ?s - ls_cur ?s"
    using data(1) d unfolding word_le_def free by simp
  have "Append data ?s = None" using pass over lm cur data(2) by (simp add: Append_def Let_def memcpy_to_def)
  with run over pass show ?thesis by auto
qed

theorem fmt_append_overrun_witness:
  "\<exists>s'. FmtAppend ''3.14159'' (LogStream_init (replicate 4 (CHR 0x00)) 4) = Some (7, s') \<and>
     unat (ls_size s') < unat (ls_cur s') \<and> Append ''!'' s' = None"
proof -
  let ?s = "LogStream_init (replicate 4 (CHR 0x00)) 4"
  have "ls_ok ?s" "length (ls_buff ?s) = unat (ls_size ?s)" "unat (ls_size ?s) < 2 ^ 31" "room ?s < length ''3.14159''" "0 < room ?s"
    by (simp_all add: ls_ok_def room_def LogStream_init_def)
  from fmt_append_overrun [OF this(1-4) _ this(5), of "''!''"] show ?thesis by auto
qed

text \<open>
  Streaming a pointer does not look at the free space at all: with less than its text and terminator
  left in the memory, \<open>ConvertHex\<close> writes outside the buffer.
\<close>

theorem pointer_overflow:
  assumes "length (ls_buff s) \<le> unat (ls_cur s) + length (hex_text v)"
  shows "stream_put (LP v) s = None"
proof -
  let ?p = "unat (ls_cur s)" and ?h = "hex (unat v)" and ?mem = "ls_buff s"
  show ?thesis
  proof (cases "memcpy_to ?mem ?p (rev ?h)")
    case None
    then show ?thesis by (simp add: stream_put_def ConvertHex_def hex_loop_spec)
  next
    case (Some m1)
    have l: "length m1 = length ?mem" using Some by (rule memcpy_to_length)
    show ?thesis
    proof (cases "memcpy_to m1 (?p + length ?h) ''x0''")
      case None
      then show ?thesis using Some by (simp add: stream_put_def ConvertHex_def hex_loop_spec)
    next
      case (Some m2)
      then have "length m2 = length ?mem" using l memcpy_to_length by metis
      then show ?thesis using Some \<open>memcpy_to ?mem ?p (rev ?h) = Some m1\<close> assms
        by (simp add: stream_put_def ConvertHex_def hex_loop_spec put_char_def hex_text_def Let_def)
    qed
  qed
qed

theorem pointer_overflow_witness:
  "stream_put (LP 255) (LogStream_init (replicate 4 (CHR 0x00)) 4) = None"
  by (rule pointer_overflow) (simp add: LogStream_init_def hex_text_def hex.simps)

end
