(* ===== verification/FixedBuffer.thy ===== *)
theory FixedBuffer
  imports Prelude "HOL-Library.Word"
begin

text \<open>
  \<open>slog/FixedBuffer.h\<close>: the slab of equal items, the fixed-size buffer and the pool of such buffers. The
  slab threads its free list through the items themselves: \<open>sl_link i\<close> is the first word of item \<open>i\<close> while it
  is free, and is lost when an object is constructed in it. \<open>new\<close> is a parameter; a failing \<open>new\<close> throws.
\<close>

section \<open>The slab\<close>

record FixedSlab =
  sl_num :: nat
  sl_head :: ptr
  sl_link :: "nat \<rightharpoonup> ptr"

text \<open>The loop of the constructor: \<open>n\<close> more links from \<open>item\<close> on, then the \<open>NULL\<close> of the last one.\<close>

fun slab_links :: "nat \<Rightarrow> nat \<Rightarrow> (nat \<rightharpoonup> ptr) \<Rightarrow> (nat \<rightharpoonup> ptr)" where
  "slab_links 0 item l = l(item \<mapsto> None)"
| "slab_links (Suc n) item l = slab_links n (Suc item) (l(item \<mapsto> Some (Suc item)))"

text \<open>For \<open>num = 0\<close> the bound \<open>num - 1\<close> wraps around and the loop runs off the memory.\<close>

definition FixedSlab_init :: "nat \<Rightarrow> FixedSlab option" where
  "FixedSlab_init num =
     (if num = 0 then None
      else Some \<lparr>sl_num = num, sl_head = Some 0, sl_link = slab_links (num - 1) 0 Map.empty\<rparr>)"

definition AllocElement :: "FixedSlab \<Rightarrow> (ptr \<times> FixedSlab) option" where
  "AllocElement s = (case sl_head s of
       None \<Rightarrow> Some (None, s)
     | Some item \<Rightarrow> do {
         next \<leftarrow> sl_link s item;
         Some (Some item, s\<lparr>sl_head := next, sl_link := (sl_link s)(item := None)\<rparr>)
       })"

definition ReleaseElement :: "nat \<Rightarrow> FixedSlab \<Rightarrow> FixedSlab option" where
  "ReleaseElement item s =
     (if item < sl_num s then Some (s\<lparr>sl_head := Some item, sl_link := (sl_link s)(item \<mapsto> sl_head s)\<rparr>) else None)"

section \<open>The buffer\<close>

record FixedBuffer =
  fb_cur :: "64 word"
  fb_buff :: bytes

text \<open>The memory beyond the first byte is not initialised.\<close>

definition FixedBuffer_init :: "bytes \<Rightarrow> FixedBuffer option" where
  "FixedBuffer_init junk = (if junk = [] then None else Some \<lparr>fb_cur = 0, fb_buff = junk[0 := CHR 0x00]\<rparr>)"

text \<open>Returns the offset of the copy.\<close>

definition FixedBuffer_Append :: "string \<Rightarrow> FixedBuffer \<Rightarrow> (nat \<times> FixedBuffer) option" where
  "FixedBuffer_Append data b =
     map_option (\<lambda>m. (unat (fb_cur b), b\<lparr>fb_buff := m, fb_cur := fb_cur b + word_of_nat (length data)\<rparr>))
       (memcpy_to (fb_buff b) (unat (fb_cur b)) data)"

definition FixedBuffer_Reset :: "FixedBuffer \<Rightarrow> FixedBuffer" where
  "FixedBuffer_Reset b = b\<lparr>fb_cur := 0\<rparr>"

definition DataLength :: "FixedBuffer \<Rightarrow> 64 word" where
  "DataLength b = fb_cur b"

definition Available :: "FixedBuffer \<Rightarrow> 64 word" where
  "Available b = word_of_nat (length (fb_buff b)) - fb_cur b"

definition SetUsed :: "64 word \<Rightarrow> FixedBuffer \<Rightarrow> FixedBuffer" where
  "SetUsed n b = b\<lparr>fb_cur := fb_cur b + n\<rparr>"

section \<open>The pool\<close>

type_synonym bheap = "nat \<rightharpoonup> FixedBuffer"

text \<open>\<open>bn h\<close>: a fresh address and an uninitialised buffer, or \<open>std::bad_alloc\<close>; \<open>reserve_ok n\<close>: whether the
  vector can grow to \<open>n\<close>.\<close>

record pool_env =
  bn :: "bheap \<Rightarrow> (nat \<times> bytes) option"
  reserve_ok :: "nat \<Rightarrow> bool"

record FixedBufferPool =
  m_fix_sz :: "64 word"
  m_inc_gran :: "64 word"
  m_unrecyled :: "64 word"
  m_pool :: "nat list"

type_synonym fbstate = "FixedBufferPool \<times> bheap"

definition new_buff :: "pool_env \<Rightarrow> fbstate \<Rightarrow> fbstate option" where
  "new_buff E st = (case st of (p, h) \<Rightarrow> do {
     (a, junk) \<leftarrow> bn E h;
     b \<leftarrow> FixedBuffer_init junk;
     Some (p\<lparr>m_pool := m_pool p @ [a]\<rparr>, h(a \<mapsto> b))
   })"

text \<open>A loop that adds \<open>n\<close> buffers: the state reached, and whether it ended without an exception.\<close>

fun add_buffs :: "pool_env \<Rightarrow> nat \<Rightarrow> fbstate \<Rightarrow> bool \<times> fbstate" where
  "add_buffs E 0 st = (True, st)"
| "add_buffs E (Suc n) st = (case new_buff E st of None \<Rightarrow> (False, st) | Some st' \<Rightarrow> add_buffs E n st')"

definition FixedBufferPool_init :: "pool_env \<Rightarrow> 64 word \<Rightarrow> 64 word \<Rightarrow> bheap \<Rightarrow> fbstate option" where
  "FixedBufferPool_init E num inc_gran h =
     (if num = 0 \<or> \<not> reserve_ok E (unat num) then None
      else (case add_buffs E (unat num) (\<lparr>m_fix_sz = num, m_inc_gran = inc_gran, m_unrecyled = 0, m_pool = []\<rparr>, h) of
        (ok, st) \<Rightarrow> if ok then Some st else None))"

definition EnlargePoolUnsafe :: "pool_env \<Rightarrow> fbstate \<Rightarrow> fbstate" where
  "EnlargePoolUnsafe E st = (case st of (p, h) \<Rightarrow>
     if m_unrecyled p > 1024 * m_fix_sz p then (p, h)
     else if \<not> reserve_ok E (unat (word_of_nat (length (m_pool p)) + 2 * m_inc_gran p)) then (p, h)
     else snd (add_buffs E (unat (m_inc_gran p)) (p, h)))"

definition EnlargePool :: "pool_env \<Rightarrow> fbstate \<Rightarrow> fbstate" where
  "EnlargePool E st = EnlargePoolUnsafe E st"

definition GetBuff :: "pool_env \<Rightarrow> fbstate \<Rightarrow> ptr \<times> fbstate" where
  "GetBuff E st =
     (let (p, h) = (if m_pool (fst st) = [] then EnlargePoolUnsafe E st else st) in
      if m_pool p = [] then (None, (p, h))
      else (Some (last (m_pool p)), (p\<lparr>m_pool := butlast (m_pool p), m_unrecyled := m_unrecyled p + 1\<rparr>, h)))"

definition Recycle :: "nat \<Rightarrow> fbstate \<Rightarrow> fbstate option" where
  "Recycle a st = (case st of (p, h) \<Rightarrow> do {
     b \<leftarrow> h a;
     Some (p\<lparr>m_pool := m_pool p @ [a], m_unrecyled := m_unrecyled p - 1\<rparr>, h(a \<mapsto> FixedBuffer_Reset b))
   })"

definition FreeUnrecycledBuff :: "nat \<Rightarrow> bheap \<Rightarrow> bheap option" where
  "FreeUnrecycledBuff a h = (if h a = None then None else Some (h(a := None)))"

fun delete_all :: "nat list \<Rightarrow> bheap \<Rightarrow> bheap option" where
  "delete_all [] h = Some h"
| "delete_all (a # as) h = (if h a = None then None else delete_all as (h(a := None)))"

text \<open>\<open>m_fix_sz/factor\<close> converts the \<open>int\<close> to \<open>size_t\<close> and divides.\<close>

definition Shrink :: "int \<Rightarrow> fbstate \<Rightarrow> fbstate option" where
  "Shrink factor st = (case st of (p, h) \<Rightarrow>
     if factor = 0 then None
     else
       let max_sz = unat (m_fix_sz p div word_of_int factor) in
       if length (m_pool p) > max_sz
       then map_option (\<lambda>h'. (p\<lparr>m_pool := take max_sz (m_pool p)\<rparr>, h')) (delete_all (drop max_sz (m_pool p)) h)
       else Some (p, h))"

text \<open>The destructor deletes what is in the pool.\<close>

definition FixedBufferPool_destroy :: "fbstate \<Rightarrow> bheap option" where
  "FixedBufferPool_destroy st = delete_all (m_pool (fst st)) (snd st)"

section \<open>The contract of a store of cells\<close>

text \<open>
  The slab and the pool promise their clients the same: a cell that is handed out is not held already, and
  what a client holds can be given back. \<open>act\<close> stands for the other calls a client may make between.
\<close>

datatype 'o cell_cmd = Acquire | GiveBack nat | Act 'o

fun cell_run :: "('s \<Rightarrow> (ptr \<times> 's) option) \<Rightarrow> (nat \<Rightarrow> 's \<Rightarrow> 's option) \<Rightarrow> ('o \<Rightarrow> nat list \<Rightarrow> 's \<Rightarrow> 's option) \<Rightarrow>
    'o cell_cmd list \<Rightarrow> 's \<times> nat list \<Rightarrow> ('s \<times> nat list) option" where
  "cell_run alloc free act [] st = Some st"
| "cell_run alloc free act (Acquire # cs) (s, held) = do {
     (r, s') \<leftarrow> alloc s;
     cell_run alloc free act cs (s', (case r of None \<Rightarrow> held | Some a \<Rightarrow> a # held))
   }"
| "cell_run alloc free act (GiveBack a # cs) (s, held) =
     (if a \<in> set held then do { s' \<leftarrow> free a s; cell_run alloc free act cs (s', remove1 a held) }
      else cell_run alloc free act cs (s, held))"
| "cell_run alloc free act (Act x # cs) (s, held) = do { s' \<leftarrow> act x held s; cell_run alloc free act cs (s', held) }"

locale cell_store =
  fixes repr :: "'s \<Rightarrow> nat list \<Rightarrow> bool"
    and alloc :: "'s \<Rightarrow> (ptr \<times> 's) option"
    and free :: "nat \<Rightarrow> 's \<Rightarrow> 's option"
    and act :: "'o \<Rightarrow> nat list \<Rightarrow> 's \<Rightarrow> 's option"
  assumes alloc_ok: "repr s held \<Longrightarrow>
      \<exists>r s'. alloc s = Some (r, s') \<and> repr s' (case r of None \<Rightarrow> held | Some a \<Rightarrow> a # held)"
    and free_ok: "repr s held \<Longrightarrow> a \<in> set held \<Longrightarrow> \<exists>s'. free a s = Some s' \<and> repr s' (remove1 a held)"
    and act_ok: "repr s held \<Longrightarrow> \<exists>s'. act x held s = Some s' \<and> repr s' held"
begin

lemma session: "repr s held \<Longrightarrow> \<exists>s' held'. cell_run alloc free act cs (s, held) = Some (s', held') \<and> repr s' held'"
proof (induction cs arbitrary: s held)
  case (Cons c cs)
  show ?case
  proof (cases c)
    case Acquire
    obtain r s' where "alloc s = Some (r, s')" "repr s' (case r of None \<Rightarrow> held | Some a \<Rightarrow> a # held)"
      using alloc_ok [OF Cons.prems] by blast
    with Cons.IH [OF this(2)] Acquire show ?thesis by simp
  next
    case (GiveBack a)
    show ?thesis
    proof (cases "a \<in> set held")
      case True
      obtain s' where "free a s = Some s'" "repr s' (remove1 a held)" using free_ok [OF Cons.prems True] by blast
      with Cons.IH [OF this(2)] True GiveBack show ?thesis by simp
    qed (use Cons GiveBack in simp)
  next
    case (Act x)
    obtain s' where "act x held s = Some s'" "repr s' held" using act_ok [OF Cons.prems] by blast
    with Cons.IH [OF this(2)] Act show ?thesis by simp
  qed
qed auto

end

section \<open>The slab is such a store\<close>

definition slab_repr :: "nat \<Rightarrow> FixedSlab \<Rightarrow> nat list \<Rightarrow> bool" where
  "slab_repr n s held \<longleftrightarrow> sl_num s = n \<and>
     (\<exists>F. linked (sl_link s) (sl_head s) F None \<and> distinct (held @ F) \<and> set (held @ F) = {..<n})"

lemma slab_links_before: "i < item \<Longrightarrow> slab_links n item l i = l i"
  by (induction n arbitrary: item l) auto

lemma slab_links_linked: "linked (slab_links n item l) (Some item) [item..<item + Suc n] None"
proof (induction n arbitrary: item l)
  case (Suc n)
  have "slab_links n (Suc item) (l(item \<mapsto> Some (Suc item))) item = Some (Some (Suc item))"
    by (simp add: slab_links_before)
  with Suc [of "Suc item"] show ?case by (simp add: upt_conv_Cons del: upt_Suc)
qed simp

lemma FixedSlab_init_repr: "0 < n \<Longrightarrow> \<exists>s. FixedSlab_init n = Some s \<and> slab_repr n s []"
  using slab_links_linked [of "n - 1" 0 Map.empty] unfolding FixedSlab_init_def slab_repr_def
  by (auto intro!: exI [of _ "[0..<n]"])

lemma slab_alloc:
  assumes "slab_repr n s held"
  shows "\<exists>r s'. AllocElement s = Some (r, s') \<and> slab_repr n s' (case r of None \<Rightarrow> held | Some a \<Rightarrow> a # held)"
proof -
  obtain F where F: "sl_num s = n" "linked (sl_link s) (sl_head s) F None" "distinct (held @ F)"
    "set (held @ F) = {..<n}" using assms by (auto simp: slab_repr_def)
  show ?thesis
  proof (cases F)
    case Nil
    with F assms show ?thesis by (simp add: AllocElement_def)
  next
    case (Cons a F')
    with F(2) obtain r where r: "sl_head s = Some a" "sl_link s a = Some r" "linked (sl_link s) r F' None" by auto
    have "linked ((sl_link s)(a := None)) r F' None"
      using r(3) F(3) Cons by (simp add: linked_upd)
    moreover have "set ((a # held) @ F') = {..<n}" using F(4) Cons by auto
    moreover have "distinct ((a # held) @ F')" using F(3) Cons by auto
    ultimately show ?thesis using r F(1) unfolding slab_repr_def AllocElement_def by auto
  qed
qed

lemma slab_free:
  assumes "slab_repr n s held" and "a \<in> set held"
  shows "\<exists>s'. ReleaseElement a s = Some s' \<and> slab_repr n s' (remove1 a held)"
proof -
  obtain F where F: "sl_num s = n" "linked (sl_link s) (sl_head s) F None" "distinct (held @ F)"
    "set (held @ F) = {..<n}" using assms by (auto simp: slab_repr_def)
  have "a < n" using F(4) assms(2) by auto
  have "a \<notin> set F" using F(3) assms(2) by auto
  then have "linked ((sl_link s)(a \<mapsto> sl_head s)) (Some a) (a # F) None"
    using F(2) by (simp add: linked_upd)
  moreover have "distinct (remove1 a held @ a # F)" "set (remove1 a held @ a # F) = {..<n}"
    using F(3,4) assms(2) by auto
  ultimately have "slab_repr n (s\<lparr>sl_head := Some a, sl_link := (sl_link s)(a \<mapsto> sl_head s)\<rparr>) (remove1 a held)"
    unfolding slab_repr_def using F(1) by (intro conjI exI [of _ "a # F"]) simp_all
  with \<open>a < n\<close> F(1) show ?thesis by (simp add: ReleaseElement_def)
qed

interpretation slab: cell_store "slab_repr n" AllocElement ReleaseElement "\<lambda>(_ :: unit) _. Some" for n
  by unfold_locales (use slab_alloc slab_free in auto)

text \<open>
  A slab of \<open>n\<close> items: whatever sequence of allocations and releases of held items is performed, nothing
  faults, the items held are distinct items of the slab, and the next allocation fails exactly when all
  \<open>n\<close> items are held.
\<close>

theorem slab_session:
  assumes "0 < n"
  shows "\<exists>s0 s held r s'. FixedSlab_init n = Some s0 \<and>
     cell_run AllocElement ReleaseElement (\<lambda>(_ :: unit) _. Some) cs (s0, []) = Some (s, held) \<and>
     distinct held \<and> set held \<subseteq> {..<n} \<and>
     AllocElement s = Some (r, s') \<and> (r = None \<longleftrightarrow> length held = n)"
proof -
  obtain s0 where s0: "FixedSlab_init n = Some s0" "slab_repr n s0 []" using FixedSlab_init_repr [OF assms] by blast
  from slab.session [OF s0(2)] obtain s held where
    run: "cell_run AllocElement ReleaseElement (\<lambda>(_ :: unit) _. Some) cs (s0, []) = Some (s, held)" "slab_repr n s held"
    by blast
  then obtain F where F: "linked (sl_link s) (sl_head s) F None" "distinct (held @ F)" "set (held @ F) = {..<n}"
    by (auto simp: slab_repr_def)
  have "length held + length F = n" using distinct_card [OF F(2)] F(3) by simp
  moreover obtain r s' where al: "AllocElement s = Some (r, s')" using slab_alloc [OF run(2)] by blast
  moreover have "r = sl_head s" using al by (auto simp: AllocElement_def split: option.splits bind_splits)
  moreover have "sl_head s = None \<longleftrightarrow> F = []" using F(1) by (cases F) auto
  ultimately have "r = None \<longleftrightarrow> length held = n" by auto
  with s0 run(1) F al show ?thesis by auto
qed

theorem slab_session_witness:
  "\<exists>s0 s held r s'. FixedSlab_init 2 = Some s0 \<and>
     cell_run AllocElement ReleaseElement (\<lambda>(_ :: unit) _. Some) [Acquire, Acquire, GiveBack 0, Acquire] (s0, []) = Some (s, held) \<and>
     distinct held \<and> set held \<subseteq> {..<2} \<and> AllocElement s = Some (r, s') \<and> (r = None \<longleftrightarrow> length held = 2)"
  by (rule slab_session) simp

section \<open>The buffer\<close>

text \<open>A run of \<open>Append\<close> calls, with the offsets they return.\<close>

fun append_all :: "string list \<Rightarrow> FixedBuffer \<Rightarrow> (nat list \<times> FixedBuffer) option" where
  "append_all [] b = Some ([], b)"
| "append_all (d # ds) b = do { (off, b') \<leftarrow> FixedBuffer_Append d b; (offs, b'') \<leftarrow> append_all ds b'; Some (off # offs, b'') }"

text \<open>The offsets that consecutive pieces start at.\<close>

fun starts :: "nat \<Rightarrow> string list \<Rightarrow> nat list" where
  "starts n [] = []"
| "starts n (d # ds) = n # starts (n + length d) ds"

definition fb_holds :: "FixedBuffer \<Rightarrow> nat \<Rightarrow> string \<Rightarrow> bool" where
  "fb_holds b N c \<longleftrightarrow> length (fb_buff b) = N \<and> N < 2 ^ 64 \<and> unat (fb_cur b) = length c \<and> take (length c) (fb_buff b) = c"

lemma fb_holds_le: "fb_holds b N c \<Longrightarrow> length c \<le> N"
  by (metis fb_holds_def length_take min.cobounded1)

lemma FixedBuffer_Append_holds:
  assumes "fb_holds b N c"
  shows "if length c + length d \<le> N
     then \<exists>b'. FixedBuffer_Append d b = Some (length c, b') \<and> fb_holds b' N (c @ d)
     else FixedBuffer_Append d b = None"
proof (cases "length c + length d \<le> N")
  case True
  have b: "length (fb_buff b) = N" "N < 2 ^ 64" "unat (fb_cur b) = length c" "take (length c) (fb_buff b) = c"
    using assms by (simp_all add: fb_holds_def)
  then obtain m where m: "memcpy_to (fb_buff b) (length c) d = Some m" using True memcpy_to_Some by metis
  have "unat (fb_cur b + word_of_nat (length d)) = length c + length d"
    using True b by (simp add: unat_word_ariths unsigned_of_nat take_bit_nat_eq_self)
  then show ?thesis
    using True b m memcpy_to_prefix [OF m] memcpy_to_length [OF m]
    by (simp add: FixedBuffer_Append_def fb_holds_def)
next
  case False
  then show ?thesis using assms by (simp add: FixedBuffer_Append_def fb_holds_def memcpy_to_def)
qed

lemma append_all_holds:
  assumes "fb_holds b N c"
  shows "if length (c @ concat ds) \<le> N
     then \<exists>b'. append_all ds b = Some (starts (length c) ds, b') \<and> fb_holds b' N (c @ concat ds)
     else append_all ds b = None"
  using assms
proof (induction ds arbitrary: b c)
  case Nil
  then show ?case by (auto dest: fb_holds_le)
next
  case (Cons d ds)
  show ?case
  proof (cases "length c + length d \<le> N")
    case True
    then obtain b' where b': "FixedBuffer_Append d b = Some (length c, b')" "fb_holds b' N (c @ d)"
      using FixedBuffer_Append_holds [OF Cons.prems, of d] by auto
    from Cons.IH [OF b'(2)] b'(1) show ?thesis by (auto simp: add.assoc split: if_splits)
  next
    case False
    then show ?thesis using FixedBuffer_Append_holds [OF Cons.prems, of d] by simp
  qed
qed

lemma FixedBuffer_init_holds:
  "junk \<noteq> [] \<Longrightarrow> length junk < 2 ^ 64 \<Longrightarrow> \<exists>b. FixedBuffer_init junk = Some b \<and> fb_holds b (length junk) []"
  by (simp add: FixedBuffer_init_def fb_holds_def)

text \<open>
  A run of \<open>Append\<close> calls on a new buffer of \<open>N\<close> bytes stays inside it exactly when the pieces fit
  together; then each piece starts where the one before it ends, the buffer holds their concatenation, and
  \<open>DataLength\<close> and \<open>Available\<close> add up to \<open>N\<close>.
\<close>

theorem fixed_buffer_appends:
  assumes "junk \<noteq> []" and "length junk < 2 ^ 64" and "FixedBuffer_init junk = Some b"
  shows "if length (concat ds) \<le> length junk
     then \<exists>b'. append_all ds b = Some (starts 0 ds, b') \<and>
        take (unat (DataLength b')) (fb_buff b') = concat ds \<and> unat (DataLength b') = length (concat ds) \<and>
        unat (DataLength b') + unat (Available b') = length junk
     else append_all ds b = None"
proof (cases "length (concat ds) \<le> length junk")
  case True
  have "fb_holds b (length junk) []" using FixedBuffer_init_holds [OF assms(1,2)] assms(3) by auto
  from append_all_holds [OF this, of ds] True obtain b' where
    b': "append_all ds b = Some (starts 0 ds, b')" "fb_holds b' (length junk) (concat ds)" by auto
  then have "unat (Available b') = length junk - length (concat ds)"
    using True assms(2)
    by (simp add: Available_def fb_holds_def unat_sub word_le_nat_alt unsigned_of_nat take_bit_nat_eq_self)
  with b' True show ?thesis by (auto simp: DataLength_def fb_holds_def)
next
  case False
  have "fb_holds b (length junk) []" using FixedBuffer_init_holds [OF assms(1,2)] assms(3) by auto
  with append_all_holds [OF this, of ds] False show ?thesis by auto
qed

theorem fixed_buffer_appends_witness:
  "\<exists>b b'. FixedBuffer_init (replicate 8 CHR ''?'') = Some b \<and>
     append_all [''abc'', ''de''] b = Some ([0, Suc (Suc (Suc 0))], b') \<and>
     take (unat (DataLength b')) (fb_buff b') = ''abcde'' \<and>
     append_all [''abcde'', ''fghi''] b = None"
proof -
  obtain b where b: "FixedBuffer_init (replicate 8 CHR ''?'') = Some b"
    by (simp add: FixedBuffer_init_def numeral_eq_Suc)
  from fixed_buffer_appends [OF _ _ b, of "[''abc'', ''de'']"] fixed_buffer_appends [OF _ _ b, of "[''abcde'', ''fghi'']"] b
  show ?thesis by auto
qed

section \<open>The pool is a store of cells\<close>

text \<open>What the pool relies on of \<open>new\<close>: fresh memory of the right size.\<close>

definition new_ok :: "pool_env \<Rightarrow> nat \<Rightarrow> bool" where
  "new_ok E N \<longleftrightarrow> 0 < N \<and> N < 2 ^ 64 \<and> (\<forall>h a junk. bn E h = Some (a, junk) \<longrightarrow> h a = None \<and> length junk = N)"

definition is_buff :: "nat \<Rightarrow> bheap \<Rightarrow> nat \<Rightarrow> bool" where
  "is_buff N h a \<longleftrightarrow> (case h a of None \<Rightarrow> False | Some b \<Rightarrow> length (fb_buff b) = N)"

definition empty_buff :: "nat \<Rightarrow> bheap \<Rightarrow> nat \<Rightarrow> bool" where
  "empty_buff N h a \<longleftrightarrow> (case h a of None \<Rightarrow> False | Some b \<Rightarrow> length (fb_buff b) = N \<and> DataLength b = 0)"

definition fbp_repr :: "nat \<Rightarrow> fbstate \<Rightarrow> nat list \<Rightarrow> bool" where
  "fbp_repr N st held \<longleftrightarrow> (case st of (p, h) \<Rightarrow>
     distinct (held @ m_pool p) \<and> list_all (is_buff N h) held \<and> list_all (empty_buff N h) (m_pool p) \<and>
     m_unrecyled p = word_of_nat (length held))"

text \<open>What else happens between the calls of a client: the pool grows or shrinks, a held buffer is filled.\<close>

datatype fbp_act = Enlarge | ShrinkBy int | Write nat string

definition fbp_do :: "pool_env \<Rightarrow> fbp_act \<Rightarrow> nat list \<Rightarrow> fbstate \<Rightarrow> fbstate option" where
  "fbp_do E x held st = (case x of
       Enlarge \<Rightarrow> Some (EnlargePool E st)
     | ShrinkBy k \<Rightarrow> if k = 0 then Some st else Shrink k st
     | Write a data \<Rightarrow> (case snd st a of
          Some b \<Rightarrow> if a \<in> set held \<and> length data \<le> unat (Available b) \<and> unat (DataLength b) \<le> length (fb_buff b)
            then do { (_, b') \<leftarrow> FixedBuffer_Append data b; Some (fst st, (snd st)(a \<mapsto> b')) } else Some st
        | None \<Rightarrow> Some st))"

lemma is_buff_upd: "is_buff N (h(a \<mapsto> b)) c = (if c = a then length (fb_buff b) = N else is_buff N h c)"
  by (simp add: is_buff_def)

lemma empty_buff_upd:
  "empty_buff N (h(a \<mapsto> b)) c = (if c = a then length (fb_buff b) = N \<and> DataLength b = 0 else empty_buff N h c)"
  by (simp add: empty_buff_def)

lemma empty_is_buff: "empty_buff N h a \<Longrightarrow> is_buff N h a"
  by (auto simp: empty_buff_def is_buff_def split: option.splits)

lemma is_buff_dom: "is_buff N h a \<Longrightarrow> h a \<noteq> None"
  by (auto simp: is_buff_def split: option.splits)

lemmas buff_upd = is_buff_upd empty_buff_upd

lemma fbp_repr_fresh: "fbp_repr N (p, h) held \<Longrightarrow> h a = None \<Longrightarrow> a \<notin> set held \<and> a \<notin> set (m_pool p)"
  using empty_is_buff [of N h a] is_buff_dom [of N h a] by (auto simp: fbp_repr_def list_all_iff)

lemma new_buff_repr:
  assumes "new_ok E N" and "fbp_repr N st held" and "new_buff E st = Some st'"
  shows "fbp_repr N st' held \<and> length (m_pool (fst st')) = Suc (length (m_pool (fst st)))"
proof -
  obtain p h where st: "st = (p, h)" by (cases st)
  obtain a junk where a: "bn E h = Some (a, junk)" "st' = (p\<lparr>m_pool := m_pool p @ [a]\<rparr>, h(a \<mapsto> \<lparr>fb_cur = 0, fb_buff = junk[0 := CHR 0x00]\<rparr>))"
    using assms(3) st by (auto simp: new_buff_def FixedBuffer_init_def split: bind_splits if_splits)
  have "h a = None" "length junk = N" using assms(1) a(1) by (auto simp: new_ok_def)
  with fbp_repr_fresh [of N p h held a] assms(2) a(2) st show ?thesis
    by (auto simp: fbp_repr_def list_all_iff buff_upd DataLength_def)
qed

lemma add_buffs_repr:
  "new_ok E N \<Longrightarrow> fbp_repr N st held \<Longrightarrow> add_buffs E n st = (ok, st') \<Longrightarrow>
   fbp_repr N st' held \<and> (ok \<longrightarrow> length (m_pool (fst st')) = length (m_pool (fst st)) + n)"
proof (induction n arbitrary: st)
  case (Suc n)
  then show ?case using new_buff_repr [OF Suc.prems(1,2)] by (fastforce split: option.splits)
qed auto

lemma EnlargePoolUnsafe_repr:
  assumes "new_ok E N" and "fbp_repr N st held"
  shows "fbp_repr N (EnlargePoolUnsafe E st) held"
  using assms add_buffs_repr [OF assms]
  by (cases st; cases "add_buffs E (unat (m_inc_gran (fst st))) st") (auto simp: EnlargePoolUnsafe_def)

lemma GetBuff_repr:
  assumes "new_ok E N" and "fbp_repr N st held" and "GetBuff E st = (r, st')"
  shows "fbp_repr N st' (case r of None \<Rightarrow> held | Some a \<Rightarrow> a # held) \<and>
     (case r of None \<Rightarrow> m_pool (fst st') = [] | Some a \<Rightarrow> empty_buff N (snd st') a)"
proof -
  obtain p h where ph: "(if m_pool (fst st) = [] then EnlargePoolUnsafe E st else st) = (p, h)" by fastforce
  then have repr: "fbp_repr N (p, h) held" using assms(2) EnlargePoolUnsafe_repr [OF assms(1,2)] by metis
  have get: "(r, st') = (if m_pool p = [] then (None, (p, h))
      else (Some (last (m_pool p)), (p\<lparr>m_pool := butlast (m_pool p), m_unrecyled := m_unrecyled p + 1\<rparr>, h)))"
    using assms(3) ph by (simp add: GetBuff_def)
  show ?thesis
  proof (cases "m_pool p" rule: rev_cases)
    case Nil
    then show ?thesis using get repr by simp
  next
    case (snoc xs a)
    then show ?thesis using get repr by (auto simp: fbp_repr_def intro: empty_is_buff)
  qed
qed

lemma Recycle_repr:
  assumes "fbp_repr N st held" and "a \<in> set held"
  shows "\<exists>st'. Recycle a st = Some st' \<and> fbp_repr N st' (remove1 a held) \<and> last (m_pool (fst st')) = a"
proof -
  obtain p h where st: "st = (p, h)" by (cases st)
  obtain b where b: "h a = Some b" "length (fb_buff b) = N"
    using assms st by (auto simp: fbp_repr_def list_all_iff is_buff_def split: option.splits)
  obtain k where k: "length held = Suc k" using assms(2) by (cases held) auto
  show ?thesis using assms st b k
    by (auto simp: Recycle_def FixedBuffer_Reset_def DataLength_def fbp_repr_def list_all_iff buff_upd
        length_remove1 dest: set_remove1_subset [THEN subsetD])
qed

lemma delete_all_ok:
  "distinct as \<Longrightarrow> set as \<subseteq> dom h \<Longrightarrow> delete_all as h = Some (h |` (- set as))"
proof (induction as arbitrary: h)
  case (Cons a as)
  have "set as \<subseteq> dom (h(a := None))" using Cons.prems by auto
  then have "delete_all as (h(a := None)) = Some ((h(a := None)) |` (- set as))"
    using Cons.prems(1) by (intro Cons.IH) auto
  moreover have "(h(a := None)) |` (- set as) = h |` (- set (a # as))" by (auto simp: restrict_map_def)
  ultimately show ?case using Cons.prems by auto
qed (simp add: restrict_map_def)

lemma fbp_repr_dom: "fbp_repr N (p, h) held \<Longrightarrow> set held \<subseteq> dom h \<and> set (m_pool p) \<subseteq> dom h"
  using empty_is_buff is_buff_dom by (fastforce simp: fbp_repr_def list_all_iff)

lemma Shrink_repr:
  assumes "fbp_repr N st held" and "k \<noteq> 0"
  shows "\<exists>st'. Shrink k st = Some st' \<and> fbp_repr N st' held"
proof -
  obtain p h where st: "st = (p, h)" by (cases st)
  define m where "m = unat (m_fix_sz p div word_of_int k)"
  define D where "D = set (drop m (m_pool p))"
  have d: "distinct (held @ take m (m_pool p) @ drop m (m_pool p))" using assms(1) st by (simp add: fbp_repr_def)
  have "delete_all (drop m (m_pool p)) h = Some (h |` (- D))"
    using d fbp_repr_dom [of N p h held] assms(1) st set_drop_subset [of m "m_pool p"] unfolding D_def
    by (intro delete_all_ok) auto
  moreover have keep: "is_buff N (h |` (- D)) a = is_buff N h a" "empty_buff N (h |` (- D)) a = empty_buff N h a"
    if "a \<notin> D" for a using that by (simp_all add: is_buff_def empty_buff_def)
  have away: "a \<notin> D" if "a \<in> set held \<union> set (take m (m_pool p))" for a
  proof
    assume "a \<in> D"
    moreover have "set held \<inter> set (drop m (m_pool p)) = {}" "set (take m (m_pool p)) \<inter> set (drop m (m_pool p)) = {}"
      using d by (simp_all only: distinct_append set_append Int_Un_distrib Un_empty)
    ultimately show False using that unfolding D_def by blast
  qed
  have "list_all (is_buff N (h |` (- D))) held" "list_all (empty_buff N (h |` (- D))) (take m (m_pool p))"
    using assms(1) st keep away by (auto simp: fbp_repr_def list_all_iff dest: in_set_takeD)
  then have "fbp_repr N (p\<lparr>m_pool := take m (m_pool p)\<rparr>, h |` (- D)) held"
    using assms(1) st by (auto simp: fbp_repr_def dest: in_set_takeD)
  ultimately show ?thesis using assms st unfolding Shrink_def by (simp add: m_def Let_def)
qed

lemma fbp_do_repr:
  assumes "new_ok E N" and "fbp_repr N st held"
  shows "\<exists>st'. fbp_do E x held st = Some st' \<and> fbp_repr N st' held"
proof (cases x)
  case Enlarge
  then show ?thesis using EnlargePoolUnsafe_repr [OF assms] by (simp add: fbp_do_def EnlargePool_def)
next
  case (ShrinkBy k)
  then show ?thesis using assms(2) Shrink_repr [OF assms(2), of k] by (cases st; cases "k = 0") (auto simp: fbp_do_def)
next
  case (Write a data)
  obtain p h where st: "st = (p, h)" by (cases st)
  show ?thesis
  proof (cases "fbp_do E x held st = Some st")
    case False
    with Write st obtain b where b: "h a = Some b" "a \<in> set held" "length data \<le> unat (Available b)"
      "unat (DataLength b) \<le> length (fb_buff b)"
      by (auto simp: fbp_do_def split: option.splits if_splits)
    have N: "length (fb_buff b) = N" using assms(2) b st by (auto simp: fbp_repr_def list_all_iff is_buff_def)
    have "N < 2 ^ 64" using assms(1) by (simp add: new_ok_def)
    then have "unat (Available b) = N - unat (fb_cur b)" using b(4) N
      by (simp add: Available_def DataLength_def unat_sub word_le_nat_alt unsigned_of_nat take_bit_nat_eq_self)
    then obtain off b' where "FixedBuffer_Append data b = Some (off, b')" "length (fb_buff b') = N"
      using b N by (auto simp: FixedBuffer_Append_def DataLength_def fault_simps)
    moreover have "a \<notin> set (m_pool p)" using assms(2) b st by (auto simp: fbp_repr_def)
    ultimately show ?thesis using assms(2) b Write st
      by (auto simp: fbp_do_def fbp_repr_def list_all_iff buff_upd)
  qed (use assms in auto)
qed

interpretation fbp: cell_store "\<lambda>st held. new_ok E N \<and> fbp_repr N st held" "\<lambda>st. Some (GetBuff E st)" Recycle "fbp_do E" for E N
proof (unfold_locales, goal_cases)
  case (1 st held)
  then show ?case using GetBuff_repr by (cases "GetBuff E st") blast
next
  case (2 st held a)
  then show ?case using Recycle_repr by blast
next
  case (3 st held x)
  then show ?case using fbp_do_repr by blast
qed

lemma FixedBufferPool_init_repr:
  assumes "new_ok E N" and "FixedBufferPool_init E num gran Map.empty = Some st"
  shows "fbp_repr N st [] \<and> length (m_pool (fst st)) = unat num"
proof -
  let ?st = "(\<lparr>m_fix_sz = num, m_inc_gran = gran, m_unrecyled = 0, m_pool = []\<rparr>, Map.empty) :: fbstate"
  have "fbp_repr N ?st []" by (simp add: fbp_repr_def)
  moreover have "add_buffs E (unat num) ?st = (True, st)"
    using assms(2) by (auto simp: FixedBufferPool_init_def split: if_splits prod.splits)
  ultimately show ?thesis using add_buffs_repr [OF assms(1)] by fastforce
qed


text \<open>A \<open>new\<close> that hands out four buffers of eight bytes.\<close>

definition small_new :: pool_env where
  "small_new = \<lparr>bn = (\<lambda>h. map_option (\<lambda>a. (a, replicate 8 CHR ''?'')) (find (\<lambda>a. h a = None) [0..<4])), reserve_ok = (\<lambda>n. n < 1000)\<rparr>"

lemma small_new_ok: "new_ok small_new 8"
  by (auto simp: new_ok_def small_new_def find_Some_iff)

lemma small_pool: "\<exists>st. FixedBufferPool_init small_new 2 1 Map.empty = Some st \<and> m_pool (fst st) = [0, 1]"
proof -
  have "unat (2 :: 64 word) = Suc (Suc 0)" by simp
  then show ?thesis
    by (simp add: FixedBufferPool_init_def small_new_def new_buff_def FixedBuffer_init_def upt_rec numeral_2_eq_2)
qed


end
