(* ===== verification/LogFile.thy ===== *)
theory LogFile
  imports Prelude
begin

text \<open>
  \<open>slog/LogFileAppender.{h,cc}\<close>: the buffered log file. \<open>write(2)\<close> is a parameter: \<open>wr k msg\<close> is what it returns
  for the bytes \<open>msg\<close>, whether \<open>errno\<close> is then \<open>EINTR\<close>, and the next state of the kernel. \<open>AppendRaw\<close>
  repeats it, and does not return when it never gets anywhere.
\<close>

type_synonym 'k wr = "'k \<Rightarrow> bytes \<Rightarrow> int \<times> bool \<times> 'k"

record LogFile =
  lf_cur :: nat
  lf_buff :: bytes

definition S_DEF_BUFF_SZ :: nat where
  "S_DEF_BUFF_SZ = 256 * 1024"

definition LogFile_init :: "bytes \<Rightarrow> int \<Rightarrow> LogFile option" where
  "LogFile_init junk fd = (if fd \<noteq> -1 \<and> junk \<noteq> [] then Some \<lparr>lf_cur = 0, lf_buff = junk[0 := CHR 0x00]\<rparr> else None)"

text \<open>The count is the sum of what \<open>write\<close> returned.\<close>

partial_function (option) AppendRaw_loop :: "'k wr \<Rightarrow> bytes \<Rightarrow> nat \<Rightarrow> 'k \<Rightarrow> (nat \<times> 'k) option" where
  "AppendRaw_loop wr msg ret k =
     (if msg = [] then Some (ret, k)
      else (case wr k msg of (written, eintr, k') \<Rightarrow>
        if written = -1 \<and> \<not> eintr then Some (ret, k')
        else if written = -1 then AppendRaw_loop wr msg ret k'
        else AppendRaw_loop wr (drop (nat written) msg) (ret + nat written) k'))"

definition AppendRaw :: "'k wr \<Rightarrow> bytes \<Rightarrow> 'k \<Rightarrow> (nat \<times> 'k) option" where
  "AppendRaw wr msg k = AppendRaw_loop wr msg 0 k"

definition LogFile_Flush :: "'k wr \<Rightarrow> LogFile \<times> 'k \<Rightarrow> (LogFile \<times> 'k) option" where
  "LogFile_Flush wr st = (case st of (f, k) \<Rightarrow> do {
     (_, k') \<leftarrow> AppendRaw wr (take (lf_cur f) (lf_buff f)) k;
     Some (f\<lparr>lf_cur := 0\<rparr>, k')
   })"

definition LogFile_Append :: "'k wr \<Rightarrow> bytes \<Rightarrow> LogFile \<times> 'k \<Rightarrow> (nat \<times> LogFile \<times> 'k) option" where
  "LogFile_Append wr msg st =
     (if length msg \<le> S_DEF_BUFF_SZ
      then do {
        (f, k) \<leftarrow> (if lf_cur (fst st) > S_DEF_BUFF_SZ - length msg then LogFile_Flush wr st else Some st);
        m \<leftarrow> memcpy_to (lf_buff f) (lf_cur f) msg;
        Some (length msg, f\<lparr>lf_buff := m, lf_cur := lf_cur f + length msg\<rparr>, k)
      }
      else None)"

text \<open>The destructor writes out what is buffered.\<close>

definition LogFile_destroy :: "'k wr \<Rightarrow> LogFile \<times> 'k \<Rightarrow> 'k option" where
  "LogFile_destroy wr st = map_option snd (LogFile_Flush wr st)"

section \<open>The contract of a log sink\<close>

text \<open>What the asynchronous appender relies on: \<open>content\<close> is everything appended so far, \<open>disk\<close> what has been written.\<close>

locale log_sink =
  fixes good :: "'s \<Rightarrow> bool"
    and content :: "'s \<Rightarrow> bytes"
    and disk :: "'s \<Rightarrow> bytes"
    and append :: "bytes \<Rightarrow> 's \<Rightarrow> 's option"
    and flush :: "'s \<Rightarrow> 's option"
    and limit :: nat
  assumes append_ok: "good s \<Longrightarrow> length msg \<le> limit \<Longrightarrow>
      \<exists>s'. append msg s = Some s' \<and> good s' \<and> content s' = content s @ msg"
    and flush_ok: "good s \<Longrightarrow> \<exists>s'. flush s = Some s' \<and> good s' \<and> content s' = content s \<and> disk s' = content s"
begin

text \<open>A run of appends with a flush at the end.\<close>

fun append_flush :: "bytes list \<Rightarrow> 's \<Rightarrow> 's option" where
  "append_flush [] s = flush s"
| "append_flush (m # ms) s = Option.bind (append m s) (append_flush ms)"

lemma append_flush_ok:
  "good s \<Longrightarrow> list_all (\<lambda>m. length m \<le> limit) ms \<Longrightarrow>
   \<exists>s'. append_flush ms s = Some s' \<and> good s' \<and> content s' = content s @ concat ms \<and> disk s' = content s @ concat ms"
proof (induction ms arbitrary: s)
  case Nil
  then show ?case using flush_ok by simp
next
  case (Cons m ms)
  obtain s1 where "append m s = Some s1" "good s1" "content s1 = content s @ m"
    using append_ok Cons.prems by fastforce
  with Cons.IH [of s1] Cons.prems show ?case by auto
qed

end

section \<open>The log file is a log sink\<close>

text \<open>
  What is asked of the kernel: a write accepts at least one byte of what it is given, in order, or is
  interrupted, and only \<open>patience\<close> times in a row; \<open>out\<close> is the content of the file.
\<close>

definition writer_ok :: "'k wr \<Rightarrow> ('k \<Rightarrow> bytes) \<Rightarrow> ('k \<Rightarrow> nat) \<Rightarrow> bool" where
  "writer_ok wr out patience \<longleftrightarrow> (\<forall>k msg written eintr k'. msg \<noteq> [] \<and> wr k msg = (written, eintr, k') \<longrightarrow>
     (0 < written \<and> written \<le> int (length msg) \<and> out k' = out k @ take (nat written) msg) \<or>
     (written = -1 \<and> eintr \<and> out k' = out k \<and> patience k' < patience k))"

lemma AppendRaw_loop_ok:
  assumes "writer_ok wr out patience"
  shows "\<exists>k'. AppendRaw_loop wr msg ret k = Some (ret + length msg, k') \<and> out k' = out k @ msg"
proof (induction "(length msg, patience k)" arbitrary: msg ret k rule: wf_induct_rule [OF wf_lex_prod [OF wf_measure [of id] wf_measure [of id]]])
  case 1
  obtain written eintr k1 where w: "wr k msg = (written, eintr, k1)" by (cases "wr k msg")
  show ?case
  proof (cases "msg = []")
    case True
    then show ?thesis by (subst AppendRaw_loop.simps) simp
  next
    case False
    with assms w consider (some) "0 < written" "written \<le> int (length msg)" "out k1 = out k @ take (nat written) msg"
      | (intr) "written = -1" "eintr" "out k1 = out k" "patience k1 < patience k"
      unfolding writer_ok_def by blast
    then show ?thesis
    proof cases
      case some
      have "((length (drop (nat written) msg), patience k1), (length msg, patience k)) \<in> measure id <*lex*> measure id"
        using some False by simp
      from "1.hyps" [OF this, of "ret + nat written"] some obtain k' where
        "AppendRaw_loop wr (drop (nat written) msg) (ret + nat written) k1 = Some (ret + length msg, k')"
        "out k' = out k1 @ drop (nat written) msg" by auto
      with some False w show ?thesis by (subst AppendRaw_loop.simps) simp
    next
      case intr
      have "((length msg, patience k1), (length msg, patience k)) \<in> measure id <*lex*> measure id" using intr by simp
      from "1.hyps" [OF this, of ret] intr False w show ?thesis by (subst AppendRaw_loop.simps) simp
    qed
  qed
qed

definition lf_good :: "'k wr \<Rightarrow> ('k \<Rightarrow> bytes) \<Rightarrow> ('k \<Rightarrow> nat) \<Rightarrow> LogFile \<times> 'k \<Rightarrow> bool" where
  "lf_good wr out patience st \<longleftrightarrow> writer_ok wr out patience \<and> length (lf_buff (fst st)) = S_DEF_BUFF_SZ \<and> lf_cur (fst st) \<le> S_DEF_BUFF_SZ"

definition lf_content :: "('k \<Rightarrow> bytes) \<Rightarrow> LogFile \<times> 'k \<Rightarrow> bytes" where
  "lf_content out st = out (snd st) @ take (lf_cur (fst st)) (lf_buff (fst st))"

lemma LogFile_Flush_ok:
  assumes "lf_good wr out patience st"
  shows "\<exists>st'. LogFile_Flush wr st = Some st' \<and> lf_good wr out patience st' \<and> lf_content out st' = lf_content out st \<and>
     out (snd st') = lf_content out st \<and> lf_cur (fst st') = 0"
proof -
  obtain f k where st: "st = (f, k)" by (cases st)
  have "writer_ok wr out patience" using assms by (simp add: lf_good_def)
  from AppendRaw_loop_ok [OF this, of "take (lf_cur f) (lf_buff f)" 0 k] st assms show ?thesis
    by (auto simp: LogFile_Flush_def AppendRaw_def lf_good_def lf_content_def)
qed

lemma LogFile_Append_ok:
  assumes "lf_good wr out patience st" and "length msg \<le> S_DEF_BUFF_SZ"
  shows "\<exists>st'. LogFile_Append wr msg st = Some (length msg, st') \<and> lf_good wr out patience st' \<and>
     lf_content out st' = lf_content out st @ msg"
proof -
  obtain f k where st1: "(if lf_cur (fst st) > S_DEF_BUFF_SZ - length msg then LogFile_Flush wr st else Some st) = Some (f, k)"
    and good: "lf_good wr out patience (f, k)" "lf_content out (f, k) = lf_content out st" "lf_cur f + length msg \<le> S_DEF_BUFF_SZ"
  proof (cases "lf_cur (fst st) > S_DEF_BUFF_SZ - length msg")
    case True
    obtain st' where "LogFile_Flush wr st = Some st'" "lf_good wr out patience st'" "lf_content out st' = lf_content out st"
      "lf_cur (fst st') = 0" using LogFile_Flush_ok [OF assms(1)] by blast
    then show thesis using that [of "fst st'" "snd st'"] True assms(2) by simp
  next
    case False
    then show thesis using that [of "fst st" "snd st"] assms by simp
  qed
  obtain m where m: "memcpy_to (lf_buff f) (lf_cur f) msg = Some m"
    using good(1,3) by (simp add: lf_good_def fault_simps)
  have len: "length (take (lf_cur f) (lf_buff f)) = lf_cur f" using good(1) by (simp add: lf_good_def)
  have "take (lf_cur f + length msg) m = take (lf_cur f) (lf_buff f) @ msg"
    using memcpy_to_prefix [of "lf_buff f" "take (lf_cur f) (lf_buff f)" msg m] m unfolding len by simp
  then show ?thesis using st1 m good assms(2) memcpy_to_length [OF m]
    by (auto simp: LogFile_Append_def lf_good_def lf_content_def)
qed

interpretation lfs: log_sink "lf_good wr out patience" "lf_content out" "\<lambda>st. out (snd st)"
  "\<lambda>msg st. map_option snd (LogFile_Append wr msg st)" "LogFile_Flush wr" S_DEF_BUFF_SZ for wr out patience
proof (unfold_locales, goal_cases)
  case (1 st msg)
  then show ?case using LogFile_Append_ok by fastforce
next
  case (2 st)
  then show ?case using LogFile_Flush_ok by fastforce
qed

text \<open>The life of a log file: the messages are appended in turn, and the destructor flushes.\<close>

fun log_all :: "'k wr \<Rightarrow> bytes list \<Rightarrow> LogFile \<times> 'k \<Rightarrow> 'k option" where
  "log_all wr [] st = LogFile_destroy wr st"
| "log_all wr (m # ms) st = do { (_, st') \<leftarrow> LogFile_Append wr m st; log_all wr ms st' }"

lemma log_all_flush: "log_all wr ms st = map_option snd (lfs.append_flush wr ms st)"
proof (induction ms arbitrary: st)
  case (Cons m ms)
  then show ?case by (cases "LogFile_Append wr m st") (auto simp: lfs.append_flush.simps)
qed (simp add: LogFile_destroy_def lfs.append_flush.simps)

text \<open>
  A log file keeps every message. Where \<open>write\<close> accepts the bytes it is given a part at a time and is
  interrupted only finitely often in a row, a file opened, given any list of messages that each fit the
  buffer of 256 KiB, and destroyed has returned from every call, and holds behind its old content the messages in
  the order they were appended, whole.
\<close>

theorem log_file_stream:
  assumes "writer_ok wr out patience" and "length junk = S_DEF_BUFF_SZ" and "LogFile_init junk fd = Some f"
    and "list_all (\<lambda>m. length m \<le> S_DEF_BUFF_SZ) ms"
  shows "\<exists>k'. log_all wr ms (f, k) = Some k' \<and> out k' = out k @ concat ms"
proof -
  have "lf_good wr out patience (f, k)" "lf_content out (f, k) = out k"
    using assms(1,2,3) by (auto simp: lf_good_def lf_content_def LogFile_init_def split: if_splits)
  then show ?thesis using lfs.append_flush_ok [of wr out patience "(f, k)" ms] assms(4) by (auto simp: log_all_flush)
qed

text \<open>A kernel that takes at most three bytes a time and is interrupted before each write.\<close>

definition slow_wr :: "(bool \<times> bytes) wr" where
  "slow_wr k msg = (case k of (ready, disk) \<Rightarrow>
     if ready then (int (length (take 3 msg)), False, (False, disk @ take 3 msg)) else (-1, True, (True, disk)))"

lemma slow_wr_ok: "writer_ok slow_wr snd (\<lambda>k. if fst k then 0 else 1)"
  by (auto simp: writer_ok_def slow_wr_def min_def split: prod.splits if_splits)

theorem log_file_stream_witness:
  "\<exists>k'. log_all slow_wr [''hello '', ''world''] (\<lparr>lf_cur = 0, lf_buff = (replicate S_DEF_BUFF_SZ CHR ''x'')[0 := CHR 0x00]\<rparr>, (False, ''log: '')) = Some k' \<and>
     snd k' = ''log: hello world''"
proof -
  have "LogFile_init (replicate S_DEF_BUFF_SZ CHR ''x'') 3 =
      Some \<lparr>lf_cur = 0, lf_buff = (replicate S_DEF_BUFF_SZ CHR ''x'')[0 := CHR 0x00]\<rparr>"
    by (simp add: LogFile_init_def S_DEF_BUFF_SZ_def)
  from log_file_stream [OF slow_wr_ok _ this, of "[''hello '', ''world'']" "(False, ''log: '')"] show ?thesis
    by (simp add: S_DEF_BUFF_SZ_def)
qed

end
