(* ===== verification/Slots.thy ===== *)
theory Slots
  imports Prelude "HOL-Library.Multiset"
begin

text \<open>
  Systems of threads, each of which may hold something: \<open>picks f ts\<close> is what the threads \<open>ts\<close> hold when \<open>f\<close> says what one of
  them holds. The lemmas say how it changes when one thread takes a step.
\<close>

definition picks :: "('t \<Rightarrow> 'b option) \<Rightarrow> 't list \<Rightarrow> 'b list" where
  "picks f ts = List.map_filter f ts"

lemma picks_simps [simp]:
  "picks f [] = []"
  "picks f (t # ts) = (case f t of None \<Rightarrow> picks f ts | Some a \<Rightarrow> a # picks f ts)"
  by (simp_all add: picks_def map_filter_def split: option.split)

lemma nth_upd: "j < length xs \<Longrightarrow> xs[i := x] ! j = (if i = j then x else xs ! j)"
  by (cases "i = j") simp_all

lemma picks_in: "i < length ts \<Longrightarrow> f (ts ! i) = Some a \<Longrightarrow> a \<in> set (picks f ts)"
proof (induction ts arbitrary: i)
  case (Cons t ts)
  then show ?case by (cases i) (auto split: option.splits)
qed simp

lemma picks_append: "picks f (xs @ ys) = picks f xs @ picks f ys"
  by (induction xs) (auto split: option.split)

lemma picks_none: "(\<And>t. t \<in> set ts \<Longrightarrow> f t = None) \<Longrightarrow> picks f ts = []"
  by (induction ts) auto

lemma picks_replicate [simp]: "f t = None \<Longrightarrow> picks f (replicate k t) = []"
  by (intro picks_none) simp

lemma picks_mem: "a \<in> set (picks f ts) \<Longrightarrow> \<exists>j < length ts. f (ts ! j) = Some a"
proof (induction ts)
  case (Cons t ts)
  show ?case
  proof (cases "f t = Some a")
    case True
    then show ?thesis by (intro exI [of _ 0]) simp
  next
    case False
    then obtain j where "j < length ts" "f (ts ! j) = Some a" using Cons by (auto split: option.splits)
    then show ?thesis by (intro exI [of _ "Suc j"]) simp
  qed
qed simp

lemma picks_other:
  assumes "distinct (picks f ts)" and "i < length ts" and "j < length ts" and "i \<noteq> j" and "f (ts ! i) = Some a"
  shows "f (ts ! j) \<noteq> Some a"
  using assms
proof (induction ts arbitrary: i j)
  case (Cons t ts)
  have "f (ts ! k) \<noteq> Some a" if "f t = Some a" "k < length ts" for k
    using picks_in [OF that(2), of f a] Cons.prems(1) that(1) by auto
  moreover have "distinct (picks f ts)" using Cons.prems(1) by (auto split: option.splits)
  ultimately show ?case using Cons.prems(2-5) Cons.IH [of "i - 1" "j - 1"]
    by (cases i; cases j) auto
qed simp

lemma picks_same: "f t = f (ts ! i) \<Longrightarrow> picks f (ts[i := t]) = picks f ts"
proof (induction ts arbitrary: i)
  case (Cons u ts)
  then show ?case by (cases i) (auto split: option.split)
qed simp

lemma picks_drop:
  "distinct (picks f ts) \<Longrightarrow> i < length ts \<Longrightarrow> f (ts ! i) = Some a \<Longrightarrow> f t = None \<Longrightarrow>
   distinct (picks f (ts[i := t])) \<and> set (picks f (ts[i := t])) = set (picks f ts) - {a}"
proof (induction ts arbitrary: i)
  case (Cons u ts)
  then show ?case using picks_in [of _ ts f a] by (cases i) (auto split: option.splits)
qed simp

lemma picks_take:
  "distinct (picks f ts) \<Longrightarrow> i < length ts \<Longrightarrow> f (ts ! i) = None \<Longrightarrow> f t = Some a \<Longrightarrow> a \<notin> set (picks f ts) \<Longrightarrow>
   distinct (picks f (ts[i := t])) \<and> set (picks f (ts[i := t])) = insert a (set (picks f ts))"
proof (induction ts arbitrary: i)
  case (Cons u ts)
  then show ?case by (cases i) (auto split: option.splits)
qed simp

text \<open>A thread exchanges what it holds.\<close>

lemma picks_update:
  "i < length ts \<Longrightarrow> mset (picks f (ts[i := t])) + mset_set (set_option (f (ts ! i))) = mset (picks f ts) + mset_set (set_option (f t))"
proof (induction ts arbitrary: i)
  case (Cons u ts)
  show ?case
  proof (cases i)
    case (Suc j)
    then show ?thesis using Cons.IH [of j] Cons.prems by (cases "f u") simp_all
  qed (auto split: option.split)
qed simp

lemma picks_update_length:
  "i < length ts \<Longrightarrow> length (picks f (ts[i := t])) + (if f (ts ! i) = None then 0 else 1) = length (picks f ts) + (if f t = None then 0 else 1)"
proof (induction ts arbitrary: i)
  case (Cons u ts)
  show ?case
  proof (cases i)
    case (Suc j)
    then show ?thesis using Cons.IH [of j] Cons.prems by (cases "f u") simp_all
  qed (auto split: option.split)
qed simp

text \<open>Of two measures of the same threads.\<close>

lemma picks_length_le: "(\<And>t. t \<in> set ts \<Longrightarrow> g t \<noteq> None \<Longrightarrow> f t \<noteq> None) \<Longrightarrow> length (picks g ts) \<le> length (picks f ts)"
proof (induction ts)
  case (Cons t ts)
  then have "length (picks g ts) \<le> length (picks f ts)" by simp
  then show ?case using Cons.prems [of t] by (cases "g t"; cases "f t") auto
qed simp

lemma picks_length_less:
  assumes "\<And>t. t \<in> set ts \<Longrightarrow> g t \<noteq> None \<Longrightarrow> f t \<noteq> None" and "i < length ts" and "g (ts ! i) = None" and "f (ts ! i) \<noteq> None"
  shows "length (picks g ts) < length (picks f ts)"
  using assms
proof (induction ts arbitrary: i)
  case (Cons u ts)
  have le: "length (picks g ts) \<le> length (picks f ts)" using Cons.prems(1) by (intro picks_length_le) auto
  show ?case
  proof (cases i)
    case 0
    then show ?thesis using Cons.prems(3,4) le by (auto split: option.split)
  next
    case (Suc j)
    then have "length (picks g ts) < length (picks f ts)" using Cons.prems by (intro Cons.IH [of j]) auto
    then show ?thesis using Cons.prems(1) [of u] by (cases "g u"; cases "f u") auto
  qed
qed simp

section \<open>Schedules\<close>

text \<open>A run of a system of threads under a schedule of actions; an action that is not possible when its turn comes is passed over,
  and \<open>None\<close> is a step that faults.\<close>

fun run_schedule :: "('a \<Rightarrow> 's \<Rightarrow> bool) \<Rightarrow> ('a \<Rightarrow> 's \<Rightarrow> 's option) \<Rightarrow> 'a list \<Rightarrow> 's \<Rightarrow> 's option" where
  "run_schedule enabled step [] x = Some x"
| "run_schedule enabled step (a # as) x =
     (if enabled a x then Option.bind (step a x) (run_schedule enabled step as) else run_schedule enabled step as x)"

lemma run_schedule_append:
  "run_schedule enabled step (as @ bs) x = Option.bind (run_schedule enabled step as x) (run_schedule enabled step bs)"
proof (induction as arbitrary: x)
  case (Cons a as)
  then show ?case by (cases "step a x") auto
qed simp

text \<open>What a component promises of its steps: from a good state every possible step is free of faults and leads to a good state.\<close>

locale safe_steps =
  fixes good :: "'s \<Rightarrow> bool"
    and enabled :: "'a \<Rightarrow> 's \<Rightarrow> bool"
    and step :: "'a \<Rightarrow> 's \<Rightarrow> 's option"
  assumes step_good: "good x \<Longrightarrow> enabled a x \<Longrightarrow> \<exists>y. step a x = Some y \<and> good y"
begin

lemma run_good: "good x \<Longrightarrow> \<exists>y. run_schedule enabled step as x = Some y \<and> good y"
proof (induction as arbitrary: x)
  case (Cons a as)
  show ?case
  proof (cases "enabled a x")
    case True
    then obtain y where "step a x = Some y" "good y" using step_good Cons.prems by blast
    then show ?thesis using Cons.IH True by simp
  qed (use Cons in simp)
qed simp

text \<open>A step that is repeated and makes a measure smaller as long as it is possible ends.\<close>

lemma run_ends:
  assumes "\<And>x y. good x \<Longrightarrow> enabled a x \<Longrightarrow> step a x = Some y \<Longrightarrow> P x \<Longrightarrow> P y \<and> m y < (m x :: nat)"
  shows "good x \<Longrightarrow> P x \<Longrightarrow> \<exists>k \<le> m x. \<exists>y. run_schedule enabled step (replicate k a) x = Some y \<and> good y \<and> P y \<and> \<not> enabled a y"
proof (induction "m x" arbitrary: x rule: less_induct)
  case less
  show ?case
  proof (cases "enabled a x")
    case True
    then obtain y where y: "step a x = Some y" "good y" using step_good less.prems by blast
    then have "P y" "m y < m x" using assms less.prems True by blast+
    from less.hyps [OF this(2) y(2) this(1)] obtain k z where
      "k \<le> m y" "run_schedule enabled step (replicate k a) y = Some z" "good z" "P z" "\<not> enabled a z" by blast
    then show ?thesis using y(1) True \<open>m y < m x\<close> by (intro exI [of _ "Suc k"]) auto
  next
    case False
    then show ?thesis using less.prems by (intro exI [of _ 0]) auto
  qed
qed

end

text \<open>The same for a component that counts and must not count further than \<open>bound\<close>: a run that is short enough is safe.\<close>

locale counted_steps =
  fixes good :: "'s \<Rightarrow> bool"
    and enabled :: "'a \<Rightarrow> 's \<Rightarrow> bool"
    and step :: "'a \<Rightarrow> 's \<Rightarrow> 's option"
    and cnt :: "'s \<Rightarrow> nat"
    and bound :: nat
  assumes step_good: "good x \<Longrightarrow> enabled a x \<Longrightarrow> cnt x < bound \<Longrightarrow> \<exists>y. step a x = Some y \<and> good y \<and> cnt y \<le> cnt x + 1"
begin

lemma run_good: "good x \<Longrightarrow> cnt x + length as \<le> bound \<Longrightarrow> \<exists>y. run_schedule enabled step as x = Some y \<and> good y"
proof (induction as arbitrary: x)
  case (Cons a as)
  show ?case
  proof (cases "enabled a x")
    case True
    then obtain y where "step a x = Some y" "good y" "cnt y \<le> cnt x + 1" using step_good [OF Cons.prems(1)] Cons.prems(2) by fastforce
    then show ?thesis using Cons.IH [of y] Cons.prems(2) True by simp
  qed (use Cons in simp)
qed simp

end

end
