(* ===== verification/AsynLog.thy ===== *)
theory AsynLog
  imports FixedBuffer LogFile Slots
begin

text \<open>
  \<open>slog/AsynLogAppender.{h,cc}\<close>: the asynchronous log appender. Threads copy their messages into buffers of their own
  and queue pointers to the copies; one logging thread takes the queue, copies the messages into the log
  file and hands the buffers back. Every stretch of code between two points where another thread can run is a step
  of its own: the operations under \<open>m_lock\<close>, the operations of the pool under the lock of the pool, and the copy
  of a message into the buffer of its thread.
\<close>

section \<open>Data\<close>

text \<open>The pointer of a queued message: into the data of a buffer at an offset, or to a whole buffer (a retired one).\<close>

datatype msg_data = NullPtr | InBuff nat nat | WholeBuff nat

record LogMsg =
  lm_len :: nat
  lm_data :: msg_data

record msg_vec =
  mv_items :: "LogMsg list"
  mv_capacity :: nat

datatype vec_id = PendingBuff1 | PendingBuff2

text \<open>There is one appender, so the weak pointer of the item can be locked as long as that one lives.\<close>

record PerThreadItem =
  it_buff :: ptr

text \<open>\<open>al_notified\<close> counts the notifications of \<open>m_ready_sig\<close>. A timed wait can return without one, at any time.\<close>

record 'k AsynLogAppender =
  al_running :: bool
  al_curPendingMsg :: nat
  al_interval :: nat
  al_flush_cnt :: nat
  al_notified :: nat
  al_log_file :: "LogFile \<times> 'k"
  al_pool :: fbstate
  al_pending1 :: msg_vec
  al_pending2 :: msg_vec
  al_pb1 :: vec_id
  al_pb2 :: vec_id

text \<open>What the appender stands on: \<open>new\<close>, \<open>write\<close>, and the growth of a vector.\<close>

record 'k al_env =
  ae_pool :: pool_env
  ae_wr :: "'k wr"
  ae_grow :: "nat \<Rightarrow> nat"

definition S_BUFF_SIZE :: nat where
  "S_BUFF_SIZE = 256 * 1024"

definition g_msg_queue_sz :: nat where
  "g_msg_queue_sz = 4 * 4096"

definition vec_of :: "vec_id \<Rightarrow> 'k AsynLogAppender \<Rightarrow> msg_vec" where
  "vec_of v s = (case v of PendingBuff1 \<Rightarrow> al_pending1 s | PendingBuff2 \<Rightarrow> al_pending2 s)"

definition set_vec :: "vec_id \<Rightarrow> msg_vec \<Rightarrow> 'k AsynLogAppender \<Rightarrow> 'k AsynLogAppender" where
  "set_vec v x s = (case v of PendingBuff1 \<Rightarrow> s\<lparr>al_pending1 := x\<rparr> | PendingBuff2 \<Rightarrow> s\<lparr>al_pending2 := x\<rparr>)"

definition vec_push_back :: "(nat \<Rightarrow> nat) \<Rightarrow> LogMsg \<Rightarrow> msg_vec \<Rightarrow> msg_vec" where
  "vec_push_back grow m v =
     \<lparr>mv_items = mv_items v @ [m],
      mv_capacity = (if length (mv_items v) < mv_capacity v then mv_capacity v else grow (mv_capacity v))\<rparr>"

section \<open>Operations\<close>

definition AsynLogAppender_init ::
  "'k al_env \<Rightarrow> bytes \<Rightarrow> int \<Rightarrow> nat \<Rightarrow> nat \<Rightarrow> 'k \<Rightarrow> bheap \<Rightarrow> 'k AsynLogAppender option" where
  "AsynLogAppender_init E junk fd interval cnt k h = do {
     f \<leftarrow> LogFile_init junk fd;
     pool \<leftarrow> FixedBufferPool_init (ae_pool E) 32 16 h;
     Some \<lparr>al_running = True, al_curPendingMsg = 0, al_interval = interval, al_flush_cnt = cnt, al_notified = 0,
       al_log_file = (f, k), al_pool = pool,
       al_pending1 = \<lparr>mv_items = [], mv_capacity = g_msg_queue_sz\<rparr>,
       al_pending2 = \<lparr>mv_items = [], mv_capacity = g_msg_queue_sz\<rparr>, al_pb1 = PendingBuff1, al_pb2 = PendingBuff2\<rparr>
   }"

definition AddToWriter :: "(nat \<Rightarrow> nat) \<Rightarrow> msg_data \<Rightarrow> nat \<Rightarrow> ptr \<Rightarrow> 'k AsynLogAppender \<Rightarrow> 'k AsynLogAppender option" where
  "AddToWriter grow addr len buff s = do {
     addr \<leftarrow> (if addr = NullPtr \<and> len = 0 then map_option WholeBuff buff else Some addr);
     if \<not> al_running s then None
     else
       let s' = set_vec (al_pb1 s) (vec_push_back grow \<lparr>lm_len = len, lm_data = addr\<rparr> (vec_of (al_pb1 s) s)) s;
           n = al_curPendingMsg s + 1
       in Some (s'\<lparr>al_curPendingMsg := n, al_notified := (if n < al_flush_cnt s then al_notified s else al_notified s + 1)\<rparr>)
   }"

text \<open>The destructor of the item of a thread, run when the thread exits. The appender is gone once it was stopped: only its
  destructor stops it. \<open>delete\<close> of a null pointer does nothing.\<close>

definition PerThreadItem_destroy :: "(nat \<Rightarrow> nat) \<Rightarrow> PerThreadItem \<Rightarrow> 'k AsynLogAppender \<Rightarrow> 'k AsynLogAppender option" where
  "PerThreadItem_destroy grow it s =
     (if \<not> al_running s
      then (case it_buff it of
          None \<Rightarrow> Some s
        | Some a \<Rightarrow> Some s)
      else AddToWriter grow NullPtr 0 (it_buff it) s)"

text \<open>The part of \<open>Stop\<close> before the \<open>join\<close>.\<close>

definition AsynLogAppender_Stop :: "'k AsynLogAppender \<Rightarrow> 'k AsynLogAppender" where
  "AsynLogAppender_Stop s = s\<lparr>al_running := False, al_notified := al_notified s + 1\<rparr>"

text \<open>What the data of a message reads in the memory of the buffers.\<close>

definition read_msg :: "bheap \<Rightarrow> LogMsg \<Rightarrow> bytes option" where
  "read_msg h m = (case lm_data m of
       InBuff a off \<Rightarrow> do {
         b \<leftarrow> h a;
         if off + lm_len m \<le> length (fb_buff b) then Some (take (lm_len m) (drop off (fb_buff b))) else None
       }
     | _ \<Rightarrow> None)"

text \<open>The emergency flush writes the queued messages past the buffer of the file, each behind a tag.\<close>

fun raw_flush :: "'k wr \<Rightarrow> bytes \<Rightarrow> bheap \<Rightarrow> LogMsg list \<Rightarrow> 'k \<Rightarrow> 'k option" where
  "raw_flush wr tag h [] k = Some k"
| "raw_flush wr tag h (m # ms) k =
     (if lm_len m = 0 then raw_flush wr tag h ms k
      else do {
        (_, k) \<leftarrow> AppendRaw wr tag k;
        data \<leftarrow> read_msg h m;
        (_, k) \<leftarrow> AppendRaw wr data k;
        raw_flush wr tag h ms k
      })"

definition AsynLogAppender_Flush :: "'k al_env \<Rightarrow> bool \<Rightarrow> 'k AsynLogAppender \<Rightarrow> 'k AsynLogAppender option" where
  "AsynLogAppender_Flush E gracefully s =
     (if gracefully then Some (s\<lparr>al_notified := al_notified s + 1\<rparr>)
      else do {
        k \<leftarrow> raw_flush (ae_wr E) ''(f2)'' (snd (al_pool s)) (mv_items (al_pending2 s)) (snd (al_log_file s));
        k \<leftarrow> raw_flush (ae_wr E) ''(f)'' (snd (al_pool s)) (mv_items (al_pending1 s)) k;
        Some (s\<lparr>al_log_file := (fst (al_log_file s), k)\<rparr>)
      })"

definition shrink_vec :: "msg_vec \<Rightarrow> msg_vec" where
  "shrink_vec v = (if mv_capacity v > g_msg_queue_sz then \<lparr>mv_items = [], mv_capacity = g_msg_queue_sz\<rparr> else v)"

definition ShrinkMemoryUsageUnlock :: "'k AsynLogAppender \<Rightarrow> 'k AsynLogAppender option" where
  "ShrinkMemoryUsageUnlock s = do {
     pool \<leftarrow> Shrink 1 (al_pool s);
     Some (s\<lparr>al_pool := pool, al_pending1 := shrink_vec (al_pending1 s), al_pending2 := shrink_vec (al_pending2 s)\<rparr>)
   }"

section \<open>The logging threads\<close>

text \<open>Where a thread is in \<open>Append\<close>; \<open>LgReturn n\<close> once it has returned \<open>n\<close>. The item of the thread goes with it.\<close>

datatype al_pc = LgRest | LgStart bytes | LgCheck bytes | LgTake bytes | LgWrite bytes | LgPublish bytes nat | LgReturn nat

type_synonym al_thread = "al_pc \<times> PerThreadItem option"

fun al_at_rest :: "al_thread \<Rightarrow> bool" where
  "al_at_rest (LgRest, _) = True"
| "al_at_rest (LgReturn n, _) = True"
| "al_at_rest _ = False"

definition get_buff :: "'k al_env \<Rightarrow> 'k AsynLogAppender \<Rightarrow> ptr \<times> 'k AsynLogAppender" where
  "get_buff E s = (case GetBuff (ae_pool E) (al_pool s) of (r, pool) \<Rightarrow> (r, s\<lparr>al_pool := pool\<rparr>))"

text \<open>The buffer of the item of a thread that has one.\<close>

definition item_buff :: "PerThreadItem option \<Rightarrow> 'k AsynLogAppender \<Rightarrow> (nat \<times> FixedBuffer) option" where
  "item_buff it s = do { it \<leftarrow> it; a \<leftarrow> it_buff it; b \<leftarrow> snd (al_pool s) a; Some (a, b) }"

fun Append_step :: "'k al_env \<Rightarrow> al_thread \<Rightarrow> 'k AsynLogAppender \<Rightarrow> (al_thread \<times> 'k AsynLogAppender) option" where
  "Append_step E (LgStart msg, it) s =
     (if msg = [] then None
      else case it of
          None \<Rightarrow> (case get_buff E s of (r, s') \<Rightarrow> Some ((LgCheck msg, Some \<lparr>it_buff = r\<rparr>), s'))
        | Some _ \<Rightarrow> Some ((LgCheck msg, it), s))"
| "Append_step E (LgCheck msg, it) s = do {
     i \<leftarrow> it;
     case it_buff i of
       None \<Rightarrow> Some ((LgTake msg, it), s)
     | Some a \<Rightarrow> do {
         (_, b) \<leftarrow> item_buff it s;
         if unat (Available b) < length msg
         then do { s' \<leftarrow> AddToWriter (ae_grow E) NullPtr 0 (Some a) s; Some ((LgTake msg, it), s') }
         else Some ((LgWrite msg, it), s)
       }
   }"
| "Append_step E (LgTake msg, it) s =
     (case get_buff E s of (r, s') \<Rightarrow>
       Some ((case r of None \<Rightarrow> LgReturn 0 | Some _ \<Rightarrow> LgWrite msg, Some \<lparr>it_buff = r\<rparr>), s'))"
| "Append_step E (LgWrite msg, it) s = do {
     (a, b) \<leftarrow> item_buff it s;
     (off, b') \<leftarrow> FixedBuffer_Append msg b;
     Some ((LgPublish msg off, it), s\<lparr>al_pool := (fst (al_pool s), (snd (al_pool s))(a \<mapsto> b'))\<rparr>)
   }"
| "Append_step E (LgPublish msg off, it) s = do {
     i \<leftarrow> it;
     a \<leftarrow> it_buff i;
     s' \<leftarrow> AddToWriter (ae_grow E) (InBuff a off) (length msg) (Some a) s;
     Some ((LgReturn (length msg), it), s')
   }"
| "Append_step E th s = Some (th, s)"

section \<open>The thread that writes\<close>

text \<open>Where \<open>LoggingThreadFunc\<close> is: before the lock, in the timed wait after a number of idle rounds, at an item
  of the vector it took, before the flush, or returned.\<close>

datatype al_writer = WTop | WWait nat | WWrite vec_id nat | WFlush vec_id | WExit

definition writer_swap :: "'k AsynLogAppender \<Rightarrow> al_writer \<times> 'k AsynLogAppender" where
  "writer_swap s = (WWrite (al_pb1 s) 0, s\<lparr>al_curPendingMsg := 0, al_pb1 := al_pb2 s, al_pb2 := al_pb1 s\<rparr>)"

definition write_item :: "'k al_env \<Rightarrow> LogMsg \<Rightarrow> 'k AsynLogAppender \<Rightarrow> 'k AsynLogAppender option" where
  "write_item E m s =
     (if lm_len m = 0
      then (case lm_data m of
          WholeBuff a \<Rightarrow> do { pool \<leftarrow> Recycle a (al_pool s); Some (s\<lparr>al_pool := pool\<rparr>) }
        | _ \<Rightarrow> None)
      else do {
        data \<leftarrow> read_msg (snd (al_pool s)) m;
        (_, f) \<leftarrow> LogFile_Append (ae_wr E) data (al_log_file s);
        Some (s\<lparr>al_log_file := f\<rparr>)
      })"

fun LoggingThreadFunc_step :: "'k al_env \<Rightarrow> al_writer \<Rightarrow> 'k AsynLogAppender \<Rightarrow> (al_writer \<times> 'k AsynLogAppender) option" where
  "LoggingThreadFunc_step E WTop s =
     (if al_running s then Some (WWait 0, s)
      else if mv_items (vec_of (al_pb1 s) s) = [] then Some (WExit, s)
      else Some (writer_swap s))"
| "LoggingThreadFunc_step E (WWait idle) s =
     (if mv_items (vec_of (al_pb1 s) s) \<noteq> [] then Some (writer_swap s)
      else do {
        s' \<leftarrow> (if idle + 1 \<noteq> 8 then Some s else ShrinkMemoryUsageUnlock s);
        Some (if al_running s' then WWait (idle + 1) else WExit, s')
      })"
| "LoggingThreadFunc_step E (WWrite vp i) s =
     (if i < length (mv_items (vec_of vp s))
      then map_option (Pair (WWrite vp (i + 1))) (write_item E (mv_items (vec_of vp s) ! i) s)
      else Some (WFlush vp, s))"
| "LoggingThreadFunc_step E (WFlush vp) s = do {
     f \<leftarrow> LogFile_Flush (ae_wr E) (al_log_file s);
     let s' = s\<lparr>al_log_file := f\<rparr> in
     Some (WTop, set_vec vp ((vec_of vp s')\<lparr>mv_items := []\<rparr>) s')
   }"
| "LoggingThreadFunc_step E WExit s = Some (WExit, s)"

section \<open>Buffers and what is in them\<close>

lemma GetBuff_frame:
  assumes "new_ok E N" and "GetBuff E st = (r, st')" and "snd st a \<noteq> None"
  shows "snd st' a = snd st a"
proof -
  have "snd (snd (add_buffs E n st)) a = snd st a" if "snd st a \<noteq> None" for n st
    using that
  proof (induction n arbitrary: st)
    case (Suc n)
    have fresh: "h c = None" if "bn E h = Some (c, j)" for h c j using assms(1) that by (auto simp: new_ok_def)
    show ?case using Suc
      by (cases st) (auto simp: new_buff_def FixedBuffer_init_def split: option.splits bind_splits if_splits dest: fresh)
  qed simp
  then have "snd (EnlargePoolUnsafe E st) a = snd st a"
    using assms(3) by (cases st) (simp add: EnlargePoolUnsafe_def)
  moreover define st1 where "st1 = (if m_pool (fst st) = [] then EnlargePoolUnsafe E st else st)"
  moreover have "snd st' = snd st1"
    using assms(2) unfolding GetBuff_def st1_def [symmetric] by (cases st1) (auto split: if_splits)
  ultimately show ?thesis by simp
qed

lemma delete_all_frame: "delete_all as h = Some h' \<Longrightarrow> a \<notin> set as \<Longrightarrow> h' a = h a"
  by (induction as arbitrary: h) (auto split: if_splits)

lemma Shrink_frame:
  assumes "Shrink k st = Some st'" and "a \<notin> set (m_pool (fst st))"
  shows "snd st' a = snd st a"
  using assms by (cases st) (auto simp: Shrink_def Let_def split: if_splits intro: delete_all_frame dest: in_set_dropD)

text \<open>The message \<open>m\<close> lies at offset \<open>off\<close> in the used part of buffer \<open>a\<close>.\<close>

definition stored :: "bheap \<Rightarrow> nat \<Rightarrow> nat \<Rightarrow> bytes \<Rightarrow> bool" where
  "stored h a off m \<longleftrightarrow> (case h a of None \<Rightarrow> False | Some b \<Rightarrow>
     unat (fb_cur b) \<le> length (fb_buff b) \<and> off + length m \<le> unat (fb_cur b) \<and> take (length m) (drop off (fb_buff b)) = m)"

text \<open>Nothing that was stored in buffer \<open>a\<close> is lost.\<close>

definition grown :: "bheap \<Rightarrow> bheap \<Rightarrow> nat \<Rightarrow> bool" where
  "grown h h' a \<longleftrightarrow> (\<forall>off m. stored h a off m \<longrightarrow> stored h' a off m)"

lemma grown_same: "h' a = h a \<Longrightarrow> grown h h' a"
  by (simp add: grown_def stored_def)

lemma stored_read: "stored h a off m \<Longrightarrow> read_msg h \<lparr>lm_len = length m, lm_data = InBuff a off\<rparr> = Some m"
  by (auto simp: stored_def read_msg_def split: option.splits)

text \<open>A buffer in use by a thread.\<close>

definition ok_buff :: "bheap \<Rightarrow> nat \<Rightarrow> bool" where
  "ok_buff h a \<longleftrightarrow> (case h a of None \<Rightarrow> False | Some b \<Rightarrow> length (fb_buff b) = S_BUFF_SIZE \<and> unat (fb_cur b) \<le> S_BUFF_SIZE)"

lemma S_BUFF_SIZE_lt: "S_BUFF_SIZE < 2 ^ 64"
  by (simp add: S_BUFF_SIZE_def)

lemma Available_ok:
  assumes "length (fb_buff b) = S_BUFF_SIZE" and "unat (fb_cur b) \<le> S_BUFF_SIZE"
  shows "unat (Available b) = S_BUFF_SIZE - unat (fb_cur b)"
  using assms S_BUFF_SIZE_lt
  by (simp add: Available_def unat_sub word_le_nat_alt unsigned_of_nat take_bit_nat_eq_self)

text \<open>Copying a message that fits keeps what is stored and stores the message.\<close>

lemma FixedBuffer_Append_stores:
  assumes "h a = Some b" and "ok_buff h a" and "unat (fb_cur b) + length m \<le> S_BUFF_SIZE"
  shows "\<exists>b'. FixedBuffer_Append m b = Some (unat (fb_cur b), b') \<and> ok_buff (h(a \<mapsto> b')) a \<and>
     stored (h(a \<mapsto> b')) a (unat (fb_cur b)) m \<and> grown h (h(a \<mapsto> b')) a"
proof -
  have b: "length (fb_buff b) = S_BUFF_SIZE" "unat (fb_cur b) \<le> S_BUFF_SIZE" using assms(1,2) by (auto simp: ok_buff_def)
  define mem where "mem = take (unat (fb_cur b)) (fb_buff b) @ m @ drop (unat (fb_cur b) + length m) (fb_buff b)"
  define b' where "b' = b\<lparr>fb_buff := mem, fb_cur := fb_cur b + word_of_nat (length m)\<rparr>"
  have app: "FixedBuffer_Append m b = Some (unat (fb_cur b), b')"
    using b assms(3) by (simp add: FixedBuffer_Append_def memcpy_to_def mem_def b'_def)
  have "unat (word_of_nat (length m) :: 64 word) = length m"
    using assms(3) S_BUFF_SIZE_lt by (simp add: unsigned_of_nat take_bit_nat_eq_self)
  then have cur: "unat (fb_cur b') = unat (fb_cur b) + length m"
    using assms(3) S_BUFF_SIZE_lt unat_add_lem [of "fb_cur b" "word_of_nat (length m)"] by (simp add: b'_def)
  have len: "length (fb_buff b') = S_BUFF_SIZE" using b assms(3) by (simp add: b'_def mem_def)
  have new: "take (length m) (drop (unat (fb_cur b)) (fb_buff b')) = m" using b by (simp add: b'_def mem_def)
  have old: "take n (drop off (fb_buff b')) = take n (drop off (fb_buff b))" if "off + n \<le> unat (fb_cur b)" for off n
    using that b by (simp add: b'_def mem_def take_drop)
  have "grown h (h(a \<mapsto> b')) a" unfolding grown_def
    using assms(1,3) cur len old by (auto simp: stored_def)
  then show ?thesis using app cur len new assms(3) by (auto simp: ok_buff_def stored_def)
qed

section \<open>The queue\<close>

definition retired :: "LogMsg list \<Rightarrow> nat list" where
  "retired U = List.map_filter (\<lambda>e. case lm_data e of WholeBuff a \<Rightarrow> Some a | _ \<Rightarrow> None) U"

lemma retired_simps [simp]:
  "retired [] = []"
  "retired (e # U) = (case lm_data e of WholeBuff a \<Rightarrow> a # retired U | _ \<Rightarrow> retired U)"
  "retired (U @ V) = retired U @ retired V"
  by (simp_all add: retired_def map_filter_def split: msg_data.split)

text \<open>
  The items still to be written stand for the messages \<open>ms\<close>. Each message is stored in a buffer that a thread still
  uses (\<open>own\<close>) or that is handed back behind the message; and a buffer is handed back once, by no thread that uses it.
\<close>

inductive pending_ok :: "bheap \<Rightarrow> nat set \<Rightarrow> LogMsg list \<Rightarrow> bytes list \<Rightarrow> bool" for h own where
  pending_none: "pending_ok h own [] []"
| pending_msg: "stored h a off m \<Longrightarrow> m \<noteq> [] \<Longrightarrow> length m \<le> S_BUFF_SIZE \<Longrightarrow> a \<in> own \<or> a \<in> set (retired U) \<Longrightarrow>
    pending_ok h own U ms \<Longrightarrow> pending_ok h own (\<lparr>lm_len = length m, lm_data = InBuff a off\<rparr> # U) (m # ms)"
| pending_whole: "a \<notin> own \<Longrightarrow> a \<notin> set (retired U) \<Longrightarrow> pending_ok h own U ms \<Longrightarrow>
    pending_ok h own (\<lparr>lm_len = 0, lm_data = WholeBuff a\<rparr> # U) ms"

inductive_cases pending_NilE: "pending_ok h own [] ms"
inductive_cases pending_ConsE: "pending_ok h own (e # U) ms"

lemma pending_retired_own: "pending_ok h own U ms \<Longrightarrow> set (retired U) \<inter> own = {}"
  by (induction rule: pending_ok.induct) auto

lemma pending_frame:
  "pending_ok h own U ms \<Longrightarrow> (\<And>a. a \<in> own \<union> set (retired U) \<Longrightarrow> grown h h' a) \<Longrightarrow> pending_ok h' own U ms"
  by (induction rule: pending_ok.induct) (auto intro!: pending_ok.intros simp: grown_def)

lemma pending_publish:
  "pending_ok h own U ms \<Longrightarrow> a \<in> own \<Longrightarrow> stored h a off m \<Longrightarrow> m \<noteq> [] \<Longrightarrow> length m \<le> S_BUFF_SIZE \<Longrightarrow>
   pending_ok h own (U @ [\<lparr>lm_len = length m, lm_data = InBuff a off\<rparr>]) (ms @ [m])"
  by (induction rule: pending_ok.induct) (auto intro!: pending_ok.intros)

lemma pending_retire:
  "pending_ok h own U ms \<Longrightarrow> a \<in> own \<Longrightarrow> pending_ok h (own - {a}) (U @ [\<lparr>lm_len = 0, lm_data = WholeBuff a\<rparr>]) ms"
  by (induction rule: pending_ok.induct) (auto intro!: pending_ok.intros)

lemma pending_acquire:
  "pending_ok h own U ms \<Longrightarrow> a \<notin> set (retired U) \<Longrightarrow> pending_ok h (insert a own) U ms"
  by (induction rule: pending_ok.induct) (auto intro!: pending_ok.intros)

section \<open>Who uses which buffer\<close>

text \<open>Between handing its buffer back and getting another a thread uses none, although its item still names the old one.\<close>

fun owner :: "al_thread \<Rightarrow> ptr" where
  "owner (LgTake msg, it) = None"
| "owner (pc, it) = Option.bind it it_buff"

abbreviation owners :: "al_thread list \<Rightarrow> nat list" where
  "owners ts \<equiv> picks owner ts"

lemmas owners_in = picks_in [where f = owner]
lemmas owners_other = picks_other [where f = owner]
lemmas owners_same = picks_same [where f = owner]
lemmas owners_drop = picks_drop [where f = owner]
lemmas owners_take = picks_take [where f = owner]

section \<open>The invariant of buffers, threads and queue\<close>

definition msg_ok :: "bytes \<Rightarrow> bool" where
  "msg_ok m \<longleftrightarrow> m \<noteq> [] \<and> length m \<le> S_BUFF_SIZE"

definition thread_ok :: "bheap \<Rightarrow> al_thread \<Rightarrow> bool" where
  "thread_ok h t \<longleftrightarrow> (\<forall>a. owner t = Some a \<longrightarrow> ok_buff h a) \<and> (case fst t of
       LgRest \<Rightarrow> True
     | LgReturn n \<Rightarrow> True
     | LgStart m \<Rightarrow> msg_ok m
     | LgCheck m \<Rightarrow> msg_ok m \<and> snd t \<noteq> None
     | LgTake m \<Rightarrow> msg_ok m
     | LgWrite m \<Rightarrow> msg_ok m \<and> (\<exists>a b. owner t = Some a \<and> h a = Some b \<and> unat (fb_cur b) + length m \<le> S_BUFF_SIZE)
     | LgPublish m off \<Rightarrow> msg_ok m \<and> (\<exists>a. owner t = Some a \<and> stored h a off m))"

lemma thread_ok_frame: "thread_ok h t \<Longrightarrow> (\<And>a. owner t = Some a \<Longrightarrow> h' a = h a) \<Longrightarrow> thread_ok h' t"
  by (auto simp: thread_ok_def ok_buff_def stored_def split: al_pc.splits)

definition core_ok :: "fbstate \<Rightarrow> al_thread list \<Rightarrow> LogMsg list \<Rightarrow> bytes list \<Rightarrow> bool" where
  "core_ok st ts U ms \<longleftrightarrow> pending_ok (snd st) (set (owners ts)) U ms \<and> distinct (owners ts) \<and>
     (\<exists>held. fbp_repr S_BUFF_SIZE st held \<and> set held = set (owners ts) \<union> set (retired U)) \<and>
     (\<forall>i < length ts. thread_ok (snd st) (ts ! i))"

lemma core_thread: "core_ok st ts U ms \<Longrightarrow> i < length ts \<Longrightarrow> thread_ok (snd st) (ts ! i)"
  by (simp add: core_ok_def)

text \<open>A thread goes on without touching what is shared.\<close>

lemma core_local:
  assumes "core_ok st ts U ms" and "owner t = owner (ts ! i)" and "thread_ok (snd st) t"
  shows "core_ok st (ts[i := t]) U ms"
  using assms owners_same [OF assms(2)] by (auto simp: core_ok_def nth_upd)

text \<open>A thread without a buffer asks for one.\<close>

lemma core_get:
  assumes "core_ok st ts U ms" and "i < length ts" and "owner (ts ! i) = None" and "new_ok E S_BUFF_SIZE"
    and "GetBuff E st = (r, st')" and "owner t = r"
    and "(\<And>a. r = Some a \<Longrightarrow> empty_buff S_BUFF_SIZE (snd st') a) \<Longrightarrow> thread_ok (snd st') t"
  shows "core_ok st' (ts[i := t]) U ms"
proof -
  obtain held where held: "fbp_repr S_BUFF_SIZE st held" "set held = set (owners ts) \<union> set (retired U)"
    and inv: "pending_ok (snd st) (set (owners ts)) U ms" "distinct (owners ts)" "\<And>j. j < length ts \<Longrightarrow> thread_ok (snd st) (ts ! j)"
    using assms(1) by (auto simp: core_ok_def)
  have dom: "snd st a \<noteq> None" if "a \<in> set held" for a using fbp_repr_dom [of S_BUFF_SIZE "fst st" "snd st"] held(1) that by auto
  have same: "snd st' a = snd st a" if "a \<in> set held" for a using GetBuff_frame [OF assms(4,5) dom [OF that]] .
  have repr: "fbp_repr S_BUFF_SIZE st' (case r of None \<Rightarrow> held | Some a \<Rightarrow> a # held)"
    "\<And>a. r = Some a \<Longrightarrow> empty_buff S_BUFF_SIZE (snd st') a"
    using GetBuff_repr [OF assms(4) held(1) assms(5)] by auto
  have t: "thread_ok (snd st') t" using assms(7) repr(2) by blast
  have others: "thread_ok (snd st') (ts ! j)" if "j < length ts" for j
    using thread_ok_frame [OF inv(3) [OF that]] same owners_in [OF that] held(2) by blast
  have pend: "pending_ok (snd st') (set (owners ts)) U ms"
    using pending_frame [OF inv(1)] same held(2) by (blast intro: grown_same)
  show ?thesis
  proof (cases r)
    case None
    then have "owners (ts[i := t]) = owners ts" using assms(3,6) by (intro owners_same) simp
    then show ?thesis using repr(1) held(2) inv(2) pend others t None by (auto simp: core_ok_def nth_upd)
  next
    case (Some a)
    then have new: "a \<notin> set held" using repr(1) by (auto simp: fbp_repr_def split: prod.splits)
    then have "distinct (owners (ts[i := t]))" "set (owners (ts[i := t])) = insert a (set (owners ts))"
      using owners_take [OF inv(2) assms(2,3), of t a] assms(6) Some held(2) by auto
    moreover have "fbp_repr S_BUFF_SIZE st' (a # held)" using repr(1) Some by simp
    ultimately show ?thesis using pending_acquire [OF pend, of a] new held(2) others t
      by (auto simp: core_ok_def nth_upd intro!: exI [of _ "a # held"])
  qed
qed

text \<open>A thread hands its buffer back.\<close>

lemma core_retire:
  assumes "core_ok st ts U ms" and "i < length ts" and "owner (ts ! i) = Some a" and "owner t = None" and "thread_ok (snd st) t"
  shows "core_ok st (ts[i := t]) (U @ [\<lparr>lm_len = 0, lm_data = WholeBuff a\<rparr>]) ms"
proof -
  have own: "distinct (owners (ts[i := t]))" "set (owners (ts[i := t])) = set (owners ts) - {a}"
    using owners_drop [OF _ assms(2,3,4)] assms(1) by (auto simp: core_ok_def)
  have "a \<in> set (owners ts)" using owners_in assms(2,3) .
  with own pending_retire [of "snd st" "set (owners ts)" U ms a] assms(1,5) show ?thesis
    by (auto simp: core_ok_def nth_upd insert_absorb Un_commute)
qed

text \<open>A thread copies its message into its buffer.\<close>

lemma core_write:
  assumes "core_ok st ts U ms" and "i < length ts" and "ts ! i = (LgWrite m, it)"
  shows "\<exists>a b off b'. owner (ts ! i) = Some a \<and> snd st a = Some b \<and> FixedBuffer_Append m b = Some (off, b') \<and>
     core_ok (fst st, (snd st)(a \<mapsto> b')) (ts[i := (LgPublish m off, it)]) U ms"
proof -
  obtain p h where st: "st = (p, h)" by (cases st)
  have inv: "pending_ok h (set (owners ts)) U ms" "distinct (owners ts)" "\<And>j. j < length ts \<Longrightarrow> thread_ok h (ts ! j)"
    using assms(1) st by (auto simp: core_ok_def)
  obtain held where held: "fbp_repr S_BUFF_SIZE (p, h) held" "set held = set (owners ts) \<union> set (retired U)"
    using assms(1) st by (auto simp: core_ok_def)
  obtain a b where a: "owner (ts ! i) = Some a" "h a = Some b" "unat (fb_cur b) + length m \<le> S_BUFF_SIZE" "ok_buff h a" "msg_ok m"
    using inv(3) [OF assms(2)] assms(3) by (auto simp: thread_ok_def)
  from FixedBuffer_Append_stores [OF a(2,4,3)] obtain b' where b': "FixedBuffer_Append m b = Some (unat (fb_cur b), b')"
    "ok_buff (h(a \<mapsto> b')) a" "stored (h(a \<mapsto> b')) a (unat (fb_cur b)) m" "grown h (h(a \<mapsto> b')) a" by blast
  have "grown h (h(a \<mapsto> b')) c" for c using b'(4) by (cases "c = a") (auto intro: grown_same)
  then have pend: "pending_ok (h(a \<mapsto> b')) (set (owners ts)) U ms" using pending_frame [OF inv(1)] by blast
  let ?t = "(LgPublish m (unat (fb_cur b)), it)"
  have own: "owners (ts[i := ?t]) = owners ts" using assms(3) by (intro owners_same) simp
  have t: "thread_ok (h(a \<mapsto> b')) ?t" using a(1,5) b' assms(3) by (auto simp: thread_ok_def)
  have others: "thread_ok (h(a \<mapsto> b')) (ts ! j)" if "j < length ts" "j \<noteq> i" for j
  proof (rule thread_ok_frame [OF inv(3) [OF that(1)]])
    show "(h(a \<mapsto> b')) c = h c" if "owner (ts ! j) = Some c" for c
      using that owners_other [OF inv(2) assms(2) \<open>j < length ts\<close> _ a(1)] \<open>j \<noteq> i\<close> by auto
  qed
  have "length (fb_buff b') = S_BUFF_SIZE" "a \<in> set held"
    using b'(2) owners_in [OF assms(2) a(1)] held(2) by (auto simp: ok_buff_def)
  then have "fbp_repr S_BUFF_SIZE (p, h(a \<mapsto> b')) held"
    using held(1) by (auto simp: fbp_repr_def list_all_iff buff_upd)
  then have "core_ok (p, h(a \<mapsto> b')) (ts[i := ?t]) U ms"
    using pend own t others inv(2) held(2) by (auto simp: core_ok_def nth_upd)
  then show ?thesis using a(1,2) b'(1) st by auto
qed

text \<open>A thread queues its message.\<close>

lemma core_publish:
  assumes "core_ok st ts U ms" and "i < length ts" and "ts ! i = (LgPublish m off, it)" and "owner (ts ! i) = Some a"
  shows "core_ok st (ts[i := (LgReturn n, it)]) (U @ [\<lparr>lm_len = length m, lm_data = InBuff a off\<rparr>]) (ms @ [m])"
proof -
  have t: "thread_ok (snd st) (ts ! i)" using core_thread [OF assms(1,2)] .
  then have m: "stored (snd st) a off m" "msg_ok m" using assms(3,4) by (auto simp: thread_ok_def)
  have "core_ok st (ts[i := (LgReturn n, it)]) U ms"
    using assms(3) t by (intro core_local [OF assms(1)]) (auto simp: thread_ok_def)
  moreover have "a \<in> set (owners (ts[i := (LgReturn n, it)]))"
    using owners_in [OF assms(2,4)] assms(3) owners_same [of "(LgReturn n, it)" ts i] by simp
  ultimately show ?thesis using m by (auto simp: core_ok_def msg_ok_def intro: pending_publish)
qed

text \<open>The items are taken off in turn: a message can be read, a buffer recycled.\<close>

lemma core_pop_msg:
  assumes "core_ok st ts (e # U) ms" and "lm_len e \<noteq> 0"
  shows "\<exists>m ms'. ms = m # ms' \<and> read_msg (snd st) e = Some m \<and> length m \<le> S_BUFF_SIZE \<and> core_ok st ts U ms'"
proof -
  have "pending_ok (snd st) (set (owners ts)) (e # U) ms" using assms(1) by (simp add: core_ok_def)
  then obtain a off m ms' where m: "ms = m # ms'" "e = \<lparr>lm_len = length m, lm_data = InBuff a off\<rparr>" "stored (snd st) a off m"
    "length m \<le> S_BUFF_SIZE" "pending_ok (snd st) (set (owners ts)) U ms'"
    using assms(2) by (cases rule: pending_ConsE) auto
  then have "core_ok st ts U ms'" using assms(1) by (auto simp: core_ok_def)
  with m show ?thesis using stored_read by blast
qed

lemma core_pop_whole:
  assumes "core_ok st ts (e # U) ms" and "lm_len e = 0"
  shows "\<exists>a st'. lm_data e = WholeBuff a \<and> Recycle a st = Some st' \<and> core_ok st' ts U ms"
proof -
  have "pending_ok (snd st) (set (owners ts)) (e # U) ms" using assms(1) by (simp add: core_ok_def)
  then obtain a where a: "e = \<lparr>lm_len = 0, lm_data = WholeBuff a\<rparr>" "a \<notin> set (owners ts)" "a \<notin> set (retired U)"
    "pending_ok (snd st) (set (owners ts)) U ms"
    using assms(2) by (cases rule: pending_ConsE) auto
  obtain held where held: "fbp_repr S_BUFF_SIZE st held" "set held = insert a (set (owners ts) \<union> set (retired U))"
    using assms(1) a(1) by (auto simp: core_ok_def)
  obtain st' where st': "Recycle a st = Some st'" "fbp_repr S_BUFF_SIZE st' (remove1 a held)"
    using Recycle_repr [OF held(1), of a] held(2) by auto
  have same: "snd st' c = snd st c" if "c \<noteq> a" for c
    using st'(1) that by (cases st) (auto simp: Recycle_def split: bind_splits)
  have "distinct held" using held(1) by (auto simp: fbp_repr_def split: prod.splits)
  then have "set (remove1 a held) = set (owners ts) \<union> set (retired U)" using held(2) a(2,3) by auto
  moreover have "pending_ok (snd st') (set (owners ts)) U ms"
    using pending_frame [OF a(4)] a(2,3) same by (metis Un_iff grown_same)
  moreover have "thread_ok (snd st') (ts ! i)" if "i < length ts" for i
    using thread_ok_frame [OF core_thread [OF assms(1) that]] owners_in [OF that] a(2) same by metis
  ultimately have "core_ok st' ts U ms" using assms(1) st'(2) by (auto simp: core_ok_def)
  then show ?thesis using a(1) st'(1) by (metis LogMsg.select_convs(2))
qed

lemma core_shrink:
  assumes "core_ok st ts U ms"
  shows "\<exists>st'. Shrink 1 st = Some st' \<and> core_ok st' ts U ms"
proof -
  obtain held where held: "fbp_repr S_BUFF_SIZE st held" "set held = set (owners ts) \<union> set (retired U)"
    using assms by (auto simp: core_ok_def)
  obtain st' where st': "Shrink 1 st = Some st'" "fbp_repr S_BUFF_SIZE st' held" using Shrink_repr [OF held(1), of 1] by auto
  have same: "snd st' a = snd st a" if "a \<in> set held" for a
    using Shrink_frame [OF st'(1), of a] held(1) that by (auto simp: fbp_repr_def split: prod.splits)
  have "pending_ok (snd st') (set (owners ts)) U ms"
    using assms pending_frame [of "snd st" "set (owners ts)" U ms "snd st'"] same held(2) by (auto simp: core_ok_def intro: grown_same)
  moreover have "thread_ok (snd st') (ts ! i)" if "i < length ts" for i
    using thread_ok_frame [OF core_thread [OF assms that]] owners_in [OF that] held(2) same by (metis Un_iff)
  ultimately show ?thesis using assms st' held(2) by (auto simp: core_ok_def)
qed

section \<open>Steps of the threads\<close>

abbreviation queue1 :: "'k AsynLogAppender \<Rightarrow> LogMsg list" where
  "queue1 s \<equiv> mv_items (vec_of (al_pb1 s) s)"

abbreviation queue2 :: "'k AsynLogAppender \<Rightarrow> LogMsg list" where
  "queue2 s \<equiv> mv_items (vec_of (al_pb2 s) s)"

text \<open>\<open>s'\<close> has the items \<open>new\<close> at the end of the queue, and the file, the two pointers and the other queue of \<open>s\<close>.\<close>

definition queued :: "LogMsg list \<Rightarrow> 'k AsynLogAppender \<Rightarrow> 'k AsynLogAppender \<Rightarrow> bool" where
  "queued new s s' \<longleftrightarrow> queue1 s' = queue1 s @ new \<and> queue2 s' = queue2 s \<and> al_log_file s' = al_log_file s \<and>
     al_pb1 s' = al_pb1 s \<and> al_pb2 s' = al_pb2 s \<and> al_running s' = al_running s"

lemma vec_set_vec [simp]: "vec_of v (set_vec u x s) = (if v = u then x else vec_of v s)"
  by (cases v; cases u) (simp_all add: vec_of_def set_vec_def)

lemma set_vec_other [simp]:
  "al_pb1 (set_vec v x s) = al_pb1 s" "al_pb2 (set_vec v x s) = al_pb2 s" "al_running (set_vec v x s) = al_running s"
  "al_log_file (set_vec v x s) = al_log_file s" "al_pool (set_vec v x s) = al_pool s"
  by (cases v; simp add: set_vec_def)+

lemma vec_of_upd [simp]:
  "vec_of v (s\<lparr>al_curPendingMsg := n\<rparr>) = vec_of v s" "vec_of v (s\<lparr>al_notified := k\<rparr>) = vec_of v s"
  "vec_of v (s\<lparr>al_pool := p\<rparr>) = vec_of v s" "vec_of v (s\<lparr>al_log_file := f\<rparr>) = vec_of v s"
  "vec_of v (s\<lparr>al_running := r\<rparr>) = vec_of v s" "vec_of v (s\<lparr>al_pb1 := u\<rparr>) = vec_of v s" "vec_of v (s\<lparr>al_pb2 := w\<rparr>) = vec_of v s"
  by (cases v; simp add: vec_of_def)+

lemma queued_pool [simp]: "queued [] s (s\<lparr>al_pool := p\<rparr>)"
  by (simp add: queued_def)

lemma queued_refl [simp]: "queued [] s s"
  by (simp add: queued_def)

lemma AddToWriter_ok:
  assumes "al_running s" and "al_pb1 s \<noteq> al_pb2 s" and "addr = NullPtr \<and> len = 0 \<longrightarrow> buff = Some a"
  shows "\<exists>s'. AddToWriter grow addr len buff s = Some s' \<and> al_pool s' = al_pool s \<and>
     queued [\<lparr>lm_len = len, lm_data = (if addr = NullPtr \<and> len = 0 then WholeBuff a else addr)\<rparr>] s s'"
  using assms by (auto simp: AddToWriter_def queued_def Let_def vec_push_back_def)

lemma Append_step_ok:
  assumes "core_ok (al_pool s) ts U ms" and "i < length ts" and "\<not> al_at_rest (ts ! i)" and "al_running s"
    and "al_pb1 s \<noteq> al_pb2 s" and "new_ok (ae_pool E) S_BUFF_SIZE"
  shows "\<exists>t s' new. Append_step E (ts ! i) s = Some (t, s') \<and> queued new s s' \<and>
     core_ok (al_pool s') (ts[i := t]) (U @ new) (ms @ (case fst (ts ! i) of LgPublish m off \<Rightarrow> [m] | _ \<Rightarrow> []))"
proof -
  obtain pc it where t: "ts ! i = (pc, it)" by (cases "ts ! i")
  note ok = core_thread [OF assms(1,2), unfolded t thread_ok_def]
  obtain r pool where get: "GetBuff (ae_pool E) (al_pool s) = (r, pool)" by (rule prod.exhaust)
  have empty: "ok_buff (snd pool) a" "\<exists>b. snd pool a = Some b \<and> unat (fb_cur b) = 0" if "empty_buff S_BUFF_SIZE (snd pool) a" for a
    using that by (auto simp: empty_buff_def ok_buff_def DataLength_def split: option.splits)
  show ?thesis
  proof (cases pc)
    case (LgStart m)
    show ?thesis
    proof (cases it)
      case None
      have "core_ok pool (ts[i := (LgCheck m, Some \<lparr>it_buff = r\<rparr>)]) U ms"
        using ok t LgStart None by (intro core_get [OF assms(1,2) _ assms(6) get]) (auto simp: thread_ok_def empty)
      then show ?thesis using t LgStart None ok get by (auto simp: get_buff_def msg_ok_def intro!: exI [of _ "[]"])
    next
      case (Some x)
      have "core_ok (al_pool s) (ts[i := (LgCheck m, it)]) U ms"
        using ok t LgStart Some by (intro core_local [OF assms(1)]) (auto simp: thread_ok_def)
      then show ?thesis using t LgStart Some ok by (auto simp: msg_ok_def intro!: exI [of _ "[]"])
    qed
  next
    case (LgCheck m)
    then obtain x where x: "it = Some x" using ok by auto
    show ?thesis
    proof (cases "it_buff x")
      case None
      have "core_ok (al_pool s) (ts[i := (LgTake m, it)]) U ms"
        using ok t LgCheck x None by (intro core_local [OF assms(1)]) (auto simp: thread_ok_def)
      then show ?thesis using t LgCheck x None by (auto intro!: exI [of _ "[]"])
    next
      case (Some a)
      then obtain b where b: "snd (al_pool s) a = Some b" "length (fb_buff b) = S_BUFF_SIZE" "unat (fb_cur b) \<le> S_BUFF_SIZE"
        using ok t LgCheck x by (auto simp: ok_buff_def split: option.splits)
      note av = Available_ok [OF b(2,3)]
      show ?thesis
      proof (cases "S_BUFF_SIZE - unat (fb_cur b) < length m")
        case True
        have "core_ok (al_pool s) (ts[i := (LgTake m, it)]) (U @ [\<lparr>lm_len = 0, lm_data = WholeBuff a\<rparr>]) ms"
          using ok t LgCheck x Some by (intro core_retire [OF assms(1,2)]) (auto simp: thread_ok_def)
        then show ?thesis using AddToWriter_ok [OF assms(4,5), of NullPtr 0 "Some a" a "ae_grow E"] t LgCheck x Some b av True
          by (auto simp: item_buff_def intro!: exI [of _ "[\<lparr>lm_len = 0, lm_data = WholeBuff a\<rparr>]"])
      next
        case False
        have "core_ok (al_pool s) (ts[i := (LgWrite m, it)]) U ms"
          using ok t LgCheck x Some b False by (intro core_local [OF assms(1)]) (auto simp: thread_ok_def)
        then show ?thesis using t LgCheck x Some b av False by (auto simp: item_buff_def intro!: exI [of _ "[]"])
      qed
    qed
  next
    case (LgTake m)
    let ?t = "(case r of None \<Rightarrow> LgReturn 0 | Some _ \<Rightarrow> LgWrite m, Some \<lparr>it_buff = r\<rparr>)"
    have "core_ok pool (ts[i := ?t]) U ms"
      using ok t LgTake empty
      by (intro core_get [OF assms(1,2) _ assms(6) get]) (fastforce simp: thread_ok_def msg_ok_def split: option.splits)+
    then show ?thesis using t LgTake get by (auto simp: get_buff_def intro!: exI [of _ "[]"])
  next
    case (LgWrite m)
    obtain a b off b' where w: "owner (ts ! i) = Some a" "snd (al_pool s) a = Some b" "FixedBuffer_Append m b = Some (off, b')"
      "core_ok (fst (al_pool s), (snd (al_pool s))(a \<mapsto> b')) (ts[i := (LgPublish m off, it)]) U ms"
      using core_write [OF assms(1,2), of m it] t LgWrite by auto
    then show ?thesis using t LgWrite by (auto simp: item_buff_def split: bind_splits intro!: exI [of _ "[]"])
  next
    case (LgPublish m off)
    then obtain a x where a: "it = Some x" "it_buff x = Some a" using ok by (auto split: bind_splits)
    have "core_ok (al_pool s) (ts[i := (LgReturn (length m), it)]) (U @ [\<lparr>lm_len = length m, lm_data = InBuff a off\<rparr>]) (ms @ [m])"
      using core_publish [OF assms(1,2), of m off it a] t LgPublish a by simp
    then show ?thesis using AddToWriter_ok [OF assms(4,5), of "InBuff a off" "length m" "Some a" a "ae_grow E"] t LgPublish a
      by (auto intro!: exI [of _ "[\<lparr>lm_len = length m, lm_data = InBuff a off\<rparr>]"])
  qed (use assms(3) t in auto)
qed

end
