(* ===== verification/AsynLogRun.thy ===== *)
theory AsynLogRun
  imports AsynLog
begin

text \<open>
  The asynchronous appender as a whole: any number of logging threads, the writing thread and the calls of \<open>Stop\<close> and
  \<open>Flush\<close>, interleaved in any order; what ends up in the log file, and that stopping drains the queue.
\<close>

section \<open>The whole appender\<close>

text \<open>The appender, the thread that writes, the threads that log, and the messages queued so far, in order.\<close>

type_synonym 'k al_sys = "'k AsynLogAppender \<times> al_writer \<times> al_thread list \<times> bytes list"

text \<open>What happens next: thread \<open>i\<close> calls \<open>Append\<close>, goes on by a step, or exits; the appender is stopped, or flushed
  gracefully; the writing thread goes on by a step.\<close>

datatype al_act = LogCall nat bytes | LogGo nat | LogExit nat | StopCall | FlushCall | WriterGo

text \<open>
  What can happen. The clients keep to the contract of the appender: no message is empty or longer than a buffer, nothing
  is logged once the appender is stopped, and it is stopped when no call is under way; and no thread exits that was left
  without a buffer when memory ran out.
\<close>

fun al_enabled :: "al_act \<Rightarrow> 'k al_sys \<Rightarrow> bool" where
  "al_enabled (LogCall i m) (s, w, ts, log) \<longleftrightarrow> i < length ts \<and> al_at_rest (ts ! i) \<and> al_running s \<and> msg_ok m"
| "al_enabled (LogGo i) (s, w, ts, log) \<longleftrightarrow> i < length ts \<and> \<not> al_at_rest (ts ! i)"
| "al_enabled (LogExit i) (s, w, ts, log) \<longleftrightarrow>
     i < length ts \<and> al_at_rest (ts ! i) \<and> al_running s \<and> snd (ts ! i) \<noteq> Some \<lparr>it_buff = None\<rparr>"
| "al_enabled StopCall (s, w, ts, log) \<longleftrightarrow> al_running s \<and> list_all al_at_rest ts"
| "al_enabled FlushCall (s, w, ts, log) \<longleftrightarrow> True"
| "al_enabled WriterGo (s, w, ts, log) \<longleftrightarrow> w \<noteq> WExit"

fun al_step :: "'k al_env \<Rightarrow> al_act \<Rightarrow> 'k al_sys \<Rightarrow> 'k al_sys option" where
  "al_step E (LogCall i m) (s, w, ts, log) = Some (s, w, ts[i := (LgStart m, snd (ts ! i))], log)"
| "al_step E (LogGo i) (s, w, ts, log) = do {
     (t, s') \<leftarrow> Append_step E (ts ! i) s;
     Some (s', w, ts[i := t], log @ (case fst (ts ! i) of LgPublish m off \<Rightarrow> [m] | _ \<Rightarrow> []))
   }"
| "al_step E (LogExit i) (s, w, ts, log) = do {
     s' \<leftarrow> (case snd (ts ! i) of None \<Rightarrow> Some s | Some it \<Rightarrow> PerThreadItem_destroy (ae_grow E) it s);
     Some (s', w, ts[i := (LgRest, None)], log)
   }"
| "al_step E StopCall (s, w, ts, log) = Some (AsynLogAppender_Stop s, w, ts, log)"
| "al_step E FlushCall (s, w, ts, log) = map_option (\<lambda>s'. (s', w, ts, log)) (AsynLogAppender_Flush E True s)"
| "al_step E WriterGo (s, w, ts, log) = map_option (\<lambda>(w', s'). (s', w', ts, log)) (LoggingThreadFunc_step E w s)"

abbreviation al_run :: "'k al_env \<Rightarrow> al_act list \<Rightarrow> 'k al_sys \<Rightarrow> 'k al_sys option" where
  "al_run E \<equiv> run_schedule al_enabled (al_step E)"

definition al_start :: "'k AsynLogAppender \<Rightarrow> nat \<Rightarrow> 'k al_sys" where
  "al_start s n = (s, WTop, replicate n (LgRest, None), [])"

subsection \<open>Its invariant\<close>

definition unwritten :: "al_writer \<Rightarrow> 'k AsynLogAppender \<Rightarrow> LogMsg list" where
  "unwritten w s = (case w of WWrite vp i \<Rightarrow> drop i (mv_items (vec_of vp s)) | _ \<Rightarrow> []) @ queue1 s"

definition phase_ok :: "('k \<Rightarrow> bytes) \<Rightarrow> al_writer \<Rightarrow> 'k AsynLogAppender \<Rightarrow> bool" where
  "phase_ok out w s \<longleftrightarrow> al_pb1 s \<noteq> al_pb2 s \<and> (case w of
       WWrite vp i \<Rightarrow> vp = al_pb2 s
     | WFlush vp \<Rightarrow> vp = al_pb2 s
     | _ \<Rightarrow> queue2 s = [] \<and> out (snd (al_log_file s)) = lf_content out (al_log_file s)) \<and>
     (w = WExit \<longrightarrow> \<not> al_running s \<and> queue1 s = [])"

fun al_inv :: "'k al_env \<Rightarrow> ('k \<Rightarrow> bytes) \<Rightarrow> ('k \<Rightarrow> nat) \<Rightarrow> bytes \<Rightarrow> 'k al_sys \<Rightarrow> bool" where
  "al_inv E out patience base (s, w, ts, log) \<longleftrightarrow>
     phase_ok out w s \<and> lf_good (ae_wr E) out patience (al_log_file s) \<and> (\<not> al_running s \<longrightarrow> list_all al_at_rest ts) \<and>
     (\<exists>old ms. log = old @ ms \<and> lf_content out (al_log_file s) = base @ concat old \<and>
        core_ok (al_pool s) ts (unwritten w s) ms)"

lemma al_invI:
  "phase_ok out w s \<Longrightarrow> lf_good (ae_wr E) out patience (al_log_file s) \<Longrightarrow> (\<not> al_running s \<Longrightarrow> list_all al_at_rest ts) \<Longrightarrow>
   log = old @ ms \<Longrightarrow> lf_content out (al_log_file s) = base @ concat old \<Longrightarrow> core_ok (al_pool s) ts (unwritten w s) ms \<Longrightarrow>
   al_inv E out patience base (s, w, ts, log)"
  by auto

text \<open>A step that only moves on.\<close>

lemma al_inv_phase:
  assumes "al_inv E out patience base (s, w, ts, log)" and "phase_ok out w' s'" and "unwritten w' s' = unwritten w s"
    and "al_log_file s' = al_log_file s" and "al_pool s' = al_pool s" and "al_running s' = al_running s"
  shows "al_inv E out patience base (s', w', ts, log)"
  using assms by simp

declare al_inv.simps [simp del]

lemma unwritten_upd [simp]:
  "unwritten w (s\<lparr>al_log_file := f\<rparr>) = unwritten w s" "unwritten w (s\<lparr>al_pool := p\<rparr>) = unwritten w s"
  by (cases w; simp add: unwritten_def)+

lemma sizes_agree: "S_BUFF_SIZE = S_DEF_BUFF_SZ"
  by (simp add: S_BUFF_SIZE_def S_DEF_BUFF_SZ_def)

lemma queued_unwritten: "queued new s s' \<Longrightarrow> phase_ok out w s \<Longrightarrow> unwritten w s' = unwritten w s @ new"
  by (auto simp: queued_def phase_ok_def unwritten_def split: al_writer.splits)

lemma queued_phase: "queued new s s' \<Longrightarrow> phase_ok out w s \<Longrightarrow> al_running s \<Longrightarrow> phase_ok out w s'"
  by (auto simp: queued_def phase_ok_def split: al_writer.splits)

text \<open>A step of a thread keeps the invariant when it queues what it should.\<close>

lemma al_inv_queued:
  assumes "al_inv E out patience base (s, w, ts, log)" and "queued new s s'" and "al_running s"
    and "\<And>ms. core_ok (al_pool s) ts (unwritten w s) ms \<Longrightarrow> core_ok (al_pool s') ts' (unwritten w s @ new) (ms @ ms')"
  shows "al_inv E out patience base (s', w, ts', log @ ms')"
proof -
  obtain old ms where inv: "phase_ok out w s" "lf_good (ae_wr E) out patience (al_log_file s)" "log = old @ ms"
    "lf_content out (al_log_file s) = base @ concat old" "core_ok (al_pool s) ts (unwritten w s) ms"
    using assms(1) by (auto simp: al_inv.simps)
  have "al_log_file s' = al_log_file s" "al_running s'" using assms(2,3) by (auto simp: queued_def)
  then show ?thesis
    using inv queued_unwritten [OF assms(2) inv(1)] queued_phase [OF assms(2) inv(1) assms(3)] assms(4) [OF inv(5)]
    by (intro al_invI [where old = old and ms = "ms @ ms'"]) simp_all
qed

lemma writer_swap_ok:
  assumes "al_inv E out patience base (s, w, ts, log)" and "w = WTop \<or> (\<exists>idle. w = WWait idle)"
  shows "al_inv E out patience base (snd (writer_swap s), fst (writer_swap s), ts, log)"
proof -
  have "phase_ok out w s" using assms(1) by (simp add: al_inv.simps)
  with assms(2) show ?thesis unfolding writer_swap_def fst_conv snd_conv
    by (intro al_inv_phase [OF assms(1)]) (auto simp: phase_ok_def unwritten_def)
qed

lemma write_item_ok:
  assumes "al_inv E out patience base (s, WWrite vp i, ts, log)" and "i < length (mv_items (vec_of vp s))"
  shows "\<exists>s'. write_item E (mv_items (vec_of vp s) ! i) s = Some s' \<and> al_inv E out patience base (s', WWrite vp (i + 1), ts, log)"
proof -
  let ?e = "mv_items (vec_of vp s) ! i"
  have U: "unwritten (WWrite vp i) s = ?e # unwritten (WWrite vp (i + 1)) s"
    using assms(2) by (simp add: unwritten_def Cons_nth_drop_Suc)
  obtain old ms where inv: "log = old @ ms" "lf_content out (al_log_file s) = base @ concat old"
    "core_ok (al_pool s) ts (?e # unwritten (WWrite vp (i + 1)) s) ms" "lf_good (ae_wr E) out patience (al_log_file s)"
    "phase_ok out (WWrite vp i) s" "\<not> al_running s \<longrightarrow> list_all al_at_rest ts"
    using assms(1) U by (auto simp: al_inv.simps)
  show ?thesis
  proof (cases "lm_len ?e = 0")
    case True
    from core_pop_whole [OF inv(3) this] obtain a st' where a: "lm_data ?e = WholeBuff a" "Recycle a (al_pool s) = Some st'"
      "core_ok st' ts (unwritten (WWrite vp (i + 1)) s) ms" by blast
    then have "write_item E ?e s = Some (s\<lparr>al_pool := st'\<rparr>)" using True by (simp add: write_item_def)
    moreover have "al_inv E out patience base (s\<lparr>al_pool := st'\<rparr>, WWrite vp (i + 1), ts, log)"
      using inv a(3) by (intro al_invI [where old = old and ms = ms]) (auto simp: phase_ok_def)
    ultimately show ?thesis by blast
  next
    case False
    from core_pop_msg [OF inv(3) this] obtain m ms' where m: "ms = m # ms'" "read_msg (snd (al_pool s)) ?e = Some m"
      "length m \<le> S_BUFF_SIZE" "core_ok (al_pool s) ts (unwritten (WWrite vp (i + 1)) s) ms'" by blast
    obtain f where f: "LogFile_Append (ae_wr E) m (al_log_file s) = Some (length m, f)" "lf_good (ae_wr E) out patience f"
      "lf_content out f = base @ concat (old @ [m])"
      using LogFile_Append_ok [OF inv(4), of m] m(3) inv(2) sizes_agree by auto
    have "write_item E ?e s = Some (s\<lparr>al_log_file := f\<rparr>)" using False m(2) f(1) by (simp add: write_item_def)
    moreover have "al_inv E out patience base (s\<lparr>al_log_file := f\<rparr>, WWrite vp (i + 1), ts, log)"
      using inv m f by (intro al_invI [where old = "old @ [m]" and ms = ms']) (auto simp: phase_ok_def)
    ultimately show ?thesis by blast
  qed
qed

lemma shrink_ok:
  assumes "al_inv E out patience base (s, WWait idle, ts, log)" and "queue1 s = []"
  shows "\<exists>s'. ShrinkMemoryUsageUnlock s = Some s' \<and> al_inv E out patience base (s', WWait idle', ts, log) \<and> queue1 s' = [] \<and>
     al_running s' = al_running s"
proof -
  obtain old ms where inv: "log = old @ ms" "lf_content out (al_log_file s) = base @ concat old"
    "core_ok (al_pool s) ts [] ms" "phase_ok out (WWait idle) s"
    "lf_good (ae_wr E) out patience (al_log_file s)" "\<not> al_running s \<longrightarrow> list_all al_at_rest ts"
    using assms by (auto simp: al_inv.simps unwritten_def)
  obtain st' where st': "Shrink 1 (al_pool s) = Some st'" "core_ok st' ts [] ms" using core_shrink [OF inv(3)] by blast
  have "mv_items (shrink_vec v) = []" if "mv_items v = []" for v using that by (simp add: shrink_vec_def)
  moreover have "mv_items (al_pending1 s) = []" "mv_items (al_pending2 s) = []"
    using assms(2) inv(4) by (cases "al_pb1 s"; cases "al_pb2 s"; auto simp: phase_ok_def vec_of_def)+
  moreover define s' where "s' = s\<lparr>al_pool := st', al_pending1 := shrink_vec (al_pending1 s), al_pending2 := shrink_vec (al_pending2 s)\<rparr>"
  ultimately have empty: "mv_items (vec_of v s') = []" for v by (cases v) (simp_all add: vec_of_def)
  have "al_inv E out patience base (s', WWait idle', ts, log)"
    using inv st'(2) empty
    by (intro al_invI [where old = old and ms = ms]) (auto simp: s'_def phase_ok_def unwritten_def)
  then show ?thesis using st'(1) empty by (auto simp: ShrinkMemoryUsageUnlock_def s'_def)
qed

lemma LoggingThreadFunc_step_ok:
  assumes "al_inv E out patience base (s, w, ts, log)"
  shows "\<exists>w' s'. LoggingThreadFunc_step E w s = Some (w', s') \<and> al_inv E out patience base (s', w', ts, log)"
proof -
  note ph = assms [unfolded al_inv.simps, THEN conjunct1]
  show ?thesis
  proof (cases w)
    case WTop
    show ?thesis
    proof (cases "al_running s \<or> queue1 s = []")
      case True
      then show ?thesis using ph WTop by (auto simp: phase_ok_def unwritten_def intro: al_inv_phase [OF assms])
    next
      case False
      then show ?thesis using writer_swap_ok [OF assms] WTop by (cases "writer_swap s") auto
    qed
  next
    case (WWait idle)
    show ?thesis
    proof (cases "queue1 s = []")
      case True
      have stay: "al_inv E out patience base (s, WWait (idle + 1), ts, log)"
        using ph WWait by (intro al_inv_phase [OF assms]) (auto simp: phase_ok_def unwritten_def)
      obtain s' where s': "(if idle + 1 \<noteq> 8 then Some s else ShrinkMemoryUsageUnlock s) = Some s'"
        "al_inv E out patience base (s', WWait (idle + 1), ts, log)" "queue1 s' = []"
        using shrink_ok [of E out patience base s idle ts log "idle + 1"] assms stay WWait True by (cases "idle + 1 = 8") auto
      then have "al_inv E out patience base (s', if al_running s' then WWait (idle + 1) else WExit, ts, log)"
        by (intro al_inv_phase [OF s'(2)]) (auto simp: al_inv.simps phase_ok_def unwritten_def)
      then show ?thesis using s'(1) WWait True by (auto split: if_splits)
    next
      case False
      then show ?thesis using writer_swap_ok [OF assms] WWait by (cases "writer_swap s") auto
    qed
  next
    case (WWrite vp i)
    show ?thesis
    proof (cases "i < length (mv_items (vec_of vp s))")
      case True
      then show ?thesis using write_item_ok assms WWrite by fastforce
    next
      case False
      then show ?thesis using ph WWrite by (auto simp: phase_ok_def unwritten_def intro!: al_inv_phase [OF assms])
    qed
  next
    case (WFlush vp)
    obtain f where f: "LogFile_Flush (ae_wr E) (al_log_file s) = Some f" "lf_good (ae_wr E) out patience f"
      "lf_content out f = lf_content out (al_log_file s)" "out (snd f) = lf_content out f"
      using LogFile_Flush_ok [of "ae_wr E" out patience "al_log_file s"] assms by (auto simp: al_inv.simps)
    obtain old ms where inv: "log = old @ ms" "lf_content out (al_log_file s) = base @ concat old"
      "core_ok (al_pool s) ts (unwritten w s) ms" "\<not> al_running s \<longrightarrow> list_all al_at_rest ts"
      using assms by (auto simp: al_inv.simps)
    let ?s = "set_vec vp ((vec_of vp s)\<lparr>mv_items := []\<rparr>) (s\<lparr>al_log_file := f\<rparr>)"
    have "al_inv E out patience base (?s, WTop, ts, log)"
      using inv f ph WFlush by (intro al_invI [where old = old and ms = ms]) (auto simp: phase_ok_def unwritten_def)
    then show ?thesis using f(1) WFlush by (auto simp: Let_def)
  qed (use assms in auto)
qed

lemma PerThreadItem_destroy_ok:
  assumes "al_running s" and "al_pb1 s \<noteq> al_pb2 s" and "it_buff it = Some a"
  shows "\<exists>s'. PerThreadItem_destroy grow it s = Some s' \<and> al_pool s' = al_pool s \<and>
     queued [\<lparr>lm_len = 0, lm_data = WholeBuff a\<rparr>] s s'"
  using AddToWriter_ok [OF assms(1,2), of NullPtr 0 "Some a" a grow] assms(1,3) by (simp add: PerThreadItem_destroy_def)

lemma at_rest_owner: "al_at_rest t \<Longrightarrow> owner t = Option.bind (snd t) it_buff"
  by (cases t; cases "fst t") auto

lemma al_step_ok:
  assumes "new_ok (ae_pool E) S_BUFF_SIZE" and "al_inv E out patience base (s, w, ts, log)" and "al_enabled act (s, w, ts, log)"
  shows "\<exists>y. al_step E act (s, w, ts, log) = Some y \<and> al_inv E out patience base y"
proof -
  note inv = assms(2) [unfolded al_inv.simps]
  have pb: "al_pb1 s \<noteq> al_pb2 s" using inv by (auto simp: phase_ok_def)
  show ?thesis
  proof (cases act)
    case (LogCall i m)
    then have en: "i < length ts" "al_at_rest (ts ! i)" "al_running s" "msg_ok m" using assms(3) by auto
    have "core_ok (al_pool s) (ts[i := (LgStart m, snd (ts ! i))]) (unwritten w s @ []) (ms @ [])"
      if "core_ok (al_pool s) ts (unwritten w s) ms" for ms
      using core_local [OF that, of "(LgStart m, snd (ts ! i))" i] core_thread [OF that en(1)] at_rest_owner [OF en(2)] en(4)
      by (auto simp: thread_ok_def)
    from al_inv_queued [OF assms(2) queued_refl en(3) this] LogCall show ?thesis by simp
  next
    case (LogGo i)
    then have en: "i < length ts" "\<not> al_at_rest (ts ! i)" using assms(3) by auto
    have run: "al_running s" using inv en by (auto simp: list_all_length)
    obtain old ms where "core_ok (al_pool s) ts (unwritten w s) ms" using inv by blast
    from Append_step_ok [OF this en run pb assms(1)] obtain t s' new where
      t: "Append_step E (ts ! i) s = Some (t, s')" "queued new s s'" by blast
    have "core_ok (al_pool s') (ts[i := t]) (unwritten w s @ new) (ms @ (case fst (ts ! i) of LgPublish m off \<Rightarrow> [m] | _ \<Rightarrow> []))"
      if "core_ok (al_pool s) ts (unwritten w s) ms" for ms
      using Append_step_ok [OF that en run pb assms(1)] t by (auto simp: queued_def)
    from al_inv_queued [OF assms(2) t(2) run this] t(1) LogGo show ?thesis by simp
  next
    case (LogExit i)
    then have en: "i < length ts" "al_at_rest (ts ! i)" "al_running s" "snd (ts ! i) \<noteq> Some \<lparr>it_buff = None\<rparr>"
      using assms(3) by auto
    show ?thesis
    proof (cases "snd (ts ! i)")
      case None
      then have "core_ok (al_pool s) (ts[i := (LgRest, None)]) (unwritten w s @ []) (ms @ [])"
        if "core_ok (al_pool s) ts (unwritten w s) ms" for ms
        using core_local [OF that, of "(LgRest, None)" i] at_rest_owner [OF en(2)] by (auto simp: thread_ok_def)
      from al_inv_queued [OF assms(2) queued_refl en(3) this] LogExit None show ?thesis by simp
    next
      case (Some it)
      then obtain a where a: "it_buff it = Some a" using en(4) by (cases it) auto
      obtain s' where s': "PerThreadItem_destroy (ae_grow E) it s = Some s'" "al_pool s' = al_pool s"
        "queued [\<lparr>lm_len = 0, lm_data = WholeBuff a\<rparr>] s s'" using PerThreadItem_destroy_ok [OF en(3) pb a] by blast
      have "core_ok (al_pool s') (ts[i := (LgRest, None)]) (unwritten w s @ [\<lparr>lm_len = 0, lm_data = WholeBuff a\<rparr>]) (ms @ [])"
        if "core_ok (al_pool s) ts (unwritten w s) ms" for ms
        using core_retire [OF that en(1), of a "(LgRest, None)"] at_rest_owner [OF en(2)] Some a s'(2) by (simp add: thread_ok_def)
      from al_inv_queued [OF assms(2) s'(3) en(3) this] s'(1) LogExit Some show ?thesis by simp
    qed
  next
    case StopCall
    have "al_inv E out patience base (AsynLogAppender_Stop s, w, ts, log)"
      using inv assms(3) StopCall unfolding al_inv.simps
      by (auto simp: AsynLogAppender_Stop_def phase_ok_def unwritten_def split: al_writer.splits)
    then show ?thesis using StopCall by simp
  next
    case FlushCall
    have "al_inv E out patience base (s\<lparr>al_notified := al_notified s + 1\<rparr>, w, ts, log)"
      using inv by (intro al_inv_phase [OF assms(2)]) (auto simp: phase_ok_def unwritten_def split: al_writer.splits)
    then show ?thesis using FlushCall by (simp add: AsynLogAppender_Flush_def)
  next
    case WriterGo
    then show ?thesis using LoggingThreadFunc_step_ok [OF assms(2)] by auto
  qed
qed

interpretation als: safe_steps "\<lambda>x. new_ok (ae_pool E) S_BUFF_SIZE \<and> al_inv E out patience base x" al_enabled "al_step E"
  for E out patience base
proof (unfold_locales, goal_cases)
  case (1 x a)
  then show ?case using al_step_ok by (cases x) blast
qed

lemma al_run_ok:
  assumes "new_ok (ae_pool E) S_BUFF_SIZE" and "al_inv E out patience base x"
  shows "\<exists>y. al_run E acts x = Some y \<and> al_inv E out patience base y"
  using als.run_good [of E out patience base x acts] assms by blast

lemma al_start_ok:
  assumes "writer_ok (ae_wr E) out patience" and "new_ok (ae_pool E) S_BUFF_SIZE" and "length junk = S_DEF_BUFF_SZ"
    and "AsynLogAppender_init E junk fd interval cnt k Map.empty = Some s0"
  shows "al_inv E out patience (out k) (al_start s0 n)"
proof -
  obtain f pool where f: "LogFile_init junk fd = Some f" "FixedBufferPool_init (ae_pool E) 32 16 Map.empty = Some pool"
    "al_log_file s0 = (f, k)" "al_pool s0 = pool" "al_running s0" "mv_items (al_pending1 s0) = []" "mv_items (al_pending2 s0) = []"
    "al_pb1 s0 = PendingBuff1" "al_pb2 s0 = PendingBuff2"
    using assms(4) by (auto simp: AsynLogAppender_init_def split: bind_splits)
  have good: "lf_good (ae_wr E) out patience (f, k)" "lf_content out (f, k) = out k"
    using assms(1,3) f(1) by (auto simp: lf_good_def lf_content_def LogFile_init_def split: if_splits)
  have "core_ok pool (replicate n (LgRest, None)) [] []"
    using FixedBufferPool_init_repr [OF assms(2) f(2)] by (auto simp: core_ok_def thread_ok_def pending_none)
  then show ?thesis unfolding al_start_def using f good
    by (intro al_invI [where old = "[]" and ms = "[]"]) (auto simp: phase_ok_def unwritten_def vec_of_def)
qed

section \<open>What reaches the file\<close>

lemma pending_reads:
  "pending_ok h own U ms \<Longrightarrow> those (map (read_msg h) (filter (\<lambda>e. lm_len e \<noteq> 0) U)) = Some ms"
  by (induction rule: pending_ok.induct) (simp_all add: stored_read)

lemma pending_distinct: "pending_ok h own U ms \<Longrightarrow> distinct (retired U)"
  by (induction rule: pending_ok.induct) auto

lemma core_unrecycled:
  assumes "core_ok st ts U ms"
  shows "m_unrecyled (fst st) = word_of_nat (length (owners ts @ retired U))"
proof -
  obtain held where "fbp_repr S_BUFF_SIZE st held" "set held = set (owners ts @ retired U)"
    using assms by (auto simp: core_ok_def)
  moreover have "distinct (owners ts @ retired U)"
    using assms pending_distinct pending_retired_own by (fastforce simp: core_ok_def)
  moreover have "distinct held" using calculation(1) by (auto simp: fbp_repr_def split: prod.splits)
  ultimately have "length held = length (owners ts @ retired U)" by (metis distinct_card)
  then show ?thesis using \<open>fbp_repr S_BUFF_SIZE st held\<close> by (simp add: fbp_repr_def split: prod.splits)
qed

text \<open>
  C12. Asynchronous logging loses nothing and keeps the order. From the construction of the appender on, for every
  schedule of any number of logging threads that keep to its contract, the writing thread, \<open>Stop\<close> and graceful flushes,
  no operation faults: no assertion fails, and no buffer is overrun or used after it was handed back. The log file (with what it
  buffers) holds, behind its old content, the first messages queued, in the order they were queued; the items
  still to be written read in memory as exactly the messages after those; and the buffers out of the pool are
  those in use by a thread and those queued to be handed back.
\<close>

theorem asyn_log_ordered:
  assumes "writer_ok (ae_wr E) out patience" and "new_ok (ae_pool E) S_BUFF_SIZE" and "length junk = S_DEF_BUFF_SZ"
    and "AsynLogAppender_init E junk fd interval cnt k Map.empty = Some s0"
  shows "\<exists>s w ts old ms. al_run E acts (al_start s0 n) = Some (s, w, ts, old @ ms) \<and>
     lf_content out (al_log_file s) = out k @ concat old \<and>
     those (map (read_msg (snd (al_pool s))) (filter (\<lambda>e. lm_len e \<noteq> 0) (unwritten w s))) = Some ms \<and>
     m_unrecyled (fst (al_pool s)) = word_of_nat (length (owners ts @ retired (unwritten w s)))"
proof -
  obtain s w ts log where run: "al_run E acts (al_start s0 n) = Some (s, w, ts, log)" "al_inv E out patience (out k) (s, w, ts, log)"
    using al_run_ok [OF assms(2) al_start_ok [OF assms]] by (metis prod_cases4)
  then obtain old ms where "log = old @ ms" "lf_content out (al_log_file s) = out k @ concat old"
    and core: "core_ok (al_pool s) ts (unwritten w s) ms" by (auto simp: al_inv.simps)
  moreover have "pending_ok (snd (al_pool s)) (set (owners ts)) (unwritten w s) ms" using core by (simp add: core_ok_def)
  ultimately show ?thesis using run(1) pending_reads core_unrecycled [OF core] by blast
qed

text \<open>A \<open>new\<close> with room for 64 buffers, and an appender on it over a kernel that writes three bytes at a time.\<close>

definition log_new :: pool_env where
  "log_new = \<lparr>bn = (\<lambda>h. map_option (\<lambda>a. (a, replicate S_BUFF_SIZE CHR ''?'')) (find (\<lambda>a. h a = None) [0..<64])),
     reserve_ok = (\<lambda>n. n < 1000)\<rparr>"

definition log_env :: "(bool \<times> bytes) al_env" where
  "log_env = \<lparr>ae_pool = log_new, ae_wr = slow_wr, ae_grow = (\<lambda>n. 2 * n)\<rparr>"

lemma log_new_ok: "new_ok (ae_pool log_env) S_BUFF_SIZE"
  by (auto simp: new_ok_def log_new_def log_env_def find_Some_iff S_BUFF_SIZE_def)

lemma log_new_room:
  "finite (dom h) \<Longrightarrow> card (dom h) + n \<le> 64 \<Longrightarrow> fst (add_buffs log_new n (p, h))"
proof (induction n arbitrary: p h)
  case (Suc n)
  have "find (\<lambda>a. h a = None) [0..<64] \<noteq> None"
  proof
    assume "find (\<lambda>a. h a = None) [0..<64] = None"
    then have "{0..<64} \<subseteq> dom h" by (auto simp: find_None_iff)
    with card_mono [OF Suc.prems(1) this] Suc.prems(2) show False by simp
  qed
  then obtain a where a: "find (\<lambda>a. h a = None) [0..<64] = Some a" by blast
  define b :: FixedBuffer where "b = \<lparr>fb_cur = 0, fb_buff = (replicate S_BUFF_SIZE CHR ''?'')[0 := CHR 0x00]\<rparr>"
  have "h a = None" using a by (auto simp: find_Some_iff)
  then have "finite (dom (h(a \<mapsto> b)))" "card (dom (h(a \<mapsto> b))) + n \<le> 64" using Suc.prems by (simp_all add: domIff)
  note Suc.IH [OF this, of "p\<lparr>m_pool := m_pool p @ [a]\<rparr>"]
  moreover have "new_buff log_new (p, h) = Some (p\<lparr>m_pool := m_pool p @ [a]\<rparr>, h(a \<mapsto> b))"
    using a by (simp add: new_buff_def log_new_def FixedBuffer_init_def b_def S_BUFF_SIZE_def)
  ultimately show ?case by (simp add: fun_upd_def)
qed simp

lemma log_env_init:
  "\<exists>s0. AsynLogAppender_init log_env (replicate S_DEF_BUFF_SZ CHR ''x'') 3 1 512 (False, ''log: '') Map.empty = Some s0 \<and>
     al_running s0"
proof -
  let ?p = "\<lparr>m_fix_sz = 32, m_inc_gran = 16, m_unrecyled = 0, m_pool = []\<rparr>"
  obtain st where "add_buffs log_new (unat (32 :: 64 word)) (?p, Map.empty) = (True, st)"
    using log_new_room [of Map.empty "unat (32 :: 64 word)" ?p] by (cases "add_buffs log_new (unat (32 :: 64 word)) (?p, Map.empty)") auto
  then have "FixedBufferPool_init log_new 32 16 Map.empty = Some st"
    by (simp add: FixedBufferPool_init_def log_new_def)
  then show ?thesis by (simp add: AsynLogAppender_init_def log_env_def LogFile_init_def S_DEF_BUFF_SZ_def)
qed

lemma log_env_wr: "writer_ok (ae_wr log_env) snd (\<lambda>k. if fst k then 0 else 1)"
  by (simp add: log_env_def slow_wr_ok)

theorem asyn_log_ordered_witness:
  "\<exists>s0 s w ts old ms.
     AsynLogAppender_init log_env (replicate S_DEF_BUFF_SZ CHR ''x'') 3 1 512 (False, ''log: '') Map.empty = Some s0 \<and>
     al_run log_env ([LogCall 0 ''one'', LogCall 1 ''two''] @ concat (replicate 5 [LogGo 1, LogGo 0, WriterGo]) @ [LogExit 0]) (al_start s0 2) =
       Some (s, w, ts, old @ ms) \<and>
     lf_content snd (al_log_file s) = ''log: '' @ concat old \<and>
     m_unrecyled (fst (al_pool s)) = word_of_nat (length (owners ts @ retired (unwritten w s)))"
proof -
  obtain s0 where s0: "AsynLogAppender_init log_env (replicate S_DEF_BUFF_SZ CHR ''x'') 3 1 512 (False, ''log: '') Map.empty = Some s0"
    using log_env_init by blast
  have "length (replicate S_DEF_BUFF_SZ CHR ''x'') = S_DEF_BUFF_SZ" by simp
  from asyn_log_ordered [OF log_env_wr log_new_ok this s0,
      of "[LogCall 0 ''one'', LogCall 1 ''two''] @ concat (replicate 5 [LogGo 1, LogGo 0, WriterGo]) @ [LogExit 0]" 2]
  show ?thesis unfolding snd_conv using s0 by blast
qed

section \<open>Stopping\<close>

text \<open>A bound on the steps the writing thread still takes once the appender is stopped.\<close>

definition drain_rounds :: "LogMsg list \<Rightarrow> nat" where
  "drain_rounds q = (if q = [] then 1 else length q + 4)"

definition drain_steps :: "al_writer \<Rightarrow> 'k AsynLogAppender \<Rightarrow> nat" where
  "drain_steps w s = (case w of
       WExit \<Rightarrow> 0
     | WWrite vp i \<Rightarrow> (length (mv_items (vec_of vp s)) - i) + 2 + drain_rounds (queue1 s)
     | WFlush vp \<Rightarrow> 1 + drain_rounds (queue1 s)
     | _ \<Rightarrow> drain_rounds (queue1 s))"

lemma drain_steps_le: "drain_steps w s \<le> length (unwritten w s) + 6"
  by (auto simp: drain_steps_def drain_rounds_def unwritten_def split: al_writer.splits)

lemma write_item_keeps:
  "write_item E e s = Some s' \<Longrightarrow> vec_of v s' = vec_of v s \<and> al_pb1 s' = al_pb1 s \<and> al_running s' = al_running s"
  by (auto simp: write_item_def split: if_splits msg_data.splits bind_splits)

lemma drain_step:
  assumes "LoggingThreadFunc_step E w s = Some (w', s')" and "\<not> al_running s" and "w \<noteq> WExit" and "phase_ok out w s"
  shows "drain_steps w' s' < drain_steps w s \<and> \<not> al_running s'"
proof (cases w)
  case WTop
  then show ?thesis using assms
    by (auto simp: writer_swap_def drain_steps_def drain_rounds_def phase_ok_def split: if_splits)
next
  case (WWait idle)
  then show ?thesis using assms
    by (auto simp: writer_swap_def drain_steps_def drain_rounds_def phase_ok_def ShrinkMemoryUsageUnlock_def
        split: if_splits bind_splits)
next
  case (WWrite vp i)
  then show ?thesis using assms write_item_keeps [of E "mv_items (vec_of vp s) ! i" s s']
    by (auto simp: drain_steps_def split: if_splits)
next
  case (WFlush vp)
  then show ?thesis using assms by (auto simp: Let_def drain_steps_def phase_ok_def split: bind_splits)
qed (use assms in simp)

lemma drains:
  assumes "new_ok (ae_pool E) S_BUFF_SIZE" and "al_inv E out patience base (s, w, ts, log)" and "\<not> al_running s"
  shows "\<exists>m \<le> drain_steps w s. \<exists>s'. al_run E (replicate m WriterGo) (s, w, ts, log) = Some (s', WExit, ts, log) \<and>
     al_inv E out patience base (s', WExit, ts, log)"
proof -
  define P where "P x \<longleftrightarrow> \<not> al_running (fst x) \<and> snd (snd x) = (ts, log)" for x :: "'a al_sys"
  define rank where "rank x = drain_steps (fst (snd x)) (fst x)" for x :: "'a al_sys"
  have less: "P y \<and> rank y < rank x"
    if good: "new_ok (ae_pool E) S_BUFF_SIZE \<and> al_inv E out patience base x" "al_enabled WriterGo x" "al_step E WriterGo x = Some y" "P x" for x y
  proof -
    obtain s1 w1 where x: "x = (s1, w1, ts, log)" using good(4) by (cases x) (auto simp: P_def)
    obtain w2 s2 where "LoggingThreadFunc_step E w1 s1 = Some (w2, s2)" "y = (s2, w2, ts, log)" using good(3) x by auto
    then show ?thesis using drain_step [of E w1 s1 w2 s2 out] good x by (auto simp: P_def rank_def al_inv.simps)
  qed
  have "new_ok (ae_pool E) S_BUFF_SIZE \<and> al_inv E out patience base (s, w, ts, log)" "P (s, w, ts, log)"
    using assms by (auto simp: P_def)
  then have "\<exists>k \<le> rank (s, w, ts, log). \<exists>y. al_run E (replicate k WriterGo) (s, w, ts, log) = Some y \<and>
      (new_ok (ae_pool E) S_BUFF_SIZE \<and> al_inv E out patience base y) \<and> P y \<and> \<not> al_enabled WriterGo y"
    by (rule als.run_ends [where P = P and m = rank and a = WriterGo, rotated]) (rule less)
  then obtain m s' w' where
    "m \<le> rank (s, w, ts, log)" "al_run E (replicate m WriterGo) (s, w, ts, log) = Some (s', w', ts, log)"
    "al_inv E out patience base (s', w', ts, log)" "\<not> al_enabled WriterGo (s', w', ts, log)"
    by (auto simp: P_def)
  then show ?thesis by (auto simp: rank_def)
qed

text \<open>
  C13. Stopping the appender writes everything. After any schedule, once no call is under way, \<open>Stop\<close> lets the writing
  thread end after at most six steps more than there are items still to be written, so that its \<open>join\<close> returns; and then
  the file on disk holds, behind its old content, every message that was ever queued, in order. Of the buffers only those of
  threads that have not exited are out of the pool.
\<close>

theorem stop_drains:
  assumes "writer_ok (ae_wr E) out patience" and "new_ok (ae_pool E) S_BUFF_SIZE" and "length junk = S_DEF_BUFF_SZ"
    and "AsynLogAppender_init E junk fd interval cnt k Map.empty = Some s0"
    and "al_run E acts (al_start s0 n) = Some (s, w, ts, log)" and "al_running s" and "list_all al_at_rest ts"
  shows "\<exists>m \<le> length (unwritten w s) + 6. \<exists>s'. al_run E (StopCall # replicate m WriterGo) (s, w, ts, log) = Some (s', WExit, ts, log) \<and>
     out (snd (al_log_file s')) = out k @ concat log \<and> m_unrecyled (fst (al_pool s')) = word_of_nat (length (owners ts))"
proof -
  let ?s = "AsynLogAppender_Stop s"
  have "al_inv E out patience (out k) (s, w, ts, log)"
    using al_run_ok [OF assms(2) al_start_ok [OF assms(1-4), of n], of acts] assms(5) by auto
  from al_step_ok [OF assms(2) this, of StopCall] assms(6,7) have inv: "al_inv E out patience (out k) (?s, w, ts, log)" by auto
  have stop: "\<not> al_running ?s" "unwritten w ?s = unwritten w s"
    by (simp_all add: AsynLogAppender_Stop_def unwritten_def split: al_writer.splits)
  from drains [OF assms(2) inv stop(1)] obtain m s' where m: "m \<le> drain_steps w ?s"
    "al_run E (replicate m WriterGo) (?s, w, ts, log) = Some (s', WExit, ts, log)"
    and inv': "al_inv E out patience (out k) (s', WExit, ts, log)" by blast
  have "m \<le> length (unwritten w s) + 6" using m(1) drain_steps_le [of w ?s] stop(2) by simp
  moreover obtain old ms where fin: "log = old @ ms" "lf_content out (al_log_file s') = out k @ concat old"
    "out (snd (al_log_file s')) = lf_content out (al_log_file s')" "core_ok (al_pool s') ts [] ms"
    using inv' by (auto simp: al_inv.simps phase_ok_def unwritten_def)
  moreover have "ms = []" using fin(4) by (auto simp: core_ok_def elim: pending_NilE)
  ultimately show ?thesis using m(2) assms(6,7) core_unrecycled [OF fin(4)] by auto
qed

text \<open>One thread has logged one message.\<close>

lemma one_logged:
  assumes "AsynLogAppender_init log_env (replicate S_DEF_BUFF_SZ CHR ''x'') 3 1 512 k Map.empty = Some s0"
  shows "\<exists>s it. al_run log_env (LogCall 0 ''one'' # replicate 4 (LogGo 0)) (al_start s0 1) = Some (s, WTop, [(LgReturn 3, it)], [''one'']) \<and>
     al_running s \<and> length (unwritten WTop s) = 1 \<and> length (owners [(LgReturn 3, it)]) = 1"
proof -
  have pool: "FixedBufferPool_init log_new 32 16 Map.empty = Some (al_pool s0)" "al_running s0" "al_pb1 s0 = PendingBuff1"
    "mv_items (al_pending1 s0) = []"
    using assms by (auto simp: AsynLogAppender_init_def log_env_def split: bind_splits)
  have new: "new_ok log_new S_BUFF_SIZE" using log_new_ok by (simp add: log_env_def)
  obtain r st where get: "GetBuff log_new (al_pool s0) = (r, st)" by (rule prod.exhaust)
  have "m_pool (fst (al_pool s0)) \<noteq> []" using FixedBufferPool_init_repr [OF new pool(1)] by auto
  then obtain a where a: "r = Some a" "empty_buff S_BUFF_SIZE (snd st) a"
    using GetBuff_repr [OF new _ get, of "[]"] FixedBufferPool_init_repr [OF new pool(1)] get
    by (cases r) (auto simp: GetBuff_def split: if_splits prod.splits)
  then obtain b where b: "snd st a = Some b" "length (fb_buff b) = S_BUFF_SIZE" "fb_cur b = 0"
    by (auto simp: empty_buff_def DataLength_def split: option.splits)
  have av: "unat (Available b) = S_BUFF_SIZE" using Available_ok [OF b(2)] b(3) by simp
  have sz: "3 \<le> S_BUFF_SIZE" by (simp add: S_BUFF_SIZE_def)
  show ?thesis using pool get a(1) b av sz
    by (simp add: al_start_def log_env_def msg_ok_def get_buff_def item_buff_def FixedBuffer_Append_def memcpy_to_def numeral_eq_Suc
        AddToWriter_def Let_def unwritten_def vec_of_def set_vec_def vec_push_back_def)
qed

theorem stop_drains_witness:
  "\<exists>s0 s it m s'. AsynLogAppender_init log_env (replicate S_DEF_BUFF_SZ CHR ''x'') 3 1 512 (False, ''log: '') Map.empty = Some s0 \<and>
     al_run log_env (LogCall 0 ''one'' # replicate 4 (LogGo 0)) (al_start s0 1) = Some (s, WTop, [(LgReturn 3, it)], [''one'']) \<and>
     m \<le> 7 \<and> al_run log_env (StopCall # replicate m WriterGo) (s, WTop, [(LgReturn 3, it)], [''one'']) =
       Some (s', WExit, [(LgReturn 3, it)], [''one'']) \<and>
     snd (snd (al_log_file s')) = ''log: one'' \<and> m_unrecyled (fst (al_pool s')) = 1"
proof -
  obtain s0 where s0: "AsynLogAppender_init log_env (replicate S_DEF_BUFF_SZ CHR ''x'') 3 1 512 (False, ''log: '') Map.empty = Some s0"
    using log_env_init by blast
  obtain s it where one: "al_run log_env (LogCall 0 ''one'' # replicate 4 (LogGo 0)) (al_start s0 1) = Some (s, WTop, [(LgReturn 3, it)], [''one''])"
    "al_running s" "length (unwritten WTop s) = 1" "length (owners [(LgReturn 3, it)]) = 1" using one_logged [OF s0] by blast
  from stop_drains [OF log_env_wr log_new_ok _ s0 one(1,2)] obtain m s' where
    "m \<le> length (unwritten WTop s) + 6"
    "al_run log_env (StopCall # replicate m WriterGo) (s, WTop, [(LgReturn 3, it)], [''one'']) = Some (s', WExit, [(LgReturn 3, it)], [''one''])"
    "snd (snd (al_log_file s')) = snd (False, ''log: '') @ concat [''one'']"
    "m_unrecyled (fst (al_pool s')) = word_of_nat (length (owners [(LgReturn 3, it)]))" by auto
  then show ?thesis using s0 one(1) unfolding one(3,4) by (intro exI conjI) auto
qed

section \<open>The emergency flush\<close>

lemma raw_flush_ok:
  assumes "writer_ok wr out patience" and "pending_ok h own U ms"
  shows "\<exists>k'. raw_flush wr tag h U k = Some k' \<and> out k' = out k @ concat (map (\<lambda>m. tag @ m) ms)"
  using assms(2)
proof (induction arbitrary: k rule: pending_ok.induct)
  case (pending_msg a off m U ms)
  obtain k1 n1 where k1: "AppendRaw wr tag k = Some (n1, k1)" "out k1 = out k @ tag"
    using AppendRaw_loop_ok [OF assms(1), of tag 0 k] by (auto simp: AppendRaw_def)
  obtain k2 n2 where k2: "AppendRaw wr m k1 = Some (n2, k2)" "out k2 = out k1 @ m"
    using AppendRaw_loop_ok [OF assms(1), of m 0 k1] by (auto simp: AppendRaw_def)
  obtain k3 where "raw_flush wr tag h U k2 = Some k3" "out k3 = out k2 @ concat (map (\<lambda>m. tag @ m) ms)"
    using pending_msg.IH by blast
  with k1 k2 pending_msg.hyps(2) stored_read [OF pending_msg.hyps(1)] show ?case by auto
qed auto

text \<open>
  The emergency flush writes what is queued. When the writing thread is not at work on a vector, \<open>Flush(false)\<close> returns,
  and the file on disk then holds all messages ever queued, in order; those that were still waiting have a tag in
  front, which depends on the vector that happens to be in use.
\<close>

theorem emergency_flush:
  assumes "writer_ok (ae_wr E) out patience" and "new_ok (ae_pool E) S_BUFF_SIZE" and "length junk = S_DEF_BUFF_SZ"
    and "AsynLogAppender_init E junk fd interval cnt k Map.empty = Some s0"
    and "al_run E acts (al_start s0 n) = Some (s, w, ts, log)" and "w = WTop \<or> w = WWait idle"
  shows "\<exists>s' old ms. AsynLogAppender_Flush E False s = Some s' \<and> log = old @ ms \<and>
     out (snd (al_log_file s')) =
       out k @ concat old @ concat (map (\<lambda>m. (if al_pb1 s = PendingBuff1 then ''(f)'' else ''(f2)'') @ m) ms)"
proof -
  have "al_inv E out patience (out k) (s, w, ts, log)"
    using al_run_ok [OF assms(2) al_start_ok [OF assms(1-4), of n], of acts] assms(5) by auto
  then obtain old ms where all: "log = old @ ms" "lf_content out (al_log_file s) = out k @ concat old"
    "core_ok (al_pool s) ts (unwritten w s) ms" "phase_ok out w s" by (auto simp: al_inv.simps)
  then have inv: "log = old @ ms" "out (snd (al_log_file s)) = out k @ concat old"
    "pending_ok (snd (al_pool s)) (set (owners ts)) (queue1 s) ms" "queue2 s = []" "al_pb1 s \<noteq> al_pb2 s"
    using assms(6) by (auto simp: phase_ok_def unwritten_def core_ok_def)
  note flush = raw_flush_ok [OF assms(1) inv(3), of _ "snd (al_log_file s)"]
  let ?tag = "if al_pb1 s = PendingBuff1 then ''(f)'' else ''(f2)''"
  have "\<exists>s'. AsynLogAppender_Flush E False s = Some s' \<and>
      out (snd (al_log_file s')) = out (snd (al_log_file s)) @ concat (map (\<lambda>m. ?tag @ m) ms)"
  proof (cases "al_pb1 s")
    case PendingBuff1
    then have "queue1 s = mv_items (al_pending1 s)" "mv_items (al_pending2 s) = []"
      using inv(4,5) by (cases "al_pb2 s"; simp add: vec_of_def)+
    then show ?thesis using flush [of "''(f)''"] PendingBuff1 by (auto simp: AsynLogAppender_Flush_def)
  next
    case PendingBuff2
    then have "queue1 s = mv_items (al_pending2 s)" "mv_items (al_pending1 s) = []"
      using inv(4,5) by (cases "al_pb2 s"; simp add: vec_of_def)+
    then show ?thesis using flush [of "''(f2)''"] PendingBuff2 by (auto simp: AsynLogAppender_Flush_def)
  qed
  then show ?thesis using inv(1,2) by (metis append_assoc)
qed

theorem emergency_flush_witness:
  "\<exists>s0 s it s' old ms. AsynLogAppender_init log_env (replicate S_DEF_BUFF_SZ CHR ''x'') 3 1 512 (False, ''log: '') Map.empty = Some s0 \<and>
     al_run log_env (LogCall 0 ''one'' # replicate 4 (LogGo 0)) (al_start s0 1) = Some (s, WTop, [(LgReturn 3, it)], [''one'']) \<and>
     AsynLogAppender_Flush log_env False s = Some s' \<and> [''one''] = old @ ms \<and>
     snd (snd (al_log_file s')) =
       ''log: '' @ concat old @ concat (map (\<lambda>m. (if al_pb1 s = PendingBuff1 then ''(f)'' else ''(f2)'') @ m) ms)"
proof -
  obtain s0 where s0: "AsynLogAppender_init log_env (replicate S_DEF_BUFF_SZ CHR ''x'') 3 1 512 (False, ''log: '') Map.empty = Some s0"
    using log_env_init by blast
  obtain s it where one: "al_run log_env (LogCall 0 ''one'' # replicate 4 (LogGo 0)) (al_start s0 1) = Some (s, WTop, [(LgReturn 3, it)], [''one''])"
    using one_logged [OF s0] by blast
  have "WTop = WTop \<or> WTop = WWait 0" by simp
  from emergency_flush [OF log_env_wr log_new_ok _ s0 one this] s0 one show ?thesis unfolding snd_conv by (metis length_replicate)
qed

end
