(* ===== verification/SlogLogger.thy ===== *)
theory SlogLogger
  imports LogStream AsynLogRun
begin

text \<open>
  \<open>slog/CacheTimeStamp.{h,cc}\<close> and \<open>slog/Logger.{h,cc}\<close>: the time stamp with its cache of the formatted second, and the logger
  object that a log statement makes: its constructor starts a line with time and level, the statement streams into it, and
  its destructor completes the line and hands it to the appender. \<open>localtime_r\<close> and \<open>gettimeofday\<close> are parameters.
\<close>

section \<open>Time stamps\<close>

record tm =
  tm_year :: nat
  tm_mon :: nat
  tm_mday :: nat
  tm_hour :: nat
  tm_min :: nat
  tm_sec :: nat

text \<open>\<open>%4d\<close> and \<open>%02d\<close> of a number that is not negative.\<close>

definition padded :: "char \<Rightarrow> nat \<Rightarrow> nat \<Rightarrow> string" where
  "padded c w n = replicate (w - length (dec n)) c @ dec n"

definition fmt_sec :: "tm \<Rightarrow> string" where
  "fmt_sec t = padded CHR '' '' 4 (tm_year t + 1900) @ ''_'' @ padded CHR ''0'' 2 (tm_mon t + 1) @ ''_'' @ padded CHR ''0'' 2 (tm_mday t) @ ''-'' @
     padded CHR ''0'' 2 (tm_hour t) @ ''_'' @ padded CHR ''0'' 2 (tm_min t) @ ''_'' @ padded CHR ''0'' 2 (tm_sec t)"

text \<open>The thread-local cache.\<close>

record time_cache =
  tl_last_sec :: int
  tl_time_str :: bytes

definition time_cache_init :: time_cache where
  "time_cache_init = \<lparr>tl_last_sec = 0, tl_time_str = replicate 32 CHR 0x00\<rparr>"

record CacheTimeStamp =
  ct_micro_sec :: int
  ct_trailing_ms :: int

definition S_MS_PER_SEC :: int where
  "S_MS_PER_SEC = 1000 * 1000"

definition FmtSecLength :: nat where
  "FmtSecLength = 19"

text \<open>\<open>snprintf\<close> stores at most 31 characters and a terminator.\<close>

definition CacheTimeStamp_init :: "(int \<Rightarrow> tm) \<Rightarrow> int \<Rightarrow> time_cache \<Rightarrow> (CacheTimeStamp \<times> time_cache) option" where
  "CacheTimeStamp_init lt micro_sec c =
     (let t = \<lparr>ct_micro_sec = micro_sec, ct_trailing_ms = micro_sec smod S_MS_PER_SEC\<rparr>;
          sec = micro_sec sdiv S_MS_PER_SEC in
      if tl_last_sec c \<noteq> sec
      then do {
        str \<leftarrow> memcpy_to (tl_time_str c) 0 (take 31 (fmt_sec (lt sec)) @ [CHR 0x00]);
        if length (fmt_sec (lt sec)) = FmtSecLength then Some (t, \<lparr>tl_last_sec = sec, tl_time_str = str\<rparr>) else None
      }
      else Some (t, c))"

definition GetFmtSec :: "time_cache \<Rightarrow> bytes" where
  "GetFmtSec c = tl_time_str c"

text \<open>\<open>%06d\<close>, cut to the 15 characters of the buffer.\<close>

definition ToString :: "CacheTimeStamp \<Rightarrow> time_cache \<Rightarrow> string" where
  "ToString t c = c_str (tl_time_str c) @
     take 15 ('':'' @ (if ct_trailing_ms t < 0 then ''-'' @ padded CHR ''0'' 5 (nat (- ct_trailing_ms t))
       else padded CHR ''0'' 6 (nat (ct_trailing_ms t))))"

text \<open>\<open>gettimeofday\<close> gave \<open>(tv_sec, tv_usec)\<close>.\<close>

definition CacheTimeStamp_Now :: "(int \<Rightarrow> tm) \<Rightarrow> int \<times> int \<Rightarrow> time_cache \<Rightarrow> (CacheTimeStamp \<times> time_cache) option" where
  "CacheTimeStamp_Now lt tv c = CacheTimeStamp_init lt (fst tv * S_MS_PER_SEC + snd tv) c"

section \<open>The logger\<close>

datatype LogLevel = LL_TRACE | LL_DEBUG | LL_INFO | LL_WARN | LL_ERROR | LL_FATAL | LL_ABORT

fun level_num :: "LogLevel \<Rightarrow> nat" where
  "level_num LL_TRACE = 0"
| "level_num LL_DEBUG = 1"
| "level_num LL_INFO = 2"
| "level_num LL_WARN = 3"
| "level_num LL_ERROR = 4"
| "level_num LL_FATAL = 5"
| "level_num LL_ABORT = 6"

definition g_LogLvlName :: "string list" where
  "g_LogLvlName = ['' TRACE '', '' DEBUG '', '' INFO  '', '' WARN  '', '' ERROR '', '' FATAL '', '' ABORT '']"

record Logger =
  lg_level :: LogLevel
  lg_stream :: LogStream
  lg_func :: string
  lg_loc :: string

definition S_MAX_BUFF_SZ :: nat where
  "S_MAX_BUFF_SZ = 4 * 1024"

definition LogStreamFixed_init :: "bytes \<Rightarrow> LogStream" where
  "LogStreamFixed_init junk = LogStream_init (junk[0 := CHR 0x00]) (word_of_nat S_MAX_BUFF_SZ)"

text \<open>The operator that streams a time stamp: 19 characters of the cache, a colon, and the microseconds as an \<open>int\<close>.\<close>

definition put_time :: "CacheTimeStamp \<Rightarrow> time_cache \<Rightarrow> LogStream \<Rightarrow> LogStream option" where
  "put_time t c s = do {
     (_, s) \<leftarrow> Append (take FmtSecLength (GetFmtSec c)) s;
     (_, s) \<leftarrow> Append '':'' s;
     stream_put (LI (word_of_int (ct_trailing_ms t))) s
   }"

definition Logger_init :: "(int \<Rightarrow> tm) \<Rightarrow> int \<times> int \<Rightarrow> bytes \<Rightarrow> string \<Rightarrow> string \<Rightarrow> LogLevel \<Rightarrow> time_cache \<Rightarrow> (Logger \<times> time_cache) option" where
  "Logger_init lt tv junk loc func lvl c = do {
     (t, c) \<leftarrow> CacheTimeStamp_Now lt tv c;
     s \<leftarrow> put_time t c (LogStreamFixed_init junk);
     (_, s) \<leftarrow> Append (g_LogLvlName ! level_num lvl) s;
     Some (\<lparr>lg_level = lvl, lg_stream = s, lg_func = func, lg_loc = loc\<rparr>, c)
   }"

text \<open>What the destructor hands to the appender, and whether it then aborts.\<close>

definition Logger_destroy :: "Logger \<Rightarrow> (bytes \<times> bool) option" where
  "Logger_destroy l = do {
     (_, s) \<leftarrow> Append (lg_loc l) (lg_stream l);
     (_, s) \<leftarrow> Append (lg_func l) s;
     (_, s) \<leftarrow> Append [CHR 0x0A] s;
     Some (take (unat (Length s)) (ls_buff s), lg_level l = LL_ABORT)
   }"

text \<open>A log statement \<open>TRY_LOG(level) << ...\<close> below the global level does nothing.\<close>

definition TRY_LOG :: "(int \<Rightarrow> tm) \<Rightarrow> int \<times> int \<Rightarrow> bytes \<Rightarrow> string \<Rightarrow> string \<Rightarrow> LogLevel \<Rightarrow> LogLevel \<Rightarrow> log_item list \<Rightarrow> time_cache \<Rightarrow>
    ((bytes \<times> bool) option \<times> time_cache) option" where
  "TRY_LOG lt tv junk loc func global lvl items c =
     (if level_num lvl \<ge> level_num global
      then do {
        (l, c) \<leftarrow> Logger_init lt tv junk loc func lvl c;
        s \<leftarrow> stream_run items (lg_stream l);
        r \<leftarrow> Logger_destroy (l\<lparr>lg_stream := s\<rparr>);
        Some (Some r, c)
      }
      else Some (None, c))"

section \<open>The cache is transparent\<close>

definition tm_ok :: "tm \<Rightarrow> bool" where
  "tm_ok t \<longleftrightarrow> tm_year t < 8100 \<and> tm_mon t < 12 \<and> tm_mday t < 32 \<and> tm_hour t < 24 \<and> tm_min t < 60 \<and> tm_sec t < 61"

text \<open>Before the first time stamp the cache is empty.\<close>

definition cache_ok :: "(int \<Rightarrow> tm) \<Rightarrow> time_cache \<Rightarrow> bool" where
  "cache_ok lt c \<longleftrightarrow> length (tl_time_str c) = 32 \<and>
     (tl_last_sec c \<noteq> 0 \<longrightarrow> take FmtSecLength (tl_time_str c) = fmt_sec (lt (tl_last_sec c)))"

lemma cache_ok_init: "cache_ok lt time_cache_init"
  by (simp add: cache_ok_def time_cache_init_def)

lemma padded_length: "n < 10 ^ w \<Longrightarrow> 0 < w \<Longrightarrow> length (padded c w n) = w"
  using dec_length [of n w] by (simp add: padded_def)

lemma fmt_sec_length: "tm_ok t \<Longrightarrow> length (fmt_sec t) = FmtSecLength"
  by (simp add: fmt_sec_def tm_ok_def padded_length FmtSecLength_def)

lemma micro_split:
  assumes "0 < sec" and "0 \<le> usec" and "usec < 1000000"
  shows "(sec * S_MS_PER_SEC + usec) sdiv S_MS_PER_SEC = sec" and "(sec * S_MS_PER_SEC + usec) smod S_MS_PER_SEC = usec"
proof -
  have "\<bar>sec * 1000000 + usec\<bar> = sec * 1000000 + usec" "sgn (sec * 1000000 + usec) = 1" using assms by auto
  moreover have "(sec * 1000000 + usec) div 1000000 = sec" "(sec * 1000000 + usec) mod 1000000 = usec" using assms by simp_all
  ultimately show "(sec * S_MS_PER_SEC + usec) sdiv S_MS_PER_SEC = sec" "(sec * S_MS_PER_SEC + usec) smod S_MS_PER_SEC = usec"
    by (simp_all add: S_MS_PER_SEC_def signed_divide_int_def signed_modulo_int_def)
qed

lemma Now_ok:
  assumes "\<And>s. tm_ok (lt s)" and "0 < sec" and "0 \<le> usec" and "usec < 1000000" and "cache_ok lt c"
  shows "\<exists>c'. CacheTimeStamp_Now lt (sec, usec) c = Some (\<lparr>ct_micro_sec = sec * S_MS_PER_SEC + usec, ct_trailing_ms = usec\<rparr>, c') \<and>
     cache_ok lt c' \<and> take FmtSecLength (GetFmtSec c') = fmt_sec (lt sec)"
proof (cases "tl_last_sec c = sec")
  case True
  then show ?thesis using assms by (auto simp: CacheTimeStamp_Now_def CacheTimeStamp_init_def micro_split cache_ok_def GetFmtSec_def)
next
  case False
  let ?f = "fmt_sec (lt sec)"
  have len: "length ?f = 19" using fmt_sec_length [OF assms(1)] by (simp add: FmtSecLength_def)
  obtain str where str: "memcpy_to (tl_time_str c) 0 (?f @ [CHR 0x00]) = Some str"
    using assms(5) len by (auto simp: memcpy_to_def cache_ok_def)
  then have "take 19 str = ?f" "length str = 32" using len assms(5) by (auto simp: memcpy_to_def cache_ok_def split: if_splits)
  then show ?thesis using False assms(2-5) str len
    by (auto simp: CacheTimeStamp_Now_def CacheTimeStamp_init_def micro_split Let_def cache_ok_def GetFmtSec_def FmtSecLength_def)
qed

section \<open>A log line\<close>

text \<open>Everything that is put into a line.\<close>

definition line_items :: "string \<Rightarrow> int \<Rightarrow> LogLevel \<Rightarrow> log_item list \<Rightarrow> string \<Rightarrow> string \<Rightarrow> log_item list" where
  "line_items time usec lvl items loc func =
     [LS time, LS '':'', LI (word_of_int usec), LS (g_LogLvlName ! level_num lvl)] @ items @ [LS loc, LS func, LS [CHR 0x0A]]"

lemma bind_Append: "Option.bind (Append v s) (\<lambda>(_, s). f s) = Option.bind (stream_put (LS v) s) f"
  by (cases "Append v s") (auto simp: stream_put_def)

lemma stream_run_append: "stream_run (xs @ ys) s = Option.bind (stream_run xs s) (stream_run ys)"
  by (induction xs arbitrary: s) (auto split: bind_splits)

lemma TRY_LOG_stream:
  assumes "level_num lvl \<ge> level_num global" and "CacheTimeStamp_Now lt tv c = Some (t, c')"
  shows "TRY_LOG lt tv junk loc func global lvl items c = do {
     s \<leftarrow> stream_run (line_items (take FmtSecLength (GetFmtSec c')) (ct_trailing_ms t) lvl items loc func) (LogStreamFixed_init junk);
     Some (Some (take (unat (Length s)) (ls_buff s), lvl = LL_ABORT), c')
   }"
  using assms unfolding TRY_LOG_def Logger_init_def Logger_destroy_def put_time_def line_items_def
  by (simp add: bind_Append stream_run_append)

text \<open>
  C33. A log statement at or above the global level hands one line to the appender: the second of the call as the
  system formats it, a colon, the microseconds, the level, the streamed items, the place, the function and a newline, whatever the
  thread logged before, so that the cached second is never a wrong one. The line is not empty and at most 4096 bytes long, as
  the appender asks. (What is streamed must fit the line.)
\<close>

theorem log_line:
  assumes "\<And>s. tm_ok (lt s)" and "0 < sec" and "0 \<le> usec" and "usec < 1000000" and "cache_ok lt c"
    and "length junk = S_MAX_BUFF_SZ" and "level_num lvl \<ge> level_num global"
    and "items_fit (line_items (fmt_sec (lt sec)) usec lvl items loc func) S_MAX_BUFF_SZ"
    and "line = fmt_sec (lt sec) @ '':'' @ dec (nat usec) @ g_LogLvlName ! level_num lvl @ concat (map item_text items) @ loc @ func @ [CHR 0x0A]"
  shows "\<exists>c'. TRY_LOG lt (sec, usec) junk loc func global lvl items c = Some (Some (line, lvl = LL_ABORT), c') \<and>
     cache_ok lt c' \<and> length line \<le> S_MAX_BUFF_SZ \<and> msg_ok line"
proof -
  let ?xs = "line_items (fmt_sec (lt sec)) usec lvl items loc func" and ?s = "LogStreamFixed_init junk"
  obtain c' where now: "CacheTimeStamp_Now lt (sec, usec) c = Some (\<lparr>ct_micro_sec = sec * S_MS_PER_SEC + usec, ct_trailing_ms = usec\<rparr>, c')"
    "cache_ok lt c'" "take FmtSecLength (GetFmtSec c') = fmt_sec (lt sec)" using Now_ok [OF assms(1-5)] by blast
  have init: "ls_ok ?s" "room ?s = S_MAX_BUFF_SZ" "unat (ls_size ?s) = S_MAX_BUFF_SZ" "ls_text ?s = []"
    using assms(6) by (simp_all add: LogStreamFixed_init_def LogStream_init_def ls_ok_def room_def ls_text_def S_MAX_BUFF_SZ_def)
  then obtain s where s: "stream_run ?xs ?s = Some s" "appended (concat (map item_text ?xs)) ?s s"
    using stream_run_ok [of ?s ?xs] assms(8) by (auto simp: S_MAX_BUFF_SZ_def)
  have "sint (word_of_int usec :: 64 word) = usec" using assms(3,4) by (simp add: signed_of_int signed_take_bit_int_eq_self)
  then have "concat (map item_text ?xs) = line" using assms(3,9) by (simp add: line_items_def sdec_def)
  then have line: "ls_text s = line" "ls_ok s" "ls_size s = ls_size ?s" using s(2) init(4) by (simp_all add: appended_def)
  then have "length line \<le> S_MAX_BUFF_SZ" using ls_text_length [OF line(2)] init(3) by (simp add: ls_ok_def)
  moreover have "line \<noteq> []" using assms(9) by simp
  ultimately show ?thesis using TRY_LOG_stream [OF assms(7) now(1)] s(1) now(2,3) line(1)
    by (simp add: ls_text_def Length_def msg_ok_def S_MAX_BUFF_SZ_def S_BUFF_SIZE_def)
qed

theorem log_line_witness:
  "\<exists>c'. TRY_LOG (\<lambda>_. \<lparr>tm_year = 116, tm_mon = 4, tm_mday = 2, tm_hour = 9, tm_min = 8, tm_sec = 7\<rparr>) (1462180087, 42)
       (replicate S_MAX_BUFF_SZ CHR ''x'') ''-a.cc:3:'' ''main'' LL_INFO LL_WARN [LC ''n='', LI 5] time_cache_init =
     Some (Some (''2016_05_02-09_08_07:42 WARN  n=5-a.cc:3:main'' @ [CHR 0x0A], False), c')"
proof -
  let ?t = "\<lparr>tm_year = 116, tm_mon = 4, tm_mday = 2, tm_hour = 9, tm_min = 8, tm_sec = 7\<rparr>"
  let ?xs = "[LC ''n='', LI 5]" and ?line = "''2016_05_02-09_08_07:42 WARN  n=5-a.cc:3:main'' @ [CHR 0x0A]"
  have fmt: "fmt_sec ?t = ''2016_05_02-09_08_07''" by (simp add: fmt_sec_def padded_def dec.simps)
  have tmok: "\<And>s :: int. tm_ok ((\<lambda>_. ?t) s)" by (simp add: tm_ok_def)
  have fit: "items_fit (line_items (fmt_sec ?t) 42 LL_WARN ?xs ''-a.cc:3:'' ''main'') S_MAX_BUFF_SZ"
    unfolding fmt by (simp add: line_items_def S_MAX_BUFF_SZ_def sdec_def dec.simps g_LogLvlName_def c_str_def)
  have line: "?line = fmt_sec ?t @ '':'' @ dec (nat 42) @ g_LogLvlName ! level_num LL_WARN @ concat (map item_text ?xs) @ ''-a.cc:3:'' @ ''main'' @ [CHR 0x0A]"
    unfolding fmt by (simp add: sdec_def dec.simps g_LogLvlName_def c_str_def)
  from log_line [where lt = "\<lambda>_. ?t" and sec = 1462180087 and usec = 42 and global = LL_INFO and c = time_cache_init
      and junk = "replicate S_MAX_BUFF_SZ CHR ''x''", OF tmok _ _ _ cache_ok_init _ _ fit line]
  show ?thesis by auto
qed

end
