(* ===== verification/SlogSetup.thy ===== *)
theory SlogSetup
  imports SlogLogger Slots
begin

text \<open>
  The set-up of \<open>slog\<close> (\<open>slog/Logger.{h,cc}\<close>): the global appender, which exists from the first to the last of the initialisers that every
  translation unit has, the level, the crash handlers, and the default file name.
\<close>

section \<open>Globals\<close>

text \<open>An appender that was given is known by its address.\<close>

datatype appender = DefaultAppender | GivenAppender nat

datatype crash_signal = SIGABRT | SIGFPE | SIGILL | SIGSEGV | SIGTERM

text \<open>\<open>g_global_appender\<close> is \<open>None\<close> before the shared pointer is constructed and after it is destroyed.\<close>

record slog_globals =
  s_counter :: int
  g_global_appender :: "appender option"
  s_global_level :: LogLevel
  s_handlers :: "crash_signal list"

definition slog_globals_init :: slog_globals where
  "slog_globals_init = \<lparr>s_counter = 0, g_global_appender = None, s_global_level = LL_INFO, s_handlers = []\<rparr>"

definition InitLogger :: "slog_globals \<Rightarrow> slog_globals" where
  "InitLogger g = g\<lparr>g_global_appender := Some DefaultAppender\<rparr>"

definition CleanupLogger :: "slog_globals \<Rightarrow> slog_globals option" where
  "CleanupLogger g = (if g_global_appender g = None then None else Some (g\<lparr>g_global_appender := None\<rparr>))"

definition slogLoggerInitializer_init :: "slog_globals \<Rightarrow> slog_globals" where
  "slogLoggerInitializer_init g = (let g1 = g\<lparr>s_counter := s_counter g + 1\<rparr> in if s_counter g = 0 then InitLogger g1 else g1)"

definition slogLoggerInitializer_destroy :: "slog_globals \<Rightarrow> slog_globals option" where
  "slogLoggerInitializer_destroy g = (let g1 = g\<lparr>s_counter := s_counter g - 1\<rparr> in if s_counter g1 = 0 then CleanupLogger g1 else Some g1)"

definition GetLogAppender :: "slog_globals \<Rightarrow> appender option" where
  "GetLogAppender g = g_global_appender g"

text \<open>The assignment needs a constructed pointer.\<close>

definition SetLogAppender :: "appender \<Rightarrow> slog_globals \<Rightarrow> slog_globals option" where
  "SetLogAppender app g = (if g_global_appender g = None then None else Some (g\<lparr>g_global_appender := Some app\<rparr>))"

definition SetLogLevel :: "LogLevel \<Rightarrow> slog_globals \<Rightarrow> slog_globals" where
  "SetLogLevel l g = g\<lparr>s_global_level := l\<rparr>"

definition InstallSignalHandler :: "slog_globals \<Rightarrow> slog_globals" where
  "InstallSignalHandler g = g\<lparr>s_handlers := [SIGABRT, SIGFPE, SIGILL, SIGSEGV, SIGTERM]\<rparr>"

definition InitLogging :: "appender \<Rightarrow> LogLevel \<Rightarrow> bool \<Rightarrow> slog_globals \<Rightarrow> slog_globals option" where
  "InitLogging app level flush_on_crash g = do {
     g1 \<leftarrow> SetLogAppender app (SetLogLevel level g);
     Some (if flush_on_crash then InstallSignalHandler g1 else g1)
   }"

text \<open>What the default appender prints.\<close>

definition DefaultAppender_Append :: "bytes \<Rightarrow> bytes \<Rightarrow> bytes" where
  "DefaultAppender_Append msg err = err @ ''(default appender)'' @ msg"

text \<open>\<open>exe\<close> is what \<open>/proc/self/exe\<close> points to. Without the variable \<open>HOME\<close> a string is made from a null pointer.\<close>

definition base_name :: "string \<Rightarrow> string" where
  "base_name exe = rev (takeWhile (\<lambda>c. c \<noteq> CHR ''/'') (rev exe))"

definition ComputeLogFileName :: "string option \<Rightarrow> string \<Rightarrow> string \<Rightarrow> string \<Rightarrow> string option" where
  "ComputeLogFileName home host exe date = map_option (\<lambda>h. h @ ''/'' @ base_name exe @ ''.'' @ host @ ''.'' @ date @ ''.log'') home"

text \<open>\<open>InitLogging\<close> with a file; \<open>a\<close> is the appender that is made for it, with the name of its file.\<close>

definition InitLogging_file :: "string option \<Rightarrow> string \<Rightarrow> string \<Rightarrow> string \<Rightarrow> nat \<Rightarrow> string \<Rightarrow> LogLevel \<Rightarrow> bool \<Rightarrow> slog_globals \<Rightarrow> (string \<times> slog_globals) option" where
  "InitLogging_file home host exe date a f level flush_on_crash g = do {
     log_file \<leftarrow> (if f = [] then ComputeLogFileName home host exe date else Some f);
     g1 \<leftarrow> InitLogging (GivenAppender a) level flush_on_crash g;
     Some (log_file, g1)
   }"

section \<open>Translation units\<close>

text \<open>The units between their initialiser and its destruction, and where the messages went.\<close>

type_synonym slog_sys = "slog_globals \<times> nat list \<times> appender list"

datatype slog_act = UnitStart nat | UnitEnd nat | UnitLog nat | UnitInit nat nat LogLevel bool

text \<open>A unit logs after its own initialiser, which precedes its other globals, and before that is destroyed.\<close>

fun slog_possible :: "slog_act \<Rightarrow> slog_sys \<Rightarrow> bool" where
  "slog_possible (UnitStart i) (g, us, ap) \<longleftrightarrow> i \<notin> set us"
| "slog_possible (UnitEnd i) (g, us, ap) \<longleftrightarrow> i \<in> set us"
| "slog_possible (UnitLog i) (g, us, ap) \<longleftrightarrow> i \<in> set us"
| "slog_possible (UnitInit i a l b) (g, us, ap) \<longleftrightarrow> i \<in> set us"

fun slog_act1 :: "slog_act \<Rightarrow> slog_sys \<Rightarrow> slog_sys option" where
  "slog_act1 (UnitStart i) (g, us, ap) = Some (slogLoggerInitializer_init g, i # us, ap)"
| "slog_act1 (UnitEnd i) (g, us, ap) = map_option (\<lambda>g'. (g', remove1 i us, ap)) (slogLoggerInitializer_destroy g)"
| "slog_act1 (UnitLog i) (g, us, ap) = map_option (\<lambda>a. (g, us, ap @ [a])) (GetLogAppender g)"
| "slog_act1 (UnitInit i a l b) (g, us, ap) = map_option (\<lambda>g'. (g', us, ap)) (InitLogging (GivenAppender a) l b g)"

definition slog_ok :: "slog_sys \<Rightarrow> bool" where
  "slog_ok x \<longleftrightarrow> (case x of (g, us, ap) \<Rightarrow> distinct us \<and> s_counter g = int (length us) \<and> (g_global_appender g \<noteq> None \<longleftrightarrow> us \<noteq> []))"

lemma slog_act1_ok: "slog_ok x \<Longrightarrow> slog_possible a x \<Longrightarrow> \<exists>y. slog_act1 a x = Some y \<and> slog_ok y"
proof -
  assume ok: "slog_ok x" and pos: "slog_possible a x"
  obtain g us ap where x: "x = (g, us, ap)" by (cases x)
  show ?thesis
  proof (cases a)
    case (UnitEnd i)
    then have len: "length (remove1 i us) = length us - 1" "us \<noteq> []" using pos x by (auto simp: length_remove1)
    then have "remove1 i us = [] \<longleftrightarrow> length us = 1" "length us \<noteq> 0" using length_0_conv [of "remove1 i us"] by (cases us; simp)+
    moreover have "int (length us - 1) = int (length us) - 1" using len(2) by (cases us) simp_all
    ultimately show ?thesis using len ok pos x UnitEnd
      by (auto simp: slog_ok_def slogLoggerInitializer_destroy_def CleanupLogger_def Let_def)
  qed (use ok pos x in \<open>auto simp: slog_ok_def slogLoggerInitializer_init_def InitLogger_def GetLogAppender_def InitLogging_def
      SetLogAppender_def SetLogLevel_def InstallSignalHandler_def Let_def\<close>)
qed

interpretation sls: safe_steps slog_ok slog_possible slog_act1
  by unfold_locales (rule slog_act1_ok)

text \<open>
  The counter of the initialisers keeps the global appender alive as long as it can be used: whatever the order in which the translation units are initialised, log,
  set the appender and are destroyed, the appender exists exactly as long as one of them is between its initialiser and its destruction, and no log statement of such a unit finds it missing.
\<close>

theorem nifty_counter:
  "\<exists>g us ap. run_schedule slog_possible slog_act1 acts (slog_globals_init, [], []) = Some (g, us, ap) \<and>
     s_counter g = int (length us) \<and> (GetLogAppender g \<noteq> None \<longleftrightarrow> us \<noteq> [])"
proof -
  have "slog_ok (slog_globals_init, [], [])" by (simp add: slog_ok_def slog_globals_init_def)
  from sls.run_good [OF this, of acts] show ?thesis by (fastforce simp: slog_ok_def GetLogAppender_def)
qed

end
