(* ===== verification/SpinlockQueue.thy ===== *)
theory SpinlockQueue
  imports Prelude "HOL-Library.Word" "HOL-Library.Multiset"
begin

text \<open>
  \<open>misc/SpinlockQueue.h\<close>: the containers \<open>PriorityQueue\<close> and \<open>DequeQueue\<close> and the bounded queue
  \<open>SpinlockQueue\<close>, which is generic in its container, with \<open>SpinlockWeakPriorityQueue\<close>. The spin lock is a
  flag: taking it while it is held never returns, which is \<open>None\<close> as a fault is. \<open>std::priority_queue\<close>
  is the binary heap in a vector that \<open>push_heap\<close> and \<open>pop_heap\<close> maintain for a comparison \<open>cmp\<close>.
\<close>

section \<open>The containers\<close>

record ('a, 'q) QUEUE =
  q_front :: "'q \<Rightarrow> 'a option"
  q_pop :: "'q \<Rightarrow> 'q option"
  q_push :: "'a \<Rightarrow> 'q \<Rightarrow> 'q"
  q_empty :: "'q \<Rightarrow> bool"
  q_size :: "'q \<Rightarrow> nat"
  q_clear :: "'q \<Rightarrow> 'q"

definition parent :: "nat \<Rightarrow> nat" where
  "parent i = (i - 1) div 2"

lemma parent_less [simp]: "0 < i \<Longrightarrow> parent i < i"
  unfolding parent_def by linarith

lemma parent_0 [simp]: "parent 0 = 0"
  by (simp add: parent_def)

lemma parent_bound: "j < n \<Longrightarrow> parent j < n"
  unfolding parent_def by linarith

lemma parent_child: "0 < j \<Longrightarrow> parent j = i \<longleftrightarrow> j = 2 * i + 1 \<or> j = 2 * i + 2"
  unfolding parent_def by linarith

definition swap :: "nat \<Rightarrow> nat \<Rightarrow> 'a list \<Rightarrow> 'a list" where
  "swap i j xs = xs[i := xs ! j, j := xs ! i]"

text \<open>\<open>push_heap\<close>: the value at \<open>i\<close> rises while its parent compares less.\<close>

fun sift_up :: "('a \<Rightarrow> 'a \<Rightarrow> bool) \<Rightarrow> nat \<Rightarrow> 'a list \<Rightarrow> 'a list" where
  "sift_up cmp i xs =
     (if 0 < i \<and> cmp (xs ! parent i) (xs ! i) then sift_up cmp (parent i) (swap i (parent i) xs) else xs)"

declare sift_up.simps [simp del]

text \<open>\<open>pop_heap\<close>: the value at \<open>i\<close> sinks along the greater children to a leaf, whose index is returned too.\<close>

function sink :: "('a \<Rightarrow> 'a \<Rightarrow> bool) \<Rightarrow> nat \<Rightarrow> 'a list \<Rightarrow> nat \<times> 'a list" where
  "sink cmp i xs =
     (if 2 * i + 2 < length xs
      then (let c = (if cmp (xs ! (2 * i + 2)) (xs ! (2 * i + 1)) then 2 * i + 1 else 2 * i + 2) in sink cmp c (swap i c xs))
      else if 2 * i + 1 < length xs then (2 * i + 1, swap i (2 * i + 1) xs)
      else (i, xs))"
  by pat_completeness auto
termination
  by (relation "measure (\<lambda>(_, i, xs). length xs - i)") (auto simp: swap_def Let_def)

declare sink.simps [simp del]

definition heap_push :: "('a \<Rightarrow> 'a \<Rightarrow> bool) \<Rightarrow> 'a \<Rightarrow> 'a list \<Rightarrow> 'a list" where
  "heap_push cmp x xs = sift_up cmp (length xs) (xs @ [x])"

definition heap_pop :: "('a \<Rightarrow> 'a \<Rightarrow> bool) \<Rightarrow> 'a list \<Rightarrow> 'a list option" where
  "heap_pop cmp xs =
     (if xs = [] then None
      else if length xs = 1 then Some []
      else (case sink cmp 0 (butlast (xs[0 := last xs])) of (i, ys) \<Rightarrow> Some (sift_up cmp i ys)))"

definition PriorityQueue :: "('a \<Rightarrow> 'a \<Rightarrow> bool) \<Rightarrow> ('a, 'a list) QUEUE" where
  "PriorityQueue cmp = \<lparr>
     q_front = (\<lambda>q. if q = [] then None else Some (q ! 0)),
     q_pop = heap_pop cmp,
     q_push = heap_push cmp,
     q_empty = (\<lambda>q. q = []),
     q_size = length,
     q_clear = (\<lambda>_. [])\<rparr>"

definition DequeQueue :: "('a, 'a list) QUEUE" where
  "DequeQueue = \<lparr>
     q_front = (\<lambda>q. case q of [] \<Rightarrow> None | x # _ \<Rightarrow> Some x),
     q_pop = (\<lambda>q. case q of [] \<Rightarrow> None | _ # q' \<Rightarrow> Some q'),
     q_push = (\<lambda>x q. q @ [x]),
     q_empty = (\<lambda>q. q = []),
     q_size = length,
     q_clear = (\<lambda>_. [])\<rparr>"

definition push_front :: "'a \<Rightarrow> 'a list \<Rightarrow> 'a list" where
  "push_front x q = x # q"

section \<open>The queue\<close>

record 'q SpinlockQueue =
  maxSz :: "64 word"
  lock :: bool
  queue :: 'q

text \<open>The \<open>int\<close> bound becomes a \<open>size_t\<close>.\<close>

definition SpinlockQueue_init :: "int \<Rightarrow> 'q \<Rightarrow> 'q SpinlockQueue" where
  "SpinlockQueue_init Maxsize q = \<lparr>maxSz = word_of_int Maxsize, lock = False, queue = q\<rparr>"

definition spin_lock :: "'q SpinlockQueue \<Rightarrow> 'q SpinlockQueue option" where
  "spin_lock s = (if lock s then None else Some (s\<lparr>lock := True\<rparr>))"

definition spin_unlock :: "'q SpinlockQueue \<Rightarrow> 'q SpinlockQueue" where
  "spin_unlock s = s\<lparr>lock := False\<rparr>"

definition SpinlockQueue_PopFront :: "('a, 'q) QUEUE \<Rightarrow> 'q SpinlockQueue \<Rightarrow> ('a option \<times> 'q SpinlockQueue) option" where
  "SpinlockQueue_PopFront Q s = do {
     s \<leftarrow> spin_lock s;
     if q_empty Q (queue s) then Some (None, spin_unlock s)
     else do {
       val \<leftarrow> q_front Q (queue s);
       q \<leftarrow> q_pop Q (queue s);
       Some (Some val, spin_unlock (s\<lparr>queue := q\<rparr>))
     }
   }"

definition SpinlockQueue_PushBack :: "('a, 'q) QUEUE \<Rightarrow> 'a \<Rightarrow> 'q SpinlockQueue \<Rightarrow> (bool \<times> 'q SpinlockQueue) option" where
  "SpinlockQueue_PushBack Q val s = do {
     s \<leftarrow> spin_lock s;
     let full = (word_of_nat (q_size Q (queue s)) \<ge> maxSz s);
     let s = (if full then s else s\<lparr>queue := q_push Q val (queue s)\<rparr>);
     Some (\<not> full, spin_unlock s)
   }"

definition SpinlockQueue_Clear :: "('a, 'q) QUEUE \<Rightarrow> 'q SpinlockQueue \<Rightarrow> 'q SpinlockQueue option" where
  "SpinlockQueue_Clear Q s = do {
     s \<leftarrow> spin_lock s;
     Some (spin_unlock (s\<lparr>queue := q_clear Q (queue s)\<rparr>))
   }"

definition SpinlockQueue_Size :: "('a, 'q) QUEUE \<Rightarrow> 'q SpinlockQueue \<Rightarrow> (int \<times> 'q SpinlockQueue) option" where
  "SpinlockQueue_Size Q s = do {
     s \<leftarrow> spin_lock s;
     let count = signed_take_bit 31 (int (q_size Q (queue s)));
     Some (count, spin_unlock s)
   }"

definition SpinlockQueue_IsEmpty :: "('a, 'q) QUEUE \<Rightarrow> 'q SpinlockQueue \<Rightarrow> (bool \<times> 'q SpinlockQueue) option" where
  "SpinlockQueue_IsEmpty Q s = do {
     s \<leftarrow> spin_lock s;
     let ret = q_empty Q (queue s);
     Some (ret, spin_unlock s)
   }"

definition SpinlockQueue_PushFront :: "'a \<Rightarrow> 'a list SpinlockQueue \<Rightarrow> (bool \<times> 'a list SpinlockQueue) option" where
  "SpinlockQueue_PushFront val s = do {
     s \<leftarrow> spin_lock s;
     let full = (word_of_nat (q_size DequeQueue (queue s)) \<ge> maxSz s);
     let s = (if full then s else s\<lparr>queue := push_front val (queue s)\<rparr>);
     Some (\<not> full, spin_unlock s)
   }"

section \<open>The heap\<close>

lemma length_swap [simp]: "length (swap i j xs) = length xs"
  by (simp add: swap_def)

lemma nth_swap:
  "i < length xs \<Longrightarrow> j < length xs \<Longrightarrow> n < length xs \<Longrightarrow>
   swap i j xs ! n = (if n = i then xs ! j else if n = j then xs ! i else xs ! n)"
  by (auto simp: swap_def nth_list_update)

lemma mset_swap: "i < length xs \<Longrightarrow> j < length xs \<Longrightarrow> mset (swap i j xs) = mset xs"
  by (simp add: swap_def Multiset.mset_swap)

definition heap :: "('a \<Rightarrow> int) \<Rightarrow> 'a list \<Rightarrow> bool" where
  "heap k xs \<longleftrightarrow> (\<forall>i < length xs. k (xs ! i) \<le> k (xs ! parent i))"

lemma heap_Nil [simp]: "heap k []"
  by (simp add: heap_def)

text \<open>What is asked of the comparison: it agrees with the key \<open>k\<close> on distinct keys.\<close>

definition cmp_ok :: "('a \<Rightarrow> int) \<Rightarrow> ('a \<Rightarrow> 'a \<Rightarrow> bool) \<Rightarrow> bool" where
  "cmp_ok k cmp \<longleftrightarrow> (\<forall>x y. (k x < k y \<longrightarrow> cmp x y) \<and> (cmp x y \<longrightarrow> k x \<le> k y))"

text \<open>A heap but for the value at \<open>i\<close> and its parent.\<close>

definition heap_up :: "('a \<Rightarrow> int) \<Rightarrow> nat \<Rightarrow> 'a list \<Rightarrow> bool" where
  "heap_up k i xs \<longleftrightarrow> i < length xs \<and> (\<forall>j < length xs. j \<noteq> i \<longrightarrow> k (xs ! j) \<le> k (xs ! parent j)) \<and>
     (\<forall>j < length xs. j \<noteq> 0 \<and> i \<noteq> 0 \<and> parent j = i \<longrightarrow> k (xs ! j) \<le> k (xs ! parent i))"

text \<open>A heap but for the value at \<open>i\<close>, its parent and its children.\<close>

definition heap_hole :: "('a \<Rightarrow> int) \<Rightarrow> nat \<Rightarrow> 'a list \<Rightarrow> bool" where
  "heap_hole k i xs \<longleftrightarrow> i < length xs \<and>
     (\<forall>j < length xs. j \<noteq> i \<and> (j = 0 \<or> parent j \<noteq> i) \<longrightarrow> k (xs ! j) \<le> k (xs ! parent j)) \<and>
     (\<forall>j < length xs. j \<noteq> 0 \<and> i \<noteq> 0 \<and> parent j = i \<longrightarrow> k (xs ! j) \<le> k (xs ! parent i))"

lemma sift_up_step:
  assumes "heap_up k i xs" and "0 < i" and "k (xs ! parent i) \<le> k (xs ! i)"
  shows "heap_up k (parent i) (swap i (parent i) xs)"
proof -
  let ?p = "parent i"
  have p: "?p < i" "i < length xs" "?p < length xs" using assms parent_bound by (auto simp: heap_up_def)
  have H: "\<And>j. j < length xs \<Longrightarrow> j \<noteq> i \<Longrightarrow> k (xs ! j) \<le> k (xs ! parent j)"
    and C: "\<And>j. j < length xs \<Longrightarrow> j \<noteq> 0 \<Longrightarrow> parent j = i \<Longrightarrow> k (xs ! j) \<le> k (xs ! ?p)"
    using assms by (auto simp: heap_up_def)
  have nth: "swap i ?p xs ! n = (if n = i then xs ! ?p else if n = ?p then xs ! i else xs ! n)" if "n < length xs" for n
    using that p by (simp add: nth_swap)
  have "k (swap i ?p xs ! j) \<le> k (swap i ?p xs ! parent j)" if j: "j < length xs" "j \<noteq> ?p" for j
  proof -
    have z: "j \<noteq> 0 \<or> parent j \<noteq> i" using assms(2) by auto
    consider "j = i" | "j \<noteq> i" "parent j = i" | "j \<noteq> i" "parent j = ?p" | "j \<noteq> i" "parent j \<noteq> i" "parent j \<noteq> ?p" by blast
    then show ?thesis
    proof cases
      case 3
      then show ?thesis using j H [OF j(1)] assms(3) p by (simp add: nth)
    qed (use j z H [OF j(1)] C [OF j(1)] assms(3) p parent_bound [OF j(1)] in \<open>auto simp: nth\<close>)
  qed
  moreover have "k (swap i ?p xs ! j) \<le> k (swap i ?p xs ! parent ?p)"
    if j: "j < length xs" "j \<noteq> 0" "?p \<noteq> 0" "parent j = ?p" for j
  proof -
    have "k (xs ! ?p) \<le> k (xs ! parent ?p)" using H [of ?p] p by auto
    moreover have lt: "parent ?p < ?p" "parent j < j" using j(2,3) by auto
    moreover have "swap i ?p xs ! parent ?p = xs ! parent ?p"
      using p parent_bound [OF p(3)] lt by (simp add: nth)
    ultimately show ?thesis
      using j H [OF j(1)] p by (cases "j = i") (auto simp: nth)
  qed
  ultimately show ?thesis using p by (simp add: heap_up_def)
qed

lemma heap_up_done: "heap_up k i xs \<Longrightarrow> i = 0 \<or> k (xs ! i) \<le> k (xs ! parent i) \<Longrightarrow> heap k xs"
  by (metis heap_def heap_up_def order_refl parent_0)

lemma sift_up_heap:
  assumes "cmp_ok k cmp"
  shows "heap_up k i xs \<Longrightarrow> heap k (sift_up cmp i xs) \<and> mset (sift_up cmp i xs) = mset xs"
proof (induction i arbitrary: xs rule: less_induct)
  case (less i)
  have i: "i < length xs" "parent i < length xs" using less.prems parent_bound by (auto simp: heap_up_def)
  show ?case
  proof (cases "0 < i \<and> cmp (xs ! parent i) (xs ! i)")
    case True
    then have "heap_up k (parent i) (swap i (parent i) xs)"
      using sift_up_step [OF less.prems] assms by (auto simp: cmp_ok_def)
    with less.IH True i show ?thesis by (simp add: sift_up.simps [of cmp i] mset_swap)
  next
    case False
    then have "heap k xs" using heap_up_done [OF less.prems] assms by (auto simp: cmp_ok_def not_less [symmetric])
    moreover have "sift_up cmp i xs = xs" using False by (subst sift_up.simps) (rule if_not_P)
    ultimately show ?thesis by simp
  qed
qed

lemma sink_step:
  assumes "heap_hole k i xs" and "c < length xs" and "0 < c" and "parent c = i"
    and "\<And>j. j < length xs \<Longrightarrow> 0 < j \<Longrightarrow> parent j = i \<Longrightarrow> k (xs ! j) \<le> k (xs ! c)"
  shows "heap_hole k c (swap i c xs)"
proof -
  have i: "i < length xs" "i < c" using assms by (auto simp: heap_hole_def)
  have H: "\<And>j. j < length xs \<Longrightarrow> j \<noteq> i \<Longrightarrow> j = 0 \<or> parent j \<noteq> i \<Longrightarrow> k (xs ! j) \<le> k (xs ! parent j)"
    and C: "\<And>j. j < length xs \<Longrightarrow> j \<noteq> 0 \<Longrightarrow> i \<noteq> 0 \<Longrightarrow> parent j = i \<Longrightarrow> k (xs ! j) \<le> k (xs ! parent i)"
    using assms(1) unfolding heap_hole_def by blast+
  have nth: "swap i c xs ! n = (if n = i then xs ! c else if n = c then xs ! i else xs ! n)" if "n < length xs" for n
    using that i assms(2) by (simp add: nth_swap)
  have "k (swap i c xs ! j) \<le> k (swap i c xs ! parent j)"
    if j: "j < length xs" "j \<noteq> c" "j = 0 \<or> parent j \<noteq> c" for j
  proof -
    have "parent j < length xs" using j parent_bound by blast
    consider "j = i" "i = 0" | "j = i" "0 < i" | "j \<noteq> i" "0 < j" "parent j = i" | "j \<noteq> i" "j = 0 \<or> parent j \<noteq> i" by blast
    then show ?thesis
    proof cases
      case 2
      then have "parent i < i" by simp
      with 2 show ?thesis using C [OF assms(2)] assms i by (simp add: nth)
    next
      case 4
      have "parent j \<noteq> c" using 4 j assms(3) by auto
      moreover have "j = 0 \<Longrightarrow> False" if "parent j = i" using 4 that by auto
      ultimately show ?thesis using 4 j H [OF j(1)] \<open>parent j < length xs\<close> by (auto simp: nth)
    qed (use j assms(5) [OF j(1)] i in \<open>auto simp: nth\<close>)
  qed
  moreover have "k (swap i c xs ! j) \<le> k (swap i c xs ! parent c)"
    if j: "j < length xs" "j \<noteq> 0" "parent j = c" for j
  proof -
    have "parent j < j" using j(2) by simp
    then have "k (xs ! j) \<le> k (xs ! c)" using H [OF j(1)] j i by auto
    then show ?thesis using j i assms(2,4) \<open>parent j < j\<close> by (auto simp: nth)
  qed
  ultimately show ?thesis using assms(2) unfolding heap_hole_def by simp
qed

lemma hole_leaf: "heap_hole k i xs \<Longrightarrow> length xs \<le> 2 * i + 1 \<Longrightarrow> heap_up k i xs"
proof -
  assume h: "heap_hole k i xs" and l: "length xs \<le> 2 * i + 1"
  have "parent j \<noteq> i" if "j < length xs" "j \<noteq> 0" for j using that l parent_child [of j i] by auto
  with h show ?thesis unfolding heap_hole_def heap_up_def by blast
qed

lemma sink_heap:
  assumes "cmp_ok k cmp" and "sink cmp i xs = (j, ys)" and "heap_hole k i xs"
  shows "heap_up k j ys \<and> mset ys = mset xs"
  using assms(2,3)
proof (induction "length xs - i" arbitrary: i xs rule: less_induct)
  case less
  have i: "i < length xs" using less.prems by (simp add: heap_hole_def)
  have kids: "j = 2 * i + 1 \<or> j = 2 * i + 2" if "0 < j" "parent j = i" for j using that parent_child by blast
  consider "2 * i + 2 < length xs" | "2 * i + 2 = length xs" | "length xs \<le> 2 * i + 1" by linarith
  then show ?case
  proof cases
    case 1
    define c where "c = (if cmp (xs ! (2 * i + 2)) (xs ! (2 * i + 1)) then 2 * i + 1 else 2 * i + 2)"
    have c: "c < length xs" "0 < c" "i < c" "parent c = i" using 1 by (auto simp: c_def parent_def)
    have max: "k (xs ! m) \<le> k (xs ! c)" if "0 < m" "parent m = i" for m
      using kids [OF that] assms(1) unfolding cmp_ok_def c_def by (auto simp: not_less [symmetric])
    have "heap_hole k c (swap i c xs)" by (rule sink_step [OF less.prems(2) c(1,2,4) max])
    moreover have "sink cmp c (swap i c xs) = (j, ys)"
      using less.prems(1) 1 by (simp add: sink.simps [of cmp i xs] c_def Let_def)
    ultimately show ?thesis using less.hyps [of "swap i c xs" c] c i by (simp add: mset_swap)
  next
    case 2
    have c: "2 * i + 1 < length xs" "0 < 2 * i + 1" "parent (2 * i + 1) = i" using 2 by (auto simp: parent_def)
    have max: "k (xs ! m) \<le> k (xs ! (2 * i + 1))" if "m < length xs" "0 < m" "parent m = i" for m
      using kids [OF that(2,3)] that(1) 2 by auto
    have "heap_hole k (2 * i + 1) (swap i (2 * i + 1) xs)" by (rule sink_step [OF less.prems(2) c max])
    moreover have "j = 2 * i + 1" "ys = swap i (2 * i + 1) xs"
      using less.prems(1) 2 by (auto simp: sink.simps [of cmp i xs])
    ultimately show ?thesis using hole_leaf [of k "2 * i + 1" "swap i (2 * i + 1) xs"] 2 i by (simp add: mset_swap)
  next
    case 3
    then show ?thesis using less.prems hole_leaf by (simp add: sink.simps [of cmp i xs])
  qed
qed

lemma heap_push_heap:
  assumes "cmp_ok k cmp" and "heap k xs"
  shows "heap k (heap_push cmp x xs) \<and> mset (heap_push cmp x xs) = add_mset x (mset xs)"
proof -
  have "parent j \<noteq> length xs" if "j < length (xs @ [x])" "j \<noteq> 0" for j
  proof -
    have "parent j < j" using that(2) by simp
    with that(1) show ?thesis by simp
  qed
  moreover have "k ((xs @ [x]) ! j) \<le> k ((xs @ [x]) ! parent j)" if "j < length (xs @ [x])" "j \<noteq> length xs" for j
    using that assms(2) parent_bound [of j "length xs"] by (simp add: heap_def nth_append)
  ultimately have "heap_up k (length xs) (xs @ [x])" unfolding heap_up_def by auto
  from sift_up_heap [OF assms(1) this] show ?thesis by (simp add: heap_push_def)
qed

lemma heap_top: "heap k xs \<Longrightarrow> i < length xs \<Longrightarrow> k (xs ! i) \<le> k (xs ! 0)"
proof (induction i rule: less_induct)
  case (less i)
  show ?case
  proof (cases "i = 0")
    case False
    then have "k (xs ! parent i) \<le> k (xs ! 0)" using less parent_less by simp
    moreover have "k (xs ! i) \<le> k (xs ! parent i)" using less.prems by (simp add: heap_def)
    ultimately show ?thesis by linarith
  qed simp
qed

lemma heap_pop_heap:
  assumes "cmp_ok k cmp" and "heap k xs" and "xs \<noteq> []"
  shows "\<exists>ys. heap_pop cmp xs = Some ys \<and> heap k ys \<and> mset xs = add_mset (xs ! 0) (mset ys)"
proof (cases "length xs = 1")
  case True
  then obtain x where "xs = [x]" by (auto simp: length_Suc_conv)
  then show ?thesis by (simp add: heap_pop_def heap_def)
next
  case False
  then obtain x zs l where xs: "xs = x # zs @ [l]" using assms(3)
    by (metis One_nat_def append_butlast_last_id length_Cons list.exhaust list.size(3))
  obtain j ys where s: "sink cmp 0 (l # zs) = (j, ys)" by fastforce
  have nth: "(l # zs) ! m = xs ! m" if "0 < m" "m < length (l # zs)" for m
    using that xs by (cases m) (simp_all add: nth_append)
  have "k ((l # zs) ! m) \<le> k ((l # zs) ! parent m)" if "m < length (l # zs)" "m \<noteq> 0" "parent m \<noteq> 0" for m
  proof -
    have "k (xs ! m) \<le> k (xs ! parent m)" using that(1) assms(2) xs unfolding heap_def by (metis Suc_lessD append_Cons length_Cons length_append_singleton less_SucI)
    then show ?thesis using that nth [of m] nth [of "parent m"] parent_bound [OF that(1)] by simp
  qed
  then have "heap_hole k 0 (l # zs)" by (auto simp: heap_hole_def)
  with sink_heap [OF assms(1) s] have "heap_up k j ys" "mset ys = mset (l # zs)" by auto
  with sift_up_heap [OF assms(1)] have "heap k (sift_up cmp j ys)" "mset (sift_up cmp j ys) = mset (l # zs)" by auto
  then show ?thesis using s xs by (simp add: heap_pop_def)
qed

section \<open>The contract of a container\<close>

text \<open>
  \<open>bag\<close> is what a container holds; what it hands out is one of the held values that \<open>best\<close> allows.
  A session of pushes and pops records what was accepted and what was handed out.
\<close>

datatype 'a queue_cmd = Push 'a | Pop

fun queue_run :: "('a, 'q) QUEUE \<Rightarrow> 'a queue_cmd list \<Rightarrow> 'q SpinlockQueue \<Rightarrow> ('a list \<times> 'a list \<times> 'q SpinlockQueue) option" where
  "queue_run Q [] s = Some ([], [], s)"
| "queue_run Q (Push x # cs) s = do {
     (ok, s') \<leftarrow> SpinlockQueue_PushBack Q x s;
     (acc, out, s'') \<leftarrow> queue_run Q cs s';
     Some ((if ok then x # acc else acc), out, s'')
   }"
| "queue_run Q (Pop # cs) s = do {
     (r, s') \<leftarrow> SpinlockQueue_PopFront Q s;
     (acc, out, s'') \<leftarrow> queue_run Q cs s';
     Some (acc, (case r of None \<Rightarrow> out | Some x \<Rightarrow> x # out), s'')
   }"

definition sq_ok :: "('q \<Rightarrow> bool) \<Rightarrow> ('q \<Rightarrow> 'a multiset) \<Rightarrow> 'q SpinlockQueue \<Rightarrow> bool" where
  "sq_ok okq bag s \<longleftrightarrow> \<not> lock s \<and> okq (queue s) \<and> size (bag (queue s)) \<le> unat (maxSz s)"

locale container =
  fixes Q :: "('a, 'q) QUEUE"
    and okq :: "'q \<Rightarrow> bool"
    and bag :: "'q \<Rightarrow> 'a multiset"
    and best :: "'a \<Rightarrow> 'q \<Rightarrow> bool"
  assumes empty_iff: "okq q \<Longrightarrow> q_empty Q q \<longleftrightarrow> bag q = {#}"
    and size_bag: "okq q \<Longrightarrow> q_size Q q = size (bag q)"
    and push: "okq q \<Longrightarrow> okq (q_push Q x q) \<and> bag (q_push Q x q) = add_mset x (bag q)"
    and pop: "okq q \<Longrightarrow> bag q \<noteq> {#} \<Longrightarrow>
      \<exists>x q'. q_front Q q = Some x \<and> q_pop Q q = Some q' \<and> okq q' \<and> bag q = add_mset x (bag q') \<and> best x q"
    and clear: "okq q \<Longrightarrow> okq (q_clear Q q) \<and> bag (q_clear Q q) = {#}"
begin

lemma PushBack_ok:
  assumes "sq_ok okq bag s"
  shows "if size (bag (queue s)) < unat (maxSz s)
     then SpinlockQueue_PushBack Q x s = Some (True, s\<lparr>queue := q_push Q x (queue s)\<rparr>) \<and>
       sq_ok okq bag (s\<lparr>queue := q_push Q x (queue s)\<rparr>)
     else SpinlockQueue_PushBack Q x s = Some (False, s)"
proof -
  have s: "\<not> lock s" "okq (queue s)" "size (bag (queue s)) \<le> unat (maxSz s)" using assms by (auto simp: sq_ok_def)
  have "unat (maxSz s) < 2 ^ 64" using unsigned_less [of "maxSz s", where ?'a = nat] by simp
  with s(3) have "size (bag (queue s)) < 2 ^ 64" by linarith
  then have "word_of_nat (size (bag (queue s))) \<ge> maxSz s \<longleftrightarrow> unat (maxSz s) \<le> size (bag (queue s))"
    by (simp add: word_le_nat_alt unsigned_of_nat take_bit_nat_eq_self)
  then show ?thesis using s push [OF s(2), of x] size_bag [OF s(2)]
    by (auto simp: SpinlockQueue_PushBack_def spin_lock_def spin_unlock_def sq_ok_def Let_def)
qed

lemma PushBack_step:
  assumes "sq_ok okq bag s"
  shows "\<exists>ok s1. SpinlockQueue_PushBack Q x s = Some (ok, s1) \<and> sq_ok okq bag s1 \<and> maxSz s1 = maxSz s \<and>
     bag (queue s1) = (if ok then add_mset x (bag (queue s)) else bag (queue s))"
  using PushBack_ok [OF assms, of x] push [of "queue s" x] assms
  by (cases "size (bag (queue s)) < unat (maxSz s)") (auto simp: sq_ok_def)

lemma PopFront_ok:
  assumes "sq_ok okq bag s"
  shows "if bag (queue s) = {#} then SpinlockQueue_PopFront Q s = Some (None, s)
     else \<exists>x q'. SpinlockQueue_PopFront Q s = Some (Some x, s\<lparr>queue := q'\<rparr>) \<and>
       q_front Q (queue s) = Some x \<and> q_pop Q (queue s) = Some q' \<and>
       sq_ok okq bag (s\<lparr>queue := q'\<rparr>) \<and> bag (queue s) = add_mset x (bag q') \<and> best x (queue s)"
proof -
  have s: "\<not> lock s" "okq (queue s)" "size (bag (queue s)) \<le> unat (maxSz s)" using assms by (auto simp: sq_ok_def)
  show ?thesis
  proof (cases "bag (queue s) = {#}")
    case True
    then show ?thesis using s empty_iff
      by (simp add: SpinlockQueue_PopFront_def spin_lock_def spin_unlock_def)
  next
    case False
    obtain x q' where x: "q_front Q (queue s) = Some x" "q_pop Q (queue s) = Some q'" "okq q'"
      "bag (queue s) = add_mset x (bag q')" "best x (queue s)" using pop [OF s(2) False] by blast
    then have "SpinlockQueue_PopFront Q s = Some (Some x, s\<lparr>queue := q'\<rparr>)"
      using s False empty_iff by (simp add: SpinlockQueue_PopFront_def spin_lock_def spin_unlock_def)
    with x s False show ?thesis by (auto simp: sq_ok_def)
  qed
qed

lemma fill:
  "sq_ok okq bag s \<Longrightarrow> size (bag (queue s)) + length xs \<le> unat (maxSz s) \<Longrightarrow>
   \<exists>s'. queue_run Q (map Push xs @ cs) s =
       map_option (\<lambda>(acc, out, t). (xs @ acc, out, t)) (queue_run Q cs s') \<and>
     sq_ok okq bag s' \<and> bag (queue s') = bag (queue s) + mset xs"
proof (induction xs arbitrary: s)
  case Nil
  then show ?case by (auto simp: option.map_ident prod.case_distrib cong: option.map_cong)
next
  case (Cons x xs)
  let ?s = "s\<lparr>queue := q_push Q x (queue s)\<rparr>"
  have p: "SpinlockQueue_PushBack Q x s = Some (True, ?s)" "sq_ok okq bag ?s"
    using PushBack_ok [OF Cons.prems(1), of x] Cons.prems(2) by auto
  have b: "bag (queue ?s) = add_mset x (bag (queue s))" using push Cons.prems(1) by (simp add: sq_ok_def)
  then obtain s' where s': "queue_run Q (map Push xs @ cs) ?s =
       map_option (\<lambda>(acc, out, t). (xs @ acc, out, t)) (queue_run Q cs s')"
     "sq_ok okq bag s'" "bag (queue s') = bag (queue ?s) + mset xs" using Cons.IH [OF p(2)] Cons.prems(2) by auto
  then show ?case using p(1) b by (intro exI [of _ s']) (auto simp: map_option_bind split: bind_splits)
qed

end

text \<open>A container that hands its values out in the order they came.\<close>

locale fifo_container = container Q okq "\<lambda>q. mset (items q)" best
  for Q :: "('a, 'q) QUEUE" and okq :: "'q \<Rightarrow> bool" and items :: "'q \<Rightarrow> 'a list" and best :: "'a \<Rightarrow> 'q \<Rightarrow> bool" +
  assumes push_items: "okq q \<Longrightarrow> items (q_push Q x q) = items q @ [x]"
    and pop_items: "okq q \<Longrightarrow> q_front Q q = Some x \<Longrightarrow> q_pop Q q = Some q' \<Longrightarrow> items q = x # items q'"
begin

text \<open>Each call on a queue in order, in terms of the values it holds.\<close>

lemma fifo_PushBack:
  assumes "sq_ok okq (\<lambda>q. mset (items q)) s"
  shows "\<exists>s'. SpinlockQueue_PushBack Q x s = Some (length (items (queue s)) < unat (maxSz s), s') \<and>
     sq_ok okq (\<lambda>q. mset (items q)) s' \<and> maxSz s' = maxSz s \<and>
     items (queue s') = (if length (items (queue s)) < unat (maxSz s) then items (queue s) @ [x] else items (queue s))"
proof -
  have "okq (queue s)" using assms by (simp add: sq_ok_def)
  then show ?thesis using PushBack_ok [OF assms, of x] push_items [of "queue s" x] assms by (auto split: if_splits)
qed

lemma fifo_PopFront:
  assumes "sq_ok okq (\<lambda>q. mset (items q)) s"
  shows "\<exists>s'. SpinlockQueue_PopFront Q s = Some ((case items (queue s) of [] \<Rightarrow> None | x # _ \<Rightarrow> Some x), s') \<and>
     sq_ok okq (\<lambda>q. mset (items q)) s' \<and> maxSz s' = maxSz s \<and> items (queue s') = tl (items (queue s))"
proof (cases "items (queue s) = []")
  case True
  then show ?thesis using PopFront_ok [OF assms] assms by simp
next
  case False
  then obtain x q' where x: "SpinlockQueue_PopFront Q s = Some (Some x, s\<lparr>queue := q'\<rparr>)"
    "sq_ok okq (\<lambda>q. mset (items q)) (s\<lparr>queue := q'\<rparr>)" "q_front Q (queue s) = Some x" "q_pop Q (queue s) = Some q'"
    using PopFront_ok [OF assms] by auto
  have "items (queue s) = x # items q'" using pop_items [OF _ x(3,4)] assms by (simp add: sq_ok_def)
  with x show ?thesis by auto
qed

lemma fifo_queries:
  assumes "sq_ok okq (\<lambda>q. mset (items q)) s" and "unat (maxSz s) < 2 ^ 31"
  shows "SpinlockQueue_Size Q s = Some (int (length (items (queue s))), s)"
    and "SpinlockQueue_IsEmpty Q s = Some (items (queue s) = [], s)"
    and "\<exists>s'. SpinlockQueue_Clear Q s = Some s' \<and> sq_ok okq (\<lambda>q. mset (items q)) s' \<and> maxSz s' = maxSz s \<and> items (queue s') = []"
proof -
  have s: "\<not> lock s" "okq (queue s)" "length (items (queue s)) < 2 ^ 31" using assms by (auto simp: sq_ok_def)
  then have "signed_take_bit 31 (int (length (items (queue s)))) = int (length (items (queue s)))"
    by (simp add: signed_take_bit_int_eq_self)
  with s show "SpinlockQueue_Size Q s = Some (int (length (items (queue s))), s)"
    using size_bag [OF s(2)] by (simp add: SpinlockQueue_Size_def spin_lock_def spin_unlock_def Let_def)
  show "SpinlockQueue_IsEmpty Q s = Some (items (queue s) = [], s)"
    using s empty_iff [OF s(2)] by (simp add: SpinlockQueue_IsEmpty_def spin_lock_def spin_unlock_def Let_def)
  show "\<exists>s'. SpinlockQueue_Clear Q s = Some s' \<and> sq_ok okq (\<lambda>q. mset (items q)) s' \<and> maxSz s' = maxSz s \<and> items (queue s') = []"
    using s clear [OF s(2)] by (simp add: SpinlockQueue_Clear_def spin_lock_def spin_unlock_def sq_ok_def)
qed

end

interpretation dqc: fifo_container DequeQueue "\<lambda>_. True" "\<lambda>q. q" "\<lambda>x q. x = hd q"
proof (unfold_locales, goal_cases)
  case (4 q)
  then show ?case by (cases q) (auto simp: DequeQueue_def)
qed (auto simp: DequeQueue_def split: list.splits)

interpretation pqc: container "PriorityQueue cmp" "\<lambda>q. cmp_ok k cmp \<and> heap k q" mset "\<lambda>x q. \<forall>y \<in> set q. k y \<le> k x"
  for k :: "'a \<Rightarrow> int" and cmp
proof (unfold_locales, goal_cases)
  case (4 q)
  then obtain q' where "heap_pop cmp q = Some q'" "heap k q'" "mset q = add_mset (q ! 0) (mset q')"
    using heap_pop_heap by fastforce
  moreover have "\<forall>y \<in> set q. k y \<le> k (q ! 0)" using 4 heap_top by (metis in_set_conv_nth)
  ultimately show ?case using 4 by (auto simp: PriorityQueue_def)
qed (auto simp: PriorityQueue_def heap_push_heap)

lemma pq_drain:
  "sq_ok (\<lambda>q. cmp_ok k cmp \<and> heap k q) mset s \<Longrightarrow> length (queue s) = n \<Longrightarrow>
   \<exists>out s'. queue_run (PriorityQueue cmp) (replicate n Pop) s = Some ([], out, s') \<and>
     mset out = mset (queue s) \<and> sorted_wrt (\<lambda>x y. k y \<le> k x) out \<and> queue s' = []"
proof (induction n arbitrary: s)
  case (Suc n)
  then have "mset (queue s) \<noteq> {#}" by auto
  then obtain x q' where x: "SpinlockQueue_PopFront (PriorityQueue cmp) s = Some (Some x, s\<lparr>queue := q'\<rparr>)"
    "sq_ok (\<lambda>q. cmp_ok k cmp \<and> heap k q) mset (s\<lparr>queue := q'\<rparr>)" "mset (queue s) = add_mset x (mset q')"
    "\<forall>y \<in> set (queue s). k y \<le> k x"
    using pqc.PopFront_ok [OF Suc.prems(1)] by auto
  have "length q' = n" using Suc.prems(2) x(3) by (metis size_mset size_add_mset nat.inject)
  then obtain out s' where o: "queue_run (PriorityQueue cmp) (replicate n Pop) (s\<lparr>queue := q'\<rparr>) = Some ([], out, s')"
    "mset out = mset q'" "sorted_wrt (\<lambda>x y. k y \<le> k x) out" "queue s' = []"
    using Suc.IH [OF x(2)] by auto
  have "set out \<subseteq> set (queue s)" using o(2) x(3) by (metis set_mset_mset set_mset_add_mset_insert subset_insertI)
  then show ?case using x o by auto
qed simp

section \<open>Properties\<close>

text \<open>
  The calls a mailbox answers, and what a bounded FIFO of capacity \<open>cap\<close> answers to them: \<open>fifo_call\<close> is the
  specification of one call, \<open>fifo_calls\<close> of a sequence.
\<close>

datatype 'a mb_call = MbPush 'a | MbPushFront 'a | MbPop | MbClear | MbSize | MbIsEmpty

datatype 'a mb_reply = RBool bool | RPopped "'a option" | RDone | RInt int

fun mb_do :: "'a mb_call \<Rightarrow> 'a list SpinlockQueue \<Rightarrow> ('a mb_reply \<times> 'a list SpinlockQueue) option" where
  "mb_do (MbPush x) s = map_option (apfst RBool) (SpinlockQueue_PushBack DequeQueue x s)"
| "mb_do (MbPushFront x) s = map_option (apfst RBool) (SpinlockQueue_PushFront x s)"
| "mb_do MbPop s = map_option (apfst RPopped) (SpinlockQueue_PopFront DequeQueue s)"
| "mb_do MbClear s = map_option (Pair RDone) (SpinlockQueue_Clear DequeQueue s)"
| "mb_do MbSize s = map_option (apfst RInt) (SpinlockQueue_Size DequeQueue s)"
| "mb_do MbIsEmpty s = map_option (apfst RBool) (SpinlockQueue_IsEmpty DequeQueue s)"

fun mb_run :: "'a mb_call list \<Rightarrow> 'a list SpinlockQueue \<Rightarrow> ('a mb_reply list \<times> 'a list SpinlockQueue) option" where
  "mb_run [] s = Some ([], s)"
| "mb_run (c # cs) s = do { (r, s') \<leftarrow> mb_do c s; (rs, s'') \<leftarrow> mb_run cs s'; Some (r # rs, s'') }"

fun fifo_call :: "nat \<Rightarrow> 'a mb_call \<Rightarrow> 'a list \<Rightarrow> 'a mb_reply \<times> 'a list" where
  "fifo_call cap (MbPush x) xs = (RBool (length xs < cap), if length xs < cap then xs @ [x] else xs)"
| "fifo_call cap (MbPushFront x) xs = (RBool (length xs < cap), if length xs < cap then x # xs else xs)"
| "fifo_call cap MbPop [] = (RPopped None, [])"
| "fifo_call cap MbPop (x # xs) = (RPopped (Some x), xs)"
| "fifo_call cap MbClear xs = (RDone, [])"
| "fifo_call cap MbSize xs = (RInt (int (length xs)), xs)"
| "fifo_call cap MbIsEmpty xs = (RBool (xs = []), xs)"

fun fifo_calls :: "nat \<Rightarrow> 'a mb_call list \<Rightarrow> 'a list \<Rightarrow> 'a mb_reply list \<times> 'a list" where
  "fifo_calls cap [] xs = ([], xs)"
| "fifo_calls cap (c # cs) xs = (case fifo_call cap c xs of (r, ys) \<Rightarrow> apfst (Cons r) (fifo_calls cap cs ys))"

lemma PushFront_deque:
  assumes "sq_ok (\<lambda>_. True) mset s"
  shows "\<exists>s'. SpinlockQueue_PushFront x s = Some (length (queue s) < unat (maxSz s), s') \<and>
     sq_ok (\<lambda>_. True) mset s' \<and> maxSz s' = maxSz s \<and>
     queue s' = (if length (queue s) < unat (maxSz s) then x # queue s else queue s)"
proof -
  have s: "\<not> lock s" "length (queue s) \<le> unat (maxSz s)" using assms by (auto simp: sq_ok_def)
  have "unat (maxSz s) < 2 ^ 64" using unsigned_less [of "maxSz s", where ?'a = nat] by simp
  with s(2) have "length (queue s) < 2 ^ 64" by linarith
  then have "word_of_nat (length (queue s)) \<ge> maxSz s \<longleftrightarrow> unat (maxSz s) \<le> length (queue s)"
    by (simp add: word_le_nat_alt unsigned_of_nat take_bit_nat_eq_self)
  with s show ?thesis
    by (auto simp: SpinlockQueue_PushFront_def DequeQueue_def push_front_def spin_lock_def spin_unlock_def sq_ok_def Let_def)
qed

lemma mb_do_fifo:
  assumes "sq_ok (\<lambda>_. True) mset s" and "unat (maxSz s) < 2 ^ 31"
  shows "\<exists>s'. mb_do c s = Some (fst (fifo_call (unat (maxSz s)) c (queue s)), s') \<and>
     queue s' = snd (fifo_call (unat (maxSz s)) c (queue s)) \<and> sq_ok (\<lambda>_. True) mset s' \<and> maxSz s' = maxSz s"
proof (cases c)
  case (MbPush x)
  then show ?thesis using dqc.fifo_PushBack [OF assms(1), of x] by auto
next
  case (MbPushFront x)
  then show ?thesis using PushFront_deque [OF assms(1), of x] by auto
next
  case MbPop
  then show ?thesis using dqc.fifo_PopFront [OF assms(1)] by (cases "queue s") auto
next
  case MbClear
  then show ?thesis using dqc.fifo_queries(3) [OF assms] by auto
qed (use dqc.fifo_queries(1,2) [OF assms] assms(1) in auto)

lemma mb_run_fifo:
  "sq_ok (\<lambda>_. True) mset s \<Longrightarrow> unat (maxSz s) < 2 ^ 31 \<Longrightarrow>
   \<exists>s'. mb_run cs s = Some (fst (fifo_calls (unat (maxSz s)) cs (queue s)), s') \<and>
     queue s' = snd (fifo_calls (unat (maxSz s)) cs (queue s)) \<and> sq_ok (\<lambda>_. True) mset s' \<and> maxSz s' = maxSz s"
proof (induction cs arbitrary: s)
  case (Cons c cs)
  obtain s1 where s1: "mb_do c s = Some (fst (fifo_call (unat (maxSz s)) c (queue s)), s1)"
    "queue s1 = snd (fifo_call (unat (maxSz s)) c (queue s))" "sq_ok (\<lambda>_. True) mset s1" "maxSz s1 = maxSz s"
    using mb_do_fifo [OF Cons.prems] by blast
  from Cons.IH [OF s1(3)] Cons.prems(2) s1 show ?case by (auto simp: case_prod_beta)
qed auto

text \<open>
  C22. A \<open>SpinlockWeakPriorityQueue\<close>, the \<open>SpinlockQueue\<close> over a deque that every mailbox is, refines a bounded FIFO.
  Whatever calls are made on a new queue of size \<open>Maxsize\<close>, each returns (none finds the lock taken) with exactly the answer of
  a FIFO of capacity \<open>Maxsize\<close>: \<open>PushBack\<close> and \<open>PushFront\<close> accept their value if and only if fewer than \<open>Maxsize\<close> are held and put it at
  the end they name, \<open>PopFront\<close> hands out the first value and fails only on an empty queue, \<open>Size\<close>, \<open>IsEmpty\<close> and
  \<open>Clear\<close> are exact, and the queue holds in the end what the FIFO holds, at most \<open>Maxsize\<close> values.
\<close>

theorem mailbox_session:
  assumes "0 \<le> Maxsize" and "Maxsize < 2 ^ 31"
  shows "\<exists>s. mb_run cs (SpinlockQueue_init Maxsize []) = Some (fst (fifo_calls (nat Maxsize) cs []), s) \<and>
     queue s = snd (fifo_calls (nat Maxsize) cs []) \<and> int (length (queue s)) \<le> Maxsize \<and> \<not> lock s"
proof -
  let ?s = "SpinlockQueue_init Maxsize [] :: 'a list SpinlockQueue"
  have ok: "sq_ok (\<lambda>_. True) mset ?s" by (simp add: sq_ok_def SpinlockQueue_init_def)
  have m: "unat (maxSz ?s) = nat Maxsize"
    using assms by (simp add: SpinlockQueue_init_def unat_eq_nat_uint uint_word_of_int)
  have "unat (maxSz ?s) < 2 ^ 31" using assms by (simp add: m)
  from mb_run_fifo [OF ok this, of cs] obtain s where s: "mb_run cs ?s = Some (fst (fifo_calls (nat Maxsize) cs (queue ?s)), s)"
    "queue s = snd (fifo_calls (nat Maxsize) cs (queue ?s))" "sq_ok (\<lambda>_. True) mset s" "maxSz s = maxSz ?s" unfolding m by blast
  have "length (queue s) \<le> nat Maxsize" using s(3,4) m by (simp add: sq_ok_def)
  with s assms(1) show ?thesis by (auto simp: sq_ok_def SpinlockQueue_init_def)
qed

theorem mailbox_session_witness:
  "\<exists>s. mb_run [MbPush CHR ''a'', MbPush CHR ''b'', MbPush CHR ''x'', MbPop, MbPushFront CHR ''c'', MbSize, MbIsEmpty] (SpinlockQueue_init 2 [])
      = Some ([RBool True, RBool True, RBool False, RPopped (Some CHR ''a''), RBool True, RInt 2, RBool False], s) \<and> queue s = ''cb''"
proof -
  have "0 \<le> (2 :: int)" "(2 :: int) < 2 ^ 31" by simp_all
  from mailbox_session [OF this, of "[MbPush CHR ''a'', MbPush CHR ''b'', MbPush CHR ''x'', MbPop, MbPushFront CHR ''c'', MbSize, MbIsEmpty]"]
  show ?thesis by auto
qed

end
