(* ===== verification/Worker.thy ===== *)
theory Worker
  imports SpinlockQueue
begin

text \<open>
  \<open>thread/ITask.h\<close>, \<open>thread/WorkerBodyBase.{h,cc}\<close> and \<open>thread/Worker.{h,cc}\<close>: tasks, and the thread that
  waits on a semaphore for tasks and commands. \<open>body_ops\<close> are the virtual functions a body overrides: its
  container, \<open>PrepareWorker\<close> and \<open>HandleTask\<close>, on a state \<open>ext\<close> of its own, which other threads may change as
  \<open>bo_env\<close> says. A worker runs as a sequence of moves between the points where it can be interrupted; the
  producers' push and \<open>sem_post\<close> are separate moves, so that every interleaving of them is covered.
\<close>

section \<open>Tasks\<close>

datatype TaskPriority = TP_EXTREME | TP_HIGH | TP_NORMAL | TP_LOW

fun prio_val :: "TaskPriority \<Rightarrow> int" where
  "prio_val TP_EXTREME = 0"
| "prio_val TP_HIGH = 1"
| "prio_val TP_NORMAL = 2"
| "prio_val TP_LOW = 3"

lemma prio_val_inj: "prio_val p = prio_val q \<longleftrightarrow> p = q"
  by (cases p; cases q) auto

instantiation TaskPriority :: linorder
begin

definition less_eq_TaskPriority :: "TaskPriority \<Rightarrow> TaskPriority \<Rightarrow> bool" where
  "less_eq_TaskPriority p q \<longleftrightarrow> prio_val p \<le> prio_val q"

definition less_TaskPriority :: "TaskPriority \<Rightarrow> TaskPriority \<Rightarrow> bool" where
  "less_TaskPriority p q \<longleftrightarrow> prio_val p < prio_val q"

instance
  by standard (auto simp: less_eq_TaskPriority_def less_TaskPriority_def prio_val_inj [symmetric])

end

text \<open>\<open>it_id\<close> is the address of the object; its virtual \<open>Run\<close> is part of the body's \<open>bo_handle\<close>.\<close>

record ITask =
  it_id :: nat
  thread :: int
  affinity :: int
  deleteAfterRun :: bool
  priority :: TaskPriority

definition ITask_init :: "nat \<Rightarrow> bool \<Rightarrow> TaskPriority \<Rightarrow> ITask" where
  "ITask_init a autoDel prio = \<lparr>it_id = a, thread = -1, affinity = -1, deleteAfterRun = autoDel, priority = prio\<rparr>"

definition Priority :: "ITask \<Rightarrow> TaskPriority" where
  "Priority t = priority t"

definition SetPriority :: "TaskPriority \<Rightarrow> ITask \<Rightarrow> TaskPriority \<times> ITask" where
  "SetPriority prio t = (priority t, t\<lparr>priority := prio\<rparr>)"

definition SetAffinity :: "int \<Rightarrow> ITask \<Rightarrow> ITask" where
  "SetAffinity aff t = t\<lparr>affinity := aff\<rparr>"

definition SetThreadId :: "int \<Rightarrow> ITask \<Rightarrow> ITask" where
  "SetThreadId i t = t\<lparr>thread := i\<rparr>"

definition GetAffinity :: "ITask \<Rightarrow> int" where
  "GetAffinity t = affinity t"

definition GetThreadId :: "ITask \<Rightarrow> int" where
  "GetThreadId t = thread t"

definition ShouldDelete :: "ITask \<Rightarrow> bool" where
  "ShouldDelete t = deleteAfterRun t"

section \<open>The worker\<close>

datatype command = DummyExitTask

text \<open>Where the thread is: at the head of the loop of \<open>Run\<close>; in \<open>GetRunTask\<close> at the head of its loop, in the
  timed wait, or behind the loop; about to handle the task it got; or out of the loop of \<open>Run\<close>.\<close>

datatype phase = AtHead | Waiting int | TimedWait int | Woken | Handling "ITask option" | Stopped

record ('q, 'x) WorkerBody =
  isRuning :: int
  sem :: nat
  tasks_done :: "32 word"
  notify :: bool
  notifyer :: bool
  cmds :: "command list SpinlockQueue"
  ShouldStop :: bool
  mailbox :: "'q SpinlockQueue"
  at :: phase
  unposted :: nat
  signals :: "int list"
  freed :: "nat list"
  ext :: 'x

text \<open>A thread that is to move faults, cannot move yet, or has moved. \<open>bo_prepare\<close> is one turn of the loop of
  \<open>PrepareWorker\<close>, with whether it was the last one.\<close>

datatype 'a outcome = Fault | Blocked | Moved 'a

record ('q, 'x) body_ops =
  bo_queue :: "(ITask, 'q) QUEUE"
  bo_prepare :: "'x \<Rightarrow> (bool \<times> 'x) outcome"
  bo_handle :: "ITask \<Rightarrow> 'x \<Rightarrow> (bool \<times> 'x) option"
  bo_env :: "'x \<Rightarrow> 'x \<Rightarrow> bool"

definition DEFAULT_WORKER_TASK_MSG_SIZE :: int where
  "DEFAULT_WORKER_TASK_MSG_SIZE = 1024"

definition reqThreshold :: int where
  "reqThreshold = 3"

definition WorkerBody_init :: "bool \<Rightarrow> int \<Rightarrow> 'q \<Rightarrow> 'x \<Rightarrow> ('q, 'x) WorkerBody" where
  "WorkerBody_init ntf maxMsgSize q x = \<lparr>isRuning = 0, sem = 0, tasks_done = 0, notify = False, notifyer = ntf,
     cmds = SpinlockQueue_init DEFAULT_WORKER_TASK_MSG_SIZE [], ShouldStop = False,
     mailbox = SpinlockQueue_init maxMsgSize q, at = AtHead, unposted = 0, signals = [], freed = [], ext = x\<rparr>"

definition EnableNotify :: "bool \<Rightarrow> ('q, 'x) WorkerBody \<Rightarrow> ('q, 'x) WorkerBody" where
  "EnableNotify enable w = w\<lparr>notify := enable\<rparr>"

text \<open>\<open>sem_post\<close> fails, and the assertion with it, at the largest value.\<close>

definition SignalPost :: "('q, 'x) WorkerBody \<Rightarrow> ('q, 'x) WorkerBody option" where
  "SignalPost w = (if sem w < SEM_VALUE_MAX then Some (w\<lparr>sem := sem w + 1\<rparr>) else None)"

definition TryConsume :: "('q, 'x) WorkerBody \<Rightarrow> bool \<times> ('q, 'x) WorkerBody" where
  "TryConsume w = (if sem w = 0 then (False, w) else (True, w\<lparr>sem := sem w - 1\<rparr>))"

definition Notify :: "('q, 'x) WorkerBody \<Rightarrow> ('q, 'x) WorkerBody" where
  "Notify w = (if notifyer w then w\<lparr>signals := signals w @ [0]\<rparr> else w)"

definition NotifyDone :: "('q, 'x) WorkerBody \<Rightarrow> ('q, 'x) WorkerBody" where
  "NotifyDone w = (if \<not> notify w \<or> \<not> notifyer w then w else w\<lparr>signals := signals w @ [-1]\<rparr>)"

definition PushTaskToContainer :: "('q, 'x) body_ops \<Rightarrow> ITask \<Rightarrow> ('q, 'x) WorkerBody \<Rightarrow> (bool \<times> ('q, 'x) WorkerBody) option" where
  "PushTaskToContainer B t w = map_option (\<lambda>(ok, q). (ok, w\<lparr>mailbox := q\<rparr>)) (SpinlockQueue_PushBack (bo_queue B) t (mailbox w))"

definition GetTaskFromContainer :: "('q, 'x) body_ops \<Rightarrow> ('q, 'x) WorkerBody \<Rightarrow> (ITask option \<times> ('q, 'x) WorkerBody) option" where
  "GetTaskFromContainer B w = map_option (\<lambda>(r, q). (r, w\<lparr>mailbox := q\<rparr>)) (SpinlockQueue_PopFront (bo_queue B) (mailbox w))"

definition GetContainerSize :: "('q, 'x) body_ops \<Rightarrow> ('q, 'x) WorkerBody \<Rightarrow> int option" where
  "GetContainerSize B w = map_option fst (SpinlockQueue_Size (bo_queue B) (mailbox w))"

definition HasTask :: "('q, 'x) body_ops \<Rightarrow> ('q, 'x) WorkerBody \<Rightarrow> bool option" where
  "HasTask B w = map_option (\<lambda>(e, _). \<not> e) (SpinlockQueue_IsEmpty (bo_queue B) (mailbox w))"

definition PushInternalCmd :: "command \<Rightarrow> ('q, 'x) WorkerBody \<Rightarrow> (bool \<times> ('q, 'x) WorkerBody) option" where
  "PushInternalCmd c w = map_option (\<lambda>(ok, q). (ok, w\<lparr>cmds := q\<rparr>)) (SpinlockQueue_PushBack DequeQueue c (cmds w))"

definition GetInternalCmd :: "('q, 'x) WorkerBody \<Rightarrow> (command option \<times> ('q, 'x) WorkerBody) option" where
  "GetInternalCmd w = do {
     (e, q) \<leftarrow> SpinlockQueue_IsEmpty DequeQueue (cmds w);
     if e then Some (None, w\<lparr>cmds := q\<rparr>)
     else map_option (\<lambda>(r, q'). (r, w\<lparr>cmds := q'\<rparr>)) (SpinlockQueue_PopFront DequeQueue q)
   }"

definition SetExitState :: "('q, 'x) WorkerBody \<Rightarrow> ('q, 'x) WorkerBody" where
  "SetExitState w = w\<lparr>ShouldStop := True\<rparr>"

definition ProcessInternalCmd :: "command \<Rightarrow> ('q, 'x) WorkerBody \<Rightarrow> ('q, 'x) WorkerBody" where
  "ProcessInternalCmd c w = (case c of DummyExitTask \<Rightarrow> SetExitState w)"

definition PostTask :: "('q, 'x) body_ops \<Rightarrow> ITask \<Rightarrow> ('q, 'x) WorkerBody \<Rightarrow> (bool \<times> ('q, 'x) WorkerBody) option" where
  "PostTask B t w = do {
     (ret, w) \<leftarrow> PushTaskToContainer B t w;
     if ret then map_option (\<lambda>w'. (ret, w')) (SignalPost w) else Some (ret, w)
   }"

definition PostInternalCmd :: "command \<Rightarrow> ('q, 'x) WorkerBody \<Rightarrow> (bool \<times> ('q, 'x) WorkerBody) option" where
  "PostInternalCmd c w = do {
     (ret, w) \<leftarrow> PushInternalCmd c w;
     if ret then map_option (\<lambda>w'. (ret, w')) (SignalPost w) else Some (ret, w)
   }"

text \<open>\<open>alloc_ok\<close>: whether \<open>new\<close> succeeds.\<close>

definition PostExit :: "bool \<Rightarrow> ('q, 'x) WorkerBody \<Rightarrow> (bool \<times> ('q, 'x) WorkerBody) option" where
  "PostExit alloc_ok w = (if alloc_ok then PostInternalCmd DummyExitTask w else Some (False, w))"

definition StopRunning :: "bool \<Rightarrow> ('q, 'x) WorkerBody \<Rightarrow> (bool \<times> ('q, 'x) WorkerBody) option" where
  "StopRunning alloc_ok w = PostExit alloc_ok w"

definition TryGetTask :: "('q, 'x) body_ops \<Rightarrow> ('q, 'x) WorkerBody \<Rightarrow> (ITask option \<times> ('q, 'x) WorkerBody) option" where
  "TryGetTask B w = (case TryConsume w of (got, w') \<Rightarrow> if got then GetTaskFromContainer B w' else Some (None, w'))"

definition CleanRunTask :: "ITask option \<Rightarrow> ('q, 'x) WorkerBody \<Rightarrow> ('q, 'x) WorkerBody" where
  "CleanRunTask t w = (case t of None \<Rightarrow> w | Some t \<Rightarrow> if ShouldDelete t then w\<lparr>freed := freed w @ [it_id t]\<rparr> else w)"

text \<open>The loop of \<open>ClearAllTask\<close>; it does not end when the container has a task but the semaphore is 0.\<close>

partial_function (option) ClearAllTask :: "('q, 'x) body_ops \<Rightarrow> ('q, 'x) WorkerBody \<Rightarrow> ('q, 'x) WorkerBody option" where
  "ClearAllTask B w = Option.bind (HasTask B w) (\<lambda>has.
     if has then Option.bind (TryGetTask B w) (\<lambda>(t, w'). ClearAllTask B (CleanRunTask t w')) else Some w)"

definition GetTaskNumber :: "('q, 'x) body_ops \<Rightarrow> ('q, 'x) WorkerBody \<Rightarrow> int option" where
  "GetTaskNumber B w = map_option (\<lambda>n. n + isRuning w) (GetContainerSize B w)"

definition IsRunning :: "('q, 'x) WorkerBody \<Rightarrow> bool" where
  "IsRunning w = (isRuning w \<noteq> 0)"

text \<open>\<open>atomic_cas(&isRuning_, old, new)\<close>.\<close>

definition cas_running :: "int \<Rightarrow> int \<Rightarrow> ('q, 'x) WorkerBody \<Rightarrow> ('q, 'x) WorkerBody" where
  "cas_running old new w = (if isRuning w = old then w\<lparr>isRuning := new\<rparr> else w)"

section \<open>The moves of a worker\<close>

definition from_option :: "'a option \<Rightarrow> 'a outcome" where
  "from_option r = (case r of None \<Rightarrow> Fault | Some a \<Rightarrow> Moved a)"

text \<open>One turn of the loop of \<open>GetRunTask\<close> up to the next wait.\<close>

definition GetRunTask_wait :: "int \<Rightarrow> ('q, 'x) WorkerBody \<Rightarrow> ('q, 'x) WorkerBody outcome" where
  "GetRunTask_wait req w =
     (if \<not> notify w \<or> req > reqThreshold
      then (if sem w = 0 then Blocked else Moved (w\<lparr>sem := sem w - 1, at := Woken\<rparr>))
      else (case TryConsume w of (got, w') \<Rightarrow>
              if got then Moved (w'\<lparr>at := Woken\<rparr>) else Moved ((Notify w')\<lparr>at := TimedWait (req + 1)\<rparr>)))"

text \<open>\<open>SignalConsumeTimeout\<close>, given whether the time runs out.\<close>

definition SignalConsumeTimeout :: "bool \<Rightarrow> int \<Rightarrow> ('q, 'x) WorkerBody \<Rightarrow> ('q, 'x) WorkerBody outcome" where
  "SignalConsumeTimeout timeout req w =
     (if timeout then Moved (w\<lparr>at := Waiting req\<rparr>)
      else if sem w = 0 then Blocked
      else Moved (w\<lparr>sem := sem w - 1, at := Woken\<rparr>))"

text \<open>The end of an iteration of \<open>Run\<close>.\<close>

definition next_iteration :: "('q, 'x) WorkerBody \<Rightarrow> ('q, 'x) WorkerBody" where
  "next_iteration w = (if ShouldStop w then w\<lparr>at := Stopped\<rparr> else (NotifyDone w)\<lparr>at := AtHead\<rparr>)"

text \<open>The end of \<open>GetRunTask\<close>, and what \<open>Run\<close> does with a command.\<close>

definition GetRunTask_fetch :: "('q, 'x) body_ops \<Rightarrow> ('q, 'x) WorkerBody \<Rightarrow> ('q, 'x) WorkerBody option" where
  "GetRunTask_fetch B w = do {
     (c, w) \<leftarrow> GetInternalCmd w;
     case c of
       Some c \<Rightarrow> Some (next_iteration (ProcessInternalCmd c w))
     | None \<Rightarrow> do {
         (t, w) \<leftarrow> GetTaskFromContainer B w;
         Some ((cas_running 0 1 w)\<lparr>at := Handling t\<rparr>)
       }
   }"

text \<open>\<open>HandleTask\<close> dereferences its argument in every body.\<close>

definition Run_handle :: "('q, 'x) body_ops \<Rightarrow> ITask option \<Rightarrow> ('q, 'x) WorkerBody \<Rightarrow> ('q, 'x) WorkerBody option" where
  "Run_handle B msg w = do {
     t \<leftarrow> msg;
     (fin, x) \<leftarrow> bo_handle B t (ext w);
     let w = w\<lparr>ext := x\<rparr>;
     let w = (if fin then CleanRunTask (Some t) w else w);
     let w = cas_running 1 0 (w\<lparr>tasks_done := tasks_done w + 1\<rparr>);
     Some (next_iteration w)
   }"

definition worker_move :: "('q, 'x) body_ops \<Rightarrow> bool \<Rightarrow> ('q, 'x) WorkerBody \<Rightarrow> ('q, 'x) WorkerBody outcome" where
  "worker_move B timeout w = (case at w of
       AtHead \<Rightarrow> (case bo_prepare B (ext w) of
           Fault \<Rightarrow> Fault
         | Blocked \<Rightarrow> Blocked
         | Moved (fin, x) \<Rightarrow> Moved (w\<lparr>ext := x, at := (if fin then Waiting 0 else AtHead)\<rparr>))
     | Waiting req \<Rightarrow> GetRunTask_wait req w
     | TimedWait req \<Rightarrow> SignalConsumeTimeout timeout req w
     | Woken \<Rightarrow> from_option (GetRunTask_fetch B w)
     | Handling t \<Rightarrow> from_option (Run_handle B t w)
     | Stopped \<Rightarrow> Blocked)"

text \<open>Several moves in a row, in which no timed wait runs out.\<close>

fun moves :: "('q, 'x) body_ops \<Rightarrow> nat \<Rightarrow> ('q, 'x) WorkerBody \<Rightarrow> ('q, 'x) WorkerBody outcome" where
  "moves B 0 w = Moved w"
| "moves B (Suc n) w = (case worker_move B False w of Moved w' \<Rightarrow> moves B n w' | r \<Rightarrow> r)"

text \<open>The body of a plain worker: \<open>run\<close> is what the tasks do to the state of the program.\<close>

definition task_body :: "(ITask \<Rightarrow> 'x \<Rightarrow> 'x) \<Rightarrow> (ITask list, 'x) body_ops" where
  "task_body run = \<lparr>bo_queue = DequeQueue, bo_prepare = (\<lambda>x. Moved (True, x)), bo_handle = (\<lambda>t x. Some (True, run t x)), bo_env = (\<lambda>_ _. True)\<rparr>"

text \<open>The task in hand.\<close>

definition in_hand :: "('q, 'x) WorkerBody \<Rightarrow> ITask list" where
  "in_hand w = (case at w of Handling (Some t) \<Rightarrow> [t] | _ \<Rightarrow> [])"

text \<open>
  The states a worker can be in, with the tasks accepted so far and those handled so far, under any
  interleaving of its own moves with pushes and posts of other threads.
\<close>

inductive worker_run :: "('q, 'x) body_ops \<Rightarrow> ('q, 'x) WorkerBody \<Rightarrow> ITask list \<Rightarrow> ITask list \<Rightarrow> ('q, 'x) WorkerBody \<Rightarrow> bool"
  for B w0 where
  start: "worker_run B w0 [] [] w0"
| move: "worker_run B w0 acc out w \<Longrightarrow> worker_move B timeout w = Moved w' \<Longrightarrow> worker_run B w0 acc (out @ in_hand w) w'"
| push: "worker_run B w0 acc out w \<Longrightarrow> PushTaskToContainer B t w = Some (ok, w') \<Longrightarrow>
    worker_run B w0 (if ok then acc @ [t] else acc) out (w'\<lparr>unposted := unposted w' + (if ok then 1 else 0)\<rparr>)"
| push_cmd: "worker_run B w0 acc out w \<Longrightarrow> PushInternalCmd c w = Some (ok, w') \<Longrightarrow>
    worker_run B w0 acc out (w'\<lparr>unposted := unposted w' + (if ok then 1 else 0)\<rparr>)"
| post: "worker_run B w0 acc out w \<Longrightarrow> 0 < unposted w \<Longrightarrow> SignalPost w = Some w' \<Longrightarrow>
    worker_run B w0 acc out (w'\<lparr>unposted := unposted w' - 1\<rparr>)"
| env: "worker_run B w0 acc out w \<Longrightarrow> bo_env B (ext w) x \<Longrightarrow> worker_run B w0 acc out (w\<lparr>ext := x\<rparr>)"

section \<open>The invariant\<close>

text \<open>
  Every task and command in the two queues is matched by a unit of the semaphore, by a producer that is
  about to post, or by the worker's having been woken.
\<close>

definition worker_ok :: "('q \<Rightarrow> bool) \<Rightarrow> ('q \<Rightarrow> ITask multiset) \<Rightarrow> ('x \<Rightarrow> bool) \<Rightarrow> ('x \<Rightarrow> bool) \<Rightarrow> ('q, 'x) WorkerBody \<Rightarrow> bool" where
  "worker_ok okq bag xok ready w \<longleftrightarrow>
     sq_ok okq bag (mailbox w) \<and> sq_ok (\<lambda>_. True) mset (cmds w) \<and>
     sem w + unposted w + (if at w = Woken then 1 else 0) = size (bag (queue (mailbox w))) + length (queue (cmds w)) \<and>
     unat (maxSz (mailbox w)) + unat (maxSz (cmds w)) \<le> SEM_VALUE_MAX \<and>
     at w \<noteq> Handling None \<and>
     (if at w = AtHead \<or> at w = Stopped then xok (ext w) else ready (ext w)) \<and>
     isRuning w = int (length (in_hand w)) \<and> (ShouldStop w \<longleftrightarrow> at w = Stopped)"

text \<open>Between \<open>w\<close> and \<open>w'\<close> the worker got at what was queued: a command, which stops it, or else a task.\<close>

definition took :: "('q \<Rightarrow> ITask multiset) \<Rightarrow> ('q, 'x) WorkerBody \<Rightarrow> ('q, 'x) WorkerBody \<Rightarrow> bool" where
  "took bag w w' \<longleftrightarrow> (if queue (cmds w) = []
     then \<exists>t. at w' = Handling (Some t) \<and> bag (queue (mailbox w)) = add_mset t (bag (queue (mailbox w')))
     else at w' = Stopped)"

lemmas worker_defs = GetRunTask_wait_def SignalConsumeTimeout_def TryConsume_def Notify_def NotifyDone_def
  next_iteration_def CleanRunTask_def cas_running_def

locale worker_body = container "bo_queue B" okq bag best
  for B :: "('q, 'x) body_ops" and okq :: "'q \<Rightarrow> bool" and bag :: "'q \<Rightarrow> ITask multiset" and best :: "ITask \<Rightarrow> 'q \<Rightarrow> bool" +
  fixes xok :: "'x \<Rightarrow> bool" and ready :: "'x \<Rightarrow> bool"
  assumes prepare: "xok x \<Longrightarrow> (case bo_prepare B x of Fault \<Rightarrow> False | Blocked \<Rightarrow> True
      | Moved (fin, x') \<Rightarrow> if fin then ready x' else xok x')"
    and handle: "ready x \<Longrightarrow> \<exists>fin x'. bo_handle B t x = Some (fin, x') \<and> xok x'"
    and ready_ok: "ready x \<Longrightarrow> xok x"
    and envir: "bo_env B x x' \<Longrightarrow> (xok x \<longrightarrow> xok x') \<and> (ready x \<longrightarrow> ready x')"
begin

abbreviation wok :: "('q, 'x) WorkerBody \<Rightarrow> bool" where
  "wok \<equiv> worker_ok okq bag xok ready"

lemma cmds_pop:
  assumes "sq_ok (\<lambda>_. True) mset (cmds w)"
  shows "GetInternalCmd w = (case queue (cmds w) of [] \<Rightarrow> Some (None, w)
     | c # cs \<Rightarrow> Some (Some c, w\<lparr>cmds := (cmds w)\<lparr>queue := cs\<rparr>\<rparr>))"
  using assms
  by (auto simp: sq_ok_def GetInternalCmd_def SpinlockQueue_IsEmpty_def SpinlockQueue_PopFront_def spin_lock_def
      spin_unlock_def DequeQueue_def split: list.splits)

text \<open>A command is taken first; else there is a task, and it is one the container allows.\<close>

lemma fetch:
  assumes "wok w" and "at w = Woken"
  shows "\<exists>w'. GetRunTask_fetch B w = Some w' \<and> wok w' \<and> sem w' = sem w \<and> unposted w' = unposted w \<and>
     (case queue (cmds w) of
        c # cs \<Rightarrow> at w' = Stopped \<and> queue (cmds w') = cs \<and> mailbox w' = mailbox w
      | [] \<Rightarrow> \<exists>t. at w' = Handling (Some t) \<and> cmds w' = cmds w \<and>
          SpinlockQueue_PopFront (bo_queue B) (mailbox w) = Some (Some t, mailbox w') \<and>
          bag (queue (mailbox w)) = add_mset t (bag (queue (mailbox w'))))"
proof (cases "queue (cmds w)")
  case (Cons c cs)
  have "GetRunTask_fetch B w = Some (w\<lparr>cmds := (cmds w)\<lparr>queue := cs\<rparr>, ShouldStop := True, at := Stopped\<rparr>)"
    using assms Cons cmds_pop [of w]
    by (cases c) (simp add: worker_ok_def GetRunTask_fetch_def ProcessInternalCmd_def SetExitState_def next_iteration_def)
  moreover have "wok (w\<lparr>cmds := (cmds w)\<lparr>queue := cs\<rparr>, ShouldStop := True, at := Stopped\<rparr>)"
    using assms Cons ready_ok by (simp add: worker_ok_def sq_ok_def in_hand_def)
  ultimately show ?thesis using Cons by auto
next
  case Nil
  have ok: "sq_ok okq bag (mailbox w)" "bag (queue (mailbox w)) \<noteq> {#}"
    using assms Nil by (auto simp: worker_ok_def)
  obtain t q where t: "SpinlockQueue_PopFront (bo_queue B) (mailbox w) = Some (Some t, (mailbox w)\<lparr>queue := q\<rparr>)"
    "sq_ok okq bag ((mailbox w)\<lparr>queue := q\<rparr>)" "bag (queue (mailbox w)) = add_mset t (bag q)"
    using PopFront_ok [OF ok(1)] ok(2) by auto
  have run: "isRuning w = 0" using assms by (simp add: worker_ok_def in_hand_def)
  let ?w = "w\<lparr>mailbox := (mailbox w)\<lparr>queue := q\<rparr>, isRuning := 1, at := Handling (Some t)\<rparr>"
  have "GetRunTask_fetch B w = Some ?w"
    using assms Nil cmds_pop [of w] t(1) run
    by (simp add: worker_ok_def GetRunTask_fetch_def GetTaskFromContainer_def cas_running_def)
  moreover have "wok ?w" using assms Nil t by (simp add: worker_ok_def in_hand_def)
  ultimately show ?thesis using Nil t by auto
qed

lemma handling:
  assumes "wok w" and "at w = Handling (Some t)"
  shows "\<exists>w'. Run_handle B (Some t) w = Some w' \<and> wok w' \<and> at w' = AtHead \<and>
     sem w' = sem w \<and> unposted w' = unposted w \<and> mailbox w' = mailbox w \<and> cmds w' = cmds w"
proof -
  have "ready (ext w)" "isRuning w = 1" "\<not> ShouldStop w"
    using assms by (auto simp: worker_ok_def in_hand_def)
  moreover obtain fin x where "bo_handle B t (ext w) = Some (fin, x)" "xok x"
    using handle \<open>ready (ext w)\<close> by blast
  ultimately show ?thesis using assms
    by (auto simp: Run_handle_def worker_ok_def worker_defs in_hand_def Let_def)
qed

lemma wait_move:
  assumes "wok w" and "at w = Waiting req \<or> at w = TimedWait req"
    and "worker_move B timeout w = Moved w'"
  shows "wok w' \<and> mailbox w' = mailbox w \<and> in_hand w' = []"
  using assms by (auto simp: worker_move_def worker_ok_def worker_defs in_hand_def split: if_splits)

text \<open>No move of the worker faults, and each keeps the invariant.\<close>

lemma move_ok:
  assumes "wok w"
  shows "worker_move B timeout w \<noteq> Fault \<and>
    (\<forall>w'. worker_move B timeout w = Moved w' \<longrightarrow> wok w' \<and>
       mset (in_hand w') + bag (queue (mailbox w')) = bag (queue (mailbox w)))"
proof (cases "at w")
  case AtHead
  have "xok (ext w)" using assms AtHead by (simp add: worker_ok_def)
  with prepare [of "ext w"] AtHead assms show ?thesis
    by (auto simp: worker_move_def worker_ok_def in_hand_def split: outcome.splits if_splits)
next
  case (Waiting req)
  then show ?thesis using wait_move [OF assms, of req timeout]
    by (auto simp: worker_move_def GetRunTask_wait_def split: prod.splits)
next
  case (TimedWait req)
  then show ?thesis using wait_move [OF assms, of req timeout]
    by (auto simp: worker_move_def SignalConsumeTimeout_def)
next
  case Woken
  then show ?thesis using fetch [OF assms Woken]
    by (cases "queue (cmds w)") (auto simp: worker_move_def from_option_def in_hand_def)
next
  case (Handling msg)
  then obtain t where t: "msg = Some t" using assms by (cases msg) (auto simp: worker_ok_def)
  then show ?thesis using handling [OF assms, of t] Handling
    by (auto simp: worker_move_def from_option_def in_hand_def)
next
  case Stopped
  then show ?thesis by (simp add: worker_move_def)
qed

lemma push_ok:
  assumes "wok w"
  shows "\<exists>ok w'. PushTaskToContainer B t w = Some (ok, w') \<and>
     wok (w'\<lparr>unposted := unposted w' + (if ok then 1 else 0)\<rparr>) \<and> in_hand w' = in_hand w \<and>
     bag (queue (mailbox w')) = (if ok then add_mset t (bag (queue (mailbox w))) else bag (queue (mailbox w)))"
proof -
  have "sq_ok okq bag (mailbox w)" using assms by (simp add: worker_ok_def)
  from PushBack_step [OF this, of t] obtain ok q where "SpinlockQueue_PushBack (bo_queue B) t (mailbox w) = Some (ok, q)"
    "sq_ok okq bag q" "maxSz q = maxSz (mailbox w)"
    "bag (queue q) = (if ok then add_mset t (bag (queue (mailbox w))) else bag (queue (mailbox w)))" by blast
  then show ?thesis using assms by (auto simp: PushTaskToContainer_def worker_ok_def in_hand_def)
qed

lemma push_cmd_ok:
  assumes "wok w"
  shows "\<exists>ok w'. PushInternalCmd c w = Some (ok, w') \<and>
     wok (w'\<lparr>unposted := unposted w' + (if ok then 1 else 0)\<rparr>) \<and> in_hand w' = in_hand w \<and> mailbox w' = mailbox w"
proof -
  have "sq_ok (\<lambda>_. True) mset (cmds w)" using assms by (simp add: worker_ok_def)
  from dqc.PushBack_step [OF this, of c] obtain ok q where "SpinlockQueue_PushBack DequeQueue c (cmds w) = Some (ok, q)"
    "sq_ok (\<lambda>_. True) mset q" "maxSz q = maxSz (cmds w)"
    "mset (queue q) = (if ok then add_mset c (mset (queue (cmds w))) else mset (queue (cmds w)))" by blast
  then show ?thesis using assms
    by (auto simp: PushInternalCmd_def worker_ok_def in_hand_def dest: arg_cong [where f = size])
qed

lemma post_ok:
  assumes "wok w" and "0 < unposted w"
  shows "\<exists>w'. SignalPost w = Some w' \<and> wok (w'\<lparr>unposted := unposted w' - 1\<rparr>) \<and> in_hand w' = in_hand w \<and> mailbox w' = mailbox w"
  using assms by (auto simp: SignalPost_def worker_ok_def sq_ok_def in_hand_def)

text \<open>The invariant holds in every reachable state, and no accepted task is lost or handled twice.\<close>

lemma run_ok:
  assumes "worker_run B w0 acc out w" and "wok w0" and "bag (queue (mailbox w0)) = {#}" and "in_hand w0 = []"
  shows "wok w \<and> mset acc = mset out + mset (in_hand w) + bag (queue (mailbox w))"
  using assms
proof (induction rule: worker_run.induct)
  case (move acc out w timeout w')
  then show ?case using move_ok [of w timeout] by (auto simp: union_assoc)
next
  case (push acc out w t ok w')
  then obtain ok' w'' where "PushTaskToContainer B t w = Some (ok', w'')"
     "wok (w''\<lparr>unposted := unposted w'' + (if ok' then 1 else 0)\<rparr>)" "in_hand w'' = in_hand w"
     "bag (queue (mailbox w'')) = (if ok' then add_mset t (bag (queue (mailbox w))) else bag (queue (mailbox w)))"
    using push_ok by blast
  with push show ?case by (auto simp: in_hand_def)
next
  case (push_cmd acc out w c ok w')
  then obtain ok' w'' where "PushInternalCmd c w = Some (ok', w'')"
     "wok (w''\<lparr>unposted := unposted w'' + (if ok' then 1 else 0)\<rparr>)" "in_hand w'' = in_hand w" "mailbox w'' = mailbox w"
    using push_cmd_ok by blast
  with push_cmd show ?case by (auto simp: in_hand_def)
next
  case (post acc out w w')
  then show ?case using post_ok [of w] by (auto simp: in_hand_def)
next
  case (env acc out w x)
  then show ?case using envir by (auto simp: worker_ok_def in_hand_def)
qed simp

lemma took_woken:
  assumes "wok w" and "at w = Woken"
  shows "\<exists>w'. moves B 1 w = Moved w' \<and> took bag w w'"
proof -
  obtain w' where w': "GetRunTask_fetch B w = Some w'"
     "case queue (cmds w) of
        c # cs \<Rightarrow> at w' = Stopped \<and> queue (cmds w') = cs \<and> mailbox w' = mailbox w
      | [] \<Rightarrow> \<exists>t. at w' = Handling (Some t) \<and> cmds w' = cmds w \<and>
          SpinlockQueue_PopFront (bo_queue B) (mailbox w) = Some (Some t, mailbox w') \<and>
          bag (queue (mailbox w)) = add_mset t (bag (queue (mailbox w')))"
    using fetch [OF assms] by blast
  have "took bag w w'" using w'(2) by (cases "queue (cmds w)") (auto simp: took_def)
  then show ?thesis using w'(1) assms(2) by (simp add: worker_move_def from_option_def)
qed

lemma took_waiting:
  assumes "wok w" and "at w = Waiting req \<or> at w = TimedWait req" and "0 < sem w"
  shows "\<exists>w'. moves B 2 w = Moved w' \<and> took bag w w'"
proof -
  let ?w = "w\<lparr>sem := sem w - 1, at := Woken\<rparr>"
  have m: "worker_move B False w = Moved ?w"
    using assms by (auto simp: worker_move_def GetRunTask_wait_def SignalConsumeTimeout_def TryConsume_def)
  have "wok ?w" using assms by (auto simp: worker_ok_def in_hand_def)
  then obtain w' where "moves B 1 ?w = Moved w'" "took bag ?w w'" using took_woken by fastforce
  then show ?thesis using m by (auto simp: took_def numeral_2_eq_2 split: if_splits)
qed

lemma took_head:
  assumes "wok w" and "at w = AtHead" and "0 < sem w" and "\<And>x. xok x \<Longrightarrow> \<exists>x'. bo_prepare B x = Moved (True, x')"
  shows "\<exists>w'. moves B 3 w = Moved w' \<and> took bag w w'"
proof -
  have xok: "xok (ext w)" using assms by (simp add: worker_ok_def)
  with assms(4) obtain x where x: "bo_prepare B (ext w) = Moved (True, x)" by blast
  let ?w = "w\<lparr>ext := x, at := Waiting 0\<rparr>"
  have m: "worker_move B False w = Moved ?w" using assms x by (simp add: worker_move_def)
  have "ready x" using prepare [OF xok] x by simp
  then have "wok ?w" using assms by (simp add: worker_ok_def in_hand_def)
  then obtain w' where "moves B 2 ?w = Moved w'" "took bag ?w w'" using took_waiting [of ?w 0] assms(3) by auto
  then show ?thesis using m by (auto simp: took_def numeral_3_eq_3 numeral_2_eq_2 split: if_splits)
qed

lemma took_any:
  assumes "wok w" and "unposted w = 0" and "at w \<noteq> Stopped" and "\<And>x. xok x \<Longrightarrow> \<exists>x'. bo_prepare B x = Moved (True, x')"
    and "queue (cmds w) \<noteq> [] \<or> bag (queue (mailbox w)) \<noteq> {#}"
  shows "\<exists>n \<le> 4. \<exists>w'. moves B n w = Moved w' \<and> took bag w w'"
proof (cases "at w = Woken")
  case True
  have "(1 :: nat) \<le> 4" by simp
  with True took_woken [OF assms(1)] show ?thesis by blast
next
  case False
  have "0 < size (bag (queue (mailbox w))) + length (queue (cmds w))"
    using assms(5) by (auto simp: nonempty_has_size)
  then have sem: "0 < sem w" using assms(1,2) False by (auto simp: worker_ok_def)
  show ?thesis
  proof (cases "at w")
    case (Handling msg)
    then obtain t where t: "msg = Some t" using assms by (cases msg) (auto simp: worker_ok_def)
    obtain w1 where w1: "Run_handle B (Some t) w = Some w1" "wok w1" "at w1 = AtHead" "sem w1 = sem w"
      "mailbox w1 = mailbox w" "cmds w1 = cmds w" using handling [OF assms(1)] Handling t by blast
    then obtain w' where "moves B 3 w1 = Moved w'" "took bag w1 w'" using took_head [of w1, OF _ _ _ assms(4)] sem by metis
    moreover have "took bag w w'" using \<open>took bag w1 w'\<close> w1(5,6) unfolding took_def by metis
    moreover have "moves B (Suc 3) w = moves B 3 w1"
      unfolding moves.simps(2) using Handling t w1(1) by (simp add: worker_move_def from_option_def)
    ultimately have "moves B 4 w = Moved w' \<and> took bag w w'" by simp
    then show ?thesis by blast
  next
    case AtHead
    have "(3 :: nat) \<le> 4" by simp
    with AtHead took_head [OF assms(1) _ sem assms(4)] show ?thesis by blast
  next
    case (Waiting req)
    have "(2 :: nat) \<le> 4" by simp
    with Waiting took_waiting [OF assms(1) _ sem] show ?thesis by blast
  next
    case (TimedWait req)
    have "(2 :: nat) \<le> 4" by simp
    with TimedWait took_waiting [OF assms(1) _ sem] show ?thesis by blast
  qed (use assms(3) False in auto)
qed

end

text \<open>Over a container that keeps the order, so does the worker.\<close>

locale fifo_worker = worker_body B okq "\<lambda>q. mset (items q)" best xok ready + fifo_container "bo_queue B" okq items best
  for B :: "('q, 'x) body_ops" and okq :: "'q \<Rightarrow> bool" and items :: "'q \<Rightarrow> ITask list" and best :: "ITask \<Rightarrow> 'q \<Rightarrow> bool"
    and xok :: "'x \<Rightarrow> bool" and ready :: "'x \<Rightarrow> bool"
begin

lemma pop_fifo:
  assumes "sq_ok okq (\<lambda>q. mset (items q)) s" and "SpinlockQueue_PopFront (bo_queue B) s = Some (Some t, s')"
  shows "items (queue s) = t # items (queue s')"
proof -
  have ne: "items (queue s) \<noteq> []" using PopFront_ok [OF assms(1)] assms(2) by auto
  obtain x q' where "SpinlockQueue_PopFront (bo_queue B) s = Some (Some x, s\<lparr>queue := q'\<rparr>)"
    "q_front (bo_queue B) (queue s) = Some x" "q_pop (bo_queue B) (queue s) = Some q'"
    using PopFront_ok [OF assms(1)] ne by auto
  with pop_items [of "queue s"] assms show ?thesis by (auto simp: sq_ok_def)
qed

lemma push_fifo:
  assumes "sq_ok okq (\<lambda>q. mset (items q)) s" and "SpinlockQueue_PushBack (bo_queue B) t s = Some (ok, s')"
  shows "items (queue s') = items (queue s) @ (if ok then [t] else [])"
  using PushBack_ok [OF assms(1), of t] push_items [of "queue s" t] assms by (auto simp: sq_ok_def split: if_splits)

lemma move_fifo:
  assumes "wok w" and "worker_move B timeout w = Moved w'"
  shows "in_hand w' @ items (queue (mailbox w')) = items (queue (mailbox w))"
proof (cases "at w")
  case Woken
  show ?thesis
  proof (cases "queue (cmds w)")
    case Nil
    then obtain t where "at w' = Handling (Some t)"
      "SpinlockQueue_PopFront (bo_queue B) (mailbox w) = Some (Some t, mailbox w')"
      using fetch [OF assms(1) Woken] assms(2) Woken by (auto simp: worker_move_def from_option_def)
    with pop_fifo [of "mailbox w" t "mailbox w'"] assms(1) show ?thesis by (simp add: in_hand_def worker_ok_def)
  next
    case (Cons c cs)
    then show ?thesis using fetch [OF assms(1) Woken] assms(2) Woken
      by (auto simp: worker_move_def from_option_def in_hand_def)
  qed
next
  case (Handling msg)
  then obtain t where "msg = Some t" using assms(1) by (cases msg) (auto simp: worker_ok_def)
  then show ?thesis using handling [OF assms(1), of t] Handling assms(2)
    by (auto simp: worker_move_def from_option_def in_hand_def)
next
  case AtHead
  then show ?thesis using assms by (auto simp: worker_move_def in_hand_def split: outcome.splits if_splits)
next
  case (Waiting req)
  then show ?thesis using wait_move [OF assms(1) _ assms(2)] by simp
next
  case (TimedWait req)
  then show ?thesis using wait_move [OF assms(1) _ assms(2)] by simp
qed (use assms in \<open>simp add: worker_move_def\<close>)

lemma fifo_run:
  assumes "worker_run B w0 acc out w" and "wok w0" and "items (queue (mailbox w0)) = []" and "in_hand w0 = []"
  shows "acc = out @ in_hand w @ items (queue (mailbox w))"
  using assms
proof (induction rule: worker_run.induct)
  case (move acc out w timeout w')
  then have "wok w" using run_ok by simp
  then show ?case using move move_fifo [of w timeout w'] by simp
next
  case (push acc out w t ok w')
  then have "sq_ok okq (\<lambda>q. mset (items q)) (mailbox w)" using run_ok by (auto simp: worker_ok_def)
  then show ?case using push push_fifo [of "mailbox w" t] by (auto simp: PushTaskToContainer_def in_hand_def)
next
  case (push_cmd acc out w c ok w')
  then show ?case by (auto simp: PushInternalCmd_def in_hand_def)
next
  case (post acc out w w')
  then show ?case by (auto simp: SignalPost_def in_hand_def split: if_splits)
next
  case (env acc out w x)
  then show ?case by (simp add: in_hand_def)
qed simp

end

interpretation tw: fifo_worker "task_body run" "\<lambda>_. True" "\<lambda>q. q" "\<lambda>x q. x = hd q" "\<lambda>_. True" "\<lambda>_. True" for run
proof (unfold_locales, goal_cases)
  case (4 q)
  then show ?case by (cases q) (auto simp: task_body_def DequeQueue_def)
qed (auto simp: task_body_def DequeQueue_def split: list.splits)

section \<open>Properties\<close>

definition new_worker :: "bool \<Rightarrow> bool \<Rightarrow> int \<Rightarrow> 'x \<Rightarrow> (ITask list, 'x) WorkerBody" where
  "new_worker enable ntf maxMsgSize x = EnableNotify enable (WorkerBody_init ntf maxMsgSize [] x)"

lemma new_worker_ok:
  assumes "0 \<le> m" and "m < 2 ^ 30"
  shows "worker_ok (\<lambda>_. True) mset (\<lambda>_. True) (\<lambda>_. True) (new_worker enable ntf m x) \<and>
     queue (mailbox (new_worker enable ntf m x)) = [] \<and> in_hand (new_worker enable ntf m x) = []"
proof -
  have "unat (word_of_int m :: 64 word) = nat m" using assms by (simp add: unat_eq_nat_uint uint_word_of_int)
  then show ?thesis using assms
    by (simp add: new_worker_def EnableNotify_def WorkerBody_init_def worker_ok_def sq_ok_def SpinlockQueue_init_def
        in_hand_def SEM_VALUE_MAX_def DEFAULT_WORKER_TASK_MSG_SIZE_def)
qed

text \<open>
  C15. A worker under any interleaving of its own moves with the pushes and posts of other threads: the tasks
  accepted are, in order, those handled, the one in hand and those in the mailbox; the worker never gets a
  \<open>NULL\<close> task out of \<open>GetRunTask\<close>; and no post of a producer fails.
\<close>

theorem worker_tasks_fifo:
  assumes "0 \<le> m" and "m < 2 ^ 30" and "worker_run (task_body run) (new_worker enable ntf m x) acc out w"
  shows "acc = out @ in_hand w @ queue (mailbox w) \<and> worker_move (task_body run) timeout w \<noteq> Fault \<and>
     at w \<noteq> Handling None \<and> (unposted w = 0 \<or> SignalPost w \<noteq> None)"
proof -
  note new = new_worker_ok [OF assms(1,2), of enable ntf x]
  have ok: "worker_ok (\<lambda>_. True) mset (\<lambda>_. True) (\<lambda>_. True) w" using tw.run_ok [OF assms(3)] new by simp
  moreover have "acc = out @ in_hand w @ queue (mailbox w)" using tw.fifo_run [OF assms(3)] new by simp
  moreover have "worker_move (task_body run) timeout w \<noteq> Fault" using tw.move_ok [OF ok] by blast
  moreover have "unposted w = 0 \<or> SignalPost w \<noteq> None" using tw.post_ok [OF ok] by fastforce
  ultimately show ?thesis by (simp add: worker_ok_def)
qed

text \<open>
  C16. No wake-up is lost: whatever happened before, once every producer has posted, a worker that has not
  stopped and has something queued gets at it within four moves of its own, at a task of its mailbox, or
  at the exit command, which it takes first and which stops it.
\<close>

theorem worker_progress:
  assumes "0 \<le> m" and "m < 2 ^ 30" and "worker_run (task_body run) (new_worker enable ntf m x) acc out w"
    and "unposted w = 0" and "at w \<noteq> Stopped" and "queue (cmds w) \<noteq> [] \<or> queue (mailbox w) \<noteq> []"
  shows "\<exists>n \<le> 4. \<exists>w'. moves (task_body run) n w = Moved w' \<and>
     (if queue (cmds w) = [] then \<exists>t \<in> set (queue (mailbox w)). at w' = Handling (Some t) else at w' = Stopped)"
proof -
  note new = new_worker_ok [OF assms(1,2), of enable ntf x]
  have ok: "worker_ok (\<lambda>_. True) mset (\<lambda>_. True) (\<lambda>_. True) w" using tw.run_ok [OF assms(3)] new by simp
  have "\<exists>x'. bo_prepare (task_body run) y = Moved (True, x')" for y by (simp add: task_body_def)
  moreover have "queue (cmds w) \<noteq> [] \<or> mset (queue (mailbox w)) \<noteq> {#}" using assms(6) by simp
  ultimately obtain n w' where n: "n \<le> 4" "moves (task_body run) n w = Moved w'" "took mset w w'"
    using tw.took_any [OF ok assms(4,5)] by blast
  have "if queue (cmds w) = [] then \<exists>t \<in> set (queue (mailbox w)). at w' = Handling (Some t) else at w' = Stopped"
    using n(3) unfolding took_def by (metis set_mset_mset union_single_eq_member)
  with n(1,2) show ?thesis by blast
qed

text \<open>Sample: one task pushed and posted to a worker with notifications.\<close>

lemma sample_run:
  "worker_run (task_body (\<lambda>t x. x + 1)) (new_worker True True 8 (0 :: nat)) [ITask_init 7 True TP_HIGH] []
     ((new_worker True True 8 0)\<lparr>mailbox := (SpinlockQueue_init 8 [ITask_init 7 True TP_HIGH]), sem := 1\<rparr>)"
proof -
  let ?w = "new_worker True True 8 (0 :: nat)" and ?t = "ITask_init 7 True TP_HIGH"
  let ?w1 = "?w\<lparr>mailbox := SpinlockQueue_init 8 [?t]\<rparr>"
  have "PushTaskToContainer (task_body (\<lambda>t x. x + 1)) ?t ?w = Some (True, ?w1)"
    by (simp add: PushTaskToContainer_def SpinlockQueue_PushBack_def spin_lock_def spin_unlock_def task_body_def
        DequeQueue_def new_worker_def EnableNotify_def WorkerBody_init_def SpinlockQueue_init_def)
  from worker_run.push [OF worker_run.start this]
  have "worker_run (task_body (\<lambda>t x. x + 1)) ?w [?t] [] (?w1\<lparr>unposted := 1\<rparr>)"
    by (simp add: new_worker_def EnableNotify_def WorkerBody_init_def)
  from worker_run.post [OF this, of "?w1\<lparr>unposted := 1, sem := 1\<rparr>"] show ?thesis
    by (simp add: SignalPost_def SEM_VALUE_MAX_def new_worker_def EnableNotify_def WorkerBody_init_def)
qed

theorem worker_tasks_fifo_witness:
  "\<exists>w :: (ITask list, nat) WorkerBody. worker_run (task_body (\<lambda>t x. x + 1)) (new_worker True True 8 0) [ITask_init 7 True TP_HIGH] [] w \<and>
     [ITask_init 7 True TP_HIGH] = in_hand w @ queue (mailbox w) \<and> at w \<noteq> Handling None"
  using worker_tasks_fifo [OF _ _ sample_run] sample_run by fastforce

theorem worker_progress_witness:
  "\<exists>n w'. n \<le> 4 \<and> moves (task_body (\<lambda>t x. x + 1)) n
      ((new_worker True True 8 (0 :: nat))\<lparr>mailbox := (SpinlockQueue_init 8 [ITask_init 7 True TP_HIGH]), sem := 1\<rparr>) = Moved w' \<and>
     at w' = Handling (Some (ITask_init 7 True TP_HIGH))"
  using worker_progress [OF _ _ sample_run]
  by (fastforce simp: new_worker_def EnableNotify_def WorkerBody_init_def SpinlockQueue_init_def)

lemma ClearAllTask_step:
  assumes "\<not> lock (mailbox w)" and "queue (mailbox w) = t # ts" and "0 < sem w"
  shows "ClearAllTask (task_body run) w =
     ClearAllTask (task_body run) (CleanRunTask (Some t) (w\<lparr>sem := sem w - 1, mailbox := (mailbox w)\<lparr>queue := ts\<rparr>\<rparr>))"
proof -
  have "HasTask (task_body run) w = Some True"
    using assms by (simp add: HasTask_def SpinlockQueue_IsEmpty_def spin_lock_def task_body_def DequeQueue_def)
  moreover have "TryGetTask (task_body run) w = Some (Some t, w\<lparr>sem := sem w - 1, mailbox := (mailbox w)\<lparr>queue := ts\<rparr>\<rparr>)"
    using assms by (simp add: TryGetTask_def TryConsume_def GetTaskFromContainer_def
        SpinlockQueue_PopFront_def spin_lock_def spin_unlock_def task_body_def DequeQueue_def)
  ultimately show ?thesis by (subst ClearAllTask.simps) simp
qed

lemma ClearAllTask_all:
  assumes "\<not> lock (mailbox w)" and "length (queue (mailbox w)) \<le> sem w"
  shows "\<exists>w'. ClearAllTask (task_body run) w = Some w' \<and> queue (mailbox w') = [] \<and>
     freed w' = freed w @ map it_id (filter ShouldDelete (queue (mailbox w))) \<and>
     sem w' + length (queue (mailbox w)) = sem w \<and> cmds w' = cmds w"
  using assms
proof (induction "queue (mailbox w)" arbitrary: w)
  case Nil
  then show ?case
    by (subst ClearAllTask.simps)
      (simp add: HasTask_def SpinlockQueue_IsEmpty_def spin_lock_def task_body_def DequeQueue_def)
next
  case (Cons t ts)
  let ?w = "CleanRunTask (Some t) (w\<lparr>sem := sem w - 1, mailbox := (mailbox w)\<lparr>queue := ts\<rparr>\<rparr>)"
  have w: "mailbox ?w = (mailbox w)\<lparr>queue := ts\<rparr>" "sem ?w = sem w - 1" "cmds ?w = cmds w"
    "freed ?w = freed w @ (if ShouldDelete t then [it_id t] else [])" by (simp_all add: CleanRunTask_def)
  have pos: "0 < sem w" using Cons.hyps(2) [symmetric] Cons.prems(2) by simp
  have "length (queue (mailbox ?w)) \<le> sem ?w" using Cons.hyps(2) [symmetric] Cons.prems(2) w by simp
  then obtain w' where "ClearAllTask (task_body run) ?w = Some w'" "queue (mailbox w') = []"
    "freed w' = freed ?w @ map it_id (filter ShouldDelete ts)" "sem w' + length ts = sem ?w" "cmds w' = cmds ?w"
    using Cons.hyps(1) [of ?w] Cons.prems(1) w by auto
  moreover have "ClearAllTask (task_body run) w = ClearAllTask (task_body run) ?w"
    using ClearAllTask_step [OF Cons.prems(1) Cons.hyps(2) [symmetric] pos] .
  ultimately show ?case using Cons.hyps(2) [symmetric] w pos by auto
qed

text \<open>
  \<open>ClearAllTask\<close>, as the destructor of a stopped worker calls it, returns: every task left in the mailbox is
  taken out, those that ask for it are deleted, each once and in order, and the semaphore is left with
  exactly the units of the commands that are still queued.
\<close>

theorem clear_all_tasks:
  assumes "0 \<le> m" and "m < 2 ^ 30" and "worker_run (task_body run) (new_worker enable ntf m x) acc out w"
    and "unposted w = 0" and "at w = Stopped"
  shows "\<exists>w'. ClearAllTask (task_body run) w = Some w' \<and> queue (mailbox w') = [] \<and>
     freed w' = freed w @ map it_id (filter ShouldDelete (queue (mailbox w))) \<and>
     sem w' = length (queue (cmds w')) \<and> acc = out @ queue (mailbox w)"
proof -
  note new = new_worker_ok [OF assms(1,2), of enable ntf x]
  have ok: "worker_ok (\<lambda>_. True) mset (\<lambda>_. True) (\<lambda>_. True) w" using tw.run_ok [OF assms(3)] new by simp
  then have "\<not> lock (mailbox w)" "sem w = length (queue (mailbox w)) + length (queue (cmds w))"
    using assms(4,5) by (auto simp: worker_ok_def sq_ok_def)
  with ClearAllTask_all [of w run] obtain w' where "ClearAllTask (task_body run) w = Some w'" "queue (mailbox w') = []"
     "freed w' = freed w @ map it_id (filter ShouldDelete (queue (mailbox w)))"
     "sem w' + length (queue (mailbox w)) = sem w" "cmds w' = cmds w" by auto
  moreover have "acc = out @ queue (mailbox w)" using tw.fifo_run [OF assms(3)] new assms(5) by (simp add: in_hand_def)
  ultimately show ?thesis using \<open>sem w = _\<close> by auto
qed

text \<open>Sample: a worker that was told to stop before anything else.\<close>

lemma stopped_run:
  "\<exists>w. worker_run (task_body (\<lambda>t x. x)) (new_worker False False 8 ()) [ITask_init 7 True TP_LOW] [] w \<and>
     unposted w = 0 \<and> at w = Stopped \<and> queue (mailbox w) = [ITask_init 7 True TP_LOW] \<and> freed w = []"
proof -
  let ?B = "task_body (\<lambda>t (x :: unit). x)" and ?t = "ITask_init 7 True TP_LOW" and ?w0 = "new_worker False False 8 ()"
  let ?w1 = "?w0\<lparr>mailbox := SpinlockQueue_init 8 [?t]\<rparr>"
  let ?w2 = "?w1\<lparr>cmds := SpinlockQueue_init 1024 [DummyExitTask]\<rparr>"
  have new: "unposted ?w0 = 0" "sem ?w0 = 0" "at ?w0 = AtHead" "cmds ?w0 = SpinlockQueue_init 1024 []"
    "mailbox ?w0 = SpinlockQueue_init 8 []" "\<not> notify ?w0" "freed ?w0 = []"
    by (simp_all add: new_worker_def EnableNotify_def WorkerBody_init_def DEFAULT_WORKER_TASK_MSG_SIZE_def)
  have "PushTaskToContainer ?B ?t ?w0 = Some (True, ?w1)"
    by (simp add: new PushTaskToContainer_def SpinlockQueue_PushBack_def spin_lock_def spin_unlock_def task_body_def
        DequeQueue_def SpinlockQueue_init_def)
  from worker_run.push [OF worker_run.start this] have r1: "worker_run ?B ?w0 [?t] [] (?w1\<lparr>unposted := 1\<rparr>)" by (simp add: new)
  have "PushInternalCmd DummyExitTask (?w1\<lparr>unposted := 1\<rparr>) = Some (True, ?w2\<lparr>unposted := 1\<rparr>)"
    by (simp add: new PushInternalCmd_def SpinlockQueue_PushBack_def spin_lock_def spin_unlock_def
        DequeQueue_def SpinlockQueue_init_def)
  from worker_run.push_cmd [OF r1 this] have r2: "worker_run ?B ?w0 [?t] [] (?w2\<lparr>unposted := 2\<rparr>)" by (simp add: numeral_2_eq_2)
  have r3: "worker_run ?B ?w0 [?t] [] (?w2\<lparr>unposted := 1, sem := 1\<rparr>)"
    using worker_run.post [OF r2, of "?w2\<lparr>unposted := 2, sem := 1\<rparr>"] by (simp add: new_worker_def EnableNotify_def WorkerBody_init_def SignalPost_def SEM_VALUE_MAX_def)
  have r4: "worker_run ?B ?w0 [?t] [] (?w2\<lparr>unposted := 0, sem := 2\<rparr>)"
    using worker_run.post [OF r3, of "?w2\<lparr>unposted := 1, sem := 2\<rparr>"] by (simp add: new_worker_def EnableNotify_def WorkerBody_init_def SignalPost_def SEM_VALUE_MAX_def)
  have r5: "worker_run ?B ?w0 [?t] [] (?w2\<lparr>unposted := 0, sem := 2, at := Waiting 0\<rparr>)"
    using worker_run.move [OF r4, of False "?w2\<lparr>unposted := 0, sem := 2, at := Waiting 0\<rparr>"]
    by (simp add: new_worker_def EnableNotify_def WorkerBody_init_def worker_move_def task_body_def in_hand_def)
  have r6: "worker_run ?B ?w0 [?t] [] (?w2\<lparr>unposted := 0, sem := 1, at := Woken\<rparr>)"
    using worker_run.move [OF r5, of False "?w2\<lparr>unposted := 0, sem := 1, at := Woken\<rparr>"]
    by (simp add: new_worker_def EnableNotify_def WorkerBody_init_def worker_move_def GetRunTask_wait_def in_hand_def)
  let ?w3 = "?w1\<lparr>cmds := SpinlockQueue_init 1024 [], unposted := 0, sem := 1, ShouldStop := True, at := Stopped\<rparr>"
  have "worker_run ?B ?w0 [?t] [] ?w3"
    using worker_run.move [OF r6, of False ?w3]
    by (simp add: new_worker_def EnableNotify_def WorkerBody_init_def worker_move_def from_option_def GetRunTask_fetch_def GetInternalCmd_def SpinlockQueue_IsEmpty_def
        SpinlockQueue_PopFront_def spin_lock_def spin_unlock_def DequeQueue_def SpinlockQueue_init_def
        ProcessInternalCmd_def SetExitState_def next_iteration_def in_hand_def)
  then show ?thesis by (intro exI [of _ ?w3]) (simp add: new_worker_def EnableNotify_def WorkerBody_init_def SpinlockQueue_init_def)
qed

theorem clear_all_tasks_witness:
  "\<exists>w w'. worker_run (task_body (\<lambda>t x. x)) (new_worker False False 8 ()) [ITask_init 7 True TP_LOW] [] w \<and>
     ClearAllTask (task_body (\<lambda>t x. x)) w = Some w' \<and> queue (mailbox w') = [] \<and> freed w' = [7]"
proof -
  obtain w where w: "worker_run (task_body (\<lambda>t x. x)) (new_worker False False 8 ()) [ITask_init 7 True TP_LOW] [] w"
     "unposted w = 0" "at w = Stopped" "queue (mailbox w) = [ITask_init 7 True TP_LOW]" "freed w = []"
    using stopped_run by blast
  from clear_all_tasks [OF _ _ w(1-3)] w show ?thesis by (auto simp: ITask_init_def ShouldDelete_def)
qed

text \<open>
  \<open>TryGetTask\<close> takes a unit of the semaphore whatever it stands for: called on an idle worker whose only
  queued item is a command, it returns \<open>NULL\<close> and swallows the wake-up, and the worker stays blocked with
  the command in its queue.
\<close>

theorem exit_wakeup_stolen:
  assumes "0 \<le> m" and "m < 2 ^ 30" and "worker_run (task_body run) (new_worker False ntf m x) acc out w"
    and "unposted w = 0" and "at w = Waiting req" and "\<not> notify w" and "queue (mailbox w) = []" and "queue (cmds w) = [c]"
  shows "\<exists>w'. TryGetTask (task_body run) w = Some (None, w') \<and> queue (cmds w') = [c] \<and>
     worker_move (task_body run) timeout w' = Blocked"
proof -
  note new = new_worker_ok [OF assms(1,2), of False ntf x]
  have ok: "worker_ok (\<lambda>_. True) mset (\<lambda>_. True) (\<lambda>_. True) w" using tw.run_ok [OF assms(3)] new by simp
  then have "sem w = 1" "\<not> lock (mailbox w)" using assms(4-8) by (auto simp: worker_ok_def sq_ok_def)
  then have "TryGetTask (task_body run) w = Some (None, w\<lparr>sem := 0, mailbox := mailbox w\<rparr>)"
    using assms(7) by (simp add: TryGetTask_def TryConsume_def GetTaskFromContainer_def SpinlockQueue_PopFront_def
        spin_lock_def spin_unlock_def task_body_def DequeQueue_def)
  then show ?thesis using assms(5,6,8)
    by (intro exI [of _ "w\<lparr>sem := 0, mailbox := mailbox w\<rparr>"]) (simp add: worker_move_def GetRunTask_wait_def)
qed

lemma idle_run:
  "\<exists>w. worker_run (task_body (\<lambda>t x. x)) (new_worker False False 8 ()) [] [] w \<and>
     unposted w = 0 \<and> at w = Waiting 0 \<and> \<not> notify w \<and> queue (mailbox w) = [] \<and> queue (cmds w) = [DummyExitTask]"
proof -
  let ?B = "task_body (\<lambda>t (x :: unit). x)" and ?w0 = "new_worker False False 8 ()"
  let ?w1 = "?w0\<lparr>cmds := SpinlockQueue_init 1024 [DummyExitTask]\<rparr>"
  have "PushInternalCmd DummyExitTask ?w0 = Some (True, ?w1)"
    by (simp add: new_worker_def EnableNotify_def WorkerBody_init_def PushInternalCmd_def SpinlockQueue_PushBack_def
        spin_lock_def spin_unlock_def DequeQueue_def SpinlockQueue_init_def DEFAULT_WORKER_TASK_MSG_SIZE_def)
  from worker_run.push_cmd [OF worker_run.start this] have r1: "worker_run ?B ?w0 [] [] (?w1\<lparr>unposted := 1\<rparr>)"
    by (simp add: new_worker_def EnableNotify_def WorkerBody_init_def)
  have r2: "worker_run ?B ?w0 [] [] (?w1\<lparr>unposted := 0, sem := 1\<rparr>)"
    using worker_run.post [OF r1, of "?w1\<lparr>unposted := 1, sem := 1\<rparr>"]
    by (simp add: new_worker_def EnableNotify_def WorkerBody_init_def SignalPost_def SEM_VALUE_MAX_def)
  let ?w2 = "?w1\<lparr>unposted := 0, sem := 1, at := Waiting 0\<rparr>"
  have "worker_run ?B ?w0 [] [] ?w2"
    using worker_run.move [OF r2, of False ?w2]
    by (simp add: new_worker_def EnableNotify_def WorkerBody_init_def worker_move_def task_body_def in_hand_def)
  then show ?thesis
    by (intro exI [of _ ?w2])
      (simp add: new_worker_def EnableNotify_def WorkerBody_init_def SpinlockQueue_init_def)
qed

theorem exit_wakeup_stolen_witness:
  "\<exists>w w'. worker_run (task_body (\<lambda>t x. x)) (new_worker False False 8 ()) [] [] w \<and>
     TryGetTask (task_body (\<lambda>t x. x)) w = Some (None, w') \<and> queue (cmds w') = [DummyExitTask] \<and>
     worker_move (task_body (\<lambda>t x. x)) True w' = Blocked"
proof -
  obtain w where w: "worker_run (task_body (\<lambda>t x. x)) (new_worker False False 8 ()) [] [] w"
     "unposted w = 0" "at w = Waiting 0" "\<not> notify w" "queue (mailbox w) = []" "queue (cmds w) = [DummyExitTask]"
    using idle_run by blast
  from exit_wakeup_stolen [OF _ _ w, of True] w(1) show ?thesis by auto
qed

end
