(* ===== verification/ThreadPool.thy ===== *)
theory ThreadPool
  imports Worker
begin

unbundle bit_operations_syntax

text \<open>
  \<open>thread/ThreadPool.{h,cc}\<close>: the dispatcher, a worker whose tasks are handed on to the workers of the pool,
  and the pool itself. The dispatcher's own state is the \<open>ext\<close> part of its body; the workers of the pool
  move in its environment, and what they signal goes to \<open>SetWorkerNotify\<close>. What a task's \<open>Run\<close> does is the
  parameter \<open>run\<close>; the joins of \<open>StopWorker\<close> and \<open>StopPooling\<close> are not steps of their own: a thread that is
  joined is one whose phase is \<open>Stopped\<close>.
\<close>

section \<open>The dispatcher\<close>

definition CompareTaskPriority :: "ITask \<Rightarrow> ITask \<Rightarrow> bool" where
  "CompareTaskPriority x y \<longleftrightarrow> prio_val (Priority x) \<ge> prio_val (Priority y)"

record 'x Dispatcher =
  workerNum :: int
  freeWorkerBit :: "64 word"
  workerNotify :: nat
  freeWorker :: "nat option"
  workers :: "(ITask list, 'x) WorkerBody list"

text \<open>A shift by the width or more, or by a negative amount, is undefined.\<close>

definition shift_ok :: "int \<Rightarrow> nat \<Rightarrow> bool" where
  "shift_ok n width \<longleftrightarrow> 0 \<le> n \<and> n < int width"

text \<open>\<open>1 << n\<close> is an \<open>int\<close>.\<close>

definition one_shl :: "int \<Rightarrow> int option" where
  "one_shl n = (if shift_ok n 32 then Some (signed_take_bit 31 (2 ^ nat n)) else None)"

definition Dispatcher_init :: "int \<Rightarrow> 'x \<Rightarrow> 'x Dispatcher option" where
  "Dispatcher_init num x =
     (if shift_ok (64 - num) 64
      then Some \<lparr>workerNum = num,
        freeWorkerBit = drop_bit (nat (64 - num)) (push_bit (nat (64 - num)) (NOT 0)),
        workerNotify = nat num, freeWorker = None,
        workers = replicate (nat num) (EnableNotify True (WorkerBody_init True DEFAULT_WORKER_TASK_MSG_SIZE [] x))\<rparr>
      else None)"

text \<open>The binary search of \<open>SelectFreeWorker\<close> for the bit \<open>sel\<close>; -1 when it is not found.\<close>

function select_loop :: "64 word \<Rightarrow> int \<Rightarrow> int \<Rightarrow> int option" where
  "select_loop sel s e =
     (if s \<le> e
      then (let m = (s + e) div 2 in
            if \<not> shift_ok m 64 then None
            else let i = push_bit (nat m) 1 in
              if i = sel then Some m
              else if i < sel then select_loop sel (m + 1) e
              else select_loop sel s (m - 1))
      else Some (-1))"
  by pat_completeness auto
termination
  by (relation "measure (\<lambda>(_, s, e). nat (e - s + 1))") (auto simp: Let_def)

declare select_loop.simps [simp del]

text \<open>\<open>None\<close> is the failing assertion, \<open>Some None\<close> the \<open>NULL\<close> result.\<close>

definition SelectFreeWorker :: "'x Dispatcher \<Rightarrow> nat option option" where
  "SelectFreeWorker D =
     (let b = freeWorkerBit D; sel = b AND (NOT b + 1) in
      if sel \<noteq> 0
      then do {
        c \<leftarrow> select_loop sel 0 (workerNum D - 1);
        if c \<ge> 0 \<and> c < workerNum D \<and> nat c < length (workers D) then Some (Some (nat c)) else None
      }
      else Some None)"

text \<open>The smallest number of tasks of a worker; the loop stops at 0.\<close>

fun pick_loop :: "int \<Rightarrow> int list \<Rightarrow> int" where
  "pick_loop miniTask [] = miniTask"
| "pick_loop miniTask (sz # szs) = (if miniTask = 0 then miniTask else pick_loop (if sz < miniTask then sz else miniTask) szs)"

definition PickIdleWorker :: "'x Dispatcher \<Rightarrow> int option" where
  "PickIdleWorker D = map_option (pick_loop 2147483647)
     (those (map (GetTaskNumber (task_body (\<lambda>_ x. x))) (take (nat (workerNum D)) (workers D))))"

text \<open>One turn of \<open>PrepareWorker\<close>.\<close>

definition PrepareWorker :: "'x Dispatcher \<Rightarrow> (bool \<times> 'x Dispatcher) outcome" where
  "PrepareWorker D =
     (if freeWorker D \<noteq> None then Moved (True, D)
      else if workerNotify D = 0 then Blocked
      else (let D = D\<lparr>workerNotify := workerNotify D - 1\<rparr> in
        case SelectFreeWorker D of
          None \<Rightarrow> Fault
        | Some None \<Rightarrow> Moved (False, D)
        | Some (Some w) \<Rightarrow> Moved (True, D\<lparr>freeWorker := Some w\<rparr>)))"

text \<open>What both branches of \<open>DispatchTask\<close> do with worker \<open>i\<close>: mark it busy, name it in the task and post the
  task to it. The result of the post is not looked at.\<close>

definition dispatch_to :: "nat \<Rightarrow> ITask \<Rightarrow> 'x Dispatcher \<Rightarrow> 'x Dispatcher option" where
  "dispatch_to i task D = do {
     m \<leftarrow> one_shl (int i);
     (_, w) \<leftarrow> PostTask (task_body (\<lambda>_ x. x)) (SetThreadId (int i) task) (workers D ! i);
     Some (D\<lparr>freeWorkerBit := freeWorkerBit D AND word_of_int (NOT m), workers := (workers D)[i := w]\<rparr>)
   }"

definition DispatchTask :: "ITask \<Rightarrow> 'x Dispatcher \<Rightarrow> 'x Dispatcher option" where
  "DispatchTask task D =
     (let aff = GetAffinity task in
      if aff < 0 \<or> aff \<ge> workerNum D
      then do {
        i \<leftarrow> freeWorker D;
        D' \<leftarrow> dispatch_to i task D;
        Some (D'\<lparr>freeWorker := None\<rparr>)
      }
      else dispatch_to (nat aff) task (if freeWorker D = Some (nat aff) then D\<lparr>freeWorker := None\<rparr> else D))"

definition HandleTask :: "ITask \<Rightarrow> 'x Dispatcher \<Rightarrow> (bool \<times> 'x Dispatcher) option" where
  "HandleTask task D = map_option (\<lambda>D'. (False, D')) (DispatchTask task D)"

definition SetWorkerNotify :: "nat \<Rightarrow> int \<Rightarrow> 'x Dispatcher \<Rightarrow> 'x Dispatcher option" where
  "SetWorkerNotify i ntype D =
     (if ntype < 0
      then map_option (\<lambda>m. D\<lparr>freeWorkerBit := freeWorkerBit D OR word_of_int m\<rparr>) (one_shl (int i))
      else Some (if workerNotify D < SEM_VALUE_MAX then D\<lparr>workerNotify := workerNotify D + 1\<rparr> else D))"

fun set_notifies :: "nat \<Rightarrow> int list \<Rightarrow> 'x Dispatcher \<Rightarrow> 'x Dispatcher option" where
  "set_notifies i [] D = Some D"
| "set_notifies i (n # ns) D = do { D' \<leftarrow> SetWorkerNotify i n D; set_notifies i ns D' }"

text \<open>Worker \<open>i\<close> moves, and its manager hears of it.\<close>

definition pool_worker_move :: "(ITask \<Rightarrow> 'x \<Rightarrow> 'x) \<Rightarrow> nat \<Rightarrow> bool \<Rightarrow> 'x Dispatcher \<Rightarrow> 'x Dispatcher outcome" where
  "pool_worker_move run i timeout D =
     (case worker_move (task_body run) timeout (workers D ! i) of
        Moved w \<Rightarrow> from_option (set_notifies i (signals w) (D\<lparr>workers := (workers D)[i := w\<lparr>signals := []\<rparr>]\<rparr>))
      | Fault \<Rightarrow> Fault
      | Blocked \<Rightarrow> Blocked)"

text \<open>The part of \<open>StopWorker\<close> for worker \<open>i\<close> that comes before the join.\<close>

definition stop_worker :: "nat \<Rightarrow> bool \<Rightarrow> 'x Dispatcher \<Rightarrow> 'x Dispatcher option" where
  "stop_worker i alloc_ok D = map_option (\<lambda>(_, w). D\<lparr>workers := (workers D)[i := w]\<rparr>) (StopRunning alloc_ok (workers D ! i))"

text \<open>What the other threads of the pool do to the dispatcher.\<close>

definition pool_env :: "(ITask \<Rightarrow> 'x \<Rightarrow> 'x) \<Rightarrow> 'x Dispatcher \<Rightarrow> 'x Dispatcher \<Rightarrow> bool" where
  "pool_env run D D' \<longleftrightarrow> (\<exists>i < length (workers D).
     (\<exists>timeout. pool_worker_move run i timeout D = Moved D') \<or> (\<exists>alloc_ok. stop_worker i alloc_ok D = Some D'))"

definition dispatcher_body :: "(ITask \<Rightarrow> 'x \<Rightarrow> 'x) \<Rightarrow> (ITask list, 'x Dispatcher) body_ops" where
  "dispatcher_body run = \<lparr>bo_queue = PriorityQueue CompareTaskPriority, bo_prepare = PrepareWorker,
     bo_handle = HandleTask, bo_env = pool_env run\<rparr>"

section \<open>The pool\<close>

definition CalcDefaultThreadNum :: "int \<Rightarrow> int" where
  "CalcDefaultThreadNum ncpu = (let num = (if ncpu \<le> 0 then 2 else ncpu) in if num > 64 then 64 else num)"

record 'x ThreadPool =
  running :: bool
  dispatcher :: "(ITask list, 'x Dispatcher) WorkerBody"

text \<open>\<open>ncpu\<close> is what \<open>sysconf\<close> reports. \<open>running_\<close> is not initialised: \<open>junk\<close>.\<close>

definition ThreadPool_init :: "bool \<Rightarrow> int \<Rightarrow> int \<Rightarrow> 'x \<Rightarrow> 'x ThreadPool option" where
  "ThreadPool_init junk ncpu num x = map_option
     (\<lambda>D. \<lparr>running = junk, dispatcher = WorkerBody_init False DEFAULT_WORKER_TASK_MSG_SIZE [] D\<rparr>)
     (Dispatcher_init (if num \<le> 0 then CalcDefaultThreadNum ncpu else num) x)"

definition ThreadPool_PostTask :: "(ITask \<Rightarrow> 'x \<Rightarrow> 'x) \<Rightarrow> ITask \<Rightarrow> 'x ThreadPool \<Rightarrow> (bool \<times> 'x ThreadPool) option" where
  "ThreadPool_PostTask run t P = map_option (\<lambda>(ok, d). (ok, P\<lparr>dispatcher := d\<rparr>)) (PostTask (dispatcher_body run) t (dispatcher P))"

definition ThreadPool_GetTaskNumber :: "(ITask \<Rightarrow> 'x \<Rightarrow> 'x) \<Rightarrow> 'x ThreadPool \<Rightarrow> int option" where
  "ThreadPool_GetTaskNumber run P = GetTaskNumber (dispatcher_body run) (dispatcher P)"

definition ThreadPool_IsRunning :: "'x ThreadPool \<Rightarrow> bool" where
  "ThreadPool_IsRunning P = running P"

section \<open>The lowest set bit\<close>

lemma low_bit_int: "0 < (b :: int) \<Longrightarrow> \<exists>l. b AND - b = 2 ^ l \<and> bit b l \<and> (\<forall>i < l. \<not> bit b i)"
proof (induction "nat b" arbitrary: b rule: less_induct)
  case less
  show ?case
  proof (cases "even b")
    case True
    then obtain k where k: "b = 2 * k" by blast
    with less.prems have "nat k < nat b" "0 < k" by auto
    from less.hyps [OF this] obtain l where l: "k AND - k = 2 ^ l" "bit k l" "\<And>i. i < l \<Longrightarrow> \<not> bit k i" by blast
    have "- (2 * k) div 2 = - k" by linarith
    then have "b AND - b = 2 * (k AND - k)" using and_rec [of b "- b"] k by simp
    moreover have "bit b (Suc l)" using l(2) k by (simp add: bit_Suc)
    moreover have "\<not> bit b i" if "i < Suc l" for i using that l(3) k by (cases i) (auto simp: bit_Suc bit_0)
    ultimately show ?thesis using l(1) by (intro exI [of _ "Suc l"]) auto
  next
    case False
    then obtain k where k: "b = 2 * k + 1" by (elim oddE)
    have "- b = 2 * (NOT k) + 1" by (simp add: k not_int_def)
    then have "b AND - b = 1 + 2 * (k AND NOT k)" using and_rec [of b "- b"] k by simp
    then show ?thesis using False by (intro exI [of _ 0]) (simp add: bit_0)
  qed
qed

lemma low_bit_word:
  fixes b :: "64 word"
  assumes "b \<noteq> 0"
  shows "\<exists>l < 64. b AND (NOT b + 1) = push_bit l 1 \<and> bit b l \<and> (\<forall>i < l. \<not> bit b i)"
proof -
  have "0 < uint b" using assms by (metis uint_0_iff uint_ge_0 order_le_imp_less_or_eq)
  then obtain l where l: "uint b AND - uint b = 2 ^ l" "bit (uint b) l" "\<And>i. i < l \<Longrightarrow> \<not> bit (uint b) i"
    using low_bit_int by blast
  have l64: "l < 64" using l(2) by (simp add: bit_uint_iff)
  have "b AND (NOT b + 1) = b AND - b" by (simp add: minus_eq_not_plus_1)
  also have "\<dots> = word_of_int (uint b) AND word_of_int (- uint b)" by simp
  also have "\<dots> = word_of_int (uint b AND - uint b)" by (simp only: of_int_and_eq)
  also have "\<dots> = push_bit l 1" using l(1) by (simp add: push_bit_eq_mult)
  finally show ?thesis using l l64 by (auto simp: bit_uint_iff)
qed

lemma unat_shl1: "m < 64 \<Longrightarrow> unat (push_bit m 1 :: 64 word) = 2 ^ m"
proof -
  assume m: "m < 64"
  have "unat (push_bit m 1 :: 64 word) = take_bit 64 (push_bit m (unat (1 :: 64 word)))"
    by (subst unsigned_push_bit_eq) simp
  also have "\<dots> = 2 ^ m" using m by (simp add: take_bit_nat_eq_self)
  finally show ?thesis .
qed

lemma shl1_less: "m < 64 \<Longrightarrow> l < 64 \<Longrightarrow> (push_bit m 1 :: 64 word) < push_bit l 1 \<longleftrightarrow> m < l"
  unfolding word_less_nat_alt by (simp add: unat_shl1 del: push_bit_of_1)

lemma shl1_eq: "m < 64 \<Longrightarrow> l < 64 \<Longrightarrow> (push_bit m 1 :: 64 word) = push_bit l 1 \<longleftrightarrow> m = l"
  using shl1_less [of m l] shl1_less [of l m] by (metis less_irrefl nat_neq_iff)

section \<open>The search for a free worker\<close>

lemma select_loop_finds:
  "0 \<le> s \<Longrightarrow> s \<le> int l \<Longrightarrow> int l \<le> e \<Longrightarrow> e < 64 \<Longrightarrow> select_loop (push_bit l 1) s e = Some (int l)"
proof (induction "nat (e - s + 1)" arbitrary: s e rule: less_induct)
  case less
  define m where "m = (s + e) div 2"
  have m: "s \<le> m" "m \<le> e" "shift_ok m 64" "nat m < 64" "l < 64" using less.prems by (auto simp: m_def shift_ok_def)
  have unf: "select_loop (push_bit l 1) s e =
     (if nat m = l then Some m else if nat m < l then select_loop (push_bit l 1) (m + 1) e else select_loop (push_bit l 1) s (m - 1))"
    using less.prems m
    by (subst select_loop.simps) (simp only: m_def [symmetric] Let_def shl1_eq shl1_less if_True not_True_eq_False if_False order_trans [of s "int l" e])
  consider "nat m = l" | "nat m < l" | "l < nat m" by linarith
  then show ?case
  proof cases
    case 1
    then show ?thesis using unf m less.prems by simp
  next
    case 2
    then show ?thesis using unf less.hyps [of e "m + 1"] m less.prems by simp
  next
    case 3
    then show ?thesis using unf less.hyps [of "m - 1" s] m less.prems by simp
  qed
qed

text \<open>What the pool's own threads rely on: every worker has its bit, and every worker is in order.\<close>

definition bits_ok :: "'x Dispatcher \<Rightarrow> bool" where
  "bits_ok D \<longleftrightarrow> 0 < workerNum D \<and> workerNum D \<le> 64 \<and> length (workers D) = nat (workerNum D) \<and>
     (\<forall>i. bit (freeWorkerBit D) i \<longrightarrow> int i < workerNum D)"

lemma SelectFreeWorker_find:
  assumes "bits_ok D"
  shows "SelectFreeWorker D = Some (find (bit (freeWorkerBit D)) [0..<nat (workerNum D)])"
proof (cases "freeWorkerBit D = 0")
  case True
  moreover have "find (bit (freeWorkerBit D)) [0..<nat (workerNum D)] = None" unfolding find_None_iff by (simp add: True)
  ultimately show ?thesis by (simp add: SelectFreeWorker_def)
next
  case False
  let ?b = "freeWorkerBit D"
  obtain l where l: "l < 64" "?b AND (NOT ?b + 1) = push_bit l 1" "bit ?b l" "\<And>i. i < l \<Longrightarrow> \<not> bit ?b i"
    using low_bit_word [OF False] by blast
  have num: "int l < workerNum D" "workerNum D \<le> 64" "length (workers D) = nat (workerNum D)"
    using assms l(3) by (auto simp: bits_ok_def)
  have "unat (push_bit l 1 :: 64 word) \<noteq> 0" using unat_shl1 [OF l(1)] by simp
  then have "(push_bit l 1 :: 64 word) \<noteq> 0" by (metis unat_0)
  moreover have "select_loop (push_bit l 1) 0 (workerNum D - 1) = Some (int l)"
    using num by (intro select_loop_finds) auto
  ultimately have "SelectFreeWorker D = Some (Some l)"
    using num unfolding SelectFreeWorker_def Let_def l(2) by simp
  moreover have "find (bit ?b) [0..<nat (workerNum D)] = Some l"
    using l num by (auto simp: find_Some_iff intro!: exI [of _ l])
  ultimately show ?thesis by simp
qed

section \<open>The dispatcher is a worker\<close>

text \<open>With at most 31 workers \<open>1 << id\<close> is a bit of its own.\<close>

definition disp_ok :: "'x Dispatcher \<Rightarrow> bool" where
  "disp_ok D \<longleftrightarrow> bits_ok D \<and> workerNum D \<le> 31 \<and>
     (\<forall>w \<in> set (workers D). worker_ok (\<lambda>_. True) mset (\<lambda>_. True) (\<lambda>_. True) w \<and> unposted w = 0) \<and>
     (\<forall>i. freeWorker D = Some i \<longrightarrow> i < length (workers D))"

definition disp_ready :: "'x Dispatcher \<Rightarrow> bool" where
  "disp_ready D \<longleftrightarrow> disp_ok D \<and> freeWorker D \<noteq> None"

lemma one_shl_small: "i < 31 \<Longrightarrow> one_shl (int i) = Some (2 ^ i)"
proof -
  assume "i < 31"
  then have "(2 :: int) ^ i < 2 ^ 31" by (rule power_strict_increasing) simp
  then have "signed_take_bit 31 (2 ^ i) = (2 :: int) ^ i"
    by (intro signed_take_bit_int_eq_self) (auto intro: order_trans [of _ 0])
  with \<open>i < 31\<close> show ?thesis by (simp add: one_shl_def shift_ok_def)
qed

lemma bit_word_2p: "bit (word_of_int (2 ^ i) :: 64 word) j \<Longrightarrow> j = i"
  by (simp add: bit_word_of_int_iff bit_exp_iff)

lemma PostTask_ok:
  assumes "worker_ok (\<lambda>_. True) mset (\<lambda>_. True) (\<lambda>_. True) w" and "unposted w = 0"
  shows "\<exists>ok w'. PostTask (task_body run) t w = Some (ok, w') \<and>
     worker_ok (\<lambda>_. True) mset (\<lambda>_. True) (\<lambda>_. True) w' \<and> unposted w' = 0"
proof -
  obtain ok w1 where p: "PushTaskToContainer (task_body run) t w = Some (ok, w1)"
     "worker_ok (\<lambda>_. True) mset (\<lambda>_. True) (\<lambda>_. True) (w1\<lparr>unposted := unposted w1 + (if ok then 1 else 0)\<rparr>)"
    using tw.push_ok [OF assms(1)] by blast
  have u: "unposted w1 = 0" using p(1) assms(2) by (auto simp: PushTaskToContainer_def)
  show ?thesis
  proof (cases ok)
    case True
    then obtain w2 where "SignalPost (w1\<lparr>unposted := 1\<rparr>) = Some w2"
      "worker_ok (\<lambda>_. True) mset (\<lambda>_. True) (\<lambda>_. True) (w2\<lparr>unposted := unposted w2 - 1\<rparr>)"
      using tw.post_ok [OF p(2)] u by auto
    then show ?thesis using p(1) True u by (auto simp: PostTask_def SignalPost_def worker_ok_def in_hand_def split: if_splits)
  next
    case False
    then show ?thesis using p u by (intro exI [of _ False] exI [of _ w1]) (simp add: PostTask_def worker_ok_def in_hand_def)
  qed
qed

lemma PostTask_handed:
  assumes "worker_ok (\<lambda>_. True) mset (\<lambda>_. True) (\<lambda>_. True) w" and "PostTask (task_body run) t w = Some (ok, w')"
  shows "if length (queue (mailbox w)) < unat (maxSz (mailbox w))
     then ok \<and> queue (mailbox w') = queue (mailbox w) @ [t] \<and> sem w' = sem w + 1 else \<not> ok \<and> w' = w"
proof -
  have "sq_ok (\<lambda>_. True) mset (mailbox w)" using assms(1) by (simp add: worker_ok_def)
  from dqc.PushBack_ok [OF this, of t] show ?thesis using assms(2)
    by (auto simp: PostTask_def PushTaskToContainer_def SignalPost_def task_body_def DequeQueue_def split: if_splits)
qed

text \<open>Task \<open>t\<close> has been handed on to worker \<open>i\<close>, in the state \<open>D\<close> of the dispatcher: it is the last one in the worker's mailbox, the worker's semaphore is
  one up, and the worker counts as busy; only when the mailbox was full already the task is not there. The other workers have not been touched.\<close>

definition handed_on :: "nat \<Rightarrow> ITask \<Rightarrow> 'x Dispatcher \<Rightarrow> 'x Dispatcher \<Rightarrow> bool" where
  "handed_on i t D D' \<longleftrightarrow> i < length (workers D) \<and> length (workers D') = length (workers D) \<and>
     (\<forall>j. j \<noteq> i \<longrightarrow> workers D' ! j = workers D ! j) \<and> \<not> bit (freeWorkerBit D') i \<and>
     (let m = mailbox (workers D ! i) in
      if length (queue m) < unat (maxSz m)
      then queue (mailbox (workers D' ! i)) = queue m @ [SetThreadId (int i) t] \<and> sem (workers D' ! i) = sem (workers D ! i) + 1
      else workers D' ! i = workers D ! i)"

text \<open>The worker a task goes to: the one it is bound to, or else the one that was found free.\<close>

definition target_worker :: "ITask \<Rightarrow> 'x Dispatcher \<Rightarrow> nat option" where
  "target_worker t D = (if 0 \<le> GetAffinity t \<and> GetAffinity t < workerNum D then Some (nat (GetAffinity t)) else freeWorker D)"

lemma StopRunning_ok:
  assumes "worker_ok (\<lambda>_. True) mset (\<lambda>_. True) (\<lambda>_. True) w" and "unposted w = 0" and "StopRunning alloc_ok w = Some (ok, w')"
  shows "worker_ok (\<lambda>_. True) mset (\<lambda>_. True) (\<lambda>_. True) w' \<and> unposted w' = 0"
proof (cases alloc_ok)
  case True
  obtain ok1 w1 where p: "PushInternalCmd DummyExitTask w = Some (ok1, w1)"
     "worker_ok (\<lambda>_. True) mset (\<lambda>_. True) (\<lambda>_. True) (w1\<lparr>unposted := unposted w1 + (if ok1 then 1 else 0)\<rparr>)"
    using tw.push_cmd_ok [OF assms(1)] by blast
  have u: "unposted w1 = 0" using p(1) assms(2) by (auto simp: PushInternalCmd_def)
  show ?thesis using p u True assms(3)
    by (cases ok1) (auto simp: StopRunning_def PostExit_def PostInternalCmd_def SignalPost_def worker_ok_def in_hand_def split: if_splits)
qed (use assms in \<open>simp add: StopRunning_def PostExit_def\<close>)

lemma move_unposted:
  assumes "worker_ok (\<lambda>_. True) mset (\<lambda>_. True) (\<lambda>_. True) w" and "worker_move (task_body run) timeout w = Moved w'"
  shows "unposted w' = unposted w"
proof (cases "at w")
  case Woken
  obtain w1 where "GetRunTask_fetch (task_body run) w = Some w1" "unposted w1 = unposted w"
    using tw.fetch [OF assms(1) Woken] by blast
  then show ?thesis using Woken assms(2) by (auto simp: worker_move_def from_option_def)
next
  case (Handling msg)
  then obtain t where "msg = Some t" using assms(1) by (cases msg) (auto simp: worker_ok_def)
  moreover obtain w1 where "Run_handle (task_body run) (Some t) w = Some w1" "unposted w1 = unposted w"
    using tw.handling [OF assms(1), of t] Handling calculation by blast
  ultimately show ?thesis using Handling assms(2) by (auto simp: worker_move_def from_option_def)
qed (use assms(2) in \<open>auto simp: worker_move_def worker_defs task_body_def split: if_splits\<close>)

lemma bits_ok_clear: "bits_ok D \<Longrightarrow> bits_ok (D\<lparr>freeWorkerBit := freeWorkerBit D AND m, workers := (workers D)[i := w]\<rparr>)"
  by (auto simp: bits_ok_def bit_and_iff)

lemma disp_ok_worker:
  "disp_ok D \<Longrightarrow> i < length (workers D) \<Longrightarrow>
   worker_ok (\<lambda>_. True) mset (\<lambda>_. True) (\<lambda>_. True) (workers D ! i) \<and> unposted (workers D ! i) = 0"
  by (simp add: disp_ok_def)

lemma disp_ok_length: "disp_ok D \<Longrightarrow> i < length (workers D) \<longleftrightarrow> int i < workerNum D"
  by (auto simp: disp_ok_def bits_ok_def)

lemma disp_ok_update:
  assumes "disp_ok D" and "worker_ok (\<lambda>_. True) mset (\<lambda>_. True) (\<lambda>_. True) w" and "unposted w = 0"
  shows "disp_ok (D\<lparr>workers := (workers D)[i := w]\<rparr>)"
  using assms by (auto simp: disp_ok_def bits_ok_def dest!: set_update_subset_insert [THEN subsetD])

lemma handed_on_free [simp]:
  "handed_on i t D (D'\<lparr>freeWorker := f\<rparr>) = handed_on i t D D'" "handed_on i t (D\<lparr>freeWorker := f\<rparr>) D' = handed_on i t D D'"
  by (simp_all add: handed_on_def)

lemma not_bit_clear: "\<not> bit (b AND word_of_int (NOT (2 ^ i)) :: 64 word) i"
  by (auto simp: bit_and_iff bit_word_of_int_iff bit_not_iff bit_exp_iff)

lemma dispatch_to_ok:
  assumes "disp_ok D" and "i < length (workers D)"
  shows "\<exists>D'. dispatch_to i t D = Some D' \<and> disp_ok D' \<and> freeWorker D' = freeWorker D \<and> handed_on i t D D'"
proof -
  obtain ok w where w: "PostTask (task_body (\<lambda>_ x. x)) (SetThreadId (int i) t) (workers D ! i) = Some (ok, w)"
    "worker_ok (\<lambda>_. True) mset (\<lambda>_. True) (\<lambda>_. True) w" "unposted w = 0"
    using PostTask_ok disp_ok_worker [OF assms] by blast
  have "i < 31" using assms disp_ok_length [OF assms(1)] by (auto simp: disp_ok_def)
  let ?D = "D\<lparr>freeWorkerBit := freeWorkerBit D AND word_of_int (NOT (2 ^ i)), workers := (workers D)[i := w]\<rparr>"
  have "dispatch_to i t D = Some ?D" using w(1) \<open>i < 31\<close> by (simp add: dispatch_to_def one_shl_small)
  moreover have "disp_ok ?D"
    using disp_ok_update [OF assms(1) w(2,3), of i] bits_ok_clear [where D = D and i = i and w = w] assms(1)
    by (simp add: disp_ok_def)
  moreover have "handed_on i t D ?D"
    using PostTask_handed [OF _ w(1)] disp_ok_worker [OF assms] assms(2) not_bit_clear [of "freeWorkerBit D" i]
    by (simp add: handed_on_def Let_def)
  ultimately show ?thesis by simp
qed

lemma DispatchTask_ok:
  assumes "disp_ready D"
  shows "\<exists>D' i. DispatchTask t D = Some D' \<and> disp_ok D' \<and> target_worker t D = Some i \<and> handed_on i t D D'"
proof -
  obtain i where D: "disp_ok D" "freeWorker D = Some i" "i < length (workers D)"
    using assms by (auto simp: disp_ready_def disp_ok_def)
  have none: "disp_ok (E\<lparr>freeWorker := None\<rparr>)" if "disp_ok E" for E :: "'a Dispatcher"
    using that by (simp add: disp_ok_def bits_ok_def)
  show ?thesis
  proof (cases "GetAffinity t < 0 \<or> GetAffinity t \<ge> workerNum D")
    case True
    obtain D' where "dispatch_to i t D = Some D'" "disp_ok D'" "handed_on i t D D'" using dispatch_to_ok [OF D(1,3)] by blast
    with True D(2) none show ?thesis by (auto simp: DispatchTask_def target_worker_def)
  next
    case False
    let ?i = "nat (GetAffinity t)"
    let ?D = "if freeWorker D = Some ?i then D\<lparr>freeWorker := None\<rparr> else D"
    have "disp_ok ?D" using D(1) none by simp
    moreover have "?i < length (workers ?D)" using False D(1) by (simp add: disp_ok_def bits_ok_def)
    ultimately obtain D' where D': "dispatch_to ?i t ?D = Some D'" "disp_ok D'" "handed_on ?i t ?D D'"
      using dispatch_to_ok by blast
    have "handed_on ?i t D D'" using D'(3) by (simp split: if_splits)
    with D' False show ?thesis by (auto simp: DispatchTask_def target_worker_def)
  qed
qed

lemma PrepareWorker_ok:
  assumes "disp_ok D"
  shows "case PrepareWorker D of Fault \<Rightarrow> False | Blocked \<Rightarrow> True
     | Moved (fin, D') \<Rightarrow> if fin then disp_ready D' else disp_ok D'"
proof -
  let ?D = "D\<lparr>workerNotify := workerNotify D - 1\<rparr>"
  have ok: "disp_ok ?D" "bits_ok ?D" using assms by (auto simp: disp_ok_def bits_ok_def)
  have "i < length (workers D)" if "find (bit (freeWorkerBit D)) [0..<nat (workerNum D)] = Some i" for i
    using that assms by (auto simp: find_Some_iff disp_ok_def bits_ok_def)
  then show ?thesis using assms ok SelectFreeWorker_find [OF ok(2)]
    by (cases "find (bit (freeWorkerBit D)) [0..<nat (workerNum D)]")
      (auto simp: PrepareWorker_def disp_ready_def Let_def disp_ok_def bits_ok_def)
qed

lemma SetWorkerNotify_ok:
  assumes "disp_ok D" and "i < length (workers D)" and "SetWorkerNotify i n D = Some D'"
  shows "disp_ok D' \<and> length (workers D') = length (workers D) \<and> freeWorker D' = freeWorker D"
proof -
  have i: "i < 31" "int i < workerNum D" using assms(1,2) disp_ok_length [OF assms(1)] by (auto simp: disp_ok_def)
  have "bits_ok (D\<lparr>freeWorkerBit := freeWorkerBit D OR word_of_int (2 ^ i)\<rparr>)"
    using assms(1) i(2) bit_word_2p by (auto simp: disp_ok_def bits_ok_def bit_or_iff)
  then have "disp_ok (D\<lparr>freeWorkerBit := freeWorkerBit D OR word_of_int (2 ^ i)\<rparr>)"
    using assms(1) by (simp add: disp_ok_def)
  moreover have "disp_ok (D\<lparr>workerNotify := k\<rparr>)" for k using assms(1) by (auto simp: disp_ok_def bits_ok_def)
  ultimately show ?thesis using assms(1,3) i(1) by (auto simp: SetWorkerNotify_def one_shl_small split: if_splits)
qed

lemma set_notifies_ok:
  "disp_ok D \<Longrightarrow> i < length (workers D) \<Longrightarrow> set_notifies i ns D = Some D' \<Longrightarrow> disp_ok D' \<and> freeWorker D' = freeWorker D"
proof (induction ns arbitrary: D)
  case (Cons n ns)
  obtain D1 where D1: "SetWorkerNotify i n D = Some D1" "set_notifies i ns D1 = Some D'"
    using Cons.prems(3) by (auto split: bind_splits)
  from SetWorkerNotify_ok [OF Cons.prems(1,2) D1(1)] Cons.IH [OF _ _ D1(2)] Cons.prems(2) show ?case by simp
qed simp

lemma pool_env_ok:
  assumes "pool_env run D D'" and "disp_ok D"
  shows "disp_ok D' \<and> freeWorker D' = freeWorker D"
proof -
  obtain i where i: "i < length (workers D)"
    "(\<exists>timeout. pool_worker_move run i timeout D = Moved D') \<or> (\<exists>alloc_ok. stop_worker i alloc_ok D = Some D')"
    using assms(1) by (auto simp: pool_env_def)
  note wi = disp_ok_worker [OF assms(2) i(1)]
  from i(2) show ?thesis
  proof (elim disjE exE)
    fix timeout assume "pool_worker_move run i timeout D = Moved D'"
    then obtain w where w: "worker_move (task_body run) timeout (workers D ! i) = Moved w"
      "set_notifies i (signals w) (D\<lparr>workers := (workers D)[i := w\<lparr>signals := []\<rparr>]\<rparr>) = Some D'"
      by (auto simp: pool_worker_move_def from_option_def split: outcome.splits option.splits)
    have "worker_ok (\<lambda>_. True) mset (\<lambda>_. True) (\<lambda>_. True) w" using tw.move_ok [of "workers D ! i" run timeout] wi w(1) by blast
    moreover have "unposted w = 0" using move_unposted [OF _ w(1)] wi by simp
    ultimately have "worker_ok (\<lambda>_. True) mset (\<lambda>_. True) (\<lambda>_. True) w" "unposted w = 0" by auto
    then have "disp_ok (D\<lparr>workers := (workers D)[i := w\<lparr>signals := []\<rparr>]\<rparr>)"
      using disp_ok_update [OF assms(2)] by (simp add: worker_ok_def in_hand_def)
    with set_notifies_ok [OF this _ w(2)] i(1) show ?thesis by simp
  next
    fix alloc_ok assume "stop_worker i alloc_ok D = Some D'"
    then obtain ok w where w: "StopRunning alloc_ok (workers D ! i) = Some (ok, w)" "D' = D\<lparr>workers := (workers D)[i := w]\<rparr>"
      by (auto simp: stop_worker_def)
    then show ?thesis using disp_ok_update [OF assms(2)] StopRunning_ok [OF _ _ w(1)] wi by simp
  qed
qed

text \<open>The comparison orders tasks by urgency, the smaller number first.\<close>

definition task_key :: "ITask \<Rightarrow> int" where
  "task_key t = - prio_val (Priority t)"

lemma CompareTaskPriority_ok: "cmp_ok task_key CompareTaskPriority"
  by (auto simp: cmp_ok_def task_key_def CompareTaskPriority_def)

interpretation dw: worker_body "dispatcher_body run" "\<lambda>q. cmp_ok task_key CompareTaskPriority \<and> heap task_key q" mset
  "\<lambda>x q. \<forall>y \<in> set q. task_key y \<le> task_key x" disp_ok disp_ready for run :: "ITask \<Rightarrow> 'x \<Rightarrow> 'x"
proof (rule worker_body.intro)
  show "container (bo_queue (dispatcher_body run)) (\<lambda>q. cmp_ok task_key CompareTaskPriority \<and> heap task_key q) mset
    (\<lambda>x q. \<forall>y \<in> set q. task_key y \<le> task_key x)"
    using pqc.container_axioms by (simp add: dispatcher_body_def)
  show "worker_body_axioms (dispatcher_body run) disp_ok disp_ready"
  proof (unfold_locales, goal_cases)
    case (1 D)
    from PrepareWorker_ok [OF 1] show ?case by (simp add: dispatcher_body_def)
  next
    case (2 D t)
    then show ?case using DispatchTask_ok [OF 2, of t] by (auto simp: dispatcher_body_def HandleTask_def)
  next
    case (3 D)
    then show ?case by (simp add: disp_ready_def)
  next
    case (4 D D')
    then show ?case using pool_env_ok [of run D D'] by (auto simp: dispatcher_body_def disp_ready_def)
  qed
qed

lemma bit_low_mask: "0 < n \<Longrightarrow> n \<le> 64 \<Longrightarrow>
   bit (drop_bit (nat (64 - n)) (push_bit (nat (64 - n)) (NOT 0)) :: 64 word) i \<longleftrightarrow> int i < n"
  by (auto simp: bit_drop_bit_eq bit_push_bit_iff bit_not_iff bit_mask_iff)

lemma new_pool_ok:
  assumes "0 < num" and "num \<le> 31" and "ThreadPool_init junk ncpu num x = Some P"
  shows "worker_ok (\<lambda>q. cmp_ok task_key CompareTaskPriority \<and> heap task_key q) mset disp_ok disp_ready (dispatcher P) \<and>
     queue (mailbox (dispatcher P)) = [] \<and> in_hand (dispatcher P) = []"
proof -
  obtain D where D: "Dispatcher_init num x = Some D" "dispatcher P = WorkerBody_init False DEFAULT_WORKER_TASK_MSG_SIZE [] D"
    using assms by (auto simp: ThreadPool_init_def)
  have "worker_ok (\<lambda>_. True) mset (\<lambda>_. True) (\<lambda>_. True) (EnableNotify True (WorkerBody_init True DEFAULT_WORKER_TASK_MSG_SIZE [] x))"
    using new_worker_ok [of 1024 True True x] by (simp add: new_worker_def DEFAULT_WORKER_TASK_MSG_SIZE_def)
  then have "disp_ok D" using D(1) assms(1,2) bit_low_mask [of num]
    by (auto simp: Dispatcher_init_def shift_ok_def disp_ok_def bits_ok_def EnableNotify_def WorkerBody_init_def)
  then show ?thesis using D(2) CompareTaskPriority_ok
    by (simp add: WorkerBody_init_def worker_ok_def sq_ok_def SpinlockQueue_init_def in_hand_def SEM_VALUE_MAX_def DEFAULT_WORKER_TASK_MSG_SIZE_def)
qed

section \<open>Properties\<close>

text \<open>
  C20. \<open>SelectFreeWorker\<close> with its binary search over the isolated lowest bit is the plain search for the first free
  worker: it returns, never fails its assertion, gives the least index whose bit is set, and \<open>NULL\<close> when
  none is.
\<close>

theorem select_free_worker:
  assumes "bits_ok D"
  shows "SelectFreeWorker D = Some (find (bit (freeWorkerBit D)) [0..<nat (workerNum D)])"
  using assms by (rule SelectFreeWorker_find)

text \<open>Sample: workers 1 and 2 of three are free.\<close>

definition three_workers :: "unit Dispatcher" where
  "three_workers = \<lparr>workerNum = 3, freeWorkerBit = 6, workerNotify = 0, freeWorker = None,
     workers = replicate 3 (new_worker True True 8 ())\<rparr>"

theorem select_free_worker_witness: "SelectFreeWorker three_workers = Some (Some 1)"
proof -
  have bits: "bit (6 :: 64 word) i \<longleftrightarrow> i = 1 \<or> i = 2" for i
    by (cases i; cases "i - 1"; cases "i - 2") (auto simp: bit_Suc bit_0)
  then have "bits_ok three_workers" by (auto simp: bits_ok_def three_workers_def)
  moreover have "[0..<nat 3] = [0, 1, 2]" by (simp add: upt_rec)
  ultimately show ?thesis using select_free_worker [of three_workers] by (simp add: three_workers_def bits)
qed

text \<open>
  C14. The dispatcher of a pool of at most 31 workers, under any interleaving with its producers and with the
  moves, notifications and stops of its workers. It never fails an assertion and never handles \<open>NULL\<close>. Every
  accepted task is queued, in hand or has been given out, exactly once. The task it takes next is one of the most
  urgent that are queued. And the task it has in hand is handed on by its next move to the worker the task is bound to, or else to the worker found free: the
  task, with that worker's number, becomes the last one in the worker's mailbox, the worker's semaphore is posted once, the worker
  counts as busy, and the other workers are left alone. When that mailbox is full already the task is lost, since the
  result of the posting is not looked at.
\<close>

theorem dispatcher_safe:
  assumes "0 < num" and "num \<le> 31" and "ThreadPool_init junk ncpu num x = Some P"
    and "worker_run (dispatcher_body run) (dispatcher P) acc out d"
  shows "worker_move (dispatcher_body run) timeout d \<noteq> Fault \<and>
     mset acc = mset out + mset (in_hand d) + mset (queue (mailbox d)) \<and>
     (at d = Woken \<and> queue (cmds d) = [] \<longrightarrow> (\<exists>t d'. worker_move (dispatcher_body run) timeout d = Moved d' \<and>
        at d' = Handling (Some t) \<and> t \<in> set (queue (mailbox d)) \<and> (\<forall>u \<in> set (queue (mailbox d)). Priority t \<le> Priority u))) \<and>
     (\<forall>t. at d = Handling (Some t) \<longrightarrow> (\<exists>d' i. worker_move (dispatcher_body run) timeout d = Moved d' \<and>
        target_worker t (ext d) = Some i \<and> handed_on i t (ext d) (ext d')))"
proof -
  let ?okq = "\<lambda>q. cmp_ok task_key CompareTaskPriority \<and> heap task_key q"
  note new = new_pool_ok [OF assms(1-3)]
  have ok: "worker_ok ?okq mset disp_ok disp_ready d"
    and cons: "mset acc = mset out + mset (in_hand d) + mset (queue (mailbox d))"
    using dw.run_ok [OF assms(4)] new by auto
  have "\<exists>t d'. worker_move (dispatcher_body run) timeout d = Moved d' \<and> at d' = Handling (Some t) \<and>
      t \<in> set (queue (mailbox d)) \<and> (\<forall>u \<in> set (queue (mailbox d)). Priority t \<le> Priority u)"
    if woken: "at d = Woken" and none: "queue (cmds d) = []"
  proof -
    obtain d' t where d': "GetRunTask_fetch (dispatcher_body run) d = Some d'" "at d' = Handling (Some t)"
      "SpinlockQueue_PopFront (bo_queue (dispatcher_body run)) (mailbox d) = Some (Some t, mailbox d')"
      "mset (queue (mailbox d)) = add_mset t (mset (queue (mailbox d')))"
      using dw.fetch [OF ok woken] unfolding none by fastforce
    have sq: "sq_ok ?okq mset (mailbox d)" using ok by (simp add: worker_ok_def)
    have "mset (queue (mailbox d)) \<noteq> {#}" using d'(4) by simp
    then obtain x q' where "SpinlockQueue_PopFront (bo_queue (dispatcher_body run)) (mailbox d) = Some (Some x, (mailbox d)\<lparr>queue := q'\<rparr>)"
      "\<forall>y \<in> set (queue (mailbox d)). task_key y \<le> task_key x"
      using dw.PopFront_ok [OF sq] by (simp only: if_False) blast
    with d'(3) have "\<forall>y \<in> set (queue (mailbox d)). task_key y \<le> task_key t" by simp
    then have "\<forall>u \<in> set (queue (mailbox d)). Priority t \<le> Priority u" by (simp add: task_key_def less_eq_TaskPriority_def)
    moreover have "t \<in> set (queue (mailbox d))" using d'(4) by (metis set_mset_mset union_single_eq_member)
    ultimately show ?thesis using d'(1,2) woken by (auto simp: worker_move_def from_option_def)
  qed
  moreover have "\<exists>d' i. worker_move (dispatcher_body run) timeout d = Moved d' \<and>
        target_worker t (ext d) = Some i \<and> handed_on i t (ext d) (ext d')" if hand: "at d = Handling (Some t)" for t
  proof -
    have "disp_ready (ext d)" using ok hand by (simp add: worker_ok_def)
    then obtain D' i where D': "DispatchTask t (ext d) = Some D'" "target_worker t (ext d) = Some i" "handed_on i t (ext d) D'"
      using DispatchTask_ok by blast
    have "\<exists>d'. Run_handle (dispatcher_body run) (Some t) d = Some d' \<and> ext d' = D'"
      using D'(1) by (simp add: Run_handle_def dispatcher_body_def HandleTask_def next_iteration_def cas_running_def NotifyDone_def Let_def)
    with D' hand show ?thesis by (auto simp: worker_move_def from_option_def)
  qed
  ultimately show ?thesis using dw.move_ok [OF ok] cons by blast
qed

text \<open>
  C21. The dispatcher's queue sorts: tasks pushed in any order come out ordered by urgency, the comparison with
  \<open>>=\<close> notwithstanding, and none is lost.
\<close>

theorem priority_order:
  assumes "length ts \<le> 1024"
  shows "\<exists>out s. queue_run (PriorityQueue CompareTaskPriority) (map Push ts @ replicate (length ts) Pop)
       (SpinlockQueue_init DEFAULT_WORKER_TASK_MSG_SIZE []) = Some (ts, out, s) \<and>
     mset out = mset ts \<and> sorted (map Priority out) \<and> queue s = []"
proof -
  let ?s = "SpinlockQueue_init DEFAULT_WORKER_TASK_MSG_SIZE ([] :: ITask list)"
  let ?okq = "\<lambda>q. cmp_ok task_key CompareTaskPriority \<and> heap task_key q"
  have "sq_ok ?okq mset ?s" by (simp add: sq_ok_def SpinlockQueue_init_def CompareTaskPriority_ok)
  moreover have "size (mset (queue ?s)) + length ts \<le> unat (maxSz ?s)"
    using assms by (simp add: SpinlockQueue_init_def DEFAULT_WORKER_TASK_MSG_SIZE_def)
  ultimately obtain s1 where s1: "queue_run (PriorityQueue CompareTaskPriority) (map Push ts @ replicate (length ts) Pop) ?s =
       map_option (\<lambda>(acc, out, t). (ts @ acc, out, t)) (queue_run (PriorityQueue CompareTaskPriority) (replicate (length ts) Pop) s1)"
     "sq_ok ?okq mset s1" "mset (queue s1) = mset (queue ?s) + mset ts" using pqc.fill by blast
  have "length (queue s1) = length ts" using s1(3) by (simp add: SpinlockQueue_init_def flip: size_mset)
  then obtain out s' where o: "queue_run (PriorityQueue CompareTaskPriority) (replicate (length ts) Pop) s1 = Some ([], out, s')"
     "mset out = mset (queue s1)" "sorted_wrt (\<lambda>x y. task_key y \<le> task_key x) out" "queue s' = []"
    using pq_drain [OF s1(2)] by blast
  have "sorted (map Priority out)"
    using o(3) by (simp add: sorted_map task_key_def less_eq_TaskPriority_def)
  with o s1 show ?thesis by (auto simp: SpinlockQueue_init_def)
qed

theorem priority_order_witness:
  "\<exists>out s. queue_run (PriorityQueue CompareTaskPriority)
       (map Push [ITask_init 1 True TP_LOW, ITask_init 2 True TP_EXTREME] @ replicate (length [ITask_init 1 True TP_LOW, ITask_init 2 True TP_EXTREME]) Pop)
       (SpinlockQueue_init DEFAULT_WORKER_TASK_MSG_SIZE []) = Some ([ITask_init 1 True TP_LOW, ITask_init 2 True TP_EXTREME], out, s) \<and>
     mset out = mset [ITask_init 1 True TP_LOW, ITask_init 2 True TP_EXTREME] \<and> sorted (map Priority out) \<and> queue s = []"
  by (rule priority_order) simp

text \<open>Sample schedules: what the threads of a pool do one after the other.\<close>

datatype pool_act = DMove | DPush ITask | DExit | DPost | WMove nat | WStop nat

fun pool_exec1 :: "(ITask \<Rightarrow> 'x \<Rightarrow> 'x) \<Rightarrow> pool_act \<Rightarrow> (ITask list, 'x Dispatcher) WorkerBody \<Rightarrow>
    (ITask list, 'x Dispatcher) WorkerBody option" where
  "pool_exec1 run DMove d = (case worker_move (dispatcher_body run) False d of Moved d' \<Rightarrow> Some d' | _ \<Rightarrow> None)"
| "pool_exec1 run (DPush t) d = (case PushTaskToContainer (dispatcher_body run) t d of
      Some (True, d') \<Rightarrow> Some (d'\<lparr>unposted := unposted d' + 1\<rparr>) | _ \<Rightarrow> None)"
| "pool_exec1 run DExit d = (case PushInternalCmd DummyExitTask d of
      Some (True, d') \<Rightarrow> Some (d'\<lparr>unposted := unposted d' + 1\<rparr>) | _ \<Rightarrow> None)"
| "pool_exec1 run DPost d = (if 0 < unposted d
      then map_option (\<lambda>d'. d'\<lparr>unposted := unposted d' - 1\<rparr>) (SignalPost d) else None)"
| "pool_exec1 run (WMove i) d = (if i < length (workers (ext d))
      then (case pool_worker_move run i False (ext d) of Moved D \<Rightarrow> Some (d\<lparr>ext := D\<rparr>) | _ \<Rightarrow> None) else None)"
| "pool_exec1 run (WStop i) d = (if i < length (workers (ext d))
      then map_option (\<lambda>D. d\<lparr>ext := D\<rparr>) (stop_worker i True (ext d)) else None)"

fun pool_exec :: "(ITask \<Rightarrow> 'x \<Rightarrow> 'x) \<Rightarrow> pool_act list \<Rightarrow> (ITask list, 'x Dispatcher) WorkerBody \<Rightarrow>
    (ITask list, 'x Dispatcher) WorkerBody option" where
  "pool_exec run [] d = Some d"
| "pool_exec run (a # as) d = Option.bind (pool_exec1 run a d) (pool_exec run as)"

lemma pool_exec1_run:
  assumes "worker_run (dispatcher_body run) d0 acc out d" and "pool_exec1 run a d = Some d'"
  shows "\<exists>acc out. worker_run (dispatcher_body run) d0 acc out d'"
proof (cases a)
  case DMove
  then show ?thesis using assms worker_run.move [OF assms(1)] by (auto split: outcome.splits)
next
  case (DPush t)
  then obtain d1 where "PushTaskToContainer (dispatcher_body run) t d = Some (True, d1)" "d' = d1\<lparr>unposted := unposted d1 + 1\<rparr>"
    using assms(2) by (auto split: option.splits bool.splits)
  with worker_run.push [OF assms(1)] show ?thesis by fastforce
next
  case DExit
  then obtain d1 where "PushInternalCmd DummyExitTask d = Some (True, d1)" "d' = d1\<lparr>unposted := unposted d1 + 1\<rparr>"
    using assms(2) by (auto split: option.splits bool.splits)
  with worker_run.push_cmd [OF assms(1)] show ?thesis by fastforce
next
  case DPost
  then show ?thesis using assms worker_run.post [OF assms(1)] by (auto split: if_splits)
next
  case (WMove i)
  then obtain D where "i < length (workers (ext d))" "pool_worker_move run i False (ext d) = Moved D" "d' = d\<lparr>ext := D\<rparr>"
    using assms(2) by (auto split: outcome.splits if_splits)
  with worker_run.env [OF assms(1), of D] show ?thesis by (auto simp: dispatcher_body_def pool_env_def)
next
  case (WStop i)
  then obtain D where "i < length (workers (ext d))" "stop_worker i True (ext d) = Some D" "d' = d\<lparr>ext := D\<rparr>"
    using assms(2) by (auto split: if_splits)
  with worker_run.env [OF assms(1), of D] show ?thesis by (auto simp: dispatcher_body_def pool_env_def)
qed

lemma pool_exec_run:
  "worker_run (dispatcher_body run) d0 acc out d \<Longrightarrow> pool_exec run as d = Some d' \<Longrightarrow>
   \<exists>acc out. worker_run (dispatcher_body run) d0 acc out d'"
proof (induction as arbitrary: acc out d)
  case (Cons a as)
  obtain d1 where d1: "pool_exec1 run a d = Some d1" "pool_exec run as d1 = Some d'"
    using Cons.prems(2) by (auto split: bind_splits)
  obtain acc1 out1 where "worker_run (dispatcher_body run) d0 acc1 out1 d1" using pool_exec1_run [OF Cons.prems(1) d1(1)] by blast
  from Cons.IH [OF this d1(2)] show ?case .
qed auto

text \<open>One worker: a task is dispatched to it, and the pool is told to stop while the task is running.\<close>

definition stop_schedule :: "pool_act list" where
  "stop_schedule = [DPush (ITask_init 7 False TP_NORMAL), DPost, DMove, DMove, DMove, DMove,
     WMove 0, WMove 0, WMove 0, DExit, DPost, WStop 0, WMove 0, WMove 0, WMove 0, WMove 0]"

lemmas pool_eval = PushTaskToContainer_def PushInternalCmd_def GetInternalCmd_def GetTaskFromContainer_def
  SpinlockQueue_PushBack_def SpinlockQueue_PopFront_def SpinlockQueue_IsEmpty_def spin_lock_def spin_unlock_def
  SpinlockQueue_init_def PriorityQueue_def DequeQueue_def heap_push_def heap_pop_def sift_up.simps
  worker_move_def GetRunTask_wait_def GetRunTask_fetch_def Run_handle_def TryConsume_def SignalPost_def SEM_VALUE_MAX_def
  ProcessInternalCmd_def SetExitState_def next_iteration_def NotifyDone_def Notify_def CleanRunTask_def cas_running_def
  from_option_def dispatcher_body_def task_body_def PrepareWorker_def HandleTask_def DispatchTask_def dispatch_to_def
  PostTask_def SetThreadId_def GetAffinity_def ShouldDelete_def ITask_init_def pool_worker_move_def stop_worker_def
  StopRunning_def PostExit_def PostInternalCmd_def SetWorkerNotify_def one_shl_def shift_ok_def Let_def

lemma one_worker:
  "ThreadPool_init False 1 1 () = Some \<lparr>running = False, dispatcher = WorkerBody_init False DEFAULT_WORKER_TASK_MSG_SIZE []
     \<lparr>workerNum = 1, freeWorkerBit = 1, workerNotify = 1, freeWorker = None,
      workers = [EnableNotify True (WorkerBody_init True DEFAULT_WORKER_TASK_MSG_SIZE [] ())]\<rparr>\<rparr>"
proof -
  have "drop_bit 63 (NOT (mask 63)) = (1 :: 64 word)"
    by (rule bit_word_eqI) (auto simp: bit_drop_bit_eq bit_not_iff bit_mask_iff bit_1_iff)
  then show ?thesis by (simp add: ThreadPool_init_def Dispatcher_init_def shift_ok_def)
qed

lemma select_first: "workerNum D = 1 \<Longrightarrow> freeWorkerBit D = 1 \<Longrightarrow> length (workers D) = 1 \<Longrightarrow> SelectFreeWorker D = Some (Some 0)"
  using SelectFreeWorker_find [of D] by (simp add: bits_ok_def bit_1_iff)

lemma stop_schedule_end:
  "case Option.bind (ThreadPool_init False 1 1 ()) (\<lambda>P. pool_exec (\<lambda>_ x. x) stop_schedule (dispatcher P)) of
     None \<Rightarrow> False
   | Some d \<Rightarrow> at d = AtHead \<and> queue (cmds d) = [DummyExitTask] \<and> unposted d = 0 \<and> freeWorker (ext d) = None \<and>
       workerNotify (ext d) = 0 \<and> list_all (\<lambda>w. at w = Stopped) (workers (ext d))"
  by (simp add: one_worker stop_schedule_def pool_eval select_first EnableNotify_def WorkerBody_init_def DEFAULT_WORKER_TASK_MSG_SIZE_def)

lemma hand_schedule_end:
  "case Option.bind (ThreadPool_init False 1 1 ()) (\<lambda>P. pool_exec (\<lambda>_ x. x)
       [DPush (ITask_init 7 False TP_NORMAL), DPost, DMove, DMove, DMove] (dispatcher P)) of
     None \<Rightarrow> False
   | Some d \<Rightarrow> at d = Handling (Some (ITask_init 7 False TP_NORMAL)) \<and> workerNum (ext d) = 1 \<and> freeWorker (ext d) = Some 0 \<and>
       map (queue \<circ> mailbox) (workers (ext d)) = [[]] \<and> map (maxSz \<circ> mailbox) (workers (ext d)) = [1024]"
  by (simp add: one_worker pool_eval select_first EnableNotify_def WorkerBody_init_def DEFAULT_WORKER_TASK_MSG_SIZE_def)

theorem dispatcher_safe_witness:
  "\<exists>P d d'. ThreadPool_init False 1 1 () = Some P \<and> at d = Handling (Some (ITask_init 7 False TP_NORMAL)) \<and>
     pool_exec (\<lambda>_ x. x) [DPush (ITask_init 7 False TP_NORMAL), DPost, DMove, DMove, DMove] (dispatcher P) = Some d \<and>
     worker_move (dispatcher_body (\<lambda>_ x. x)) False d = Moved d' \<and>
     queue (mailbox (workers (ext d') ! 0)) = [SetThreadId 0 (ITask_init 7 False TP_NORMAL)]"
proof -
  let ?t = "ITask_init 7 False TP_NORMAL"
  obtain P d where P: "ThreadPool_init False 1 1 () = Some P"
      "pool_exec (\<lambda>_ x. x) [DPush ?t, DPost, DMove, DMove, DMove] (dispatcher P) = Some d"
    and d: "at d = Handling (Some ?t)" "workerNum (ext d) = 1" "freeWorker (ext d) = Some 0"
      "map (queue \<circ> mailbox) (workers (ext d)) = [[]]" "map (maxSz \<circ> mailbox) (workers (ext d)) = [1024]"
    using hand_schedule_end by (auto split: option.splits bind_splits)
  obtain w where w: "workers (ext d) = [w]" "queue (mailbox w) = []" "maxSz (mailbox w) = 1024" using d(4,5) by auto
  obtain acc out where run: "worker_run (dispatcher_body (\<lambda>_ x. x)) (dispatcher P) acc out d"
    using pool_exec_run [OF worker_run.start P(2)] by blast
  have one: "0 < (1 :: int)" "(1 :: int) \<le> 31" by simp_all
  obtain d' i where d': "worker_move (dispatcher_body (\<lambda>_ x. x)) False d = Moved d'" "target_worker ?t (ext d) = Some i"
    "handed_on i ?t (ext d) (ext d')"
    using dispatcher_safe [OF one P(1) run, of False] d(1) by blast
  have "i = 0" using d'(2) d(3) by (simp add: target_worker_def ITask_init_def GetAffinity_def)
  then have "queue (mailbox (workers (ext d') ! 0)) = [SetThreadId 0 ?t]" using d'(3) w by (simp add: handed_on_def)
  with P d(1) d'(1) show ?thesis by blast
qed

text \<open>
  C32. Stopping a pool can hang for ever. A pool of one worker can come to a state in which the worker has
  stopped, so that it will never signal again, the exit command is in the dispatcher's queue and posted,
  and the dispatcher waits in \<open>PrepareWorker\<close> for a free worker, before it would look at the queue:
  \<open>StopPooling\<close>, which joins the dispatcher, does not return.
\<close>

theorem stop_pooling_deadlock:
  "\<exists>P acc out d. ThreadPool_init False 1 1 () = Some P \<and>
     worker_run (dispatcher_body (\<lambda>_ x. x)) (dispatcher P) acc out d \<and> queue (cmds d) = [DummyExitTask] \<and> unposted d = 0 \<and>
     list_all (\<lambda>w. at w = Stopped) (workers (ext d)) \<and>
     (\<forall>timeout. worker_move (dispatcher_body (\<lambda>_ x. x)) timeout d = Blocked \<and>
        list_all (\<lambda>w. worker_move (task_body (\<lambda>_ x. x)) timeout w = Blocked) (workers (ext d)))"
proof -
  obtain P d where P: "ThreadPool_init False 1 1 () = Some P" "pool_exec (\<lambda>_ x. x) stop_schedule (dispatcher P) = Some d"
    and d: "at d = AtHead" "queue (cmds d) = [DummyExitTask]" "unposted d = 0" "freeWorker (ext d) = None"
      "workerNotify (ext d) = 0" "list_all (\<lambda>w. at w = Stopped) (workers (ext d))"
    using stop_schedule_end by (auto split: option.splits bind_splits)
  obtain acc out where run: "worker_run (dispatcher_body (\<lambda>_ x. x)) (dispatcher P) acc out d"
    using pool_exec_run [OF worker_run.start P(2)] by blast
  have "worker_move (dispatcher_body (\<lambda>_ x. x)) timeout d = Blocked" for timeout
    using d by (simp add: worker_move_def dispatcher_body_def PrepareWorker_def)
  moreover have "list_all (\<lambda>w. worker_move (task_body (\<lambda>_ x. x)) timeout w = Blocked) (workers (ext d))" for timeout
    using d(6) by (auto simp: list_all_iff worker_move_def)
  ultimately show ?thesis using P(1) run d by blast
qed

text \<open>
  With more than 32 workers the free-worker mask is corrupted, because \<open>1 << id\<close> is an \<open>int\<close>: dispatching to
  worker 31 marks every worker above it busy as well, and dispatching to a worker above 31 is undefined.
\<close>

theorem dispatch_wide_pool:
  assumes "0 \<le> affinity t" and "affinity t < workerNum D"
  shows "(32 \<le> affinity t \<longrightarrow> DispatchTask t D = None) \<and>
     (affinity t = 31 \<longrightarrow> (\<forall>D' i. DispatchTask t D = Some D' \<and> 31 \<le> i \<longrightarrow> \<not> bit (freeWorkerBit D') i))"
proof -
  have "DispatchTask t D = None" if "32 \<le> affinity t"
    using assms that by (simp add: DispatchTask_def GetAffinity_def dispatch_to_def one_shl_def shift_ok_def)
  moreover have "\<not> bit (freeWorkerBit D') i" if h: "affinity t = 31" "DispatchTask t D = Some D'" "31 \<le> i" for D' i
  proof -
    have "one_shl 31 = Some (- (2 ^ 31))" by (simp add: one_shl_def shift_ok_def signed_take_bit_eq_if_negative)
    moreover have "NOT (- (2 ^ 31)) = (mask 31 :: int)" by (simp add: not_int_def mask_eq_exp_minus_1)
    ultimately obtain b where "freeWorkerBit D' = b AND word_of_int (mask 31)"
      using assms h(1,2) by (auto simp: DispatchTask_def GetAffinity_def dispatch_to_def Let_def split: bind_splits if_splits)
    then show ?thesis using h(3) by (simp add: bit_and_iff bit_word_of_int_iff bit_mask_iff)
  qed
  ultimately show ?thesis by blast
qed

text \<open>
  \<open>DispatchTask\<close> does not look at the result of posting: a task bound to a worker whose mailbox is full is
  neither queued nor reported, and is lost.
\<close>

theorem bound_task_dropped:
  assumes "disp_ready D" and "0 \<le> affinity t" and "affinity t < workerNum D"
    and "length (queue (mailbox (workers D ! nat (affinity t)))) = unat (maxSz (mailbox (workers D ! nat (affinity t))))"
  shows "\<exists>D'. DispatchTask t D = Some D' \<and> workers D' = workers D"
proof -
  let ?i = "nat (affinity t)"
  have D: "disp_ok D" "?i < length (workers D)" "?i < 31"
    using assms by (auto simp: disp_ready_def disp_ok_def bits_ok_def)
  let ?w = "workers D ! ?i"
  have "sq_ok (\<lambda>_. True) mset (mailbox ?w)" using disp_ok_worker [OF D(1,2)] by (simp add: worker_ok_def)
  then have "SpinlockQueue_PushBack DequeQueue u (mailbox ?w) = Some (False, mailbox ?w)" for u
    using dqc.PushBack_ok [of "mailbox ?w" u] assms(4) by simp
  then have "PostTask (task_body (\<lambda>_ x. x)) u ?w = Some (False, ?w)" for u
    by (simp add: PostTask_def PushTaskToContainer_def task_body_def)
  moreover have "one_shl (affinity t) = Some (2 ^ ?i)" using one_shl_small [OF D(3)] assms(2) by simp
  ultimately show ?thesis using assms(2,3) D
    by (auto simp: DispatchTask_def GetAffinity_def dispatch_to_def Let_def)
qed

text \<open>Samples: a pool of forty workers, and a pool whose first worker has a mailbox of one, which is full.\<close>

definition forty_workers :: "unit Dispatcher" where
  "forty_workers = \<lparr>workerNum = 40, freeWorkerBit = mask 40, workerNotify = 40, freeWorker = Some 0,
     workers = replicate 40 (new_worker True True 8 ())\<rparr>"

theorem dispatch_wide_pool_witness:
  "DispatchTask (SetAffinity 35 (ITask_init 7 True TP_LOW)) forty_workers = None"
  using dispatch_wide_pool [of "SetAffinity 35 (ITask_init 7 True TP_LOW)" forty_workers]
  by (simp add: SetAffinity_def ITask_init_def forty_workers_def)

definition busy_worker :: "(ITask list, unit) WorkerBody" where
  "busy_worker = (new_worker True True 1 ())\<lparr>mailbox := SpinlockQueue_init 1 [ITask_init 5 True TP_LOW], sem := 1\<rparr>"

definition busy_pool :: "unit Dispatcher" where
  "busy_pool = \<lparr>workerNum = 1, freeWorkerBit = 0, workerNotify = 0, freeWorker = Some 0, workers = [busy_worker]\<rparr>"

theorem bound_task_dropped_witness:
  "\<exists>D'. DispatchTask (SetAffinity 0 (ITask_init 7 True TP_LOW)) busy_pool = Some D' \<and> workers D' = workers busy_pool"
proof -
  have "disp_ready busy_pool"
    by (simp add: busy_pool_def disp_ready_def disp_ok_def bits_ok_def busy_worker_def new_worker_def EnableNotify_def
        WorkerBody_init_def worker_ok_def sq_ok_def SpinlockQueue_init_def in_hand_def SEM_VALUE_MAX_def DEFAULT_WORKER_TASK_MSG_SIZE_def)
  then show ?thesis
    using bound_task_dropped [of busy_pool "SetAffinity 0 (ITask_init 7 True TP_LOW)"]
    by (simp add: SetAffinity_def ITask_init_def busy_pool_def busy_worker_def SpinlockQueue_init_def)
qed

end
