(* ===== verification/Threads.thy ===== *)
theory Threads
  imports Slots
begin

text \<open>
  \<open>thread/Thread.{h,cc}\<close>: an object that runs a task in a thread of its own. The threads of the system are numbered
  in the order of their creation; each is at one of the points of \<open>RunTask\<close> between two accesses to the object. The results of the calls that
  set a thread up are arguments, since any of them can fail.
\<close>

section \<open>The object and its threads\<close>

record Thread =
  th_task :: ptr
  th_tid :: ptr
  th_busy :: bool
  th_detachable :: bool

text \<open>\<open>RtEnd\<close> with the returned task; \<open>RtCancelled\<close> after a cancellation.\<close>

datatype rt_pc = RtEntry | RtSet nat | RtRun nat | RtClear nat | RtEnd ptr | RtCancelled

record os_thread =
  ot_pc :: rt_pc
  ot_joinable :: bool
  ot_cancel :: bool

fun ended :: "rt_pc \<Rightarrow> bool" where
  "ended (RtEnd r) = True"
| "ended RtCancelled = True"
| "ended _ = False"

definition Thread_init :: "ptr \<Rightarrow> bool \<Rightarrow> Thread" where
  "Thread_init task detachable = \<lparr>th_task = task, th_tid = None, th_busy = False, th_detachable = detachable\<rparr>"

text \<open>\<open>a\<close>, \<open>d\<close> and \<open>c\<close> are what \<open>pthread_attr_init\<close>, \<open>pthread_attr_setdetachstate\<close> and \<open>pthread_create\<close> return.\<close>

definition Thread_Start :: "int \<Rightarrow> int \<Rightarrow> int \<Rightarrow> Thread \<times> os_thread list \<Rightarrow> bool \<times> Thread \<times> os_thread list" where
  "Thread_Start a d c x = (case x of (t, os) \<Rightarrow>
     if th_busy t \<or> th_task t = None then (False, t, os)
     else if a \<noteq> 0 then (False, t, os)
     else if d \<noteq> 0 then (False, t, os)
     else if c \<noteq> 0 then (False, t, os)
     else (True, t\<lparr>th_tid := Some (length os)\<rparr>, os @ [\<lparr>ot_pc = RtEntry, ot_joinable = \<not> th_detachable t, ot_cancel = False\<rparr>]))"

text \<open>\<open>pthread_join\<close>: \<open>None\<close> while the thread has not ended.\<close>

definition Thread_Join :: "Thread \<times> os_thread list \<Rightarrow> (bool \<times> os_thread list) option" where
  "Thread_Join x = (case x of (t, os) \<Rightarrow>
     if th_detachable t then Some (False, os)
     else (case th_tid t of
       None \<Rightarrow> Some (False, os)
     | Some k \<Rightarrow>
         if k \<ge> length os \<or> \<not> ot_joinable (os ! k) then Some (False, os)
         else if ended (ot_pc (os ! k)) then Some (True, os[k := (os ! k)\<lparr>ot_joinable := False\<rparr>])
         else None))"

text \<open>\<open>pthread_cancel\<close> only asks; the thread ends when it next comes to a cancellation point.\<close>

definition Thread_Cancel :: "Thread \<times> os_thread list \<Rightarrow> bool \<times> os_thread list" where
  "Thread_Cancel x = (case x of (t, os) \<Rightarrow>
     if \<not> th_busy t then (True, os)
     else (case th_tid t of
       None \<Rightarrow> (False, os)
     | Some k \<Rightarrow> if k < length os \<and> \<not> ended (ot_pc (os ! k)) then (True, os[k := (os ! k)\<lparr>ot_cancel := True\<rparr>]) else (False, os)))"

definition Thread_destroy :: "Thread \<times> os_thread list \<Rightarrow> os_thread list" where
  "Thread_destroy x = (if th_busy (fst x) then snd (Thread_Cancel x) else snd x)"

definition Thread_SetDetachable :: "bool \<Rightarrow> Thread \<Rightarrow> bool \<times> Thread" where
  "Thread_SetDetachable enable t = (if th_busy t then (False, t) else (True, t\<lparr>th_detachable := enable\<rparr>))"

definition Thread_IsRunning :: "Thread \<Rightarrow> bool" where
  "Thread_IsRunning t = th_busy t"

definition Thread_SetTask :: "ptr \<Rightarrow> Thread \<Rightarrow> ptr \<times> Thread" where
  "Thread_SetTask task t = (th_task t, t\<lparr>th_task := task\<rparr>)"

text \<open>\<open>ThreadBase\<close> is a thread whose task is a member that calls back; \<open>self\<close> is that member.\<close>

definition ThreadBase_init :: "nat \<Rightarrow> bool \<Rightarrow> Thread" where
  "ThreadBase_init self detachable = snd (Thread_SetTask (Some self) (Thread_init None detachable))"

text \<open>The steps of \<open>RunTask\<close>. A task comes to cancellation points while it runs.\<close>

fun RunTask_step :: "rt_pc \<Rightarrow> bool \<Rightarrow> Thread \<Rightarrow> rt_pc \<times> Thread" where
  "RunTask_step RtEntry cancel t = ((case th_task t of None \<Rightarrow> RtEnd None | Some a \<Rightarrow> RtSet a), t)"
| "RunTask_step (RtSet a) cancel t = (RtRun a, t\<lparr>th_busy := True\<rparr>)"
| "RunTask_step (RtRun a) cancel t = (if cancel then (RtCancelled, t) else (RtClear a, t))"
| "RunTask_step (RtClear a) cancel t = (RtEnd (Some a), t\<lparr>th_busy := False\<rparr>)"
| "RunTask_step pc cancel t = (pc, t)"

section \<open>The system\<close>

text \<open>The object, the threads, the tasks whose \<open>Run\<close> has come back, and what the calls of the owner returned.\<close>

type_synonym th_sys = "Thread \<times> os_thread list \<times> nat list \<times> bool list"

datatype th_act = ThStart int int int | ThJoin | ThCancel | ThSetDetachable bool | ThSetTask ptr | ThGo nat

fun th_act1 :: "th_act \<Rightarrow> th_sys \<Rightarrow> th_sys option" where
  "th_act1 (ThStart a d c) (t, os, runs, rs) = (case Thread_Start a d c (t, os) of (r, t', os') \<Rightarrow> Some (t', os', runs, rs @ [r]))"
| "th_act1 ThJoin (t, os, runs, rs) = map_option (\<lambda>(r, os'). (t, os', runs, rs @ [r])) (Thread_Join (t, os))"
| "th_act1 ThCancel (t, os, runs, rs) = (case Thread_Cancel (t, os) of (r, os') \<Rightarrow> Some (t, os', runs, rs @ [r]))"
| "th_act1 (ThSetDetachable e) (t, os, runs, rs) = (case Thread_SetDetachable e t of (r, t') \<Rightarrow> Some (t', os, runs, rs @ [r]))"
| "th_act1 (ThSetTask p) (t, os, runs, rs) = Some (snd (Thread_SetTask p t), os, runs, rs)"
| "th_act1 (ThGo k) (t, os, runs, rs) =
     (case RunTask_step (ot_pc (os ! k)) (ot_cancel (os ! k)) t of (pc, t') \<Rightarrow>
       Some (t', os[k := (os ! k)\<lparr>ot_pc := pc\<rparr>], (case pc of RtClear a \<Rightarrow> runs @ [a] | _ \<Rightarrow> runs), rs))"

fun th_possible :: "th_act \<Rightarrow> th_sys \<Rightarrow> bool" where
  "th_possible ThJoin (t, os, runs, rs) \<longleftrightarrow> Thread_Join (t, os) \<noteq> None"
| "th_possible (ThGo k) (t, os, runs, rs) \<longleftrightarrow> k < length os \<and> \<not> ended (ot_pc (os ! k))"
| "th_possible _ _ \<longleftrightarrow> True"

text \<open>What the owner keeps to: nothing is changed while a thread lives, and no thread is cancelled.\<close>

fun th_orderly :: "th_act \<Rightarrow> th_sys \<Rightarrow> bool" where
  "th_orderly (ThGo k) x \<longleftrightarrow> True"
| "th_orderly ThJoin x \<longleftrightarrow> True"
| "th_orderly ThCancel x \<longleftrightarrow> False"
| "th_orderly a (t, os, runs, rs) \<longleftrightarrow> list_all (\<lambda>h. ended (ot_pc h)) os"

definition th_enabled :: "th_act \<Rightarrow> th_sys \<Rightarrow> bool" where
  "th_enabled a x \<longleftrightarrow> th_possible a x \<and> th_orderly a x"

fun inside :: "rt_pc \<Rightarrow> bool" where
  "inside (RtRun a) = True"
| "inside (RtClear a) = True"
| "inside _ = False"

fun came_back :: "rt_pc \<Rightarrow> nat option" where
  "came_back (RtClear a) = Some a"
| "came_back (RtEnd r) = r"
| "came_back _ = None"

text \<open>Only the youngest thread lives, and the flag says whether it is inside the task.\<close>

definition th_ok :: "th_sys \<Rightarrow> bool" where
  "th_ok x \<longleftrightarrow> (case x of (t, os, runs, rs) \<Rightarrow>
     list_all (\<lambda>h. ended (ot_pc h)) (butlast os) \<and> list_all (\<lambda>h. \<not> ot_cancel h) os \<and>
     (th_busy t \<longleftrightarrow> os \<noteq> [] \<and> inside (ot_pc (last os))) \<and> (os \<noteq> [] \<longrightarrow> th_tid t = Some (length os - 1)) \<and>
     runs = picks came_back (map ot_pc os))"

section \<open>Orderly use\<close>

declare picks_append [simp]

lemma th_ok_snoc:
  "th_ok (t, os @ [h], runs, rs) \<longleftrightarrow> list_all (\<lambda>h. ended (ot_pc h)) os \<and> list_all (\<lambda>h. \<not> ot_cancel h) os \<and> \<not> ot_cancel h \<and>
     (th_busy t \<longleftrightarrow> inside (ot_pc h)) \<and> th_tid t = Some (length os) \<and> runs = picks came_back (map ot_pc os) @ picks came_back [ot_pc h]"
  by (auto simp: th_ok_def)

lemma ended_not_inside: "ended pc \<Longrightarrow> \<not> inside pc"
  by (cases pc) auto

lemma th_ok_idle: "th_ok (t, os, runs, rs) \<Longrightarrow> list_all (\<lambda>h. ended (ot_pc h)) os \<Longrightarrow> \<not> th_busy t"
  by (auto simp: th_ok_def ended_not_inside list_all_iff)

lemma th_go_ok:
  assumes "th_ok (t, os, runs, rs)" and "k < length os" and "\<not> ended (ot_pc (os ! k))"
  shows "\<exists>y. th_act1 (ThGo k) (t, os, runs, rs) = Some y \<and> th_ok y"
proof -
  obtain os' h where os: "os = os' @ [h]" using assms(2) by (cases os rule: rev_cases) auto
  note ok = assms(1) [unfolded os th_ok_snoc]
  have k: "k = length os'" using assms(2,3) ok os by (auto simp: nth_append list_all_length split: if_splits)
  show ?thesis using ok assms(3)
    by (cases "ot_pc h"; cases "th_task t") (auto simp: os k th_ok_snoc)
qed

lemma Thread_JoinD:
  assumes "Thread_Join (t, os) = Some (r, os')"
  shows "os' = os \<or> (\<exists>k < length os. th_tid t = Some k \<and> ended (ot_pc (os ! k)) \<and> os' = os[k := (os ! k)\<lparr>ot_joinable := False\<rparr>])"
  using assms by (auto simp: Thread_Join_def split: if_splits option.splits)

lemma th_act1_ok: "th_ok x \<Longrightarrow> th_enabled a x \<Longrightarrow> \<exists>y. th_act1 a x = Some y \<and> th_ok y"
proof -
  assume ok: "th_ok x" and en: "th_enabled a x"
  obtain t os runs rs where x: "x = (t, os, runs, rs)" by (cases x)
  have any: "th_ok (t, os, runs, rs')" for rs' using ok x by (simp add: th_ok_def)
  show ?thesis
  proof (cases a)
    case (ThStart i d c)
    then have idle: "list_all (\<lambda>h. ended (ot_pc h)) os" using en x by (simp add: th_enabled_def)
    have "th_ok (t\<lparr>th_tid := Some (length os)\<rparr>, os @ [\<lparr>ot_pc = RtEntry, ot_joinable = j, ot_cancel = False\<rparr>], runs, rs')" for j rs'
      using ok [unfolded x] idle th_ok_idle [OF ok [unfolded x] idle] unfolding th_ok_snoc by (auto simp: th_ok_def)
    then show ?thesis using ThStart x any by (simp add: Thread_Start_def)
  next
    case ThJoin
    have "th_ok (t, os[k := (os ! k)\<lparr>ot_joinable := False\<rparr>], runs, rs')" if k: "k < length os" "th_tid t = Some k" for k rs'
    proof -
      obtain os' h where "os = os' @ [h]" using k(1) by (cases os rule: rev_cases) auto
      then show ?thesis using ok x k(2) by (auto simp: th_ok_snoc)
    qed
    moreover obtain r os' where join: "Thread_Join (t, os) = Some (r, os')" using ThJoin x en by (auto simp: th_enabled_def)
    ultimately have "th_ok (t, os', runs, rs @ [r])" using Thread_JoinD [OF join] any by auto
    then show ?thesis using ThJoin x join by simp
  next
    case (ThSetDetachable e)
    then show ?thesis using x ok by (auto simp: Thread_SetDetachable_def th_ok_def)
  next
    case (ThSetTask p)
    then show ?thesis using x ok by (auto simp: Thread_SetTask_def th_ok_def)
  next
    case (ThGo k)
    then show ?thesis using x ok en th_go_ok [of t os runs rs k] by (simp add: th_enabled_def)
  qed (use en x in \<open>simp add: th_enabled_def\<close>)
qed

interpretation ths: safe_steps th_ok th_enabled th_act1
  by unfold_locales (rule th_act1_ok)

text \<open>
  C17. A thread object that is used in order. Whatever its owner and its threads do, as long as it is started anew, given a task or detached only when no
  thread of it lives, and is not cancelled: at most one thread lives, \<open>IsRunning\<close> says exactly whether that thread is inside the task,
  and each thread that came back ran the task it found exactly once, in the order of the starts.
\<close>

theorem thread_lifecycle:
  "\<exists>t os runs rs. run_schedule th_enabled th_act1 acts (Thread_init task detachable, [], [], []) = Some (t, os, runs, rs) \<and>
     list_all (\<lambda>h. ended (ot_pc h)) (butlast os) \<and> (Thread_IsRunning t \<longleftrightarrow> os \<noteq> [] \<and> inside (ot_pc (last os))) \<and>
     runs = picks came_back (map ot_pc os)"
proof -
  have "th_ok (Thread_init task detachable, [], [], [])" by (simp add: th_ok_def Thread_init_def)
  from ths.run_good [OF this, of acts] show ?thesis by (fastforce simp: th_ok_def Thread_IsRunning_def)
qed

text \<open>
  C18. Starting an idle thread object and joining it runs its task. From every state that orderly use of an object can reach in
  which its threads have ended, it has a task and is not detachable: a start whose system calls succeed returns true, four steps
  later the thread has ended, the join that follows returns true, the task has run exactly once more, and the object is idle and can be started again.
\<close>

theorem start_join_runs:
  assumes "run_schedule th_enabled th_act1 acts (Thread_init task False, [], [], []) = Some (t, os, runs, rs)"
    and "list_all (\<lambda>h. ended (ot_pc h)) os" and "th_task t = Some a" and "\<not> th_detachable t"
  shows "\<exists>t' os'. run_schedule th_enabled th_act1 (ThStart 0 0 0 # replicate 4 (ThGo (length os)) @ [ThJoin]) (t, os, runs, rs) = Some (t', os', runs @ [a], rs @ [True, True]) \<and>
     list_all (\<lambda>h. ended (ot_pc h)) os' \<and> \<not> Thread_IsRunning t' \<and> th_task t' = Some a"
proof -
  have "th_ok (Thread_init task False, [], [], [])" by (simp add: th_ok_def Thread_init_def)
  from ths.run_good [OF this, of acts] have ok: "th_ok (t, os, runs, rs)" using assms(1) by simp
  note idle = th_ok_idle [OF ok assms(2)]
  show ?thesis using idle assms(2-4)
    by (auto simp: numeral_eq_Suc th_enabled_def Thread_Start_def Thread_Join_def Thread_IsRunning_def)
qed

theorem start_join_runs_witness:
  "\<exists>t' os'. run_schedule th_enabled th_act1 (ThStart 0 0 0 # replicate 4 (ThGo 1) @ [ThJoin])
       (the (run_schedule th_enabled th_act1 (ThStart 0 0 0 # replicate 4 (ThGo 0)) (Thread_init (Some 7) False, [], [], []))) = Some (t', os', [7, 7], [True, True, True]) \<and>
     \<not> Thread_IsRunning t'"
proof -
  let ?acts = "ThStart 0 0 0 # replicate 4 (ThGo 0)"
  let ?t = "\<lparr>th_task = Some 7, th_tid = Some 0, th_busy = False, th_detachable = False\<rparr>"
  let ?os = "[\<lparr>ot_pc = RtEnd (Some 7), ot_joinable = True, ot_cancel = False\<rparr>]"
  have run: "run_schedule th_enabled th_act1 ?acts (Thread_init (Some 7) False, [], [], []) = Some (?t, ?os, [7], [True])"
    by (simp add: numeral_eq_Suc th_enabled_def Thread_Start_def Thread_init_def)
  from start_join_runs [OF run] show ?thesis unfolding run by auto
qed

section \<open>Other use\<close>

definition th_dead :: "th_sys \<Rightarrow> bool" where
  "th_dead x \<longleftrightarrow> (case x of (t, os, runs, rs) \<Rightarrow> th_busy t \<and> list_all (\<lambda>h. ended (ot_pc h)) os)"

lemma th_dead_step: "th_dead x \<Longrightarrow> th_possible a x \<Longrightarrow> \<exists>y. th_act1 a x = Some y \<and> th_dead y"
proof -
  assume dead: "th_dead x" and pos: "th_possible a x"
  obtain t os runs rs where x: "x = (t, os, runs, rs)" by (cases x)
  have upd: "list_all (\<lambda>h. ended (ot_pc h)) (os[k := (os ! k)\<lparr>ot_joinable := False\<rparr>])" if "k < length os" for k
    using dead x that by (auto simp: th_dead_def list_all_length nth_list_update)
  show ?thesis
    using dead pos x upd
    by (cases a) (auto simp: th_dead_def Thread_Start_def Thread_Join_def Thread_Cancel_def Thread_SetDetachable_def Thread_SetTask_def
        list_all_length split: if_splits option.splits)
qed

interpretation thd: safe_steps th_dead th_possible th_act1
  by unfold_locales (rule th_dead_step)

text \<open>
  A cancelled thread object is busy for ever: \<open>RunTask\<close> does not come to the place where it would reset the flag. Whatever is done after the
  cancellation has taken effect, \<open>IsRunning\<close> is true, no start succeeds, and no thread lives.
\<close>

theorem cancelled_never_restarts:
  assumes "run_schedule th_possible th_act1 [ThStart 0 0 0, ThGo 0, ThGo 0, ThCancel, ThGo 0] (Thread_init (Some a) detachable, [], [], []) = Some x"
  shows "\<exists>t os runs rs. run_schedule th_possible th_act1 acts x = Some (t, os, runs, rs) \<and> Thread_IsRunning t \<and>
     (\<forall>i d c. \<not> fst (Thread_Start i d c (t, os))) \<and> list_all (\<lambda>h. ended (ot_pc h)) os"
proof -
  have "th_dead x" using assms by (auto simp: th_dead_def Thread_init_def Thread_Start_def Thread_Cancel_def)
  from thd.run_good [OF this, of acts] show ?thesis by (fastforce simp: th_dead_def Thread_IsRunning_def Thread_Start_def)
qed

theorem cancelled_never_restarts_witness:
  "\<exists>t os runs rs. run_schedule th_possible th_act1 [ThJoin, ThStart 0 0 0]
       (the (run_schedule th_possible th_act1 [ThStart 0 0 0, ThGo 0, ThGo 0, ThCancel, ThGo 0] (Thread_init (Some 7) False, [], [], []))) = Some (t, os, runs, rs) \<and>
     Thread_IsRunning t"
proof -
  have "run_schedule th_possible th_act1 [ThStart 0 0 0, ThGo 0, ThGo 0, ThCancel, ThGo 0] (Thread_init (Some 7) False, [], [], []) =
      Some (the (run_schedule th_possible th_act1 [ThStart 0 0 0, ThGo 0, ThGo 0, ThCancel, ThGo 0] (Thread_init (Some 7) False, [], [], [])))"
    by (simp add: Thread_init_def Thread_Start_def Thread_Cancel_def)
  from cancelled_never_restarts [OF this, of "[ThJoin, ThStart 0 0 0]"] show ?thesis by blast
qed

text \<open>Two starts before the first thread has set the flag: both succeed, and two threads are inside the task.\<close>

lemma double_start:
  "(case run_schedule th_possible th_act1 [ThStart 0 0 0, ThStart 0 0 0, ThGo 0, ThGo 1, ThGo 0, ThGo 1] (Thread_init (Some 7) False, [], [], []) of
     None \<Rightarrow> False | Some (t, os, runs, rs) \<Rightarrow> map ot_pc os = [RtRun 7, RtRun 7])"
  by code_simp

section \<open>The threads of a pool\<close>

text \<open>The thread of the dispatcher and those of the workers, each object with the threads it has started.\<close>

record PoolThreads =
  pt_running :: bool
  pt_self :: "Thread \<times> os_thread list"
  pt_workers :: "(Thread \<times> os_thread list) list"

text \<open>\<open>st i\<close> are the results of the system calls for worker \<open>i\<close>; the result of a start is not looked at.\<close>

definition Dispatcher_StartWorker :: "(nat \<Rightarrow> int \<times> int \<times> int) \<Rightarrow> (Thread \<times> os_thread list) list \<Rightarrow> (Thread \<times> os_thread list) list" where
  "Dispatcher_StartWorker st ws = map (\<lambda>(i, w). case st i of (a, d, c) \<Rightarrow> snd (Thread_Start a d c w)) (enumerate 0 ws)"

definition Dispatcher_KillAllWorker :: "(Thread \<times> os_thread list) list \<Rightarrow> (Thread \<times> os_thread list) list" where
  "Dispatcher_KillAllWorker ws = map (\<lambda>w. (fst w, snd (Thread_Cancel w))) ws"

definition ThreadPool_StartPooling :: "(nat \<Rightarrow> int \<times> int \<times> int) \<Rightarrow> int \<times> int \<times> int \<Rightarrow> PoolThreads \<Rightarrow> bool \<times> PoolThreads" where
  "ThreadPool_StartPooling st self p =
     (case self of (a, d, c) \<Rightarrow> case Thread_Start a d c (pt_self p) of (r, s') \<Rightarrow>
       (r, p\<lparr>pt_running := True, pt_workers := Dispatcher_StartWorker st (pt_workers p), pt_self := s'\<rparr>))"

definition ThreadPool_ForceShutdown :: "PoolThreads \<Rightarrow> PoolThreads" where
  "ThreadPool_ForceShutdown p = p\<lparr>pt_running := False, pt_self := (fst (pt_self p), snd (Thread_Cancel (pt_self p))),
     pt_workers := Dispatcher_KillAllWorker (pt_workers p)\<rparr>"

text \<open>A worker whose thread could not be created goes unnoticed: the pool reports success as long as the dispatcher has started.\<close>

lemma missing_worker_unnoticed:
  assumes "pt_self p = (Thread_init (Some a) False, [])" and "i < length (pt_workers p)" and "st i = (x, y, z)" and "z \<noteq> 0"
  shows "fst (ThreadPool_StartPooling st (0, 0, 0) p) \<and>
     pt_workers (snd (ThreadPool_StartPooling st (0, 0, 0) p)) ! i = pt_workers p ! i"
  using assms
  by (cases "pt_workers p ! i") (auto simp: ThreadPool_StartPooling_def Thread_Start_def Thread_init_def Dispatcher_StartWorker_def nth_enumerate_eq)

text \<open>After \<open>ForceShutdown\<close> every thread that is inside its task has been asked to end.\<close>

lemma force_shutdown_asks:
  assumes "w \<in> set (pt_workers p)" and "th_ok (fst w, snd w, runs, rs)" and "th_busy (fst w)"
  shows "\<exists>os h. snd w = os @ [h] \<and> (fst w, os @ [h\<lparr>ot_cancel := True\<rparr>]) \<in> set (pt_workers (ThreadPool_ForceShutdown p))"
proof -
  obtain os h where os: "snd w = os @ [h]" using assms(2,3) by (cases "snd w" rule: rev_cases) (auto simp: th_ok_def)
  have "th_tid (fst w) = Some (length os)" "inside (ot_pc h)" using assms(2,3) unfolding os th_ok_snoc by auto
  then have "Thread_Cancel w = (True, os @ [h\<lparr>ot_cancel := True\<rparr>])"
    using assms(3) os ended_not_inside by (cases w) (auto simp: Thread_Cancel_def)
  then show ?thesis using assms(1) os by (force simp: ThreadPool_ForceShutdown_def Dispatcher_KillAllWorker_def)
qed

end
