(* ===== verification/WorkerThreads.thy ===== *)
theory WorkerThreads
  imports Threads
begin

text \<open>
  The thread side of \<open>Worker\<close>, \<open>Dispatcher\<close> and \<open>ThreadPool\<close> (\<open>thread/src/Worker.cc\<close>, \<open>thread/src/ThreadPool.cc\<close>): how their threads are
  started, stopped and given up. A worker is its thread object with the threads it has started; \<open>live\<close> are the addresses of the bodies, the tasks of the workers,
  that are allocated. To delete a body that is not is a fault. What the bodies do is in the theories \<open>Worker\<close> and \<open>ThreadPool\<close>.
\<close>

section \<open>Workers\<close>

type_synonym worker_obj = "Thread \<times> os_thread list"

text \<open>The two constructors.\<close>

definition Worker_init :: "nat \<Rightarrow> worker_obj" where
  "Worker_init body = (snd (Thread_SetTask (Some body) (Thread_init None False)), [])"

definition Worker_init_body :: "nat \<Rightarrow> worker_obj" where
  "Worker_init_body task = (Thread_init (Some task) False, [])"

definition Worker_StartWorking :: "int \<Rightarrow> int \<Rightarrow> int \<Rightarrow> worker_obj \<Rightarrow> bool \<times> worker_obj" where
  "Worker_StartWorking a d c w = Thread_Start a d c w"

text \<open>\<open>ret\<close> is what \<open>StopRunning\<close> of the body returns; \<open>None\<close> while the join waits.\<close>

definition Worker_StopWorking :: "bool \<Rightarrow> bool \<Rightarrow> worker_obj \<Rightarrow> (bool \<times> worker_obj) option" where
  "Worker_StopWorking join ret w =
     (if join \<and> ret then map_option (\<lambda>(r, os). (r, (fst w, os))) (Thread_Join w) else Some (ret, w))"

definition delete_task :: "ptr \<Rightarrow> nat set \<Rightarrow> nat set option" where
  "delete_task p live = (case p of None \<Rightarrow> Some live | Some a \<Rightarrow> if a \<in> live then Some (live - {a}) else None)"

text \<open>\<open>~Worker\<close>: the body first, then the base class. The result is the threads that are left without their object.\<close>

definition Worker_destroy :: "worker_obj \<Rightarrow> nat set \<Rightarrow> (os_thread list \<times> nat set) option" where
  "Worker_destroy w live = map_option (\<lambda>live'. (Thread_destroy w, live')) (delete_task (th_task (fst w)) live)"

section \<open>The pool\<close>

text \<open>\<open>~Dispatcher\<close>, after \<open>ClearAllTask\<close>.\<close>

fun Dispatcher_destroy :: "worker_obj list \<Rightarrow> nat set \<Rightarrow> (os_thread list list \<times> nat set) option" where
  "Dispatcher_destroy [] live = Some ([], live)"
| "Dispatcher_destroy (w # ws) live = do {
     (os, live1) \<leftarrow> Worker_destroy (fst w, snd (Thread_Cancel w)) live;
     (oss, live2) \<leftarrow> Dispatcher_destroy ws live1;
     Some (os # oss, live2)
   }"

text \<open>\<open>~ThreadPool\<close> deletes its worker, and this the dispatcher, which is its body.\<close>

definition ThreadPool_destroy :: "PoolThreads \<Rightarrow> nat set \<Rightarrow> (os_thread list \<times> os_thread list list \<times> nat set) option" where
  "ThreadPool_destroy p live = do {
     (oss, live1) \<leftarrow> Dispatcher_destroy (pt_workers p) live;
     live2 \<leftarrow> delete_task (th_task (fst (pt_self p))) live1;
     Some (Thread_destroy (pt_self p), oss, live2)
   }"

definition ThreadPool_StopPooling :: "bool \<Rightarrow> PoolThreads \<Rightarrow> (bool \<times> PoolThreads) option" where
  "ThreadPool_StopPooling ret p =
     map_option (\<lambda>(r, w). (r, p\<lparr>pt_running := False, pt_self := w\<rparr>)) (Worker_StopWorking True ret (pt_self p))"

section \<open>Properties\<close>

lemma Worker_inits: "Worker_init a = Worker_init_body a"
  by (simp add: Worker_init_def Worker_init_body_def Thread_SetTask_def Thread_init_def)

text \<open>A pool that was stopped with success has no thread of the dispatcher left.\<close>

lemma stopped_pool_ended:
  assumes "ThreadPool_StopPooling ret p = Some (True, p')" and "th_ok (fst (pt_self p), snd (pt_self p), runs, rs)"
  shows "list_all (\<lambda>h. ended (ot_pc h)) (snd (pt_self p'))"
proof -
  obtain t os where self: "pt_self p = (t, os)" by fastforce
  obtain os' where j: "Thread_Join (t, os) = Some (True, os')" "pt_self p' = (t, os')"
    using assms(1) self by (auto simp: ThreadPool_StopPooling_def Worker_StopWorking_def split: if_splits)
  then obtain k where k: "th_tid t = Some k" "k < length os" "ended (ot_pc (os ! k))" "os' = os[k := (os ! k)\<lparr>ot_joinable := False\<rparr>]"
    by (auto simp: Thread_Join_def split: if_splits option.splits)
  then obtain os1 h where os: "os = os1 @ [h]" by (cases os rule: rev_cases) auto
  have "th_tid t = Some (length os1)" "list_all (\<lambda>h. ended (ot_pc h)) os1" using assms(2) self os th_ok_snoc by auto
  then show ?thesis using k j(2) os by (simp add: list_all_iff)
qed

lemma Thread_Cancel_pcs [simp]: "map ot_pc (snd (Thread_Cancel w)) = map ot_pc (snd w)"
  by (cases w) (auto simp: Thread_Cancel_def map_update list_update_same_conv split: option.splits)

lemma Thread_destroy_pcs [simp]: "map ot_pc (Thread_destroy w) = map ot_pc (snd w)"
  by (simp add: Thread_destroy_def)

lemma Dispatcher_destroy_spec:
  assumes "distinct (map (th_task \<circ> fst) ws)" and "\<forall>w \<in> set ws. \<exists>a \<in> live. th_task (fst w) = Some a"
  shows "\<exists>oss. Dispatcher_destroy ws live = Some (oss, live - {a. Some a \<in> (th_task \<circ> fst) ` set ws}) \<and>
     map (map ot_pc) oss = map (map ot_pc \<circ> snd) ws"
  using assms
proof (induction ws arbitrary: live)
  case (Cons w ws)
  obtain a where a: "a \<in> live" "th_task (fst w) = Some a" using Cons.prems(2) by auto
  have "\<forall>v \<in> set ws. \<exists>b \<in> live - {a}. th_task (fst v) = Some b"
  proof
    fix v assume v: "v \<in> set ws"
    then obtain b where "b \<in> live" "th_task (fst v) = Some b" using Cons.prems(2) by auto
    moreover have "th_task (fst v) \<noteq> th_task (fst w)" using Cons.prems(1) v by (auto simp: image_iff)
    ultimately show "\<exists>b \<in> live - {a}. th_task (fst v) = Some b" using a(2) by auto
  qed
  moreover have "distinct (map (th_task \<circ> fst) ws)" using Cons.prems(1) by (simp add: comp_def)
  ultimately obtain oss where "Dispatcher_destroy ws (live - {a}) = Some (oss, live - {a} - {b. Some b \<in> (th_task \<circ> fst) ` set ws})"
    "map (map ot_pc) oss = map (map ot_pc \<circ> snd) ws" using Cons.IH by blast
  moreover have "live - {a} - {b. Some b \<in> (th_task \<circ> fst) ` set ws} = live - {b. Some b \<in> (th_task \<circ> fst) ` set (w # ws)}" using a(2) by auto
  ultimately show ?case using a by (simp add: Worker_destroy_def delete_task_def)
qed simp

text \<open>
  The end of a pool. When each of its workers, and the thread of the dispatcher, has a body of its own, the destructor deletes each of these bodies once and
  no other; and it waits for no thread: each thread of the pool is afterwards at the point where it was, so that a thread that had not
  ended goes on in a task, and with an object, that are deleted.
\<close>

theorem pool_destroyed:
  assumes "distinct (map (th_task \<circ> fst) (pt_self p # pt_workers p))" and "\<forall>w \<in> set (pt_self p # pt_workers p). \<exists>a \<in> live. th_task (fst w) = Some a"
  shows "\<exists>os oss. ThreadPool_destroy p live = Some (os, oss, live - {a. Some a \<in> (th_task \<circ> fst) ` set (pt_self p # pt_workers p)}) \<and>
     map ot_pc os = map ot_pc (snd (pt_self p)) \<and> map (map ot_pc) oss = map (map ot_pc \<circ> snd) (pt_workers p)"
proof -
  obtain d where d: "d \<in> live" "th_task (fst (pt_self p)) = Some d" using assms(2) by auto
  let ?rest = "live - {a. Some a \<in> (th_task \<circ> fst) ` set (pt_workers p)}"
  have "distinct (map (th_task \<circ> fst) (pt_workers p))" "\<forall>w \<in> set (pt_workers p). \<exists>a \<in> live. th_task (fst w) = Some a" using assms by (simp_all add: comp_def)
  then obtain oss where "Dispatcher_destroy (pt_workers p) live = Some (oss, ?rest)" "map (map ot_pc) oss = map (map ot_pc \<circ> snd) (pt_workers p)"
    using Dispatcher_destroy_spec by blast
  moreover have "d \<in> ?rest" using assms(1) d by (auto simp: image_iff)
  moreover have "?rest - {d} = live - {a. Some a \<in> (th_task \<circ> fst) ` set (pt_self p # pt_workers p)}" using d(2) by auto
  ultimately show ?thesis using d(2) by (simp add: ThreadPool_destroy_def delete_task_def)
qed

definition sample_pool :: PoolThreads where
  "sample_pool = \<lparr>pt_running = True, pt_self = Worker_init_body 9,
     pt_workers = [(\<lparr>th_task = Some 1, th_tid = Some 0, th_busy = True, th_detachable = False\<rparr>,
       [\<lparr>ot_pc = RtRun 1, ot_joinable = True, ot_cancel = False\<rparr>])]\<rparr>"

theorem pool_destroyed_witness:
  "\<exists>os oss. ThreadPool_destroy sample_pool {1, 9} = Some (os, oss, {}) \<and> map (map ot_pc) oss = [[RtRun 1]]"
proof -
  have "distinct (map (th_task \<circ> fst) (pt_self sample_pool # pt_workers sample_pool))"
    "\<forall>w \<in> set (pt_self sample_pool # pt_workers sample_pool). \<exists>a \<in> {1, 9}. th_task (fst w) = Some a"
    by (simp_all add: sample_pool_def Worker_init_body_def Thread_init_def)
  from pool_destroyed [OF this] show ?thesis by (auto simp: sample_pool_def Worker_init_body_def Thread_init_def)
qed

end
