(* ===== verification/LockFreeQueue.thy ===== *)
theory LockFreeQueue
  imports Prelude
begin

text \<open>
  \<open>misc/LockFreeContainer.h\<close>: the ring buffer \<open>LockFreeQueue\<close>. A thread inside \<open>Push\<close> or \<open>Pop\<close> is at one of the
  points between two accesses to the shared indices; \<open>lq_step\<close> performs the next access, so that a run of
  a system of threads interleaves them freely. Every atomic builtin is a full barrier (as the header of the
  source says), so the accesses are sequentially consistent.
\<close>

section \<open>The queue and the code of its threads\<close>

record 'a LockFreeQueue =
  lq_arr :: "'a list"
  lq_maxSz :: nat
  lq_read :: nat
  lq_write :: nat
  lq_maxRead :: nat

text \<open>\<open>junk\<close> is what \<open>new Type[sz]\<close> leaves in the array.\<close>

definition LockFreeQueue_init :: "'a list \<Rightarrow> 'a LockFreeQueue" where
  "LockFreeQueue_init junk = \<lparr>lq_arr = junk, lq_maxSz = length junk, lq_read = 0, lq_write = 0, lq_maxRead = 0\<rparr>"

datatype 'a lq_pc =
    LIdle
  | PushStart 'a
  | PushTest 'a nat
  | PushReserve 'a nat
  | PushStore 'a nat
  | PushPublish 'a nat
  | PushReturn bool
  | PopStart
  | PopTest nat
  | PopLoad nat
  | PopTake nat 'a
  | PopReturn "'a option"

fun lq_step :: "'a lq_pc \<Rightarrow> 'a LockFreeQueue \<Rightarrow> 'a lq_pc \<times> 'a LockFreeQueue" where
  "lq_step (PushStart val) q = (PushTest val (lq_write q), q)"
| "lq_step (PushTest val old_write) q =
     (if (old_write + 1) mod lq_maxSz q = lq_read q then PushReturn False else PushReserve val old_write, q)"
| "lq_step (PushReserve val old_write) q =
     (if lq_write q = old_write then (PushStore val old_write, q\<lparr>lq_write := (old_write + 1) mod lq_maxSz q\<rparr>)
      else (PushStart val, q))"
| "lq_step (PushStore val old_write) q = (PushPublish val old_write, q\<lparr>lq_arr := (lq_arr q)[old_write := val]\<rparr>)"
| "lq_step (PushPublish val old_write) q =
     (if lq_maxRead q = old_write then (PushReturn True, q\<lparr>lq_maxRead := (old_write + 1) mod lq_maxSz q\<rparr>)
      else (PushPublish val old_write, q))"
| "lq_step PopStart q = (PopTest (lq_read q), q)"
| "lq_step (PopTest old_read) q = (if old_read = lq_maxRead q then PopReturn None else PopLoad old_read, q)"
| "lq_step (PopLoad old_read) q = (PopTake old_read (lq_arr q ! old_read), q)"
| "lq_step (PopTake old_read ret) q =
     (if lq_read q = old_read then (PopReturn (Some ret), q\<lparr>lq_read := (old_read + 1) mod lq_maxSz q\<rparr>)
      else (PopStart, q))"
| "lq_step pc q = (pc, q)"

definition lq_IsEmpty :: "'a LockFreeQueue \<Rightarrow> bool" where
  "lq_IsEmpty q \<longleftrightarrow> lq_read q = lq_write q"

definition lq_Size :: "'a LockFreeQueue \<Rightarrow> nat" where
  "lq_Size q = (lq_write q + lq_maxSz q - lq_read q) mod lq_maxSz q"

text \<open>Outside a call a thread may start one.\<close>

definition at_rest :: "'a lq_pc \<Rightarrow> bool" where
  "at_rest pc \<longleftrightarrow> (case pc of LIdle \<Rightarrow> True | PushReturn _ \<Rightarrow> True | PopReturn _ \<Rightarrow> True | _ \<Rightarrow> False)"

section \<open>One producer and one consumer\<close>

text \<open>What happens at a step, as a client sees it: a call that takes effect or finds the queue full or empty, or
  nothing.\<close>

datatype 'a fifo_event = Enq 'a | Full | Deq 'a | Empty | Tau

text \<open>The specification: an atomic FIFO of capacity \<open>cap\<close>.\<close>

inductive fifo_step :: "nat \<Rightarrow> 'a list \<Rightarrow> 'a fifo_event \<Rightarrow> 'a list \<Rightarrow> bool" for cap where
  enq: "length xs < cap \<Longrightarrow> fifo_step cap xs (Enq x) (xs @ [x])"
| full: "length xs = cap \<Longrightarrow> fifo_step cap xs Full xs"
| deq: "fifo_step cap (x # xs) (Deq x) xs"
| empty: "fifo_step cap [] Empty []"
| tau: "fifo_step cap xs Tau xs"

inductive_cases fifo_stepE: "fifo_step cap xs e ys"

text \<open>The effect of a step of the code: a push that publishes its slot enqueues the argument it was called with.\<close>

fun lq_event :: "'a lq_pc \<Rightarrow> 'a LockFreeQueue \<Rightarrow> 'a fifo_event" where
  "lq_event (PushTest val w) q = (if (w + 1) mod lq_maxSz q = lq_read q then Full else Tau)"
| "lq_event (PushPublish val w) q = (if lq_maxRead q = w then Enq val else Tau)"
| "lq_event (PopTest r) q = (if r = lq_maxRead q then Empty else Tau)"
| "lq_event (PopTake r x) q = (if lq_read q = r then Deq x else Tau)"
| "lq_event pc q = Tau"

text \<open>The argument of the push a thread is inside.\<close>

fun push_arg :: "'a lq_pc \<Rightarrow> 'a option" where
  "push_arg (PushStart x) = Some x"
| "push_arg (PushTest x w) = Some x"
| "push_arg (PushReserve x w) = Some x"
| "push_arg (PushStore x w) = Some x"
| "push_arg (PushPublish x w) = Some x"
| "push_arg pc = None"

text \<open>What the callers see of an effect: the enqueued value is the argument of the push, the calls return what
  the effect says, and a step with no effect neither returns nor changes the argument of a push under way.\<close>

fun lq_replied :: "'a fifo_event \<Rightarrow> 'a lq_pc \<times> 'a lq_pc \<Rightarrow> 'a lq_pc \<times> 'a lq_pc \<Rightarrow> bool" where
  "lq_replied (Enq x) (p, c) (p', c') \<longleftrightarrow> push_arg p = Some x \<and> p' = PushReturn True \<and> c' = c"
| "lq_replied Full (p, c) (p', c') \<longleftrightarrow> push_arg p \<noteq> None \<and> p' = PushReturn False \<and> c' = c"
| "lq_replied (Deq x) (p, c) (p', c') \<longleftrightarrow> \<not> at_rest c \<and> c' = PopReturn (Some x) \<and> p' = p"
| "lq_replied Empty (p, c) (p', c') \<longleftrightarrow> \<not> at_rest c \<and> c' = PopReturn None \<and> p' = p"
| "lq_replied Tau (p, c) (p', c') \<longleftrightarrow> (p' = p \<or> \<not> at_rest p') \<and> (c' = c \<or> \<not> at_rest c') \<and> (at_rest p \<or> push_arg p' = push_arg p)"

text \<open>A system of a producer \<open>p\<close> and a consumer \<open>c\<close>.\<close>

inductive spsc_step :: "'a lq_pc \<times> 'a lq_pc \<times> 'a LockFreeQueue \<Rightarrow> 'a fifo_event \<Rightarrow> 'a lq_pc \<times> 'a lq_pc \<times> 'a LockFreeQueue \<Rightarrow> bool" where
  call_push: "at_rest p \<Longrightarrow> spsc_step (p, c, q) Tau (PushStart x, c, q)"
| call_pop: "at_rest c \<Longrightarrow> spsc_step (p, c, q) Tau (p, PopStart, q)"
| step_push: "lq_step p q = (p', q') \<Longrightarrow> spsc_step (p, c, q) (lq_event p q) (p', c, q')"
| step_pop: "lq_step c q = (c', q') \<Longrightarrow> spsc_step (p, c, q) (lq_event c q) (p, c', q')"

inductive_cases spsc_stepE: "spsc_step (p, c, q) e s'"

inductive spsc_reach :: "'a list \<Rightarrow> 'a lq_pc \<times> 'a lq_pc \<times> 'a LockFreeQueue \<Rightarrow> bool" for junk where
  start: "spsc_reach junk (LIdle, LIdle, LockFreeQueue_init junk)"
| step: "spsc_reach junk s \<Longrightarrow> spsc_step s e s' \<Longrightarrow> spsc_reach junk s'"

text \<open>The published part of the ring.\<close>

definition lq_len :: "'a LockFreeQueue \<Rightarrow> nat" where
  "lq_len q = (lq_maxRead q + lq_maxSz q - lq_read q) mod lq_maxSz q"

definition lq_content :: "'a LockFreeQueue \<Rightarrow> 'a list" where
  "lq_content q = map (\<lambda>i. lq_arr q ! ((lq_read q + i) mod lq_maxSz q)) [0..<lq_len q]"

definition ring_ok :: "'a LockFreeQueue \<Rightarrow> bool" where
  "ring_ok q \<longleftrightarrow> length (lq_arr q) = lq_maxSz q \<and> lq_read q < lq_maxSz q \<and> lq_maxRead q < lq_maxSz q \<and> lq_write q < lq_maxSz q"

fun prod_ok :: "'a lq_pc \<Rightarrow> 'a LockFreeQueue \<Rightarrow> bool" where
  "prod_ok (PushStart x) q \<longleftrightarrow> lq_write q = lq_maxRead q"
| "prod_ok (PushTest x w) q \<longleftrightarrow> lq_write q = lq_maxRead q \<and> w = lq_write q"
| "prod_ok (PushReserve x w) q \<longleftrightarrow> lq_write q = lq_maxRead q \<and> w = lq_write q \<and> lq_len q + 1 < lq_maxSz q"
| "prod_ok (PushStore x w) q \<longleftrightarrow> lq_maxRead q = w \<and> lq_write q = (w + 1) mod lq_maxSz q \<and> lq_len q + 1 < lq_maxSz q"
| "prod_ok (PushPublish x w) q \<longleftrightarrow> lq_maxRead q = w \<and> lq_write q = (w + 1) mod lq_maxSz q \<and> lq_len q + 1 < lq_maxSz q \<and> lq_arr q ! w = x"
| "prod_ok pc q \<longleftrightarrow> at_rest pc \<and> lq_write q = lq_maxRead q"

fun cons_ok :: "'a lq_pc \<Rightarrow> 'a LockFreeQueue \<Rightarrow> bool" where
  "cons_ok PopStart q \<longleftrightarrow> True"
| "cons_ok (PopTest r) q \<longleftrightarrow> r = lq_read q"
| "cons_ok (PopLoad r) q \<longleftrightarrow> r = lq_read q \<and> 0 < lq_len q"
| "cons_ok (PopTake r x) q \<longleftrightarrow> r = lq_read q \<and> 0 < lq_len q \<and> x = lq_arr q ! r"
| "cons_ok pc q \<longleftrightarrow> at_rest pc"

section \<open>The ring\<close>

lemma mod_wrap: "a < 2 * n \<Longrightarrow> a mod n = (if a < n then a else a - n)" for a n :: nat
  by (auto simp: mod_if)

lemma lq_len_if:
  "ring_ok q \<Longrightarrow> lq_len q = (if lq_read q \<le> lq_maxRead q then lq_maxRead q - lq_read q else lq_maxRead q + lq_maxSz q - lq_read q)"
  by (auto simp: lq_len_def ring_ok_def mod_wrap)

lemma lq_len_less: "ring_ok q \<Longrightarrow> lq_len q < lq_maxSz q"
  by (auto simp: lq_len_if ring_ok_def)

lemma lq_len_0: "ring_ok q \<Longrightarrow> lq_len q = 0 \<longleftrightarrow> lq_read q = lq_maxRead q"
  by (auto simp: lq_len_if ring_ok_def)

lemma lq_len_full: "ring_ok q \<Longrightarrow> (lq_maxRead q + 1) mod lq_maxSz q = lq_read q \<longleftrightarrow> lq_len q + 1 = lq_maxSz q"
  by (auto simp: lq_len_if ring_ok_def mod_wrap split: if_splits)

lemma lq_end: "ring_ok q \<Longrightarrow> (lq_read q + lq_len q) mod lq_maxSz q = lq_maxRead q"
  by (auto simp: lq_len_if ring_ok_def mod_wrap)

lemma lq_index_inj:
  "ring_ok q \<Longrightarrow> i < lq_len q \<Longrightarrow> (lq_read q + i) mod lq_maxSz q \<noteq> lq_maxRead q"
  by (auto simp: lq_len_if ring_ok_def mod_wrap split: if_splits)

lemma length_lq_content [simp]: "length (lq_content q) = lq_len q"
  by (simp add: lq_content_def)

lemma ring_publish:
  assumes "ring_ok q" and "lq_len q + 1 < lq_maxSz q"
  defines "q' \<equiv> q\<lparr>lq_maxRead := (lq_maxRead q + 1) mod lq_maxSz q\<rparr>"
  shows "ring_ok q'" and "lq_len q' = lq_len q + 1" and "lq_content q' = lq_content q @ [lq_arr q ! lq_maxRead q]"
proof -
  show ok: "ring_ok q'" using assms by (simp add: ring_ok_def q'_def)
  show len: "lq_len q' = lq_len q + 1"
    using lq_len_if [OF assms(1)] lq_len_if [OF ok] assms(1,2)
    by (auto simp: q'_def ring_ok_def mod_wrap split: if_splits)
  have "lq_content q' = map (\<lambda>i. lq_arr q ! ((lq_read q + i) mod lq_maxSz q)) ([0..<lq_len q] @ [lq_len q])"
    unfolding lq_content_def len by (simp add: q'_def)
  then show "lq_content q' = lq_content q @ [lq_arr q ! lq_maxRead q]"
    by (simp add: lq_content_def lq_end [OF assms(1)])
qed

lemma ring_take:
  assumes "ring_ok q" and "0 < lq_len q"
  defines "q' \<equiv> q\<lparr>lq_read := (lq_read q + 1) mod lq_maxSz q\<rparr>"
  shows "ring_ok q'" and "lq_len q = lq_len q' + 1" and "lq_content q = lq_arr q ! lq_read q # lq_content q'"
proof -
  show ok: "ring_ok q'" using assms by (simp add: ring_ok_def q'_def)
  show len: "lq_len q = lq_len q' + 1"
    using lq_len_if [OF assms(1)] lq_len_if [OF ok] assms(1,2)
    by (auto simp: q'_def ring_ok_def mod_wrap split: if_splits)
  have "lq_content q = map (\<lambda>i. lq_arr q ! ((lq_read q + i) mod lq_maxSz q)) (0 # map Suc [0..<lq_len q'])"
    unfolding lq_content_def len by (simp add: upt_conv_Cons map_Suc_upt del: upt_Suc)
  also have "\<dots> = lq_arr q ! lq_read q # map (\<lambda>i. lq_arr q ! ((lq_read q + Suc i) mod lq_maxSz q)) [0..<lq_len q']"
    using assms(1) by (simp add: ring_ok_def)
  also have "(\<lambda>i. lq_arr q ! ((lq_read q + Suc i) mod lq_maxSz q)) = (\<lambda>i. lq_arr q' ! ((lq_read q' + i) mod lq_maxSz q'))"
    by (simp add: q'_def mod_add_left_eq fun_eq_iff)
  finally show "lq_content q = lq_arr q ! lq_read q # lq_content q'" by (simp add: lq_content_def)
qed

lemma ring_store:
  fixes x :: 'a and q :: "'a LockFreeQueue"
  assumes "ring_ok q"
  defines "q' \<equiv> q\<lparr>lq_arr := (lq_arr q)[lq_maxRead q := x]\<rparr>"
  shows "ring_ok q'" and "lq_len q' = lq_len q" and "lq_content q' = lq_content q"
    and "0 < lq_len q \<Longrightarrow> lq_arr q' ! lq_read q = lq_arr q ! lq_read q"
proof -
  show "ring_ok q'" "lq_len q' = lq_len q" using assms by (simp_all add: ring_ok_def q'_def lq_len_def)
  show "lq_content q' = lq_content q"
    using lq_index_inj [OF assms(1)] by (auto simp: lq_content_def q'_def lq_len_def) (metis nth_list_update_neq)
  show "lq_arr q' ! lq_read q = lq_arr q ! lq_read q" if "0 < lq_len q"
    using that lq_len_0 [OF assms(1)] by (simp add: q'_def)
qed

section \<open>The refinement\<close>

definition spsc_ok :: "'a lq_pc \<times> 'a lq_pc \<times> 'a LockFreeQueue \<Rightarrow> bool" where
  "spsc_ok s \<longleftrightarrow> (case s of (p, c, q) \<Rightarrow> ring_ok q \<and> prod_ok p q \<and> cons_ok c q)"

lemma at_rest_simps [simp]: "\<not> at_rest (PushStart x)" "\<not> at_rest PopStart"
  by (simp_all add: at_rest_def)

lemma rest_ok: "at_rest p \<Longrightarrow> prod_ok p q \<Longrightarrow> lq_write q = lq_maxRead q"
  by (cases p) (auto simp: at_rest_def)

text \<open>Each kind of step, with what it does to the content and what it leaves of the other thread's claims.\<close>

lemma producer_step:
  assumes "ring_ok q" and "prod_ok p q" and "cons_ok c q" and "lq_step p q = (p', q')"
  shows "ring_ok q' \<and> prod_ok p' q' \<and> cons_ok c q' \<and> lq_maxSz q' = lq_maxSz q \<and>
     fifo_step (lq_maxSz q - 1) (lq_content q) (lq_event p q) (lq_content q') \<and>
     lq_replied (lq_event p q) (p, c) (p', c)"
proof (cases p)
  case (PushTest x w)
  then show ?thesis using assms lq_len_full [OF assms(1)] lq_len_less [OF assms(1)]
    by (auto simp: at_rest_def intro: fifo_step.intros)
next
  case (PushReserve x w)
  have "lq_content (q\<lparr>lq_write := k\<rparr>) = lq_content q" "lq_len (q\<lparr>lq_write := k\<rparr>) = lq_len q" for k
    by (simp_all add: lq_content_def lq_len_def)
  moreover have "cons_ok c (q\<lparr>lq_write := k\<rparr>)" for k using assms(3) by (cases c) (auto simp: lq_len_def)
  ultimately show ?thesis using assms PushReserve by (auto simp: ring_ok_def at_rest_def intro: fifo_step.intros)
next
  case (PushStore x w)
  note st = ring_store [OF assms(1), of x]
  have "cons_ok c (q\<lparr>lq_arr := (lq_arr q)[lq_maxRead q := x]\<rparr>)"
    using assms(3) st(2,4) by (cases c) (auto simp: at_rest_def)
  moreover have "w < length (lq_arr q)" using assms(1,2) PushStore by (simp add: ring_ok_def)
  ultimately show ?thesis using assms PushStore st by (auto simp: at_rest_def intro: fifo_step.intros)
next
  case (PushPublish x w)
  then have len: "lq_len q + 1 < lq_maxSz q" "lq_maxRead q = w" "lq_arr q ! w = x" using assms(2) by auto
  note pub = ring_publish [OF assms(1) len(1)]
  have "cons_ok c (q\<lparr>lq_maxRead := (lq_maxRead q + 1) mod lq_maxSz q\<rparr>)"
    using assms(3) pub(2) by (cases c) (auto simp: at_rest_def)
  moreover have "fifo_step (lq_maxSz q - 1) (lq_content q) (Enq x) (lq_content q @ [x])"
    using len by (intro fifo_step.enq) simp
  ultimately show ?thesis using assms PushPublish pub len by (auto simp: at_rest_def)
qed (use assms in \<open>auto simp: at_rest_def intro: fifo_step.intros\<close>)

lemma consumer_step:
  assumes "ring_ok q" and "prod_ok p q" and "cons_ok c q" and "lq_step c q = (c', q')"
  shows "ring_ok q' \<and> prod_ok p q' \<and> cons_ok c' q' \<and> lq_maxSz q' = lq_maxSz q \<and>
     fifo_step (lq_maxSz q - 1) (lq_content q) (lq_event c q) (lq_content q') \<and>
     lq_replied (lq_event c q) (p, c) (p, c')"
proof (cases c)
  case (PopTest r)
  then show ?thesis using assms lq_len_0 [OF assms(1)]
    by (auto simp: at_rest_def lq_content_def intro: fifo_step.intros)
next
  case (PopTake r x)
  then have r: "r = lq_read q" "0 < lq_len q" "x = lq_arr q ! r" using assms(3) by auto
  note tk = ring_take [OF assms(1) r(2)]
  have "prod_ok p (q\<lparr>lq_read := (lq_read q + 1) mod lq_maxSz q\<rparr>)"
    using assms(2) tk(2) by (cases p) (auto simp: at_rest_def)
  moreover have "fifo_step (lq_maxSz q - 1) (lq_content q) (Deq x) (lq_content (q\<lparr>lq_read := (lq_read q + 1) mod lq_maxSz q\<rparr>))"
    unfolding tk(3) r by (rule fifo_step.deq)
  ultimately show ?thesis using assms PopTake r tk(1) by (auto simp: at_rest_def)
qed (use assms in \<open>auto simp: at_rest_def intro: fifo_step.intros\<close>)

lemma spsc_step_ok:
  assumes "spsc_ok s" and "spsc_step s e s'"
  shows "spsc_ok s' \<and> lq_maxSz (snd (snd s')) = lq_maxSz (snd (snd s)) \<and>
     fifo_step (lq_maxSz (snd (snd s)) - 1) (lq_content (snd (snd s))) e (lq_content (snd (snd s'))) \<and>
     lq_replied e (fst s, fst (snd s)) (fst s', fst (snd s'))"
  using assms(2,1)
proof (cases rule: spsc_step.cases)
  case (call_push p c q x)
  then show ?thesis using assms(1) rest_ok [of p q] by (simp add: spsc_ok_def fifo_step.tau)
next
  case (call_pop c p q)
  then show ?thesis using assms(1) by (simp add: spsc_ok_def fifo_step.tau)
next
  case (step_push p q p' q' c)
  then show ?thesis using assms(1) producer_step [of q p c p' q'] by (auto simp: spsc_ok_def)
next
  case (step_pop c q c' q' p)
  then show ?thesis using assms(1) consumer_step [of q p c c' q'] by (auto simp: spsc_ok_def)
qed

lemma spsc_reach_ok:
  "spsc_reach junk s \<Longrightarrow> junk \<noteq> [] \<Longrightarrow> spsc_ok s \<and> lq_maxSz (snd (snd s)) = length junk"
proof (induction rule: spsc_reach.induct)
  case start
  then show ?case by (simp add: spsc_ok_def ring_ok_def LockFreeQueue_init_def at_rest_def)
next
  case (step s e s')
  then show ?case using spsc_step_ok by metis
qed

text \<open>
  C23. With one producer and one consumer, \<open>LockFreeQueue\<close> of array size \<open>n\<close> refines an atomic FIFO of capacity
  \<open>n - 1\<close>, for every interleaving of the two threads' accesses. Every step of the code is a step of the FIFO: a
  push reports success exactly when the argument it was called with is appended, and failure exactly when
  \<open>n - 1\<close> values are queued; a pop returns the oldest value when it takes it off the queue, and reports failure
  exactly when none is queued; every other step leaves the queue as it is, returns nothing and keeps the argument
  of a push under way.
\<close>

theorem spsc_refines_fifo:
  assumes "junk \<noteq> []" and "spsc_reach junk (p, c, q)" and "spsc_step (p, c, q) e (p', c', q')"
  shows "fifo_step (length junk - 1) (lq_content q) e (lq_content q') \<and> lq_replied e (p, c) (p', c')"
  using spsc_reach_ok [OF assms(2,1)] spsc_step_ok [OF _ assms(3)] by auto

text \<open>Sample: a push of 7 that is about to be published.\<close>

definition sample_ring :: "nat LockFreeQueue" where
  "sample_ring = \<lparr>lq_arr = [7, 0, 0], lq_maxSz = 3, lq_read = 0, lq_write = 1, lq_maxRead = 0\<rparr>"

lemma sample_reach: "spsc_reach [0, 0, 0] (PushPublish 7 0, LIdle, sample_ring)"
proof -
  let ?q = "LockFreeQueue_init [0 :: nat, 0, 0]" and ?n = "[0 :: nat, 0, 0]"
  have 1: "spsc_reach ?n (PushStart 7, LIdle, ?q)"
    using spsc_reach.step [OF spsc_reach.start spsc_step.call_push [of LIdle LIdle ?q 7]] by (simp add: at_rest_def)
  have 2: "spsc_reach ?n (PushTest 7 0, LIdle, ?q)"
    by (rule spsc_reach.step [OF 1 spsc_step.step_push]) (simp add: LockFreeQueue_init_def)
  have 3: "spsc_reach ?n (PushReserve 7 0, LIdle, ?q)"
    by (rule spsc_reach.step [OF 2 spsc_step.step_push]) (simp add: LockFreeQueue_init_def)
  have 4: "spsc_reach ?n (PushStore 7 0, LIdle, ?q\<lparr>lq_write := 1\<rparr>)"
    by (rule spsc_reach.step [OF 3 spsc_step.step_push]) (simp add: LockFreeQueue_init_def)
  show ?thesis
    by (rule spsc_reach.step [OF 4 spsc_step.step_push]) (simp add: LockFreeQueue_init_def sample_ring_def)
qed

theorem spsc_refines_fifo_witness:
  "\<exists>q'. spsc_step (PushPublish 7 0, LIdle, sample_ring) (Enq 7) (PushReturn True, LIdle, q') \<and>
     fifo_step 2 (lq_content sample_ring) (Enq 7) (lq_content q') \<and>
     lq_replied (Enq 7) (PushPublish 7 0, LIdle) (PushReturn True, LIdle)"
proof -
  let ?q = "sample_ring\<lparr>lq_maxRead := 1\<rparr>"
  have "spsc_step (PushPublish 7 0, LIdle, sample_ring) (lq_event (PushPublish 7 0) sample_ring) (PushReturn True, LIdle, ?q)"
    by (rule spsc_step.step_push) (simp add: sample_ring_def)
  then have st: "spsc_step (PushPublish 7 0, LIdle, sample_ring) (Enq 7) (PushReturn True, LIdle, ?q)"
    by (simp add: sample_ring_def)
  have "[0 :: nat, 0, 0] \<noteq> []" by simp
  note spsc_refines_fifo [OF this sample_reach st]
  with st show ?thesis by (auto simp: numeral_2_eq_2)
qed

section \<open>Several consumers\<close>

datatype 'a lq_act = CallPush nat 'a | CallPop nat | Go nat

text \<open>A system of any number of threads, with the values the pops returned and the number of pushes that
  reported success.\<close>

type_synonym 'a lq_sys = "'a lq_pc list \<times> 'a LockFreeQueue \<times> 'a list \<times> nat"

fun lq_act1 :: "'a lq_act \<Rightarrow> 'a lq_sys \<Rightarrow> 'a lq_sys option" where
  "lq_act1 (CallPush i x) (ts, q, out, n) =
     (if i < length ts \<and> at_rest (ts ! i) then Some (ts[i := PushStart x], q, out, n) else None)"
| "lq_act1 (CallPop i) (ts, q, out, n) =
     (if i < length ts \<and> at_rest (ts ! i) then Some (ts[i := PopStart], q, out, n) else None)"
| "lq_act1 (Go i) (ts, q, out, n) =
     (if i < length ts \<and> \<not> at_rest (ts ! i)
      then (case lq_step (ts ! i) q of (pc, q') \<Rightarrow>
        Some (ts[i := pc], q', (case pc of PopReturn (Some x) \<Rightarrow> out @ [x] | _ \<Rightarrow> out),
          (case pc of PushReturn True \<Rightarrow> n + 1 | _ \<Rightarrow> n)))
      else None)"

fun lq_exec :: "'a lq_act list \<Rightarrow> 'a lq_sys \<Rightarrow> 'a lq_sys option" where
  "lq_exec [] s = Some s"
| "lq_exec (a # as) s = Option.bind (lq_act1 a s) (lq_exec as)"

text \<open>
  Two consumers break the queue. A pop that was interrupted between reading its slot and the exchange of
  the index takes a stale value when the ring has gone round meanwhile: of three values pushed with success
  the first is popped twice and the third never, and the queue is empty.
\<close>

theorem stale_pop:
  "\<exists>acts ts q. lq_exec acts ([LIdle, LIdle, LIdle], LockFreeQueue_init [0 :: nat, 0], [], 0) = Some (ts, q, [1, 2, 1], 3) \<and>
     filter (\<lambda>a. case a of CallPush _ _ \<Rightarrow> True | _ \<Rightarrow> False) acts = [CallPush 0 1, CallPush 0 2, CallPush 0 3] \<and>
     list_all at_rest ts \<and> lq_IsEmpty q"
proof -
  let ?push = "\<lambda>x. CallPush 0 x # replicate 5 (Go 0)"
  let ?acts = "?push 1 @ [CallPop 1, Go 1, Go 1, Go 1] @ (CallPop 2 # replicate 4 (Go 2)) @ ?push 2 @
      (CallPop 2 # replicate 4 (Go 2)) @ ?push 3 @ [Go 1]"
  have "case lq_exec ?acts ([LIdle, LIdle, LIdle], LockFreeQueue_init [0 :: nat, 0], [], 0) of
      None \<Rightarrow> False | Some (ts, q, out, n) \<Rightarrow> out = [1, 2, 1] \<and> n = 3 \<and> list_all at_rest ts \<and> lq_IsEmpty q"
    by code_simp
  then obtain ts q where "lq_exec ?acts ([LIdle, LIdle, LIdle], LockFreeQueue_init [0 :: nat, 0], [], 0) = Some (ts, q, [1, 2, 1], 3)"
    "list_all at_rest ts" "lq_IsEmpty q" by (auto split: option.splits)
  moreover have "filter (\<lambda>a. case a of CallPush _ _ \<Rightarrow> True | _ \<Rightarrow> False) ?acts = [CallPush 0 1, CallPush 0 2, CallPush 0 3]"
    by simp
  ultimately show ?thesis by blast
qed

end
