(* ===== verification/LockFreeStack.thy ===== *)
theory LockFreeStack
  imports Slots "HOL-Library.Word"
begin

text \<open>
  \<open>misc/LockFreeContainer.h\<close>: the stack. A mask counts the threads inside \<open>Push\<close> and those inside \<open>Pop\<close>, so that either only
  pushes or only pops are under way; the threads of one kind share the array through compare-and-swap on the top. Every
  access to shared memory is a step of its own.
\<close>

unbundle bit_operations_syntax

record 'a LockFreeStack =
  ls_arr :: "'a list"
  ls_top :: nat
  ls_maxSz :: nat
  ls_mask :: "64 word"

definition readMask :: "64 word" where
  "readMask = 0xffff"

definition writeMask :: "64 word" where
  "writeMask = push_bit 16 readMask"

definition maxConcurrent :: "64 word" where
  "maxConcurrent = 0xff"

text \<open>The array is not initialised.\<close>

definition LockFreeStack_init :: "'a list \<Rightarrow> 'a LockFreeStack" where
  "LockFreeStack_init junk = \<lparr>ls_arr = junk, ls_top = 0, ls_maxSz = length junk, ls_mask = 0\<rparr>"

text \<open>Where a thread is in \<open>Push\<close> or \<open>Pop\<close>, with its local variables. The result of a failed pop is the uninitialised local.\<close>

datatype 'a ls_pc =
    LsRest
  | PuLock 'a | PuLockCas 'a "64 word" | PuTop 'a | PuTopCas 'a nat | PuWrite 'a nat | PuCheck bool | PuUnlock bool
  | PuUnlockCas bool "64 word" | PuDone bool
  | PoLock | PoLockCas "64 word" | PoTop | PoTopCas nat | PoRead nat | PoMark nat 'a | PoCheck "'a option" | PoUnlock "'a option"
  | PoUnlockCas "'a option" "64 word" | PoDone "'a option"

definition Push_append :: "64 word" where
  "Push_append = push_bit 16 1"

text \<open>\<open>mark\<close> is the value \<open>0xcdcd\<close> that replaces a popped one.\<close>

fun ls_step :: "'a \<Rightarrow> 'a ls_pc \<Rightarrow> 'a LockFreeStack \<Rightarrow> ('a ls_pc \<times> 'a LockFreeStack) option" where
  "ls_step mark (PuLock v) s =
     (let old = ls_mask s AND NOT readMask in
      Some (if drop_bit 16 old \<ge> maxConcurrent then PuLock v else PuLockCas v old, s))"
| "ls_step mark (PuLockCas v old) s =
     Some (if ls_mask s = old then (PuTop v, s\<lparr>ls_mask := old + Push_append\<rparr>) else (PuLock v, s))"
| "ls_step mark (PuTop v) s = Some (if ls_top s = ls_maxSz s then PuCheck False else PuTopCas v (ls_top s), s)"
| "ls_step mark (PuTopCas v t) s = Some (if ls_top s = t then (PuWrite v t, s\<lparr>ls_top := t + 1\<rparr>) else (PuTop v, s))"
| "ls_step mark (PuWrite v t) s =
     (if t < length (ls_arr s) then Some (PuCheck True, s\<lparr>ls_arr := (ls_arr s)[t := v]\<rparr>) else None)"
| "ls_step mark (PuCheck r) s = (if ls_mask s AND NOT writeMask = 0 then Some (PuUnlock r, s) else None)"
| "ls_step mark (PuUnlock r) s = Some (PuUnlockCas r (ls_mask s), s)"
| "ls_step mark (PuUnlockCas r old) s =
     Some (if ls_mask s = old then (PuDone r, s\<lparr>ls_mask := old - Push_append\<rparr>) else (PuUnlock r, s))"
| "ls_step mark PoLock s =
     (let old = ls_mask s AND NOT writeMask in Some (if old \<ge> maxConcurrent then PoLock else PoLockCas old, s))"
| "ls_step mark (PoLockCas old) s = Some (if ls_mask s = old then (PoTop, s\<lparr>ls_mask := old + 1\<rparr>) else (PoLock, s))"
| "ls_step mark PoTop s = Some (if ls_top s = 0 then PoCheck None else PoTopCas (ls_top s), s)"
| "ls_step mark (PoTopCas t) s = Some (if ls_top s = t then (PoRead (t - 1), s\<lparr>ls_top := t - 1\<rparr>) else (PoTop, s))"
| "ls_step mark (PoRead t) s = (if t < length (ls_arr s) then Some (PoMark t (ls_arr s ! t), s) else None)"
| "ls_step mark (PoMark t v) s =
     (if t < length (ls_arr s) then Some (PoCheck (Some v), s\<lparr>ls_arr := (ls_arr s)[t := mark]\<rparr>) else None)"
| "ls_step mark (PoCheck r) s = (if ls_mask s AND NOT readMask = 0 then Some (PoUnlock r, s) else None)"
| "ls_step mark (PoUnlock r) s = Some (PoUnlockCas r (ls_mask s), s)"
| "ls_step mark (PoUnlockCas r old) s = Some (if ls_mask s = old then (PoDone r, s\<lparr>ls_mask := old - 1\<rparr>) else (PoUnlock r, s))"
| "ls_step mark pc s = Some (pc, s)"

definition ls_IsEmpty :: "'a LockFreeStack \<Rightarrow> bool" where
  "ls_IsEmpty s = (ls_top s \<noteq> 0)"

definition ls_Size :: "'a LockFreeStack \<Rightarrow> nat" where
  "ls_Size s = ls_top s"

section \<open>Any number of threads\<close>

fun ls_rest :: "'a ls_pc \<Rightarrow> bool" where
  "ls_rest LsRest = True"
| "ls_rest (PuDone r) = True"
| "ls_rest (PoDone r) = True"
| "ls_rest _ = False"

datatype 'a ls_act = PushCall nat 'a | PopCall nat | StackGo nat

text \<open>The stack, the threads, the values written so far by pushes and those read by pops.\<close>

type_synonym 'a ls_sys = "'a LockFreeStack \<times> 'a ls_pc list \<times> 'a list \<times> 'a list"

fun ls_act1 :: "'a \<Rightarrow> 'a ls_act \<Rightarrow> 'a ls_sys \<Rightarrow> 'a ls_sys option" where
  "ls_act1 mark (PushCall i v) (s, ts, ins, outs) =
     Some (if i < length ts \<and> ls_rest (ts ! i) then (s, ts[i := PuLock v], ins, outs) else (s, ts, ins, outs))"
| "ls_act1 mark (PopCall i) (s, ts, ins, outs) =
     Some (if i < length ts \<and> ls_rest (ts ! i) then (s, ts[i := PoLock], ins, outs) else (s, ts, ins, outs))"
| "ls_act1 mark (StackGo i) (s, ts, ins, outs) =
     (if i < length ts
      then do {
        (pc, s') \<leftarrow> ls_step mark (ts ! i) s;
        Some (s', ts[i := pc], (case ts ! i of PuWrite v t \<Rightarrow> ins @ [v] | _ \<Rightarrow> ins),
          (case pc of PoMark t v \<Rightarrow> outs @ [v] | _ \<Rightarrow> outs))
      }
      else Some (s, ts, ins, outs))"

abbreviation ls_run :: "'a \<Rightarrow> 'a ls_act list \<Rightarrow> 'a ls_sys \<Rightarrow> 'a ls_sys option" where
  "ls_run mark \<equiv> run_schedule (\<lambda>_ _. True) (ls_act1 mark)"

section \<open>The mask\<close>

fun pushing :: "'a ls_pc \<Rightarrow> unit option" where
  "pushing (PuTop v) = Some ()"
| "pushing (PuTopCas v t) = Some ()"
| "pushing (PuWrite v t) = Some ()"
| "pushing (PuCheck r) = Some ()"
| "pushing (PuUnlock r) = Some ()"
| "pushing (PuUnlockCas r m) = Some ()"
| "pushing _ = None"

fun popping :: "'a ls_pc \<Rightarrow> unit option" where
  "popping PoTop = Some ()"
| "popping (PoTopCas t) = Some ()"
| "popping (PoRead t) = Some ()"
| "popping (PoMark t v) = Some ()"
| "popping (PoCheck r) = Some ()"
| "popping (PoUnlock r) = Some ()"
| "popping (PoUnlockCas r m) = Some ()"
| "popping _ = None"

text \<open>What a thread relies on when its exchange of the mask succeeds.\<close>

fun pc_mask_ok :: "'a ls_pc \<Rightarrow> bool" where
  "pc_mask_ok (PuLockCas v old) \<longleftrightarrow> unat old mod 65536 = 0 \<and> unat old div 65536 < 255"
| "pc_mask_ok (PoLockCas old) \<longleftrightarrow> unat old < 255"
| "pc_mask_ok _ \<longleftrightarrow> True"

definition mask_ok :: "64 word \<Rightarrow> nat \<Rightarrow> nat \<Rightarrow> bool" where
  "mask_ok m w r \<longleftrightarrow> unat m = w * 65536 + r \<and> w \<le> 255 \<and> r \<le> 255 \<and> (w = 0 \<or> r = 0)"

lemma readMask_mask: "readMask = mask 16"
  by (simp add: readMask_def mask_eq_exp_minus_1)

lemma low_cleared: "unat ((m :: 64 word) AND NOT readMask) mod 65536 = 0"
proof -
  have "take_bit 16 (m AND NOT readMask) = 0" unfolding readMask_mask by (rule bit_eqI) (simp add: bit_simps)
  then have "unat (take_bit 16 (m AND NOT readMask)) = 0" by simp
  then show ?thesis by (simp add: take_bit_eq_mod unat_mod)
qed

lemma drop16: "unat (drop_bit 16 (m :: 64 word)) = unat m div 65536"
  by (simp add: drop_bit_eq_div unat_div)

lemma mask_write_free:
  assumes "mask_ok m w r" and "0 < w"
  shows "m AND NOT writeMask = 0"
proof -
  have u: "unat m = w * 65536" "w \<le> 255" using assms by (auto simp: mask_ok_def)
  have "m = word_of_nat (w * 65536)" using u(1) by (metis of_nat_unat ucast_id)
  then have "m = push_bit 16 (word_of_nat w)" by (simp add: push_bit_eq_mult)
  moreover have "bit w n \<Longrightarrow> n < 16" for n
  proof -
    have "w < 2 ^ 16" using u(2) by simp
    then show "bit w n \<Longrightarrow> n < 16" by (metis bit_take_bit_iff take_bit_nat_eq_self)
  qed
  ultimately show ?thesis unfolding writeMask_def readMask_mask by (intro bit_eqI) (auto simp: bit_simps)
qed

lemma mask_read_free:
  assumes "mask_ok m w r" and "0 < r"
  shows "m AND NOT readMask = 0"
proof -
  have "unat m < 2 ^ 16" using assms by (auto simp: mask_ok_def)
  then have "take_bit 16 (unat m) = unat m" by (simp add: take_bit_nat_eq_self)
  then have "take_bit 16 m = m" by (simp add: word_unat_eq_iff unsigned_take_bit_eq)
  then have "m AND mask 16 = m" by (simp add: take_bit_eq_mask)
  then have "m AND NOT readMask = (m AND mask 16) AND NOT (mask 16)" by (simp add: readMask_mask)
  then show ?thesis by (simp add: bit_eq_iff bit_simps)
qed

lemma mask_enter_push:
  assumes "mask_ok m w r" and "unat m mod 65536 = 0" and "unat m div 65536 < 255"
  shows "r = 0 \<and> mask_ok (m + Push_append) (w + 1) r"
proof -
  have "r mod 65536 = 0" "w < 255" using assms by (auto simp: mask_ok_def)
  then have r: "r = 0" "w < 255" using assms(1) by (auto simp: mask_ok_def)
  have "unat (Push_append) = 65536" by (simp add: Push_append_def unsigned_push_bit_eq)
  moreover have "unat m + 65536 < 2 ^ 64" using assms(1) r by (simp add: mask_ok_def)
  ultimately have "unat (m + Push_append) = unat m + 65536" by (simp add: unat_plus_if')
  then show ?thesis using assms(1) r by (auto simp: mask_ok_def)
qed

lemma mask_enter_pop:
  assumes "mask_ok m w r" and "unat m < 255"
  shows "w = 0 \<and> mask_ok (m + 1) w (r + 1)"
proof -
  have w: "w = 0" "r < 255" using assms by (auto simp: mask_ok_def)
  have "unat (m + 1) = unat m + 1" using assms(2) by (simp add: unat_plus_if')
  then show ?thesis using assms(1) w by (auto simp: mask_ok_def)
qed

lemma mask_leave_push:
  assumes "mask_ok m (Suc w) r"
  shows "mask_ok (m - Push_append) w r"
proof -
  have "unat (Push_append) = 65536" by (simp add: Push_append_def unsigned_push_bit_eq)
  then have "unat (m - Push_append) = unat m - 65536" using assms by (simp add: unat_sub word_le_nat_alt mask_ok_def)
  then show ?thesis using assms by (auto simp: mask_ok_def)
qed

lemma mask_leave_pop:
  assumes "mask_ok m w (Suc r)"
  shows "mask_ok (m - 1) w r"
proof -
  have "unat (m - 1) = unat m - 1" using assms by (simp add: unat_sub word_le_nat_alt mask_ok_def)
  then show ?thesis using assms by (auto simp: mask_ok_def)
qed

section \<open>The slots\<close>

text \<open>The slot a push has reserved and not written, the slot a pop has to itself, and the one it has still to read.\<close>

fun pu_slot :: "'a ls_pc \<Rightarrow> nat option" where
  "pu_slot (PuWrite v t) = Some t"
| "pu_slot _ = None"

fun po_slot :: "'a ls_pc \<Rightarrow> nat option" where
  "po_slot (PoRead t) = Some t"
| "po_slot (PoMark t v) = Some t"
| "po_slot _ = None"

fun po_read :: "'a ls_pc \<Rightarrow> nat option" where
  "po_read (PoRead t) = Some t"
| "po_read _ = None"

fun ls_pc_ok :: "nat \<Rightarrow> 'a ls_pc \<Rightarrow> bool" where
  "ls_pc_ok n (PuTopCas v t) \<longleftrightarrow> t < n"
| "ls_pc_ok n (PoTopCas t) \<longleftrightarrow> 0 < t"
| "ls_pc_ok n pc \<longleftrightarrow> pc_mask_ok pc"

definition ls_live :: "'a LockFreeStack \<Rightarrow> 'a ls_pc list \<Rightarrow> nat set" where
  "ls_live s ts = ({0..<ls_top s} - set (picks pu_slot ts)) \<union> set (picks po_read ts)"

definition ls_stored :: "'a LockFreeStack \<Rightarrow> 'a ls_pc list \<Rightarrow> 'a multiset" where
  "ls_stored s ts = image_mset ((!) (ls_arr s)) (mset_set (ls_live s ts))"

definition slots_ok :: "'a LockFreeStack \<Rightarrow> 'a ls_pc list \<Rightarrow> bool" where
  "slots_ok s ts \<longleftrightarrow> length (ls_arr s) = ls_maxSz s \<and> ls_top s \<le> ls_maxSz s \<and>
     distinct (picks pu_slot ts) \<and> set (picks pu_slot ts) \<subseteq> {0..<ls_top s} \<and>
     distinct (picks po_slot ts) \<and> set (picks po_slot ts) \<subseteq> {ls_top s..<ls_maxSz s} \<and>
     list_all (ls_pc_ok (ls_maxSz s)) ts"

definition ls_inv :: "'a ls_sys \<Rightarrow> bool" where
  "ls_inv x \<longleftrightarrow> (case x of (s, ts, ins, outs) \<Rightarrow>
     mask_ok (ls_mask s) (length (picks pushing ts)) (length (picks popping ts)) \<and> slots_ok s ts \<and>
     mset ins = mset outs + ls_stored s ts)"

lemma finite_ls_live [simp]: "finite (ls_live s ts)"
  by (simp add: ls_live_def)

lemma list_all_upd: "list_all P ts \<Longrightarrow> P t \<Longrightarrow> list_all P (ts[i := t])"
  by (auto simp: list_all_length nth_upd)

lemma po_read_slot: "set (picks po_read ts) \<subseteq> set (picks po_slot ts)"
proof (induction ts)
  case (Cons t ts)
  then show ?case by (cases t) auto
qed simp

text \<open>Threads of one kind keep those of the other out.\<close>

lemma no_pop_slots: "length (picks popping ts) = 0 \<Longrightarrow> picks po_slot ts = []"
proof -
  have "length (picks po_slot ts) \<le> length (picks popping ts)"
    by (rule picks_length_le) (auto elim!: po_slot.elims)
  then show "length (picks popping ts) = 0 \<Longrightarrow> picks po_slot ts = []" by simp
qed

lemma no_push_slots: "length (picks pushing ts) = 0 \<Longrightarrow> picks pu_slot ts = []"
proof -
  have "length (picks pu_slot ts) \<le> length (picks pushing ts)"
    by (rule picks_length_le) (auto elim!: pu_slot.elims)
  then show "length (picks pushing ts) = 0 \<Longrightarrow> picks pu_slot ts = []" by simp
qed

lemma picks_pos: "i < length ts \<Longrightarrow> f (ts ! i) = Some a \<Longrightarrow> 0 < length (picks f ts)"
  using picks_in [of i ts f a] by (cases "picks f ts") auto

text \<open>A thread goes on alone: of the stack at most the mask changes.\<close>

lemma ls_local:
  assumes "ls_inv (s, ts, ins, outs)" and "i < length ts" and "ls_pc_ok (ls_maxSz s) pc"
    and "pu_slot pc = pu_slot (ts ! i)" and "po_slot pc = po_slot (ts ! i)" and "po_read pc = po_read (ts ! i)"
    and "mask_ok m (length (picks pushing (ts[i := pc]))) (length (picks popping (ts[i := pc])))"
  shows "ls_inv (s\<lparr>ls_mask := m\<rparr>, ts[i := pc], ins, outs)"
  using assms picks_same [OF assms(4)] picks_same [OF assms(5)] picks_same [OF assms(6)]
  by (auto simp: ls_inv_def slots_ok_def ls_stored_def ls_live_def list_all_upd)

lemma ls_local_same:
  assumes "ls_inv (s, ts, ins, outs)" and "i < length ts" and "ls_pc_ok (ls_maxSz s) pc"
    and "pu_slot pc = pu_slot (ts ! i)" and "po_slot pc = po_slot (ts ! i)" and "po_read pc = po_read (ts ! i)"
    and "pushing pc = pushing (ts ! i)" and "popping pc = popping (ts ! i)"
  shows "ls_inv (s, ts[i := pc], ins, outs)"
  using ls_local [OF assms(1-6), of "ls_mask s"] picks_same [OF assms(7)] picks_same [OF assms(8)] assms(1)
  by (simp add: ls_inv_def)

lemma po_read_distinct: "distinct (picks po_slot ts) \<Longrightarrow> distinct (picks po_read ts)"
proof (induction ts)
  case (Cons t ts)
  then show ?case using po_read_slot [of ts] by (cases t) auto
qed simp

lemma slots_push: "slots_ok s ts \<Longrightarrow> a \<in> set (picks pu_slot ts) \<Longrightarrow> a < ls_top s \<and> a < length (ls_arr s)"
  by (fastforce simp: slots_ok_def subset_iff)

lemma slots_pop: "slots_ok s ts \<Longrightarrow> a \<in> set (picks po_slot ts) \<Longrightarrow> ls_top s \<le> a \<and> a < length (ls_arr s)"
  by (auto simp: slots_ok_def subset_iff)

lemma slots_okI:
  "length (ls_arr s) = ls_maxSz s \<Longrightarrow> ls_top s \<le> ls_maxSz s \<Longrightarrow> distinct (picks pu_slot ts) \<Longrightarrow>
   (\<And>a. a \<in> set (picks pu_slot ts) \<Longrightarrow> a < ls_top s) \<Longrightarrow> distinct (picks po_slot ts) \<Longrightarrow>
   (\<And>a. a \<in> set (picks po_slot ts) \<Longrightarrow> ls_top s \<le> a \<and> a < ls_maxSz s) \<Longrightarrow> list_all (ls_pc_ok (ls_maxSz s)) ts \<Longrightarrow> slots_ok s ts"
  by (auto simp: slots_ok_def)

lemma slots_okD:
  assumes "slots_ok s ts"
  shows "length (ls_arr s) = ls_maxSz s" and "ls_top s \<le> ls_maxSz s" and "distinct (picks pu_slot ts)"
    and "distinct (picks po_slot ts)" and "list_all (ls_pc_ok (ls_maxSz s)) ts"
  using assms by (simp_all add: slots_ok_def)

lemma slots_pc: "slots_ok s ts \<Longrightarrow> i < length ts \<Longrightarrow> ls_pc_ok (ls_maxSz s) (ts ! i)"
  by (simp add: slots_ok_def list_all_length)

lemma ls_invD:
  assumes "ls_inv (s, ts, ins, outs)"
  shows "mask_ok (ls_mask s) (length (picks pushing ts)) (length (picks popping ts))" and "slots_ok s ts"
    and "mset ins = mset outs + ls_stored s ts"
  using assms by (simp_all add: ls_inv_def)

lemma push_phase:
  assumes "ls_inv (s, ts, ins, outs)" and "i < length ts" and "pushing (ts ! i) = Some ()"
  shows "picks po_slot ts = []" and "picks po_read ts = []"
proof -
  have "picks popping ts = []" using picks_pos [of i ts pushing] assms(2,3) ls_invD(1) [OF assms(1)] by (auto simp: mask_ok_def)
  then show "picks po_slot ts = []" by (simp add: no_pop_slots)
  then show "picks po_read ts = []" using po_read_slot [of ts] by simp
qed

lemma pop_phase:
  assumes "ls_inv (s, ts, ins, outs)" and "i < length ts" and "popping (ts ! i) = Some ()"
  shows "picks pu_slot ts = []"
proof -
  have "picks pushing ts = []" using picks_pos [of i ts popping] assms(2,3) ls_invD(1) [OF assms(1)] by (auto simp: mask_ok_def)
  then show ?thesis by (simp add: no_push_slots)
qed

lemma image_upd: "t \<notin> A \<Longrightarrow> finite A \<Longrightarrow> image_mset ((!) (xs[t := v])) (mset_set A) = image_mset ((!) xs) (mset_set A)"
  by (rule image_mset_cong) (metis elem_mset_set nth_list_update_neq)

lemma ls_reserve:
  assumes "ls_inv (s, ts, ins, outs)" and "i < length ts" and "ts ! i = PuTopCas v t" and "ls_top s = t"
  shows "ls_inv (s\<lparr>ls_top := t + 1\<rparr>, ts[i := PuWrite v t], ins, outs)"
proof -
  note inv = ls_invD [OF assms(1)]
  have none: "picks po_slot ts = []" "picks po_read ts = []"
    using push_phase [OF assms(1,2)] assms(3) by simp_all
  have "t < ls_maxSz s" using slots_pc [OF inv(2) assms(2)] assms(3) by simp
  have new: "t \<notin> set (picks pu_slot ts)" using slots_push [OF inv(2), of t] assms(4) by blast
  have pu: "distinct (picks pu_slot (ts[i := PuWrite v t]))" "set (picks pu_slot (ts[i := PuWrite v t])) = insert t (set (picks pu_slot ts))"
    using picks_take [of pu_slot ts i "PuWrite v t" t] inv(2) assms(2,3) new by (simp_all add: slots_ok_def)
  have same: "picks po_slot (ts[i := PuWrite v t]) = []" "picks po_read (ts[i := PuWrite v t]) = []"
    "picks pushing (ts[i := PuWrite v t]) = picks pushing ts" "picks popping (ts[i := PuWrite v t]) = picks popping ts"
    using none assms(3) by (simp_all add: picks_same)
  have "slots_ok (s\<lparr>ls_top := t + 1\<rparr>) (ts[i := PuWrite v t])"
    using slots_okD [OF inv(2)] pu same assms(4) \<open>t < ls_maxSz s\<close>
    by (intro slots_okI) (auto simp: list_all_upd dest!: slots_push [OF inv(2)])
  moreover have "ls_live (s\<lparr>ls_top := t + 1\<rparr>) (ts[i := PuWrite v t]) = ls_live s ts"
    using new by (auto simp: ls_live_def pu(2) same(2) none(2) assms(4))
  ultimately show ?thesis using inv(1,3) same by (simp add: ls_inv_def ls_stored_def)
qed

lemma ls_write:
  assumes "ls_inv (s, ts, ins, outs)" and "i < length ts" and "ts ! i = PuWrite v t"
  shows "t < length (ls_arr s) \<and> ls_inv (s\<lparr>ls_arr := (ls_arr s)[t := v]\<rparr>, ts[i := PuCheck True], ins @ [v], outs)"
proof -
  note inv = ls_invD [OF assms(1)]
  have none: "picks po_slot ts = []" "picks po_read ts = []"
    using push_phase [OF assms(1,2)] assms(3) by simp_all
  have t: "t \<in> set (picks pu_slot ts)" using picks_in [of i ts pu_slot t] assms(2,3) by simp
  then have len: "t < ls_top s" "t < length (ls_arr s)" using slots_push [OF inv(2), of t] by simp_all
  let ?ts = "ts[i := PuCheck True]" and ?s = "s\<lparr>ls_arr := (ls_arr s)[t := v]\<rparr>"
  have pu: "distinct (picks pu_slot ?ts)" "set (picks pu_slot ?ts) = set (picks pu_slot ts) - {t}"
    using picks_drop [of pu_slot ts i t "PuCheck True"] inv(2) assms(2,3) by (auto simp: slots_ok_def)
  have same: "picks po_slot ?ts = []" "picks po_read ?ts = []" "picks pushing ?ts = picks pushing ts" "picks popping ?ts = picks popping ts"
    using none assms(3) by (simp_all add: picks_same)
  have "slots_ok ?s ?ts" using slots_okD [OF inv(2)] pu same
    by (intro slots_okI) (auto simp: list_all_upd dest!: slots_push [OF inv(2)])
  moreover have "ls_live ?s ?ts = insert t (ls_live s ts)" "t \<notin> ls_live s ts"
    using t len(1) by (auto simp: ls_live_def pu(2) same(2) none(2))
  then have "ls_stored ?s ?ts = add_mset v (ls_stored s ts)"
    using len(2) by (simp add: ls_stored_def image_upd)
  ultimately show ?thesis using inv(1,3) same len(2) by (simp add: ls_inv_def)
qed

lemma ls_claim:
  assumes "ls_inv (s, ts, ins, outs)" and "i < length ts" and "ts ! i = PoTopCas (Suc t)" and "ls_top s = Suc t"
  shows "ls_inv (s\<lparr>ls_top := t\<rparr>, ts[i := PoRead t], ins, outs)"
proof -
  note inv = ls_invD [OF assms(1)]
  have none: "picks pu_slot ts = []" using pop_phase [OF assms(1,2)] assms(3) by simp
  let ?ts = "ts[i := PoRead t]"
  have fresh: "t \<notin> set (picks po_slot ts)" using slots_pop [OF inv(2), of t] assms(4) by auto
  have po: "distinct (picks po_slot ?ts)" "set (picks po_slot ?ts) = insert t (set (picks po_slot ts))"
    using picks_take [of po_slot ts i "PoRead t" t] inv(2) assms(2,3) fresh by (auto simp: slots_ok_def)
  have rd: "set (picks po_read ?ts) = insert t (set (picks po_read ts))"
    using picks_take [of po_read ts i "PoRead t" t] inv(2) assms(2,3) fresh po_read_slot [of ts] po_read_distinct [of ts]
    by (auto simp: slots_ok_def)
  have same: "picks pu_slot ?ts = []" "picks pushing ?ts = picks pushing ts" "picks popping ?ts = picks popping ts"
    using none assms(3) by (simp_all add: picks_same)
  have "slots_ok (s\<lparr>ls_top := t\<rparr>) ?ts"
    using slots_okD [OF inv(2)] po same assms(4)
    by (intro slots_okI) (auto simp: list_all_upd dest!: slots_pop [OF inv(2)])
  moreover have "ls_live (s\<lparr>ls_top := t\<rparr>) ?ts = ls_live s ts"
    by (auto simp: ls_live_def rd same(1) none assms(4))
  ultimately show ?thesis using inv(1,3) same by (simp add: ls_inv_def ls_stored_def)
qed

lemma ls_read:
  assumes "ls_inv (s, ts, ins, outs)" and "i < length ts" and "ts ! i = PoRead t"
  shows "t < length (ls_arr s) \<and> ls_inv (s, ts[i := PoMark t (ls_arr s ! t)], ins, outs @ [ls_arr s ! t])"
proof -
  note inv = ls_invD [OF assms(1)]
  have t: "t \<in> set (picks po_slot ts)" "t \<in> set (picks po_read ts)"
    using picks_in [of i ts po_slot t] picks_in [of i ts po_read t] assms(2,3) by auto
  then have len: "\<not> t < ls_top s" "t < length (ls_arr s)" using slots_pop [OF inv(2), of t] by simp_all
  let ?ts = "ts[i := PoMark t (ls_arr s ! t)]"
  have rd: "set (picks po_read ?ts) = set (picks po_read ts) - {t}"
    using picks_drop [of po_read ts i t "PoMark t (ls_arr s ! t)"] po_read_distinct [of ts] inv(2) assms(2,3) by (auto simp: slots_ok_def)
  have same: "picks pu_slot ?ts = picks pu_slot ts" "picks po_slot ?ts = picks po_slot ts"
    "picks pushing ?ts = picks pushing ts" "picks popping ?ts = picks popping ts"
    using assms(3) by (simp_all add: picks_same)
  have "slots_ok s ?ts" using slots_okD [OF inv(2)] same slots_push [OF inv(2)] slots_pop [OF inv(2)]
    by (intro slots_okI) (simp_all add: list_all_upd)
  moreover have "ls_live s ts = insert t (ls_live s ?ts)" "t \<notin> ls_live s ?ts"
    using t(2) len(1) by (auto simp: ls_live_def rd same(1))
  then have "ls_stored s ts = add_mset (ls_arr s ! t) (ls_stored s ?ts)" by (simp add: ls_stored_def)
  ultimately show ?thesis using inv(1,3) same len(2) by (simp add: ls_inv_def)
qed

lemma ls_mark:
  assumes "ls_inv (s, ts, ins, outs)" and "i < length ts" and "ts ! i = PoMark t v"
  shows "t < length (ls_arr s) \<and> ls_inv (s\<lparr>ls_arr := (ls_arr s)[t := mark]\<rparr>, ts[i := PoCheck (Some v)], ins, outs)"
proof -
  note inv = ls_invD [OF assms(1)]
  have t: "t \<in> set (picks po_slot ts)" using picks_in [of i ts po_slot t] assms(2,3) by simp
  then have len: "\<not> t < ls_top s" "t < length (ls_arr s)" using slots_pop [OF inv(2), of t] by simp_all
  have unread: "t \<notin> set (picks po_read ts)"
  proof
    assume "t \<in> set (picks po_read ts)"
    then obtain j where j: "j < length ts" "po_read (ts ! j) = Some t" using picks_mem [of t po_read ts] by blast
    then have "po_slot (ts ! j) = Some t" "j \<noteq> i" using assms(3) by (cases "ts ! j"; auto)+
    then show False using picks_other [of po_slot ts i j t] inv(2) assms(2,3) j(1) by (auto simp: slots_ok_def)
  qed
  let ?ts = "ts[i := PoCheck (Some v)]" and ?s = "s\<lparr>ls_arr := (ls_arr s)[t := mark]\<rparr>"
  have po: "distinct (picks po_slot ?ts)" "set (picks po_slot ?ts) = set (picks po_slot ts) - {t}"
    using picks_drop [of po_slot ts i t "PoCheck (Some v)"] inv(2) assms(2,3) by (auto simp: slots_ok_def)
  have same: "picks pu_slot ?ts = picks pu_slot ts" "picks po_read ?ts = picks po_read ts"
    "picks pushing ?ts = picks pushing ts" "picks popping ?ts = picks popping ts"
    using assms(3) by (simp_all add: picks_same)
  have "slots_ok ?s ?ts" using slots_okD [OF inv(2)] po(1)
    by (intro slots_okI) (auto simp: list_all_upd po(2) same(1) dest!: slots_push [OF inv(2)] slots_pop [OF inv(2)])
  moreover have "ls_live ?s ?ts = ls_live s ts" "t \<notin> ls_live s ts" using unread len(1) by (simp_all add: ls_live_def same(1,2))
  then have "ls_stored ?s ?ts = ls_stored s ts" by (simp add: ls_stored_def image_upd)
  ultimately show ?thesis using inv(1,3) same len(2) by (simp add: ls_inv_def)
qed

section \<open>Every step keeps the invariant\<close>

lemma picks_grow:
  "i < length ts \<Longrightarrow> f (ts ! i) = None \<Longrightarrow> f t = Some a \<Longrightarrow> length (picks f (ts[i := t])) = length (picks f ts) + 1"
  using picks_update_length [of i ts f t] by simp

lemma picks_shrink:
  "i < length ts \<Longrightarrow> f (ts ! i) = Some a \<Longrightarrow> f t = None \<Longrightarrow> length (picks f ts) = Suc (length (picks f (ts[i := t])))"
  using picks_update_length [of i ts f t] by simp

lemma ls_enter_push:
  assumes "ls_inv (s, ts, ins, outs)" and "i < length ts" and "ts ! i = PuLockCas v (ls_mask s)"
  shows "ls_inv (s\<lparr>ls_mask := ls_mask s + Push_append\<rparr>, ts[i := PuTop v], ins, outs)"
proof (rule ls_local [OF assms(1,2)])
  note inv = ls_invD [OF assms(1)]
  have "unat (ls_mask s) mod 65536 = 0" "unat (ls_mask s) div 65536 < 255"
    using slots_pc [OF inv(2) assms(2)] assms(3) by simp_all
  moreover have "picks popping (ts[i := PuTop v]) = picks popping ts" using assms(3) by (intro picks_same) simp
  moreover have "length (picks pushing (ts[i := PuTop v])) = length (picks pushing ts) + 1"
    using picks_grow [OF assms(2), of pushing "PuTop v"] assms(3) by simp
  ultimately show "mask_ok (ls_mask s + Push_append) (length (picks pushing (ts[i := PuTop v]))) (length (picks popping (ts[i := PuTop v])))"
    using mask_enter_push [OF inv(1), THEN conjunct2] by simp
qed (use assms(3) in simp_all)

lemma ls_enter_pop:
  assumes "ls_inv (s, ts, ins, outs)" and "i < length ts" and "ts ! i = PoLockCas (ls_mask s)"
  shows "ls_inv (s\<lparr>ls_mask := ls_mask s + 1\<rparr>, ts[i := PoTop], ins, outs)"
proof (rule ls_local [OF assms(1,2)])
  note inv = ls_invD [OF assms(1)]
  have "unat (ls_mask s) < 255" using slots_pc [OF inv(2) assms(2)] assms(3) by simp
  moreover have "picks pushing (ts[i := PoTop]) = picks pushing ts" using assms(3) by (intro picks_same) simp
  moreover have "length (picks popping (ts[i := PoTop])) = length (picks popping ts) + 1"
    using picks_grow [OF assms(2), of popping PoTop] assms(3) by simp
  ultimately show "mask_ok (ls_mask s + 1) (length (picks pushing (ts[i := PoTop]))) (length (picks popping (ts[i := PoTop])))"
    using mask_enter_pop [OF inv(1), THEN conjunct2] by simp
qed (use assms(3) in simp_all)

lemma ls_leave_push:
  assumes "ls_inv (s, ts, ins, outs)" and "i < length ts" and "ts ! i = PuUnlockCas r (ls_mask s)"
  shows "ls_inv (s\<lparr>ls_mask := ls_mask s - Push_append\<rparr>, ts[i := PuDone r], ins, outs)"
proof (rule ls_local [OF assms(1,2)])
  have "picks popping (ts[i := PuDone r]) = picks popping ts" using assms(3) by (intro picks_same) simp
  moreover have "length (picks pushing ts) = Suc (length (picks pushing (ts[i := PuDone r])))"
    using picks_shrink [OF assms(2), of pushing "()" "PuDone r"] assms(3) by simp
  ultimately show "mask_ok (ls_mask s - Push_append) (length (picks pushing (ts[i := PuDone r]))) (length (picks popping (ts[i := PuDone r])))"
    using mask_leave_push ls_invD(1) [OF assms(1)] by simp
qed (use assms(3) in simp_all)

lemma ls_leave_pop:
  assumes "ls_inv (s, ts, ins, outs)" and "i < length ts" and "ts ! i = PoUnlockCas r (ls_mask s)"
  shows "ls_inv (s\<lparr>ls_mask := ls_mask s - 1\<rparr>, ts[i := PoDone r], ins, outs)"
proof (rule ls_local [OF assms(1,2)])
  have "picks pushing (ts[i := PoDone r]) = picks pushing ts" using assms(3) by (intro picks_same) simp
  moreover have "length (picks popping ts) = Suc (length (picks popping (ts[i := PoDone r])))"
    using picks_shrink [OF assms(2), of popping "()" "PoDone r"] assms(3) by simp
  ultimately show "mask_ok (ls_mask s - 1) (length (picks pushing (ts[i := PoDone r]))) (length (picks popping (ts[i := PoDone r])))"
    using mask_leave_pop ls_invD(1) [OF assms(1)] by simp
qed (use assms(3) in simp_all)

lemma drop_bit_limit: "\<not> maxConcurrent \<le> drop_bit 16 (m :: 64 word) \<Longrightarrow> unat m div 65536 < 255"
  by (simp add: maxConcurrent_def word_le_nat_alt drop16)

lemma ls_go_ok:
  assumes "ls_inv (s, ts, ins, outs)" and "i < length ts"
  shows "\<exists>pc s'. ls_step mark (ts ! i) s = Some (pc, s') \<and>
     ls_inv (s', ts[i := pc], (case ts ! i of PuWrite v t \<Rightarrow> ins @ [v] | _ \<Rightarrow> ins), (case pc of PoMark t v \<Rightarrow> outs @ [v] | _ \<Rightarrow> outs))"
proof -
  note inv = ls_invD [OF assms(1)]
  note move = ls_local_same [OF assms]
  note pc = slots_pc [OF inv(2) assms(2)]
  show ?thesis
  proof (cases "ts ! i")
    case (PuLock v)
    then show ?thesis using drop_bit_limit [of "ls_mask s AND NOT readMask"] low_cleared [of "ls_mask s"]
      by (auto simp: Let_def intro!: move)
  next
    case (PuLockCas v old)
    then show ?thesis using ls_enter_push [OF assms, of v] by (auto intro!: move)
  next
    case (PuTop v)
    then show ?thesis using slots_okD(2) [OF inv(2)] by (auto intro!: move)
  next
    case (PuTopCas v t)
    then show ?thesis using ls_reserve [OF assms, of v t] by (auto intro!: move)
  next
    case (PuWrite v t)
    then show ?thesis using ls_write [OF assms, of v t] by auto
  next
    case (PuCheck r)
    have "0 < length (picks pushing ts)" using picks_pos [of i ts pushing] assms(2) PuCheck by simp
    then show ?thesis using mask_write_free [OF inv(1)] PuCheck by (auto intro!: move)
  next
    case (PuUnlockCas r old)
    then show ?thesis using ls_leave_push [OF assms, of r] by (auto intro!: move)
  next
    case PoLock
    then show ?thesis by (auto simp: Let_def maxConcurrent_def word_le_nat_alt intro!: move)
  next
    case (PoLockCas old)
    then show ?thesis using ls_enter_pop [OF assms] by (auto intro!: move)
  next
    case PoTop
    then show ?thesis by (auto intro!: move)
  next
    case (PoTopCas t)
    then obtain k where "t = Suc k" using pc by (cases t) auto
    then show ?thesis using PoTopCas ls_claim [OF assms, of k] by (auto intro!: move)
  next
    case (PoRead t)
    then show ?thesis using ls_read [OF assms, of t] by auto
  next
    case (PoMark t v)
    then show ?thesis using ls_mark [OF assms, of t v mark] by auto
  next
    case (PoCheck r)
    have "0 < length (picks popping ts)" using picks_pos [of i ts popping] assms(2) PoCheck by simp
    then show ?thesis using mask_read_free [OF inv(1)] PoCheck by (auto intro!: move)
  next
    case (PoUnlockCas r old)
    then show ?thesis using ls_leave_pop [OF assms, of r] by (auto intro!: move)
  qed (auto intro!: move)
qed

lemma ls_act1_ok: "ls_inv x \<Longrightarrow> \<exists>y. ls_act1 mark a x = Some y \<and> ls_inv y"
proof -
  assume inv: "ls_inv x"
  obtain s ts ins outs where x: "x = (s, ts, ins, outs)" by (cases x)
  have call: "ls_inv (s, ts[i := pc], ins, outs)" if "i < length ts" "ls_rest (ts ! i)" "pc = PuLock v \<or> pc = PoLock" for i pc v
    using that by (intro ls_local_same [OF inv [unfolded x]]) (auto elim!: ls_rest.elims)
  show ?thesis
  proof (cases a)
    case (StackGo i)
    show ?thesis
    proof (cases "i < length ts")
      case True
      obtain pc s' where "ls_step mark (ts ! i) s = Some (pc, s')"
        "ls_inv (s', ts[i := pc], (case ts ! i of PuWrite v t \<Rightarrow> ins @ [v] | _ \<Rightarrow> ins), (case pc of PoMark t v \<Rightarrow> outs @ [v] | _ \<Rightarrow> outs))"
        using ls_go_ok [OF inv [unfolded x] True, of mark] by blast
      then show ?thesis using StackGo x True by simp
    qed (use inv x StackGo in simp)
  qed (use inv x call in auto)
qed

interpretation lss: safe_steps ls_inv "\<lambda>_ _. True" "ls_act1 mark" for mark
  by unfold_locales (rule ls_act1_ok)

lemma ls_step_size: "ls_step mark pc s = Some (pc', s') \<Longrightarrow> ls_maxSz s' = ls_maxSz s"
  by (cases pc) (auto simp: Let_def split: if_splits)

lemma ls_run_size: "ls_run mark as (s, ts, ins, outs) = Some (s', ts', ins', outs') \<Longrightarrow> ls_maxSz s' = ls_maxSz s"
proof (induction as arbitrary: s ts ins outs)
  case (Cons a as)
  obtain s1 ts1 ins1 outs1 where st: "ls_act1 mark a (s, ts, ins, outs) = Some (s1, ts1, ins1, outs1)"
    "ls_run mark as (s1, ts1, ins1, outs1) = Some (s', ts', ins', outs')"
    using Cons.prems by (auto split: bind_splits)
  have "ls_maxSz s1 = ls_maxSz s" using st(1) by (cases a) (auto split: if_splits bind_splits dest: ls_step_size)
  with Cons.IH [OF st(2)] show ?case by simp
qed simp

lemma mset_take: "n \<le> length xs \<Longrightarrow> mset (take n xs) = image_mset ((!) xs) (mset_set {0..<n})"
proof -
  assume "n \<le> length xs"
  then have "take n xs = map ((!) xs) [0..<n]" by (intro nth_equalityI) auto
  then show ?thesis by simp
qed

text \<open>
  C28. The stack loses nothing and invents nothing. For any number of threads that push and pop in any interleaving, no
  assertion fails and no access leaves the array; pushes and pops are never under way inside at the same time. The values read by pops are
  among those written by pushes, each as often at most; and when no call is under way the values on the stack are
  exactly those pushed and not popped.
\<close>

theorem stack_conserves:
  "\<exists>s ts ins outs. ls_run mark acts (LockFreeStack_init junk, replicate k LsRest, [], []) = Some (s, ts, ins, outs) \<and>
     ls_Size s \<le> length junk \<and> mset outs \<subseteq># mset ins \<and> (picks pushing ts = [] \<or> picks popping ts = []) \<and>
     (list_all ls_rest ts \<longrightarrow> mset ins = mset outs + mset (take (ls_Size s) (ls_arr s)))"
proof -
  let ?x = "(LockFreeStack_init junk, replicate k LsRest, [], []) :: 'a ls_sys"
  have "ls_inv ?x"
    by (simp add: ls_inv_def mask_ok_def slots_ok_def ls_stored_def ls_live_def LockFreeStack_init_def list_all_iff)
  from lss.run_good [OF this, of mark acts] obtain s ts ins outs where
    run: "ls_run mark acts ?x = Some (s, ts, ins, outs)" "ls_inv (s, ts, ins, outs)" by (metis prod_cases4)
  note inv = ls_invD [OF run(2)]
  have "mset ins = mset outs + mset (take (ls_top s) (ls_arr s))" if "list_all ls_rest ts"
  proof -
    have "pu_slot t = None \<and> po_read t = None" if "t \<in> set ts" for t
      using that \<open>list_all ls_rest ts\<close> by (auto simp: list_all_iff dest!: bspec elim!: ls_rest.elims)
    then have "ls_live s ts = {0..<ls_top s}" by (simp add: ls_live_def picks_none)
    then show ?thesis using inv(3) slots_okD(1,2) [OF inv(2)] by (simp add: ls_stored_def mset_take)
  qed
  moreover have "ls_maxSz s = length junk" using ls_run_size [OF run(1)] by (simp add: LockFreeStack_init_def)
  ultimately show ?thesis using run(1) inv(1,3) slots_okD(2) [OF inv(2)] by (auto simp: ls_Size_def mask_ok_def)
qed

theorem stack_conserves_witness:
  "\<exists>s ts ins outs. ls_run 0 ((PushCall 0 7 # replicate 8 (StackGo 0)) @ (PushCall 1 8 # replicate 8 (StackGo 1)) @ (PopCall 0 # replicate 9 (StackGo 0)))
       (LockFreeStack_init [0 :: nat, 0, 0], replicate 2 LsRest, [], []) = Some (s, ts, ins, outs) \<and>
     list_all ls_rest ts \<and> mset outs \<subseteq># mset ins \<and> mset ins = mset outs + mset (take (ls_Size s) (ls_arr s))"
proof -
  let ?acts = "(PushCall 0 7 # replicate 8 (StackGo 0)) @ (PushCall 1 8 # replicate 8 (StackGo 1)) @ (PopCall 0 # replicate 9 (StackGo 0))"
  have "case ls_run 0 ?acts (LockFreeStack_init [0 :: nat, 0, 0], replicate 2 LsRest, [], []) of
      None \<Rightarrow> False | Some (s, ts, ins, outs) \<Rightarrow> list_all ls_rest ts"
    by code_simp
  with stack_conserves [of 0 ?acts "[0 :: nat, 0, 0]" 2] show ?thesis by auto
qed

end
