(* ===== verification/PerThreadMemory.thy ===== *)
theory PerThreadMemory
  imports Slots
begin

text \<open>
  \<open>misc/PerThreadMemory.h\<close> and \<open>misc/src/PerThreadMemory.cc\<close>: the per-thread pool of equal buffers. The buffers of a thread lie in
  one memory frame and its free ones in a linked list with a compare-and-swap head. Only the owner takes
  buffers out of its list; every thread may put them back. The memory accesses of the two operations are steps, so that any
  number of threads interleave between them. Nodes are numbered by their place in the frame.
\<close>

section \<open>Layout\<close>

text \<open>\<open>sys/AtomicOps.h\<close>\<close>

definition AlignTo :: "nat \<Rightarrow> nat \<Rightarrow> nat" where
  "AlignTo sz align = (if sz mod align \<noteq> 0 then sz - sz mod align + align else sz)"

definition sizeof_ptr :: nat where
  "sizeof_ptr = 8"

text \<open>Two pointers and the padding.\<close>

definition sizeof_Node :: nat where
  "sizeof_Node = 24"

record PerThreadMemoryAlloc =
  pm_align :: nat
  pm_granularity :: nat
  pm_offset :: nat
  pm_population :: nat

definition PerThreadMemoryAlloc_init :: "nat \<Rightarrow> nat \<Rightarrow> nat \<Rightarrow> PerThreadMemoryAlloc" where
  "PerThreadMemoryAlloc_init granularity population align =
     (let al = AlignTo align sizeof_ptr; gr = AlignTo granularity al in
      \<lparr>pm_align = al, pm_granularity = gr, pm_offset = gr - sizeof_Node mod gr, pm_population = population\<rparr>)"

text \<open>The step from a node to the next, the size of the frame, and where node and buffer \<open>i\<close> lie in it.\<close>

definition pm_stride :: "PerThreadMemoryAlloc \<Rightarrow> nat" where
  "pm_stride A = sizeof_Node + pm_offset A + pm_granularity A"

definition frame_size :: "PerThreadMemoryAlloc \<Rightarrow> nat" where
  "frame_size A = pm_stride A * (pm_population A + 1)"

definition node_addr :: "PerThreadMemoryAlloc \<Rightarrow> nat \<Rightarrow> nat" where
  "node_addr A i = i * pm_stride A"

definition buffer_addr :: "PerThreadMemoryAlloc \<Rightarrow> nat \<Rightarrow> nat" where
  "buffer_addr A i = node_addr A i + sizeof_Node + pm_offset A"

text \<open>The node of a buffer, as \<open>ReleaseBuffer\<close> and \<open>container_of\<close> find it.\<close>

definition node_of_buffer :: "PerThreadMemoryAlloc \<Rightarrow> nat \<Rightarrow> nat" where
  "node_of_buffer A b = (b - pm_offset A) - sizeof_Node"

lemma AlignTo_dvd: "align dvd AlignTo sz align"
proof (cases "sz mod align = 0")
  case False
  have "align dvd sz - sz mod align + align" by (intro dvd_add dvd_minus_mod dvd_refl)
  then show ?thesis unfolding AlignTo_def using False by (simp only: if_True not_False_eq_True)
qed (auto simp: AlignTo_def)

lemma AlignTo_ge: "0 < align \<Longrightarrow> sz \<le> AlignTo sz align"
proof -
  assume "0 < align"
  then have "sz mod align \<le> align" by (simp add: less_imp_le)
  then have "sz \<le> sz - sz mod align + align" by linarith
  then show ?thesis unfolding AlignTo_def by (simp only: order_refl simp_thms split: if_split)
qed

lemma AlignTo_less: "0 < align \<Longrightarrow> AlignTo sz align < sz + align"
  by (auto simp: AlignTo_def)

text \<open>
  The layout of the frame of a thread. For a positive buffer size and alignment, the size is rounded up by less than the
  alignment and to a multiple of it; every buffer starts at a multiple of the rounded size and ends
  before the next node or the end of the frame; and the node of a buffer is found back from it.
\<close>

theorem buffer_layout:
  assumes "0 < granularity" and "0 < align" and "A = PerThreadMemoryAlloc_init granularity population align" and "i \<le> population"
  shows "granularity \<le> pm_granularity A \<and> pm_granularity A < granularity + pm_align A \<and> pm_align A dvd pm_granularity A \<and>
     pm_granularity A dvd buffer_addr A i \<and> node_addr A i + sizeof_Node \<le> buffer_addr A i \<and>
     buffer_addr A i + pm_granularity A = node_addr A (i + 1) \<and> node_addr A (i + 1) \<le> frame_size A \<and>
     node_of_buffer A (buffer_addr A i) = node_addr A i"
proof -
  have al: "0 < AlignTo align sizeof_ptr" using AlignTo_ge [of sizeof_ptr align] assms(2) by (simp add: sizeof_ptr_def)
  have gr: "0 < pm_granularity A" "granularity \<le> pm_granularity A" "pm_granularity A < granularity + pm_align A" "pm_align A dvd pm_granularity A"
    using AlignTo_ge [OF al, of granularity] AlignTo_less [OF al, of granularity] AlignTo_dvd assms(1,3)
    by (auto simp: PerThreadMemoryAlloc_init_def Let_def)
  have off: "pm_offset A = pm_granularity A - sizeof_Node mod pm_granularity A"
    using assms(3) by (simp add: PerThreadMemoryAlloc_init_def Let_def)
  have "sizeof_Node + pm_offset A = pm_granularity A + (sizeof_Node - sizeof_Node mod pm_granularity A)"
    using off mod_less_divisor [OF gr(1), of sizeof_Node] by simp
  then have head: "pm_granularity A dvd sizeof_Node + pm_offset A" by (metis dvd_add dvd_minus_mod dvd_refl)
  then have "pm_granularity A dvd pm_stride A" by (simp add: pm_stride_def)
  then have "pm_granularity A dvd buffer_addr A i" using head
    by (simp add: buffer_addr_def node_addr_def add.assoc)
  moreover have "pm_population A = population" using assms(3) by (simp add: PerThreadMemoryAlloc_init_def Let_def)
  then have "node_addr A (i + 1) \<le> frame_size A" using assms(4) mult_le_mono2 [of "i + 1" "population + 1" "pm_stride A"]
    by (simp add: node_addr_def frame_size_def mult.commute)
  ultimately show ?thesis using gr
    by (simp add: buffer_addr_def node_of_buffer_def node_addr_def pm_stride_def)
qed

theorem buffer_layout_witness:
  "buffer_addr (PerThreadMemoryAlloc_init 60 10 8) 3 mod 64 = 0 \<and>
   buffer_addr (PerThreadMemoryAlloc_init 60 10 8) 3 + 64 \<le> frame_size (PerThreadMemoryAlloc_init 60 10 8)"
proof -
  have gr: "pm_granularity (PerThreadMemoryAlloc_init 60 10 8) = 64"
    by (simp add: PerThreadMemoryAlloc_init_def AlignTo_def sizeof_ptr_def)
  have "0 < (60 :: nat)" "0 < (8 :: nat)" "3 \<le> (10 :: nat)" by simp_all
  from buffer_layout [OF this(1,2) refl this(3)] show ?thesis unfolding gr by (auto simp: dvd_eq_mod_eq_0)
qed

section \<open>The list of a thread\<close>

record Node =
  nd_next :: ptr
  nd_padding :: bytes
  nd_data :: bytes

text \<open>A frame that was freed has no nodes. \<open>data\<close> is what follows the header: the offset, then the buffer of the user.\<close>

record NodeHead =
  nh_next :: ptr
  nh_dummy :: ptr
  nh_number :: int
  nh_population :: nat
  nh_granularity :: nat
  nh_padding :: bytes
  nh_frame :: "nat \<rightharpoonup> Node"

definition FillPadding :: bytes where
  "FillPadding = [CHR 0x32, CHR 0x00, CHR 0x00, CHR 0x00, CHR 0x23, CHR 0x00, CHR 0x00, CHR 0x00]"

definition IsPaddingCorrupt :: "bytes \<Rightarrow> bool" where
  "IsPaddingCorrupt buf = (take 4 buf \<noteq> take 4 FillPadding \<or> take 4 (drop 4 buf) \<noteq> drop 4 FillPadding)"

text \<open>\<open>GetFreeBufferFromList\<close>, called with the check of \<open>AllocBuffer\<close>; the point reached by the owner.\<close>

datatype get_pc = GetStart | GetDec | GetRead | GetNext nat | GetCas nat ptr | GetClear nat | GetDone ptr

fun get_step :: "get_pc \<Rightarrow> NodeHead \<Rightarrow> (get_pc \<times> NodeHead) option" where
  "get_step GetStart l =
     (if IsPaddingCorrupt (nh_padding l) then None
      else Some (if nh_next l = None then GetDone None else GetDec, l))"
| "get_step GetDec l = (if nh_number l = 0 then None else Some (GetRead, l\<lparr>nh_number := nh_number l - 1\<rparr>))"
| "get_step GetRead l = map_option (\<lambda>n. (GetNext n, l)) (nh_next l)"
| "get_step (GetNext n) l = map_option (\<lambda>nd. (GetCas n (nd_next nd), l)) (nh_frame l n)"
| "get_step (GetCas n m) l = Some (if nh_next l = Some n then (GetClear n, l\<lparr>nh_next := m\<rparr>) else (GetRead, l))"
| "get_step (GetClear n) l = map_option (\<lambda>nd. (GetDone (Some n), l\<lparr>nh_frame := (nh_frame l)(n \<mapsto> nd\<lparr>nd_next := None\<rparr>)\<rparr>)) (nh_frame l n)"
| "get_step (GetDone r) l = Some (GetDone r, l)"

text \<open>\<open>Cleaner\<close> counts the list and frees the frame.\<close>

partial_function (option) count_list :: "(nat \<rightharpoonup> Node) \<Rightarrow> ptr \<Rightarrow> nat \<Rightarrow> nat option" where
  "count_list f cur co = (case cur of None \<Rightarrow> Some co | Some n \<Rightarrow> do { nd \<leftarrow> f n; count_list f (nd_next nd) (co + 1) })"

definition Cleaner :: "NodeHead \<Rightarrow> NodeHead option" where
  "Cleaner l =
     (if nh_number l \<noteq> int (nh_population l) + 1 then None
      else do {
        co \<leftarrow> count_list (nh_frame l) (nh_next l) 0;
        if co \<noteq> nh_population l + 1 then None
        else Some (l\<lparr>nh_padding := replicate 8 CHR 0x00, nh_frame := Map.empty\<rparr>)
      })"

text \<open>\<open>DoReleaseBuffer\<close>: \<open>sz\<close> is the local variable. \<open>atomic_increment\<close> is \<open>__sync_fetch_and_add\<close>: it returns the value before.
  The memory cleared starts at \<open>data\<close>.\<close>

datatype rel_pc = RelStart nat | RelInc nat | RelRead nat int | RelLink nat int ptr | RelCas nat int ptr | RelTest int | RelDone

fun rel_step :: "rel_pc \<Rightarrow> NodeHead \<Rightarrow> (rel_pc \<times> NodeHead) option" where
  "rel_step (RelStart n) l = do {
     nd \<leftarrow> nh_frame l n;
     if IsPaddingCorrupt (nd_padding nd) \<or> nd_next nd \<noteq> None \<or> IsPaddingCorrupt (nh_padding l) then None
     else do {
       data \<leftarrow> memcpy_to (nd_data nd) 0 (replicate (nh_granularity l) CHR 0x00);
       Some (RelInc n, l\<lparr>nh_frame := (nh_frame l)(n \<mapsto> nd\<lparr>nd_data := data\<rparr>)\<rparr>)
     }
   }"
| "rel_step (RelInc n) l =
     (if nh_number l \<le> int (nh_population l) + 1 then Some (RelRead n (nh_number l), l\<lparr>nh_number := nh_number l + 1\<rparr>) else None)"
| "rel_step (RelRead n sz) l = Some (RelLink n sz (nh_next l), l)"
| "rel_step (RelLink n sz old) l =
     map_option (\<lambda>nd. (RelCas n sz old, l\<lparr>nh_frame := (nh_frame l)(n \<mapsto> nd\<lparr>nd_next := old\<rparr>)\<rparr>)) (nh_frame l n)"
| "rel_step (RelCas n sz old) l = Some (if nh_next l = old then (RelTest sz, l\<lparr>nh_next := Some n\<rparr>) else (RelRead n sz, l))"
| "rel_step (RelTest sz) l =
     (if sz = int (nh_population l) + 1 then map_option (Pair RelDone) (Cleaner l) else Some (RelDone, l))"
| "rel_step RelDone l = Some (RelDone, l)"

text \<open>\<open>InitPerThreadList\<close>: the loop that links the nodes, then the dummy is taken. No other thread knows the list yet.\<close>

fun link_nodes :: "nat \<Rightarrow> nat \<Rightarrow> (nat \<Rightarrow> bytes) \<Rightarrow> (nat \<rightharpoonup> Node) \<Rightarrow> (nat \<rightharpoonup> Node)" where
  "link_nodes 0 cur junk f = f(cur \<mapsto> \<lparr>nd_next = None, nd_padding = FillPadding, nd_data = junk cur\<rparr>)"
| "link_nodes (Suc i) cur junk f =
     link_nodes i (cur + 1) junk (f(cur \<mapsto> \<lparr>nd_next = Some (cur + 1), nd_padding = FillPadding, nd_data = junk cur\<rparr>))"

fun get_steps :: "nat \<Rightarrow> get_pc \<Rightarrow> NodeHead \<Rightarrow> (get_pc \<times> NodeHead) option" where
  "get_steps 0 pc l = Some (pc, l)"
| "get_steps (Suc k) pc l = Option.bind (get_step pc l) (\<lambda>(pc', l'). get_steps k pc' l')"

text \<open>Without interference the loop ends at the first try, six steps in all. \<open>mem_ok\<close>: whether both allocations
  succeed.\<close>

definition InitPerThreadList :: "PerThreadMemoryAlloc \<Rightarrow> bool \<Rightarrow> (nat \<Rightarrow> bytes) \<Rightarrow> NodeHead option option" where
  "InitPerThreadList A mem_ok junk =
     (if \<not> mem_ok then Some None
      else do {
        (pc, l) \<leftarrow> get_steps 6 GetStart
          \<lparr>nh_next = Some 0, nh_dummy = None, nh_number = int (pm_population A) + 1, nh_population = pm_population A,
           nh_granularity = pm_granularity A, nh_padding = FillPadding, nh_frame = link_nodes (pm_population A) 0 junk Map.empty\<rparr>;
        case pc of GetDone r \<Rightarrow> Some (Some (l\<lparr>nh_dummy := r\<rparr>)) | _ \<Rightarrow> None
      })"

definition pm_Size :: "NodeHead option \<Rightarrow> int" where
  "pm_Size h = (case h of None \<Rightarrow> 0 | Some l \<Rightarrow> nh_number l)"

text \<open>When the thread exits the dummy is released.\<close>

definition OnThreadExit :: "NodeHead \<Rightarrow> rel_pc option" where
  "OnThreadExit l = map_option RelStart (nh_dummy l)"

text \<open>The result of \<open>FreeCurThreadMemory\<close>, the release of the dummy it starts with, and the list the thread then has.\<close>

definition FreeCurThreadMemory :: "NodeHead option \<Rightarrow> (bool \<times> rel_pc \<times> NodeHead option) option" where
  "FreeCurThreadMemory h = (case h of
       None \<Rightarrow> Some (False, RelDone, None)
     | Some l \<Rightarrow>
         if nh_number l < int (nh_population l) then Some (False, RelDone, Some l)
         else map_option (\<lambda>n. (True, RelStart n, None)) (nh_dummy l))"

section \<open>Any interleaving\<close>

text \<open>The list of one thread, how far its \<open>AllocBuffer\<close> is, how far the threads are that release buffers into it, and the
  buffers in use; the dummy is one of these until the thread exits.\<close>

type_synonym pm_sys = "NodeHead \<times> get_pc \<times> rel_pc list \<times> nat list"

datatype pm_act = AllocCall | AllocGo | RelCall nat nat | RelGo nat | UserWrite nat bytes

fun pm_enabled :: "pm_act \<Rightarrow> pm_sys \<Rightarrow> bool" where
  "pm_enabled AllocCall (l, pc, rs, held) \<longleftrightarrow> (case pc of GetDone _ \<Rightarrow> True | _ \<Rightarrow> False)"
| "pm_enabled AllocGo (l, pc, rs, held) \<longleftrightarrow> (case pc of GetDone _ \<Rightarrow> False | _ \<Rightarrow> True)"
| "pm_enabled (RelCall i n) (l, pc, rs, held) \<longleftrightarrow> i < length rs \<and> rs ! i = RelDone \<and> n \<in> set held"
| "pm_enabled (RelGo i) (l, pc, rs, held) \<longleftrightarrow> i < length rs"
| "pm_enabled (UserWrite n bs) (l, pc, rs, held) \<longleftrightarrow> n \<in> set held \<and> length bs = nh_granularity l"

text \<open>A finished allocation puts its buffer in use. The user writes the whole of the buffer, which is the end of the data.\<close>

fun pm_step :: "pm_act \<Rightarrow> pm_sys \<Rightarrow> pm_sys option" where
  "pm_step AllocCall (l, pc, rs, held) = Some (l, GetStart, rs, held)"
| "pm_step AllocGo (l, pc, rs, held) = do {
     (pc', l') \<leftarrow> get_step pc l;
     Some (l', pc', rs, (case pc' of GetDone (Some n) \<Rightarrow> n # held | _ \<Rightarrow> held))
   }"
| "pm_step (RelCall i n) (l, pc, rs, held) = Some (l, pc, rs[i := RelStart n], remove1 n held)"
| "pm_step (RelGo i) (l, pc, rs, held) = do { (r, l') \<leftarrow> rel_step (rs ! i) l; Some (l', pc, rs[i := r], held) }"
| "pm_step (UserWrite n bs) (l, pc, rs, held) = do {
     nd \<leftarrow> nh_frame l n;
     data \<leftarrow> memcpy_to (nd_data nd) (length (nd_data nd) - nh_granularity l) bs;
     Some (l\<lparr>nh_frame := (nh_frame l)(n \<mapsto> nd\<lparr>nd_data := data\<rparr>)\<rparr>, pc, rs, held)
   }"

abbreviation pm_run :: "pm_act list \<Rightarrow> pm_sys \<Rightarrow> pm_sys option" where
  "pm_run \<equiv> run_schedule pm_enabled pm_step"

subsection \<open>The invariant\<close>

definition nx :: "NodeHead \<Rightarrow> nat \<rightharpoonup> ptr" where
  "nx l n = map_option nd_next (nh_frame l n)"

fun get_node :: "get_pc \<Rightarrow> nat option" where
  "get_node (GetClear n) = Some n"
| "get_node _ = None"

fun get_dec :: "get_pc \<Rightarrow> bool" where
  "get_dec GetRead = True"
| "get_dec (GetNext n) = True"
| "get_dec (GetCas n m) = True"
| "get_dec _ = False"

fun rel_node :: "rel_pc \<Rightarrow> nat option" where
  "rel_node (RelStart n) = Some n"
| "rel_node (RelInc n) = Some n"
| "rel_node (RelRead n sz) = Some n"
| "rel_node (RelLink n sz old) = Some n"
| "rel_node (RelCas n sz old) = Some n"
| "rel_node _ = None"

fun rel_counted :: "rel_pc \<Rightarrow> unit option" where
  "rel_counted (RelRead n sz) = Some ()"
| "rel_counted (RelLink n sz old) = Some ()"
| "rel_counted (RelCas n sz old) = Some ()"
| "rel_counted _ = None"

fun get_ok :: "NodeHead \<Rightarrow> nat list \<Rightarrow> get_pc \<Rightarrow> bool" where
  "get_ok l xs GetDec \<longleftrightarrow> xs \<noteq> []"
| "get_ok l xs GetRead \<longleftrightarrow> xs \<noteq> []"
| "get_ok l xs (GetNext n) \<longleftrightarrow> n \<in> set xs"
| "get_ok l xs (GetCas n m) \<longleftrightarrow> n \<in> set xs \<and> nx l n = Some m"
| "get_ok l xs (GetDone (Some n)) \<longleftrightarrow> nx l n \<noteq> None"
| "get_ok l xs _ \<longleftrightarrow> True"

fun rel_ok :: "NodeHead \<Rightarrow> rel_pc \<Rightarrow> bool" where
  "rel_ok l (RelStart n) \<longleftrightarrow> nx l n = Some None"
| "rel_ok l (RelRead n sz) \<longleftrightarrow> sz \<le> int (nh_population l)"
| "rel_ok l (RelLink n sz old) \<longleftrightarrow> sz \<le> int (nh_population l)"
| "rel_ok l (RelCas n sz old) \<longleftrightarrow> sz \<le> int (nh_population l) \<and> nx l n = Some old"
| "rel_ok l (RelTest sz) \<longleftrightarrow> sz \<le> int (nh_population l)"
| "rel_ok l _ \<longleftrightarrow> True"

definition node_ok :: "nat \<Rightarrow> Node \<Rightarrow> bool" where
  "node_ok g nd \<longleftrightarrow> \<not> IsPaddingCorrupt (nd_padding nd) \<and> g \<le> length (nd_data nd)"

text \<open>The frame is allocated and whole.\<close>

definition frame_ok :: "NodeHead \<Rightarrow> bool" where
  "frame_ok l \<longleftrightarrow> \<not> IsPaddingCorrupt (nh_padding l) \<and> dom (nh_frame l) = {0..nh_population l} \<and>
     (\<forall>n nd. nh_frame l n = Some nd \<longrightarrow> node_ok (nh_granularity l) nd)"

text \<open>The nodes are on the list \<open>xs\<close>, in use, or on their way in or out.\<close>

definition parts :: "nat list \<Rightarrow> get_pc \<Rightarrow> rel_pc list \<Rightarrow> nat list \<Rightarrow> nat multiset" where
  "parts xs pc rs held = mset xs + mset held + mset (picks rel_node rs) + mset_set (set_option (get_node pc))"

definition pm_ok :: "nat list \<Rightarrow> pm_sys \<Rightarrow> bool" where
  "pm_ok xs x \<longleftrightarrow> (case x of (l, pc, rs, held) \<Rightarrow>
     linked (nx l) (nh_next l) xs None \<and> parts xs pc rs held = mset [0..<nh_population l + 1] \<and>
     nh_number l = int (length xs) + int (length (picks rel_counted rs)) - (if get_dec pc then 1 else 0) \<and>
     frame_ok l \<and> (\<forall>n \<in> set held. nx l n = Some None) \<and> get_ok l xs pc \<and> (\<forall>i < length rs. rel_ok l (rs ! i)))"

lemma parts_distinct:
  assumes "parts xs pc rs held = mset [0..<k]"
  shows "distinct (xs @ held @ picks rel_node rs)"
    and "set_option (get_node pc) \<inter> set (xs @ held @ picks rel_node rs) = {}"
    and "set (xs @ held @ picks rel_node rs) \<union> set_option (get_node pc) = {0..<k}"
proof -
  let ?ys = "xs @ held @ picks rel_node rs @ (case get_node pc of None \<Rightarrow> [] | Some n \<Rightarrow> [n])"
  have m: "mset ?ys = mset [0..<k]" using assms by (cases "get_node pc") (simp_all add: parts_def add.assoc)
  have d: "distinct ?ys" using mset_eq_imp_distinct_iff [OF m] by simp
  have e: "set ?ys = {0..<k}" using mset_eq_setD [OF m] by simp
  show "distinct (xs @ held @ picks rel_node rs)" using d by (cases "get_node pc") auto
  show "set_option (get_node pc) \<inter> set (xs @ held @ picks rel_node rs) = {}" using d by (cases "get_node pc") auto
  show "set (xs @ held @ picks rel_node rs) \<union> set_option (get_node pc) = {0..<k}" unfolding e [symmetric]
    by (cases "get_node pc") auto
qed

lemma parts_length:
  assumes "parts xs pc rs held = mset [0..<k]"
  shows "length xs + length held + length (picks rel_node rs) \<le> k"
proof -
  have "size (parts xs pc rs held) = k" using assms by simp
  then show ?thesis by (simp add: parts_def)
qed

subsection \<open>Every step keeps it\<close>

lemma nx_frame [simp]: "nx (l\<lparr>nh_number := k\<rparr>) = nx l" "nx (l\<lparr>nh_next := p\<rparr>) = nx l"
  by (auto simp: nx_def)

lemma nx_upd: "nx (l\<lparr>nh_frame := (nh_frame l)(n \<mapsto> nd)\<rparr>) = (nx l)(n \<mapsto> nd_next nd)"
  by (auto simp: nx_def)

lemma frame_ok_other [simp]: "frame_ok (l\<lparr>nh_number := k\<rparr>) = frame_ok l" "frame_ok (l\<lparr>nh_next := p\<rparr>) = frame_ok l"
  by (auto simp: frame_ok_def)

lemma frame_ok_node: "frame_ok l \<Longrightarrow> n \<le> nh_population l \<Longrightarrow> \<exists>nd. nh_frame l n = Some nd \<and> node_ok (nh_granularity l) nd"
proof -
  assume "frame_ok l" "n \<le> nh_population l"
  then have "n \<in> dom (nh_frame l)" by (simp add: frame_ok_def)
  with \<open>frame_ok l\<close> show ?thesis unfolding frame_ok_def by blast
qed

lemma frame_ok_upd:
  "frame_ok l \<Longrightarrow> nh_frame l n \<noteq> None \<Longrightarrow> node_ok (nh_granularity l) nd \<Longrightarrow> frame_ok (l\<lparr>nh_frame := (nh_frame l)(n \<mapsto> nd)\<rparr>)"
  by (auto simp: frame_ok_def)

text \<open>A node that a releasing thread or the owner holds can be relinked without anyone else noticing.\<close>

lemma rel_ok_frame:
  assumes "rel_ok l r" and "nh_population l' = nh_population l" and "\<And>n. rel_node r = Some n \<Longrightarrow> nx l' n = nx l n"
  shows "rel_ok l' r"
  using assms by (cases r) auto

lemma rel_ok_relink: "rel_ok l r \<Longrightarrow> rel_node r \<noteq> Some n \<Longrightarrow> rel_ok (l\<lparr>nh_frame := (nh_frame l)(n \<mapsto> nd)\<rparr>) r"
  by (cases r) (auto simp: nx_upd)

lemma rel_ok_other [simp]: "rel_ok (l\<lparr>nh_number := k\<rparr>) r = rel_ok l r" "rel_ok (l\<lparr>nh_next := p\<rparr>) r = rel_ok l r"
  by (cases r; simp)+

lemma get_ok_frame:
  assumes "get_ok l xs pc" and "\<And>n. n \<in> set xs \<Longrightarrow> nx l' n = nx l n" and "\<And>n. nx l n \<noteq> None \<Longrightarrow> nx l' n \<noteq> None"
  shows "get_ok l' xs pc"
  using assms by (cases "(l, xs, pc)" rule: get_ok.cases) auto

lemma counted_node: "rel_counted r \<noteq> None \<Longrightarrow> rel_node r \<noteq> None"
  by (cases r) auto

lemma get_step_ok:
  assumes "pm_ok xs (l, pc, rs, held)"
  shows "\<exists>pc' l' xs'. get_step pc l = Some (pc', l') \<and>
     pm_ok xs' (l', pc', rs, (case pc of GetClear n \<Rightarrow> n # held | _ \<Rightarrow> held)) \<and>
     (case pc of GetClear n \<Rightarrow> pc' = GetDone (Some n) | GetDone r \<Rightarrow> pc' = GetDone r | _ \<Rightarrow> \<forall>n. pc' \<noteq> GetDone (Some n))"
proof -
  have inv: "linked (nx l) (nh_next l) xs None" "parts xs pc rs held = mset [0..<nh_population l + 1]"
    "nh_number l = int (length xs) + int (length (picks rel_counted rs)) - (if get_dec pc then 1 else 0)"
    "frame_ok l" "\<forall>n \<in> set held. nx l n = Some None" "get_ok l xs pc" "\<forall>i < length rs. rel_ok l (rs ! i)"
    using assms by (auto simp: pm_ok_def)
  have head: "nh_next l = None \<longleftrightarrow> xs = []" using inv(1) by (cases xs) auto
  note pd = parts_distinct [OF inv(2)]
  have bound: "n \<le> nh_population l" if "n \<in> set xs \<or> get_node pc = Some n" for n
  proof -
    have "n \<in> {0..<nh_population l + 1}" using that unfolding pd(3) [symmetric] by auto
    then show ?thesis by simp
  qed
  show ?thesis
  proof (cases pc)
    case GetStart
    then show ?thesis using inv head
      by (auto simp: pm_ok_def frame_ok_def parts_def intro!: exI [of _ xs])
  next
    case GetDec
    then have "nh_number l \<noteq> 0" using inv(3,6) by (cases xs) auto
    then show ?thesis using inv GetDec
      by (auto simp: pm_ok_def parts_def intro!: exI [of _ xs])
  next
    case GetRead
    then obtain n ys where "xs = n # ys" "nh_next l = Some n" using inv(1,6) by (cases xs) auto
    then show ?thesis using inv GetRead by (auto simp: pm_ok_def parts_def intro!: exI [of _ xs])
  next
    case (GetNext n)
    then have "n \<le> nh_population l" using bound inv(6) by simp
    then obtain nd where "nh_frame l n = Some nd" using frame_ok_node [OF inv(4)] by blast
    then show ?thesis using inv GetNext by (auto simp: pm_ok_def parts_def nx_def intro!: exI [of _ xs])
  next
    case (GetCas n m)
    show ?thesis
    proof (cases "nh_next l = Some n")
      case True
      then obtain ys where ys: "xs = n # ys" "linked (nx l) m ys None" using inv(1,6) GetCas by (cases xs) auto
      then show ?thesis using inv GetCas True
        by (auto simp: pm_ok_def parts_def intro!: exI [of _ ys])
    next
      case False
      then show ?thesis using inv GetCas by (auto simp: pm_ok_def parts_def intro!: exI [of _ xs])
    qed
  next
    case (GetClear n)
    then have n: "n \<le> nh_population l" "n \<notin> set xs" "n \<notin> set held" "n \<notin> set (picks rel_node rs)" using bound pd(2) by auto
    obtain nd where nd: "nh_frame l n = Some nd" "node_ok (nh_granularity l) nd" using frame_ok_node [OF inv(4) n(1)] by blast
    let ?l = "l\<lparr>nh_frame := (nh_frame l)(n \<mapsto> nd\<lparr>nd_next := None\<rparr>)\<rparr>"
    have "frame_ok ?l" using nd by (intro frame_ok_upd [OF inv(4)]) (auto simp: node_ok_def)
    moreover have "rel_ok ?l (rs ! i)" if "i < length rs" for i
    proof (rule rel_ok_relink)
      show "rel_ok l (rs ! i)" using inv(7) that by blast
      show "rel_node (rs ! i) \<noteq> Some n" using picks_in [of i rs rel_node n] n(4) that by blast
    qed
    ultimately have "pm_ok xs (?l, GetDone (Some n), rs, n # held)"
      using inv GetClear n by (auto simp: pm_ok_def parts_def nx_upd linked_upd)
    then show ?thesis using GetClear nd(1) by auto
  next
    case (GetDone r)
    then show ?thesis using inv by (auto simp: pm_ok_def intro!: exI [of _ xs])
  qed
qed

text \<open>A releasing thread goes on; the list stays.\<close>

lemma pm_ok_move:
  assumes "pm_ok xs (l, pc, rs, held)" and "i < length rs" and "rel_node r = rel_node (rs ! i)" and "rel_ok l' r"
    and "nx l' = nx l" and "nh_next l' = nh_next l" and "nh_population l' = nh_population l" and "frame_ok l'"
    and "nh_number l' + (if rel_counted (rs ! i) = None then 0 else 1) = nh_number l + (if rel_counted r = None then 0 else 1)"
  shows "pm_ok xs (l', pc, rs[i := r], held)"
proof -
  have inv: "linked (nx l) (nh_next l) xs None" "parts xs pc rs held = mset [0..<nh_population l + 1]"
    "nh_number l = int (length xs) + int (length (picks rel_counted rs)) - (if get_dec pc then 1 else 0)"
    "\<forall>n \<in> set held. nx l n = Some None" "get_ok l xs pc" "\<forall>i < length rs. rel_ok l (rs ! i)"
    using assms(1) by (simp_all add: pm_ok_def)
  have "rel_ok l' (rs ! j)" if "j < length rs" for j
    using inv(6) that assms(5,7) by (intro rel_ok_frame [of l "rs ! j" l']) simp_all
  then have "\<forall>j < length rs. rel_ok l' (rs[i := r] ! j)" using assms(4) by (simp add: nth_upd)
  moreover have "get_ok l' xs pc" using assms(5) by (intro get_ok_frame [OF inv(5)]) simp_all
  moreover have "nh_number l' = int (length xs) + int (length (picks rel_counted (rs[i := r]))) - (if get_dec pc then 1 else 0)"
    using inv(3) assms(9) picks_update_length [OF assms(2), of rel_counted r] by (simp split: if_splits)
  ultimately show ?thesis
    using inv assms(5-8) picks_same [OF assms(3)] by (simp add: pm_ok_def parts_def)
qed

lemma rel_step_ok:
  assumes "pm_ok xs (l, pc, rs, held)" and "i < length rs"
  shows "\<exists>r l' xs'. rel_step (rs ! i) l = Some (r, l') \<and> pm_ok xs' (l', pc, rs[i := r], held)"
proof -
  have inv: "linked (nx l) (nh_next l) xs None" "parts xs pc rs held = mset [0..<nh_population l + 1]"
    "nh_number l = int (length xs) + int (length (picks rel_counted rs)) - (if get_dec pc then 1 else 0)"
    "frame_ok l" "\<forall>n \<in> set held. nx l n = Some None" "get_ok l xs pc" "\<forall>i < length rs. rel_ok l (rs ! i)"
    using assms(1) by (auto simp: pm_ok_def)
  have ok: "rel_ok l (rs ! i)" using inv(7) assms(2) by blast
  note pd = parts_distinct [OF inv(2)]
  have node: "\<exists>nd. nh_frame l n = Some nd \<and> node_ok (nh_granularity l) nd" if "rel_node (rs ! i) = Some n" for n
  proof -
    have "n \<in> {0..<nh_population l + 1}" using picks_in [where f = rel_node, OF assms(2) that] unfolding pd(3) [symmetric] by simp
    then show ?thesis using frame_ok_node [OF inv(4)] by simp
  qed
  show ?thesis
  proof (cases "rs ! i")
    case (RelStart n)
    then obtain nd where nd: "nh_frame l n = Some nd" "node_ok (nh_granularity l) nd" using node by auto
    obtain data where data: "memcpy_to (nd_data nd) 0 (replicate (nh_granularity l) CHR 0x00) = Some data"
      using nd(2) by (auto simp: node_ok_def memcpy_to_def)
    let ?l = "l\<lparr>nh_frame := (nh_frame l)(n \<mapsto> nd\<lparr>nd_data := data\<rparr>)\<rparr>"
    have step: "rel_step (rs ! i) l = Some (RelInc n, ?l)"
      using RelStart nd data ok inv(4) by (auto simp: frame_ok_def node_ok_def nx_def)
    have "frame_ok ?l" using nd memcpy_to_length [OF data] by (intro frame_ok_upd [OF inv(4)]) (auto simp: node_ok_def)
    moreover have "nx ?l = nx l" using nd(1) by (auto simp: nx_def)
    ultimately have "pm_ok xs (?l, pc, rs[i := RelInc n], held)"
      using RelStart by (intro pm_ok_move [OF assms]) auto
    with step show ?thesis by blast
  next
    case (RelInc n)
    have "length (picks rel_counted rs) < length (picks rel_node rs)"
      using RelInc counted_node by (intro picks_length_less [OF _ assms(2)]) auto
    then have "nh_number l \<le> int (nh_population l)" using parts_length [OF inv(2)] inv(3) by (auto split: if_splits)
    moreover from this have "pm_ok xs (l\<lparr>nh_number := nh_number l + 1\<rparr>, pc, rs[i := RelRead n (nh_number l)], held)"
      using RelInc inv(4) by (intro pm_ok_move [OF assms]) auto
    ultimately show ?thesis using RelInc by auto
  next
    case (RelRead n sz)
    have "pm_ok xs (l, pc, rs[i := RelLink n sz (nh_next l)], held)"
      using RelRead inv(4) ok by (intro pm_ok_move [OF assms]) auto
    then show ?thesis using RelRead by auto
  next
    case (RelLink n sz old)
    then obtain nd where nd: "nh_frame l n = Some nd" "node_ok (nh_granularity l) nd" using node by auto
    let ?l = "l\<lparr>nh_frame := (nh_frame l)(n \<mapsto> nd\<lparr>nd_next := old\<rparr>)\<rparr>" and ?r = "RelCas n sz old"
    have mine: "n \<in> set (picks rel_node rs)" using picks_in [of i rs rel_node n] assms(2) RelLink by simp
    then have n: "n \<notin> set xs" "n \<notin> set held" using pd(1) by auto
    have nx: "nx ?l = (nx l)(n \<mapsto> old)" by (simp add: nx_upd)
    have "frame_ok ?l" using nd by (intro frame_ok_upd [OF inv(4)]) (auto simp: node_ok_def)
    moreover have "rel_ok ?l (rs ! j)" if "j < length rs" "j \<noteq> i" for j
    proof (rule rel_ok_relink)
      show "rel_ok l (rs ! j)" using inv(7) that by blast
      show "rel_node (rs ! j) \<noteq> Some n" using picks_other [of rel_node rs i j n] RelLink assms(2) pd(1) that by simp
    qed
    moreover have "rel_ok ?l ?r" using ok RelLink nx by simp
    moreover have "get_ok ?l xs pc" using n(1) by (intro get_ok_frame [OF inv(6)]) (auto simp: nx)
    moreover have "linked (nx ?l) (nh_next ?l) xs None" using inv(1) n(1) nx linked_upd [of n xs "nx l"] by simp
    moreover have "picks rel_node (rs[i := ?r]) = picks rel_node rs" "picks rel_counted (rs[i := ?r]) = picks rel_counted rs"
      using RelLink by (simp_all add: picks_same)
    ultimately have "pm_ok xs (?l, pc, rs[i := ?r], held)" using inv n(2) nx by (auto simp: pm_ok_def parts_def nth_upd)
    then show ?thesis using RelLink nd(1) by auto
  next
    case (RelCas n sz old)
    show ?thesis
    proof (cases "nh_next l = old")
      case True
      let ?l = "l\<lparr>nh_next := Some n\<rparr>"
      have "linked (nx ?l) (nh_next ?l) (n # xs) None" using inv(1) ok RelCas True by simp
      moreover have "parts (n # xs) pc (rs[i := RelTest sz]) held = mset [0..<nh_population l + 1]"
      proof -
        have "mset (picks rel_node rs) = add_mset n (mset (picks rel_node (rs[i := RelTest sz])))"
          using picks_update [OF assms(2), of rel_node "RelTest sz"] RelCas by simp
        then show ?thesis using inv(2) unfolding parts_def by simp
      qed
      moreover have "int (length (n # xs)) + int (length (picks rel_counted (rs[i := RelTest sz]))) =
          int (length xs) + int (length (picks rel_counted rs))"
        using picks_update_length [OF assms(2), of rel_counted "RelTest sz"] RelCas by simp
      moreover have "get_ok ?l (n # xs) pc" using inv(6) by (cases "(l, xs, pc)" rule: get_ok.cases) auto
      ultimately have "pm_ok (n # xs) (?l, pc, rs[i := RelTest sz], held)"
        using inv ok RelCas by (auto simp: pm_ok_def nth_upd)
      then show ?thesis using RelCas True by auto
    next
      case False
      have "pm_ok xs (l, pc, rs[i := RelRead n sz], held)"
        using RelCas inv(4) ok by (intro pm_ok_move [OF assms]) auto
      then show ?thesis using RelCas False by auto
    qed
  next
    case (RelTest sz)
    have "pm_ok xs (l, pc, rs[i := RelDone], held)" using RelTest inv(4) by (intro pm_ok_move [OF assms]) auto
    then show ?thesis using RelTest ok by auto
  next
    case RelDone
    have "pm_ok xs (l, pc, rs[i := RelDone], held)" using RelDone inv(4) by (intro pm_ok_move [OF assms]) auto
    then show ?thesis using RelDone by auto
  qed
qed

lemma pm_step_ok:
  assumes "pm_ok xs (l, pc, rs, held)" and "pm_enabled act (l, pc, rs, held)"
  shows "\<exists>y xs'. pm_step act (l, pc, rs, held) = Some y \<and> pm_ok xs' y"
proof (cases act)
  case AllocCall
  then show ?thesis using assms by (auto simp: pm_ok_def parts_def split: get_pc.splits intro!: exI [of _ xs])
next
  case AllocGo
  obtain pc' l' xs' where st: "get_step pc l = Some (pc', l')"
    "pm_ok xs' (l', pc', rs, (case pc of GetClear n \<Rightarrow> n # held | _ \<Rightarrow> held))"
    "case pc of GetClear n \<Rightarrow> pc' = GetDone (Some n) | GetDone r \<Rightarrow> pc' = GetDone r | _ \<Rightarrow> \<forall>n. pc' \<noteq> GetDone (Some n)"
    using get_step_ok [OF assms(1)] by blast
  have "(case pc' of GetDone (Some n) \<Rightarrow> n # held | _ \<Rightarrow> held) = (case pc of GetClear n \<Rightarrow> n # held | _ \<Rightarrow> held)"
    using st(3) assms(2) AllocGo by (auto split: get_pc.splits option.splits)
  then show ?thesis using AllocGo st by auto
next
  case (RelCall i n)
  then have en: "i < length rs" "rs ! i = RelDone" "n \<in> set held" using assms(2) by auto
  have m: "mset (picks rel_node (rs[i := RelStart n])) = add_mset n (mset (picks rel_node rs))"
    using picks_update [OF en(1), of rel_node "RelStart n"] en(2) by simp
  have "parts xs pc (rs[i := RelStart n]) (remove1 n held) = parts xs pc rs held"
    using en(3) unfolding parts_def m by (simp add: insert_DiffM)
  moreover have "length (picks rel_counted (rs[i := RelStart n])) = length (picks rel_counted rs)"
    using picks_update_length [OF en(1), of rel_counted "RelStart n"] en(2) by simp
  moreover have "set (remove1 n held) \<subseteq> set held" by (rule set_remove1_subset)
  ultimately have "pm_ok xs (l, pc, rs[i := RelStart n], remove1 n held)"
    using assms(1) en(3) by (auto simp: pm_ok_def nth_upd)
  then show ?thesis using RelCall by auto
next
  case (RelGo i)
  then show ?thesis using rel_step_ok [OF assms(1), of i] assms(2) by auto
next
  case (UserWrite n bs)
  then have en: "n \<in> set held" "length bs = nh_granularity l" using assms(2) by auto
  have fr: "frame_ok l" and part: "parts xs pc rs held = mset [0..<nh_population l + 1]" using assms(1) by (auto simp: pm_ok_def)
  have "n \<in> {0..<nh_population l + 1}" using en(1) unfolding parts_distinct(3) [OF part, symmetric] by simp
  then obtain nd where nd: "nh_frame l n = Some nd" "node_ok (nh_granularity l) nd" using frame_ok_node [OF fr, of n] by auto
  obtain data where data: "memcpy_to (nd_data nd) (length (nd_data nd) - nh_granularity l) bs = Some data"
    using nd(2) en(2) by (auto simp: node_ok_def memcpy_to_def)
  let ?l = "l\<lparr>nh_frame := (nh_frame l)(n \<mapsto> nd\<lparr>nd_data := data\<rparr>)\<rparr>"
  have "frame_ok ?l" using nd memcpy_to_length [OF data] by (intro frame_ok_upd [OF fr]) (auto simp: node_ok_def)
  moreover have nx: "nx ?l = nx l" using nd(1) by (auto simp: nx_def)
  moreover have "rel_ok ?l r = rel_ok l r" for r using nx by (cases r) simp_all
  moreover have "get_ok ?l xs pc"
  proof (rule get_ok_frame)
    show "get_ok l xs pc" using assms(1) by (simp add: pm_ok_def)
  qed (simp_all only: nx not_False_eq_True)
  ultimately have "pm_ok xs (?l, pc, rs, held)" using assms(1) by (simp add: pm_ok_def)
  then show ?thesis using UserWrite nd(1) data by auto
qed

interpretation pms: safe_steps "\<lambda>x. \<exists>xs. pm_ok xs x" pm_enabled pm_step
proof (unfold_locales, goal_cases)
  case (1 x a)
  then show ?case using pm_step_ok by (cases x) blast
qed

subsection \<open>The start\<close>

lemma link_nodes_eq:
  "link_nodes k cur junk f n =
     (if cur \<le> n \<and> n \<le> cur + k
      then Some \<lparr>nd_next = (if n < cur + k then Some (n + 1) else None), nd_padding = FillPadding, nd_data = junk n\<rparr> else f n)"
proof (induction k arbitrary: cur f)
  case (Suc k)
  show ?case unfolding link_nodes.simps Suc.IH by auto
qed auto

lemma linked_range:
  "(\<And>n. n < p \<Longrightarrow> f n = Some (Some (n + 1))) \<Longrightarrow> f p = Some None \<Longrightarrow> a \<le> p \<Longrightarrow> linked f (Some a) [a..<p + 1] None"
proof (induction "p - a" arbitrary: a)
  case 0
  then show ?case by simp
next
  case (Suc d)
  then have "linked f (Some (a + 1)) [a + 1..<p + 1] None" by simp
  then show ?case using Suc by (simp add: upt_conv_Cons)
qed

lemma FillPadding_ok [simp]: "\<not> IsPaddingCorrupt FillPadding"
  by (simp add: IsPaddingCorrupt_def FillPadding_def)

lemma InitPerThreadList_ok:
  assumes "InitPerThreadList A True junk = Some (Some l)" and "\<And>n. pm_granularity A \<le> length (junk n)"
  shows "pm_ok [1..<pm_population A + 1] (l, GetDone None, replicate k RelDone, [0]) \<and> nh_population l = pm_population A \<and>
     nh_granularity l = pm_granularity A \<and> nh_dummy l = Some 0"
proof -
  let ?p = "pm_population A"
  define f where "f = link_nodes ?p 0 junk Map.empty"
  have f: "f n = (if n \<le> ?p then Some \<lparr>nd_next = (if n < ?p then Some (n + 1) else None), nd_padding = FillPadding, nd_data = junk n\<rparr> else None)"
    for n by (simp add: f_def link_nodes_eq)
  have l: "l = \<lparr>nh_next = (if 0 < ?p then Some 1 else None), nh_dummy = Some 0, nh_number = int ?p, nh_population = ?p,
      nh_granularity = pm_granularity A, nh_padding = FillPadding,
      nh_frame = f(0 \<mapsto> \<lparr>nd_next = None, nd_padding = FillPadding, nd_data = junk 0\<rparr>)\<rparr>"
    using assms(1) unfolding InitPerThreadList_def f_def [symmetric]
    by (simp add: numeral_eq_Suc f split: if_splits)
  have nx: "nx l n = (if n = 0 then Some None else if n < ?p then Some (Some (n + 1)) else if n = ?p then Some None else None)" for n
    by (auto simp: nx_def l f)
  have "linked (nx l) (nh_next l) [1..<?p + 1] None"
  proof (cases "?p = 0")
    case False
    have "linked (\<lambda>n. if n = 0 then Some (Some 1) else nx l n) (Some 1) [1..<?p + 1] None"
      using False by (intro linked_range) (auto simp: nx)
    moreover have "linked (\<lambda>n. if n = 0 then Some (Some 1) else nx l n) (Some 1) [1..<?p + 1] None = linked (nx l) (Some 1) [1..<?p + 1] None"
      by (rule linked_cong) auto
    ultimately show ?thesis using False by (simp add: l)
  qed (simp add: l)
  moreover have "frame_ok l" using assms(2) by (auto simp: l f frame_ok_def node_ok_def dom_def split: if_splits)
  moreover have "[0..<?p + 1] = 0 # [1..<?p + 1]" by (simp add: upt_conv_Cons del: upt_Suc)
  then have "mset [1..<?p + 1] + {#0#} = mset [0..<?p + 1]" by (simp del: upt_Suc)
  ultimately have "pm_ok [1..<?p + 1] (l, GetDone None, replicate k RelDone, [0])"
    by (simp add: pm_ok_def parts_def nx l [THEN arg_cong, of nh_number] l [THEN arg_cong, of nh_population])
  then show ?thesis by (simp add: l)
qed

text \<open>
  C29. Buffers shared between threads. For any interleaving of the owner's allocations with the releases of any number of other
  threads and with writes into buffers in use, no assertion of the allocator fails and no access
  leaves the frame. The free list is well formed at any moment, no buffer in use is on it, and none is in use twice. When no call is
  under way, the counter is the number of buffers not in use, and every buffer is in use or on the list, so none
  is lost. The frame is never freed, not even when every buffer and the dummy have come back: the release
  compares the counter before its own increment with the full number.
\<close>

theorem per_thread_session:
  assumes "InitPerThreadList A True junk = Some (Some l0)" and "\<forall>n. length (junk n) = pm_offset A + pm_granularity A"
  shows "\<exists>l pc rs held xs. pm_run acts (l0, GetDone None, replicate k RelDone, [0]) = Some (l, pc, rs, held) \<and>
     linked (nx l) (nh_next l) xs None \<and> distinct (xs @ held) \<and> dom (nh_frame l) = {0..nh_population l} \<and>
     (\<forall>r. pc = GetDone r \<and> rs = replicate k RelDone \<longrightarrow>
        nh_number l = int (nh_population l) + 1 - int (length held) \<and> set xs \<union> set held = {0..nh_population l})"
proof -
  have "pm_granularity A \<le> length (junk n)" for n using assms(2) by simp
  then have "\<exists>xs. pm_ok xs (l0, GetDone None, replicate k RelDone, [0])" using InitPerThreadList_ok [OF assms(1)] by blast
  from pms.run_good [OF this, of acts] obtain l pc rs held xs where
    run: "pm_run acts (l0, GetDone None, replicate k RelDone, [0]) = Some (l, pc, rs, held)" and ok: "pm_ok xs (l, pc, rs, held)"
    by (metis prod_cases4)
  then have inv: "linked (nx l) (nh_next l) xs None" "parts xs pc rs held = mset [0..<nh_population l + 1]" "frame_ok l"
    by (simp_all add: pm_ok_def)
  have "nh_number l = int (nh_population l) + 1 - int (length held) \<and> set xs \<union> set held = {0..nh_population l}"
    if "pc = GetDone r" "rs = replicate k RelDone" for r
  proof -
    have "size (parts xs pc rs held) = nh_population l + 1" using inv(2) by simp
    then have "length xs + length held = nh_population l + 1" using that by (simp add: parts_def)
    then have "nh_number l = int (nh_population l) + 1 - int (length held)" using ok that by (simp add: pm_ok_def)
    moreover have "set xs \<union> set held = {0..nh_population l}" using parts_distinct(3) [OF inv(2)] that by auto
    ultimately show ?thesis by simp
  qed
  moreover have "distinct (xs @ held)" using parts_distinct(1) [OF inv(2)] by auto
  ultimately show ?thesis using run inv(1,3) unfolding frame_ok_def by blast
qed

theorem per_thread_session_witness:
  "\<exists>l pc rs held xs l0. InitPerThreadList (PerThreadMemoryAlloc_init 16 2 8) True (\<lambda>n. replicate 24 CHR ''x'') = Some (Some l0) \<and>
     pm_run ((AllocCall # replicate 6 AllocGo) @ [RelCall 0 1, RelCall 1 0] @ concat (replicate 8 [RelGo 0, RelGo 1]))
       (l0, GetDone None, [RelDone, RelDone], [0]) = Some (l, pc, rs, held) \<and>
     linked (nx l) (nh_next l) xs None \<and> distinct (xs @ held) \<and> dom (nh_frame l) = {0..nh_population l} \<and> nh_number l = 3"
proof -
  let ?A = "PerThreadMemoryAlloc_init 16 2 8" and ?junk = "\<lambda>n :: nat. replicate 24 CHR ''x''"
  let ?acts = "(AllocCall # replicate 6 AllocGo) @ [RelCall 0 1, RelCall 1 0] @ concat (replicate 8 [RelGo 0, RelGo 1])"
  have A: "?A = \<lparr>pm_align = 8, pm_granularity = 16, pm_offset = 8, pm_population = 2\<rparr>"
    by (simp add: PerThreadMemoryAlloc_init_def AlignTo_def sizeof_ptr_def sizeof_Node_def)
  obtain l0 where l0: "InitPerThreadList ?A True ?junk = Some (Some l0)"
    "l0 = \<lparr>nh_next = Some 1, nh_dummy = Some 0, nh_number = 2, nh_population = 2, nh_granularity = 16, nh_padding = FillPadding,
       nh_frame = (link_nodes 2 0 ?junk Map.empty)(0 \<mapsto> \<lparr>nd_next = None, nd_padding = FillPadding, nd_data = ?junk 0\<rparr>)\<rparr>"
    unfolding A by (simp add: InitPerThreadList_def numeral_eq_Suc)
  have "\<forall>n. length (?junk n) = pm_offset ?A + pm_granularity ?A" by (simp add: A)
  from per_thread_session [OF l0(1) this, of ?acts 2] obtain l pc rs held xs where
    run: "pm_run ?acts (l0, GetDone None, replicate 2 RelDone, [0]) = Some (l, pc, rs, held)"
    "linked (nx l) (nh_next l) xs None" "distinct (xs @ held)" "dom (nh_frame l) = {0..nh_population l}" by blast
  moreover have "map_option (\<lambda>(l, _). nh_number l) (pm_run ?acts (l0, GetDone None, replicate 2 RelDone, [0])) = Some 3"
    unfolding l0(2) by (simp add: numeral_eq_Suc IsPaddingCorrupt_def FillPadding_def memcpy_to_def)
  ultimately show ?thesis using l0(1) by (auto simp: numeral_2_eq_2)
qed

text \<open>
  What a release clears. \<open>DoReleaseBuffer\<close> clears as many bytes as a buffer has, but from the start of the data of the
  node and not from the start of the buffer, which lies \<open>offset\<close> bytes further: of the buffer itself the last
  \<open>offset\<close> bytes keep what the user wrote.
\<close>

theorem release_clears_part:
  assumes "rel_step (RelStart n) l = Some (r, l')" and "nh_frame l n = Some nd" and "length (nd_data nd) = off + nh_granularity l"
    and "off \<le> nh_granularity l"
  shows "\<exists>nd'. nh_frame l' n = Some nd' \<and>
     drop off (nd_data nd') = replicate (nh_granularity l - off) CHR 0x00 @ drop (nh_granularity l) (nd_data nd)"
  using assms by (auto simp: memcpy_to_def split: bind_splits if_splits)

theorem release_clears_part_witness:
  "\<exists>l' nd'. rel_step (RelStart 0) \<lparr>nh_next = None, nh_dummy = None, nh_number = 0, nh_population = 0, nh_granularity = 16,
       nh_padding = FillPadding, nh_frame = [0 \<mapsto> \<lparr>nd_next = None, nd_padding = FillPadding, nd_data = replicate 24 CHR ''x''\<rparr>]\<rparr> =
       Some (RelInc 0, l') \<and> nh_frame l' 0 = Some nd' \<and>
     drop 8 (nd_data nd') = replicate 8 CHR 0x00 @ replicate 8 CHR ''x''"
proof -
  let ?l = "\<lparr>nh_next = None, nh_dummy = None, nh_number = 0, nh_population = 0, nh_granularity = 16,
       nh_padding = FillPadding, nh_frame = [0 \<mapsto> \<lparr>nd_next = None, nd_padding = FillPadding, nd_data = replicate 24 CHR ''x''\<rparr>]\<rparr>"
  obtain l' where l': "rel_step (RelStart 0) ?l = Some (RelInc 0, l')" by (simp add: memcpy_to_def)
  from release_clears_part [OF this, of "\<lparr>nd_next = None, nd_padding = FillPadding, nd_data = replicate 24 CHR ''x''\<rparr>" 8] l'
  show ?thesis by simp
qed

end
