(* ===== verification/LockFreeBuffer.thy ===== *)
theory LockFreeBuffer
  imports Slots "HOL-Library.Word"
begin

text \<open>
  \<open>misc/LockFreeBuffer.h\<close> and \<open>misc/src/LockFreeBuffer.cc\<close>: a pool of buffers in a lock-free list. The pointers of the list carry a
  number of 64 bits that is meant to make every pointer to a buffer a new value, so that a compare-and-swap of a head that was
  read before the buffer went out and came back fails. Every access to shared memory is a step; buffers are numbered.
\<close>

text \<open>\<open>DoublePointer\<close> (\<open>sys/AtomicOps.h\<close>): the number and the pointer; zero is the null value.\<close>

type_synonym dptr = "64 word \<times> ptr"

definition InitDoublePointer :: dptr where
  "InitDoublePointer = (0, None)"

definition IsDoublePointerNull :: "dptr \<Rightarrow> bool" where
  "IsDoublePointerNull d \<longleftrightarrow> d = InitDoublePointer"

definition SetDoublePointer :: "64 word \<Rightarrow> nat \<Rightarrow> dptr" where
  "SetDoublePointer lo hi = (lo, Some hi)"

text \<open>\<open>lb_next\<close> is the field \<open>next_\<close> of the buffers.\<close>

record LockFreeBuffer =
  lb_num :: nat
  lb_id :: "64 word"
  lb_head :: dptr
  lb_next :: "nat \<rightharpoonup> dptr"

text \<open>The second loop of \<open>InitList\<close>; the last buffer gets the null pointer, and \<open>id_\<close> the value of the loop variable.\<close>

fun InitList_loop :: "nat \<Rightarrow> nat \<Rightarrow> (nat \<rightharpoonup> dptr) \<Rightarrow> (nat \<rightharpoonup> dptr)" where
  "InitList_loop 0 i f = f(i \<mapsto> InitDoublePointer)"
| "InitList_loop (Suc k) i f = InitList_loop k (i + 1) (f(i \<mapsto> SetDoublePointer (word_of_nat (i + 1)) (i + 1)))"

text \<open>For a size of zero the bound wraps around.\<close>

definition LockFreeBuffer_init :: "nat \<Rightarrow> LockFreeBuffer option" where
  "LockFreeBuffer_init num =
     (if num = 0 then None
      else Some \<lparr>lb_num = num, lb_id = word_of_nat (num - 1), lb_head = SetDoublePointer 0 0, lb_next = InitList_loop (num - 1) 0 Map.empty\<rparr>)"

text \<open>Where a thread is in \<open>AllocBuffer\<close> (with the number and the buffer it read) or in \<open>ReleaseBuffer\<close>.\<close>

datatype lb_pc =
    LbRest
  | AlRead | AlNext "64 word" nat | AlCas "64 word" nat dptr | AlClear nat | AlDone ptr
  | ReStart nat | ReRead nat "64 word" | ReLink nat "64 word" dptr | ReCas nat "64 word" dptr | ReDone

fun lb_step :: "lb_pc \<Rightarrow> LockFreeBuffer \<Rightarrow> (lb_pc \<times> LockFreeBuffer) option" where
  "lb_step AlRead l =
     (if IsDoublePointerNull (lb_head l) then Some (AlDone None, l)
      else map_option (\<lambda>n. (AlNext (fst (lb_head l)) n, l)) (snd (lb_head l)))"
| "lb_step (AlNext i n) l = map_option (\<lambda>d. (AlCas i n d, l)) (lb_next l n)"
| "lb_step (AlCas i n d) l = Some (if lb_head l = (i, Some n) then (AlClear n, l\<lparr>lb_head := d\<rparr>) else (AlRead, l))"
| "lb_step (AlClear n) l =
     (if lb_next l n = None then None else Some (AlDone (Some n), l\<lparr>lb_next := (lb_next l)(n \<mapsto> InitDoublePointer)\<rparr>))"
| "lb_step (ReStart n) l = (if n < lb_num l then Some (ReRead n (lb_id l), l\<lparr>lb_id := lb_id l + 1\<rparr>) else None)"
| "lb_step (ReRead n i) l = Some (ReLink n i (lb_head l), l)"
| "lb_step (ReLink n i old) l =
     (if lb_next l n = None then None else Some (ReCas n i old, l\<lparr>lb_next := (lb_next l)(n \<mapsto> old)\<rparr>))"
| "lb_step (ReCas n i old) l =
     Some (if lb_head l = old then (ReDone, l\<lparr>lb_head := SetDoublePointer i n\<rparr>) else (ReRead n i, l))"
| "lb_step pc l = Some (pc, l)"

section \<open>Threads\<close>

fun lb_rest :: "lb_pc \<Rightarrow> bool" where
  "lb_rest LbRest = True"
| "lb_rest (AlDone r) = True"
| "lb_rest ReDone = True"
| "lb_rest _ = False"

text \<open>The pool, the threads, and the buffers in use.\<close>

type_synonym lb_sys = "LockFreeBuffer \<times> lb_pc list \<times> nat list"

datatype lb_act = LbAlloc nat | LbRelease nat nat | LbGo nat

fun lb_possible :: "lb_act \<Rightarrow> lb_sys \<Rightarrow> bool" where
  "lb_possible (LbAlloc i) (l, ts, held) \<longleftrightarrow> i < length ts \<and> lb_rest (ts ! i)"
| "lb_possible (LbRelease i n) (l, ts, held) \<longleftrightarrow> i < length ts \<and> lb_rest (ts ! i) \<and> n \<in> set held"
| "lb_possible (LbGo i) (l, ts, held) \<longleftrightarrow> i < length ts \<and> \<not> lb_rest (ts ! i)"

fun lb_act1 :: "lb_act \<Rightarrow> lb_sys \<Rightarrow> lb_sys option" where
  "lb_act1 (LbAlloc i) (l, ts, held) = Some (l, ts[i := AlRead], held)"
| "lb_act1 (LbRelease i n) (l, ts, held) = Some (l, ts[i := ReStart n], remove1 n held)"
| "lb_act1 (LbGo i) (l, ts, held) = do {
     (pc, l') \<leftarrow> lb_step (ts ! i) l;
     Some (l', ts[i := pc], (case pc of AlDone (Some n) \<Rightarrow> n # held | _ \<Rightarrow> held))
   }"

text \<open>The first number given out is that of the pointer to the last buffer. \<open>lb_apart\<close> leaves out the schedules in which it goes to that
  buffer again.\<close>

fun lb_apart :: "lb_act \<Rightarrow> lb_sys \<Rightarrow> bool" where
  "lb_apart (LbGo i) (l, ts, held) \<longleftrightarrow> \<not> (ts ! i = ReStart (lb_num l - 1) \<and> lb_id l = word_of_nat (lb_num l - 1))"
| "lb_apart a x \<longleftrightarrow> True"

section \<open>The invariant\<close>

text \<open>The list \<open>xs\<close> with the numbers \<open>tag\<close> on the pointers to its buffers.\<close>

fun dchain :: "(nat \<rightharpoonup> dptr) \<Rightarrow> (nat \<Rightarrow> 64 word) \<Rightarrow> dptr \<Rightarrow> nat list \<Rightarrow> bool" where
  "dchain f tag d [] \<longleftrightarrow> d = InitDoublePointer"
| "dchain f tag d (a # xs) \<longleftrightarrow> d = SetDoublePointer (tag a) a \<and> (\<exists>d'. f a = Some d' \<and> dchain f tag d' xs)"

lemma dchain_upd: "a \<notin> set xs \<Longrightarrow> dchain (f(a := v)) tag d xs = dchain f tag d xs"
  by (induction xs arbitrary: d) auto

lemma dchain_tag: "a \<notin> set xs \<Longrightarrow> dchain f (tag(a := i)) d xs = dchain f tag d xs"
  by (induction xs arbitrary: d) auto

lemma dchain_null: "dchain f tag d xs \<Longrightarrow> IsDoublePointerNull d \<longleftrightarrow> xs = []"
  by (cases xs) (auto simp: IsDoublePointerNull_def InitDoublePointer_def SetDoublePointer_def)

fun lb_node :: "lb_pc \<Rightarrow> nat option" where
  "lb_node (AlClear n) = Some n"
| "lb_node (ReStart n) = Some n"
| "lb_node (ReRead n i) = Some n"
| "lb_node (ReLink n i old) = Some n"
| "lb_node (ReCas n i old) = Some n"
| "lb_node _ = None"

text \<open>What a thread relies on. A number that was read is not newer than the present one of its buffer; the number of a release is newer.\<close>

fun lb_pc_ok :: "LockFreeBuffer \<Rightarrow> nat list \<Rightarrow> (nat \<Rightarrow> 64 word) \<Rightarrow> lb_pc \<Rightarrow> bool" where
  "lb_pc_ok l xs tag (AlNext i n) \<longleftrightarrow> n < lb_num l \<and> i \<le> tag n"
| "lb_pc_ok l xs tag (AlCas i n d) \<longleftrightarrow> n < lb_num l \<and> i \<le> tag n \<and> (i = tag n \<and> n \<in> set xs \<longrightarrow> lb_next l n = Some d)"
| "lb_pc_ok l xs tag (ReRead n i) \<longleftrightarrow> tag n < i \<and> i < lb_id l"
| "lb_pc_ok l xs tag (ReLink n i old) \<longleftrightarrow> tag n < i \<and> i < lb_id l"
| "lb_pc_ok l xs tag (ReCas n i old) \<longleftrightarrow> tag n < i \<and> i < lb_id l \<and> lb_next l n = Some old"
| "lb_pc_ok l xs tag pc \<longleftrightarrow> True"

definition lb_parts :: "nat list \<Rightarrow> lb_pc list \<Rightarrow> nat list \<Rightarrow> nat multiset" where
  "lb_parts xs ts held = mset xs + mset held + mset (picks lb_node ts)"

definition lb_ok :: "nat list \<Rightarrow> (nat \<Rightarrow> 64 word) \<Rightarrow> lb_sys \<Rightarrow> bool" where
  "lb_ok xs tag x \<longleftrightarrow> (case x of (l, ts, held) \<Rightarrow>
     dchain (lb_next l) tag (lb_head l) xs \<and> lb_parts xs ts held = mset [0..<lb_num l] \<and> dom (lb_next l) = {0..<lb_num l} \<and>
     (\<forall>n < lb_num l. tag n < lb_id l \<or> n = lb_num l - 1 \<and> tag n = lb_id l \<and> lb_id l = word_of_nat (lb_num l - 1)) \<and>
     (\<forall>i < length ts. lb_pc_ok l xs tag (ts ! i)))"

lemma lb_okD:
  assumes "lb_ok xs tag (l, ts, held)"
  shows "dchain (lb_next l) tag (lb_head l) xs" and "lb_parts xs ts held = mset [0..<lb_num l]" and "dom (lb_next l) = {0..<lb_num l}"
    and "n < lb_num l \<Longrightarrow> tag n < lb_id l \<or> n = lb_num l - 1 \<and> tag n = lb_id l \<and> lb_id l = word_of_nat (lb_num l - 1)"
    and "i < length ts \<Longrightarrow> lb_pc_ok l xs tag (ts ! i)"
  using assms by (auto simp: lb_ok_def)

lemma lb_parts_distinct:
  assumes "lb_parts xs ts held = mset [0..<k]"
  shows "distinct (xs @ held @ picks lb_node ts)" and "set (xs @ held @ picks lb_node ts) = {0..<k}"
proof -
  have m: "mset (xs @ held @ picks lb_node ts) = mset [0..<k]" using assms by (simp add: lb_parts_def add.assoc)
  show "distinct (xs @ held @ picks lb_node ts)" using mset_eq_imp_distinct_iff [OF m] by simp
  show "set (xs @ held @ picks lb_node ts) = {0..<k}" using mset_eq_setD [OF m] by simp
qed

text \<open>A thread moves on and holds the same buffer as before.\<close>

lemma lb_local:
  assumes "lb_ok xs tag (l, ts, held)" and "lb_node pc = lb_node (ts ! i)" and "lb_pc_ok l xs tag pc"
  shows "lb_ok xs tag (l, ts[i := pc], held)"
  using assms picks_same [OF assms(2)] by (auto simp: lb_ok_def lb_parts_def nth_upd)

text \<open>A thread takes a step that the others do not notice.\<close>

lemma lb_okI:
  assumes "lb_ok xs tag (l, ts, held)" and "i < length ts" and "lb_num l' = lb_num l"
    and "dchain (lb_next l') tag' (lb_head l') xs'" and "dom (lb_next l') = dom (lb_next l)"
    and "mset xs' + mset held' + mset_set (set_option (lb_node pc)) = mset xs + mset held + mset_set (set_option (lb_node (ts ! i)))"
    and "\<And>n. n < lb_num l \<Longrightarrow> tag' n < lb_id l' \<or> n = lb_num l - 1 \<and> tag' n = lb_id l' \<and> lb_id l' = word_of_nat (lb_num l - 1)"
    and "lb_pc_ok l' xs' tag' pc"
    and "\<And>j. j < length ts \<Longrightarrow> j \<noteq> i \<Longrightarrow> lb_pc_ok l xs tag (ts ! j) \<Longrightarrow> lb_pc_ok l' xs' tag' (ts ! j)"
  shows "lb_ok xs' tag' (l', ts[i := pc], held')"
proof -
  have "lb_parts xs' (ts[i := pc]) held' = lb_parts xs ts held"
  proof -
    have "lb_parts xs' (ts[i := pc]) held' + mset_set (set_option (lb_node (ts ! i))) =
        (mset xs' + mset held' + mset_set (set_option (lb_node pc))) + mset (picks lb_node ts)"
      using picks_update [OF assms(2), of lb_node pc] by (simp add: lb_parts_def ac_simps)
    also have "\<dots> = lb_parts xs ts held + mset_set (set_option (lb_node (ts ! i)))" unfolding assms(6) by (simp add: lb_parts_def ac_simps)
    finally show ?thesis by simp
  qed
  then show ?thesis using assms lb_okD [OF assms(1)] unfolding lb_ok_def by (auto simp: nth_upd)
qed

text \<open>The buffer of a thread is neither in the list nor with another thread.\<close>

lemma lb_node_apart:
  assumes "lb_ok xs tag (l, ts, held)" and "i < length ts" and "lb_node (ts ! i) = Some n"
  shows "n \<notin> set xs" and "n \<in> dom (lb_next l)" and "n < lb_num l" and "j < length ts \<Longrightarrow> j \<noteq> i \<Longrightarrow> lb_node (ts ! j) \<noteq> Some n"
proof -
  note d = lb_parts_distinct [OF lb_okD(2) [OF assms(1)]]
  have n: "n \<in> set (picks lb_node ts)" by (rule picks_in [of i ts lb_node n, OF assms(2,3)])
  show "n \<notin> set xs" using d(1) n by auto
  show "n < lb_num l" using d(2) n by auto
  then show "n \<in> dom (lb_next l)" using lb_okD(3) [OF assms(1)] by simp
  show "j < length ts \<Longrightarrow> j \<noteq> i \<Longrightarrow> lb_node (ts ! j) \<noteq> Some n"
    using picks_other [of lb_node ts i j n] d(1) assms(2,3) by auto
qed

lemma lb_next_some: "lb_ok xs tag (l, ts, held) \<Longrightarrow> n < lb_num l \<Longrightarrow> \<exists>d. lb_next l n = Some d"
  using lb_okD(3) [of xs tag l ts held] by (intro domD) simp

lemma lb_in_list: "lb_ok (n # ys) tag (l, ts, held) \<Longrightarrow> n < lb_num l"
  using lb_parts_distinct(2) [OF lb_okD(2), of "n # ys" tag l ts held] by auto

text \<open>A change of the buffer \<open>n\<close>, which is outside the list, is not noticed by a thread with another buffer.\<close>

lemma lb_pc_next:
  "lb_pc_ok l xs tag pc \<Longrightarrow> n \<notin> set xs \<Longrightarrow> lb_node pc \<noteq> Some n \<Longrightarrow> lb_pc_ok (l\<lparr>lb_next := (lb_next l)(n \<mapsto> d)\<rparr>) xs tag pc"
  by (cases pc) auto

lemma lb_pc_head:
  "lb_pc_ok l (n # xs) tag pc \<Longrightarrow> lb_pc_ok (l\<lparr>lb_head := d\<rparr>) xs tag pc"
  by (cases pc) auto

text \<open>The next number is a larger one as long as the counter does not wrap around.\<close>

lemma next_number: "b \<noteq> - 1 \<Longrightarrow> unat (b + 1) = unat b + 1" for b :: "64 word"
proof -
  assume "b \<noteq> - 1"
  then have "1 + b \<noteq> 0" by (metis add_eq_0_iff2 add.commute)
  from unatSuc [OF this] show ?thesis by (simp add: add.commute)
qed

lemma unat_last: "unat (- 1 :: 64 word) = 18446744073709551615"
  by (simp add: unsigned_minus_1_eq_mask mask_eq_exp_minus_1)

lemma next_number_less: "b \<noteq> - 1 \<Longrightarrow> b < b + 1" "b \<noteq> - 1 \<Longrightarrow> a < b \<Longrightarrow> a < b + 1" for a b :: "64 word"
  using next_number [of b] by (simp_all add: word_less_nat_alt)

lemma lb_pc_id: "lb_pc_ok l xs tag pc \<Longrightarrow> lb_id l \<noteq> - 1 \<Longrightarrow> lb_pc_ok (l\<lparr>lb_id := lb_id l + 1\<rparr>) xs tag pc"
  by (cases pc) (auto intro: next_number_less)

lemma lb_pc_in:
  "lb_pc_ok l xs tag pc \<Longrightarrow> tag n < i \<Longrightarrow> lb_node pc \<noteq> Some n \<Longrightarrow> lb_pc_ok (l\<lparr>lb_head := d\<rparr>) (n # xs) (tag(n := i)) pc"
  by (cases pc) auto

lemma lb_take:
  assumes "lb_ok xs tag (l, ts, held)" and "i < length ts" and "ts ! i = AlCas k n d" and "lb_head l = (k, Some n)"
  shows "lb_ok (tl xs) tag (l\<lparr>lb_head := d\<rparr>, ts[i := AlClear n], held)"
proof -
  note ok = lb_okD [OF assms(1)]
  obtain ys d' where xs: "xs = n # ys" "k = tag n" "lb_next l n = Some d'" "dchain (lb_next l) tag d' ys"
    using ok(1) assms(4) by (cases xs) (auto simp: SetDoublePointer_def InitDoublePointer_def)
  have "d' = d" using ok(5) [OF assms(2)] assms(3) xs by simp
  then show ?thesis using xs ok(4) assms(3) lb_pc_head [of l n ys tag _ d] by (intro lb_okI [OF assms(1,2)]) auto
qed

lemma lb_write:
  assumes "lb_ok xs tag (l, ts, held)" and "i < length ts" and "lb_node (ts ! i) = Some n"
    and "mset held' + mset_set (set_option (lb_node pc)) = mset held + {#n#}"
    and "lb_pc_ok (l\<lparr>lb_next := (lb_next l)(n \<mapsto> d)\<rparr>) xs tag pc"
  shows "lb_ok xs tag (l\<lparr>lb_next := (lb_next l)(n \<mapsto> d)\<rparr>, ts[i := pc], held')"
  using assms(3-5) lb_okD [OF assms(1)] lb_node_apart [OF assms(1-3)]
  by (intro lb_okI [OF assms(1,2)]) (auto simp: dchain_upd lb_pc_next add.assoc)

lemma lb_number:
  assumes "lb_ok xs tag (l, ts, held)" and "i < length ts" and "ts ! i = ReStart n" and "\<not> (n = lb_num l - 1 \<and> lb_id l = word_of_nat (lb_num l - 1))"
    and "lb_id l \<noteq> - 1"
  shows "lb_ok xs tag (l\<lparr>lb_id := lb_id l + 1\<rparr>, ts[i := ReRead n (lb_id l)], held)"
proof -
  note ok = lb_okD [OF assms(1)]
  have "tag n < lb_id l" using ok(4) [of n] lb_node_apart(3) [OF assms(1,2), of n] assms(3,4) by auto
  then show ?thesis using assms(3,5) ok(1) lb_pc_id [of l xs tag] next_number_less [of "lb_id l"]
    by (intro lb_okI [OF assms(1,2)]) (auto dest!: ok(4))
qed

lemma lb_put:
  assumes "lb_ok xs tag (l, ts, held)" and "i < length ts" and "ts ! i = ReCas n k (lb_head l)"
  shows "lb_ok (n # xs) (tag(n := k)) (l\<lparr>lb_head := SetDoublePointer k n\<rparr>, ts[i := ReDone], held)"
proof -
  note ok = lb_okD [OF assms(1)]
  have k: "tag n < k" "k < lb_id l" "lb_next l n = Some (lb_head l)" using ok(5) [OF assms(2)] assms(3) by simp_all
  note n = lb_node_apart [OF assms(1,2), of n]
  show ?thesis using assms(3) ok(1) ok(4) k n lb_pc_in [of l xs tag _ n k]
    by (intro lb_okI [OF assms(1,2)]) (auto simp: dchain_tag)
qed

lemma lb_go_ok:
  assumes "lb_ok xs tag (l, ts, held)" and "i < length ts" and "\<not> lb_rest (ts ! i)" and "lb_apart (LbGo i) (l, ts, held)"
    and "lb_id l \<noteq> - 1"
  shows "\<exists>xs tag y. lb_act1 (LbGo i) (l, ts, held) = Some y \<and> lb_ok xs tag y"
proof -
  note ok = lb_okD [OF assms(1)] and move = lb_local [OF assms(1), of _ i] and n = lb_node_apart [OF assms(1,2)]
  have pc: "lb_pc_ok l xs tag (ts ! i)" by (rule ok(5) [OF assms(2)])
  show ?thesis
  proof (cases "ts ! i")
    case AlRead
    show ?thesis
    proof (cases xs)
      case Nil
      then show ?thesis using AlRead move [of "AlDone None"] dchain_null [OF ok(1)] by auto
    next
      case (Cons a ys)
      have "lb_ok xs tag (l, ts[i := AlNext (tag a) a], held)" using AlRead Cons lb_in_list [OF assms(1) [unfolded Cons]] by (intro move) auto
      then show ?thesis using AlRead Cons ok(1) dchain_null [OF ok(1)] by (auto simp: SetDoublePointer_def)
    qed
  next
    case (AlNext k m)
    then obtain d where d: "lb_next l m = Some d" using lb_next_some [OF assms(1), of m] pc by auto
    then have "lb_ok xs tag (l, ts[i := AlCas k m d], held)" using AlNext pc by (intro move) auto
    then show ?thesis using AlNext d by auto
  next
    case (AlCas k m d)
    then show ?thesis using lb_take [OF assms(1,2)] move [of AlRead] by (cases "lb_head l = (k, Some m)") auto
  next
    case (AlClear m)
    have "lb_ok xs tag (l\<lparr>lb_next := (lb_next l)(m \<mapsto> InitDoublePointer)\<rparr>, ts[i := AlDone (Some m)], m # held)"
      using AlClear by (intro lb_write [OF assms(1,2)]) auto
    then show ?thesis using AlClear n(2) [of m] by auto
  next
    case (ReStart m)
    then show ?thesis using lb_number [OF assms(1,2), of m] n(3) [of m] assms(4,5) by auto
  next
    case (ReRead m k)
    then show ?thesis using move [of "ReLink m k (lb_head l)"] pc by auto
  next
    case (ReLink m k old)
    have "lb_ok xs tag (l\<lparr>lb_next := (lb_next l)(m \<mapsto> old)\<rparr>, ts[i := ReCas m k old], held)"
      using ReLink pc by (intro lb_write [OF assms(1,2)]) auto
    then show ?thesis using ReLink n(2) [of m] by auto
  next
    case (ReCas m k old)
    then show ?thesis using lb_put [OF assms(1,2)] move [of "ReRead m k"] pc by (cases "lb_head l = old") auto
  qed (use assms(3) in auto)
qed

definition lb_good :: "lb_sys \<Rightarrow> bool" where
  "lb_good x \<longleftrightarrow> (\<exists>xs tag. lb_ok xs tag x)"

definition lb_enabled :: "lb_act \<Rightarrow> lb_sys \<Rightarrow> bool" where
  "lb_enabled a x \<longleftrightarrow> lb_possible a x \<and> lb_apart a x"

definition lb_count :: "lb_sys \<Rightarrow> nat" where
  "lb_count x = unat (lb_id (fst x))"

lemma lb_step_id: "lb_step pc l = Some (pc', l') \<Longrightarrow> lb_id l' = lb_id l \<or> lb_id l' = lb_id l + 1"
  by (cases pc) (auto split: if_splits)

lemma lb_act1_count:
  assumes "lb_act1 a x = Some y" and "lb_count x < 2 ^ 64 - 1"
  shows "lb_count y \<le> lb_count x + 1"
proof -
  obtain l ts held where x: "x = (l, ts, held)" by (cases x)
  have "lb_id l \<noteq> - 1" using assms(2) x by (auto simp: lb_count_def unat_last)
  then show ?thesis using assms(1) x next_number [of "lb_id l"]
    by (cases a) (auto simp: lb_count_def split: bind_splits dest: lb_step_id)
qed

lemma lb_act1_ok:
  assumes "lb_good x" and "lb_enabled a x" and "lb_count x < 2 ^ 64 - 1"
  shows "\<exists>y. lb_act1 a x = Some y \<and> lb_good y \<and> lb_count y \<le> lb_count x + 1"
proof -
  have "\<exists>y. lb_act1 a x = Some y \<and> lb_good y"
  proof -
    obtain l ts held xs tag where x: "x = (l, ts, held)" and ok: "lb_ok xs tag (l, ts, held)" using assms(1) by (cases x) (auto simp: lb_good_def)
    have id: "lb_id l \<noteq> - 1" using assms(3) x by (auto simp: lb_count_def unat_last)
    show ?thesis
    proof (cases a)
      case (LbAlloc i)
      then have "lb_ok xs tag (l, ts[i := AlRead], held)"
        using assms(2) x by (intro lb_local [OF ok]) (auto simp: lb_enabled_def elim!: lb_rest.elims)
      then show ?thesis using LbAlloc x by (auto simp: lb_good_def)
    next
      case (LbRelease i n)
      then have i: "i < length ts" "lb_rest (ts ! i)" "n \<in> set held" using assms(2) x by (auto simp: lb_enabled_def)
      have "lb_ok xs tag (l, ts[i := ReStart n], remove1 n held)"
        using i lb_okD(1,3,4) [OF ok] by (intro lb_okI [OF ok i(1)]) (auto elim!: lb_rest.elims)
      then show ?thesis using LbRelease x by (auto simp: lb_good_def)
    next
      case (LbGo i)
      then obtain xs tag y where "lb_act1 a x = Some y" "lb_ok xs tag y"
        using lb_go_ok [OF ok, of i] assms(2) id x unfolding lb_enabled_def by (auto simp del: lb_act1.simps)
      then show ?thesis by (auto simp: lb_good_def)
    qed
  qed
  then show ?thesis using lb_act1_count [OF _ assms(3)] by blast
qed

interpretation lbs: counted_steps lb_good lb_enabled lb_act1 lb_count "2 ^ 64 - 1"
  by unfold_locales (rule lb_act1_ok)

section \<open>The first state\<close>

lemma InitList_loop_dom: "dom (InitList_loop k i f) = dom f \<union> {i..i + k}"
  by (induction k arbitrary: i f) auto

lemma InitList_loop_keep: "j < i \<Longrightarrow> InitList_loop k i f j = f j"
  by (induction k arbitrary: i f) auto

lemma InitList_loop_chain: "dchain (InitList_loop k i f) word_of_nat (SetDoublePointer (word_of_nat i) i) [i..<Suc (i + k)]"
proof (induction k arbitrary: i f)
  case (Suc k)
  have "[i..<Suc (i + Suc k)] = i # [i + 1..<Suc (i + 1 + k)]" by (subst upt_conv_Cons) auto
  then show ?case using Suc.IH [of "i + 1"] by (simp add: InitList_loop_keep del: upt_Suc)
qed simp

lemma LockFreeBuffer_init_ok:
  assumes "LockFreeBuffer_init num = Some l" and "num \<le> 2 ^ 64"
  shows "lb_ok [0..<num] word_of_nat (l, replicate k LbRest, [])"
proof -
  have "0 < num" "l = \<lparr>lb_num = num, lb_id = word_of_nat (num - 1), lb_head = SetDoublePointer 0 0, lb_next = InitList_loop (num - 1) 0 Map.empty\<rparr>"
    using assms by (auto simp: LockFreeBuffer_init_def split: if_splits)
  moreover have "(word_of_nat n :: 64 word) < word_of_nat (num - 1) \<or> n = num - 1" if "n < num" for n
    using that assms(2) by (auto simp: word_less_nat_alt unsigned_of_nat take_bit_nat_eq_self simp del: of_nat_diff)
  ultimately show ?thesis using InitList_loop_chain [of "num - 1" 0 Map.empty]
    by (auto simp: lb_ok_def lb_parts_def InitList_loop_dom simp del: upt_Suc of_nat_diff)
qed

lemma lb_step_num: "lb_step pc l = Some (pc', l') \<Longrightarrow> lb_num l' = lb_num l"
  by (cases pc) (auto split: if_splits)

lemma lb_run_num: "run_schedule lb_enabled lb_act1 as (l, ts, held) = Some (l', ts', held') \<Longrightarrow> lb_num l' = lb_num l"
proof (induction as arbitrary: l ts held)
  case (Cons a as)
  show ?case
  proof (cases "lb_enabled a (l, ts, held)")
    case True
    then obtain l1 ts1 held1 where st: "lb_act1 a (l, ts, held) = Some (l1, ts1, held1)"
      "run_schedule lb_enabled lb_act1 as (l1, ts1, held1) = Some (l', ts', held')"
      using Cons.prems by (auto split: bind_splits)
    have "lb_num l1 = lb_num l" using st(1) by (cases a) (auto split: bind_splits dest: lb_step_num)
    with Cons.IH [OF st(2)] show ?thesis by simp
  qed (use Cons in simp)
qed simp

text \<open>
  C30. A pool of buffers whose numbers stay apart. For any number of threads that allocate and release in any interleaving in
  which the first number given out does not go to the last buffer, and in which the steps are too few for the counter of 64 bits to wrap around: no step faults, no buffer is with two
  users, and when no call is under way the buffers in the list and those in use are together all the buffers, each once.
\<close>

theorem buffers_conserved:
  assumes "LockFreeBuffer_init num = Some l" and "num + length acts \<le> 2 ^ 64"
  shows "\<exists>l' ts held. run_schedule lb_enabled lb_act1 acts (l, replicate k LbRest, []) = Some (l', ts, held) \<and>
     distinct held \<and> set held \<subseteq> {0..<num} \<and>
     (list_all lb_rest ts \<longrightarrow> (\<exists>xs tag. dchain (lb_next l') tag (lb_head l') xs \<and> mset xs + mset held = mset [0..<num]))"
proof -
  have "lb_good (l, replicate k LbRest, [])" using LockFreeBuffer_init_ok [OF assms(1)] assms(2) by (auto simp: lb_good_def)
  moreover have "lb_count (l, replicate k LbRest, []) + length acts \<le> 2 ^ 64 - 1"
    using assms by (auto simp: LockFreeBuffer_init_def lb_count_def unsigned_of_nat take_bit_nat_eq_self split: if_splits simp del: of_nat_diff)
  ultimately have "\<exists>y. run_schedule lb_enabled lb_act1 acts (l, replicate k LbRest, []) = Some y \<and> lb_good y" by (rule lbs.run_good)
  then obtain l' ts held xs tag where
    run: "run_schedule lb_enabled lb_act1 acts (l, replicate k LbRest, []) = Some (l', ts, held)" and ok: "lb_ok xs tag (l', ts, held)"
    by (auto simp: lb_good_def)
  have "lb_num l' = num" using lb_run_num [OF run] assms(1) by (auto simp: LockFreeBuffer_init_def split: if_splits)
  then have parts: "lb_parts xs ts held = mset [0..<num]" using lb_okD(2) [OF ok] by simp
  have "mset xs + mset held = mset [0..<num]" if "list_all lb_rest ts"
  proof -
    have "picks lb_node ts = []" using that by (intro picks_none) (auto simp: list_all_iff dest!: bspec elim!: lb_rest.elims)
    then show ?thesis using parts by (simp add: lb_parts_def)
  qed
  moreover have "distinct held" "set held \<subseteq> {0..<num}" using lb_parts_distinct [OF parts] by auto
  ultimately show ?thesis using run lb_okD(1) [OF ok] by blast
qed

theorem buffers_conserved_witness:
  "\<exists>l' ts held. run_schedule lb_enabled lb_act1
       ((LbAlloc 0 # replicate 4 (LbGo 0)) @ (LbAlloc 1 # replicate 2 (LbGo 1)) @ (LbRelease 0 0 # replicate 4 (LbGo 0)) @ replicate 5 (LbGo 1))
       (the (LockFreeBuffer_init 2), replicate 2 LbRest, []) = Some (l', ts, held) \<and> distinct held \<and> held \<noteq> [] \<and>
     (\<exists>xs tag. dchain (lb_next l') tag (lb_head l') xs \<and> mset xs + mset held = mset [0..<2])"
proof -
  let ?acts = "(LbAlloc 0 # replicate 4 (LbGo 0)) @ (LbAlloc 1 # replicate 2 (LbGo 1)) @ (LbRelease 0 0 # replicate 4 (LbGo 0)) @ replicate 5 (LbGo 1)"
  have i: "LockFreeBuffer_init 2 = Some (the (LockFreeBuffer_init 2))" by (simp add: LockFreeBuffer_init_def)
  have "case run_schedule lb_enabled lb_act1 ?acts (the (LockFreeBuffer_init 2), replicate 2 LbRest, []) of
      None \<Rightarrow> False | Some (l, ts, held) \<Rightarrow> list_all lb_rest ts \<and> held \<noteq> []"
    by code_simp
  with buffers_conserved [OF i, of ?acts 2] show ?thesis by (fastforce simp del: run_schedule.simps mset_upt)
qed

text \<open>
  The schedules left out are not safe. The first number given out is the one of the pointer that \<open>InitList\<close> made to the
  last buffer; when it goes to that buffer, a compare-and-swap with the pointer read before succeeds. In this run of four threads on two
  buffers, at the end no call is under way, the list is empty, and only one buffer is in use: the other one is lost.
\<close>

theorem reused_number_loses_buffer:
  "(case run_schedule lb_possible lb_act1
      ((LbAlloc 1 # replicate 4 (LbGo 1)) @ [LbAlloc 0, LbGo 0, LbGo 0] @ (LbAlloc 1 # replicate 4 (LbGo 1)) @ [LbRelease 2 1, LbGo 2] @
       (LbRelease 3 0 # replicate 4 (LbGo 3)) @ replicate 3 (LbGo 2) @ replicate 2 (LbGo 0) @ [LbAlloc 1, LbGo 1])
      (the (LockFreeBuffer_init 2), replicate 4 LbRest, []) of
    None \<Rightarrow> False
  | Some (l, ts, held) \<Rightarrow> IsDoublePointerNull (lb_head l) \<and> held = [1] \<and> ts = [AlDone (Some 1), AlDone None, ReDone, ReDone])"
  by code_simp

end
