(* ===== verification/BufferLayout.thy ===== *)
theory BufferLayout
  imports PerThreadMemory LockFreeBuffer
begin

text \<open>
  The memory of \<open>misc/src/LockFreeBuffer.cc\<close>: where the constructor puts the numbered buffers of \<open>LockFreeBuffer\<close>, and how \<open>ReleaseBuffer\<close> finds the
  node of a buffer. Sizes and offsets are of type \<open>size_t\<close>, with its wrap-around.
\<close>

section \<open>The constructor\<close>

definition size_t :: "nat \<Rightarrow> nat" where
  "size_t n = n mod 2 ^ 64"

text \<open>\<open>BufferNode\<close>: a double pointer and an array of no length.\<close>

definition sizeof_BufferNode :: nat where
  "sizeof_BufferNode = 16"

definition lb_granularity :: "nat \<Rightarrow> nat" where
  "lb_granularity granularity = size_t (AlignTo granularity 16)"

definition lb_stride :: "nat \<Rightarrow> nat" where
  "lb_stride granularity = size_t (sizeof_BufferNode + lb_granularity granularity)"

definition raw_size :: "nat \<Rightarrow> nat \<Rightarrow> nat" where
  "raw_size num granularity = size_t (num * lb_stride granularity)"

text \<open>The first loop of \<open>InitList\<close>.\<close>

definition node_offset :: "nat \<Rightarrow> nat \<Rightarrow> nat" where
  "node_offset granularity i = size_t (i * lb_stride granularity)"

text \<open>\<open>ok n\<close> says that an array of \<open>n\<close> bytes can be had. The result is the error or the table of nodes, as offsets into the raw buffer, and the sizes of
  the arrays that are then allocated.\<close>

definition LockFreeBuffer_alloc :: "(nat \<Rightarrow> bool) \<Rightarrow> nat \<Rightarrow> nat \<Rightarrow> (string + nat list) \<times> nat list" where
  "LockFreeBuffer_alloc ok num granularity =
     (let sz = raw_size num granularity in
      if \<not> ok sz then (Inl ''out of memory'', [])
      else if 2 ^ 64 \<le> 8 * num \<or> \<not> ok (8 * num) then (Inl ''out of memory'', [])
      else (Inr (map (node_offset granularity) [0..<num]), [sz, 8 * num]))"

definition buffer_offset :: "nat \<Rightarrow> nat \<Rightarrow> nat" where
  "buffer_offset granularity i = node_offset granularity i + sizeof_BufferNode"

text \<open>\<open>container_of\<close> and the assertion of \<open>ReleaseBuffer\<close>.\<close>

definition node_of :: "nat \<Rightarrow> nat" where
  "node_of buffer = buffer - sizeof_BufferNode"

definition release_check :: "nat \<Rightarrow> nat \<Rightarrow> nat \<Rightarrow> bool" where
  "release_check num granularity node \<longleftrightarrow> node_offset granularity 0 \<le> node \<and> node \<le> node_offset granularity (num - 1)"

section \<open>Properties\<close>

text \<open>
  The layout of the pool. If the buffers and their nodes fit into the address space, every buffer has the size that was asked for or up to fifteen bytes
  more, lies inside the raw buffer, and starts, like its node, at a multiple of sixteen, as the double-word instructions demand; two buffers with their
  nodes do not overlap; and the node that \<open>ReleaseBuffer\<close> computes is that of the buffer and passes its assertion.
\<close>

lemma pool_layout:
  assumes "num * (sizeof_BufferNode + AlignTo granularity 16) < 2 ^ 64" and "i < num"
  shows "granularity \<le> lb_granularity granularity" and "lb_granularity granularity < granularity + 16"
    and "16 dvd node_offset granularity i" and "16 dvd buffer_offset granularity i"
    and "buffer_offset granularity i + lb_granularity granularity \<le> raw_size num granularity"
    and "i < j \<Longrightarrow> j < num \<Longrightarrow> buffer_offset granularity i + lb_granularity granularity \<le> node_offset granularity j"
    and "node_of (buffer_offset granularity i) = node_offset granularity i" and "release_check num granularity (node_offset granularity i)"
proof -
  let ?s = "sizeof_BufferNode + AlignTo granularity 16"
  have "1 * ?s \<le> num * ?s" by (intro mult_right_mono) (use assms(2) in auto)
  then have s: "?s < 2 ^ 64" using assms(1) by (simp only: mult_1 order.strict_trans1)
  then have gr: "lb_granularity granularity = AlignTo granularity 16" by (simp add: lb_granularity_def size_t_def)
  then have st: "lb_stride granularity = ?s" using s by (simp add: lb_stride_def size_t_def)
  have off: "node_offset granularity j = j * ?s" if "j < num" for j
  proof -
    have "j * ?s \<le> num * ?s" using that by (intro mult_right_mono) auto
    then have "j * ?s < 2 ^ 64" using assms(1) by (rule order.strict_trans1)
    then show ?thesis unfolding node_offset_def size_t_def st by (rule mod_less)
  qed
  have raw: "raw_size num granularity = num * ?s" using assms(1) st by (simp add: raw_size_def size_t_def)
  have last_byte: "buffer_offset granularity i + lb_granularity granularity = Suc i * ?s"
    using off [OF assms(2)] gr by (simp add: buffer_offset_def)
  have le: "Suc i * ?s \<le> j * ?s" if "i < j" for j using that by (intro mult_right_mono) auto
  show "granularity \<le> lb_granularity granularity" "lb_granularity granularity < granularity + 16"
    using AlignTo_ge [of 16 granularity] AlignTo_less [of 16 granularity] gr by simp_all
  show d: "16 dvd node_offset granularity i" using off [OF assms(2)] AlignTo_dvd [of 16 granularity] by (simp add: sizeof_BufferNode_def)
  then show "16 dvd buffer_offset granularity i" by (simp add: buffer_offset_def sizeof_BufferNode_def)
  show "buffer_offset granularity i + lb_granularity granularity \<le> raw_size num granularity" unfolding last_byte raw using assms(2) by (rule le)
  show "buffer_offset granularity i + lb_granularity granularity \<le> node_offset granularity j" if "i < j" "j < num"
    unfolding last_byte off [OF that(2)] using that(1) by (rule le)
  show "node_of (buffer_offset granularity i) = node_offset granularity i" by (simp add: node_of_def buffer_offset_def)
  have "i * ?s \<le> (num - 1) * ?s" using assms(2) by (intro mult_right_mono) auto
  then show "release_check num granularity (node_offset granularity i)"
    using off [of 0] off [of "num - 1"] off [OF assms(2)] assms(2) by (simp add: release_check_def)
qed

text \<open>The size of the pool is not checked for a wrap-around: with \<open>2 ^ 24\<close> buffers of \<open>2 ^ 40 - 16\<close> bytes no memory is asked for, and the nodes lie
  outside of it.\<close>

lemma pool_size_wraps:
  "raw_size (2 ^ 24) (2 ^ 40 - 16) = 0" "node_offset (2 ^ 40 - 16) 1 = 2 ^ 40" "fst (LockFreeBuffer_alloc (\<lambda>n. n < 2 ^ 30) (2 ^ 24) (2 ^ 40 - 16)) \<noteq> Inl x"
  by (simp_all add: raw_size_def lb_stride_def lb_granularity_def size_t_def AlignTo_def sizeof_BufferNode_def node_offset_def
      LockFreeBuffer_alloc_def Let_def)

end
