(* ===== verification/LockFreeList.thy ===== *)
theory LockFreeList
  imports LockFreeBuffer LockFreeQueue
begin

text \<open>
  \<open>misc/LockFreeList.h\<close> and \<open>misc/src/LockFreeList.cc\<close>: a queue as a linked list between the pointers \<open>out_\<close> (to a dummy node) and
  \<open>in_\<close>, with the unused nodes in a list of their own as in \<open>LockFreeBuffer\<close>. Every access to shared memory is a step;
  nodes are numbered.
\<close>

section \<open>The queue and the code of its threads\<close>

record 'a LockFreeListQueue =
  ll_id :: "64 word"
  ll_max :: nat
  ll_in :: dptr
  ll_out :: dptr
  ll_id2 :: "64 word"
  ll_head :: dptr
  ll_next :: "nat \<rightharpoonup> dptr"
  ll_data :: "nat \<Rightarrow> 'a"

text \<open>The constructor: \<open>InitInternalNodeList\<close>, whose loop is the one of \<open>LockFreeBuffer\<close>, and the dummy node from \<open>AllocNode\<close>.
  \<open>junk\<close> is what the array of nodes holds. For a capacity of zero the bound of the loop wraps around.\<close>

definition LockFreeListQueue_init :: "(nat \<Rightarrow> 'a) \<Rightarrow> nat \<Rightarrow> 'a LockFreeListQueue option" where
  "LockFreeListQueue_init junk capacity =
     (if capacity = 0 then None
      else (let nodes = InitList_loop (capacity - 1) 0 Map.empty in
        map_option (\<lambda>head. \<lparr>ll_id = 1, ll_max = capacity, ll_in = SetDoublePointer 0 0, ll_out = SetDoublePointer 0 0,
            ll_id2 = word_of_nat (capacity - 1), ll_head = head, ll_next = nodes(0 \<mapsto> InitDoublePointer), ll_data = junk\<rparr>)
          (nodes 0)))"

text \<open>Where a thread is in \<open>Push\<close> (first in \<open>AllocNode\<close>) or in \<open>Pop\<close> (at last in \<open>ReleaseNode\<close>), with its local variables.\<close>

datatype 'a ll_pc =
    LlRest
  | PuAlloc 'a | PuAllocNext 'a "64 word" nat | PuAllocCas 'a "64 word" nat dptr | PuInit 'a nat
  | PuData 'a nat | PuZero 'a nat | PuNumber 'a nat | PuIn 'a nat "64 word" | PuNext 'a nat "64 word" dptr | PuHelp 'a nat "64 word" dptr dptr
  | PuLink 'a nat "64 word" dptr | PuSwing 'a nat "64 word" dptr | PuDone bool
  | PoOut | PoIn dptr | PoNext dptr dptr | PoHelp dptr dptr | PoData dptr dptr | PoCas dptr dptr 'a
  | PoRel nat 'a | PoRelRead nat "64 word" 'a | PoRelLink nat "64 word" dptr 'a | PoRelCas nat "64 word" dptr 'a | PoDone "'a option"

definition ll_deref :: "dptr \<Rightarrow> 'a LockFreeListQueue \<Rightarrow> dptr option" where
  "ll_deref d q = Option.bind (snd d) (ll_next q)"

definition ll_set_next :: "nat \<Rightarrow> dptr \<Rightarrow> 'a LockFreeListQueue \<Rightarrow> 'a LockFreeListQueue option" where
  "ll_set_next n d q = (if ll_next q n = None then None else Some (q\<lparr>ll_next := (ll_next q)(n \<mapsto> d)\<rparr>))"

fun ll_step :: "'a ll_pc \<Rightarrow> 'a LockFreeListQueue \<Rightarrow> ('a ll_pc \<times> 'a LockFreeListQueue) option" where
  "ll_step (PuAlloc v) q =
     (if IsDoublePointerNull (ll_head q) then Some (PuDone False, q)
      else map_option (\<lambda>n. (PuAllocNext v (fst (ll_head q)) n, q)) (snd (ll_head q)))"
| "ll_step (PuAllocNext v i n) q = map_option (\<lambda>d. (PuAllocCas v i n d, q)) (ll_next q n)"
| "ll_step (PuAllocCas v i n d) q =
     Some (if ll_head q = (i, Some n) then (PuInit v n, q\<lparr>ll_head := d\<rparr>) else (PuAlloc v, q))"
| "ll_step (PuInit v n) q = map_option (Pair (PuData v n)) (ll_set_next n InitDoublePointer q)"
| "ll_step (PuData v n) q = (if n < ll_max q then Some (PuZero v n, q\<lparr>ll_data := (ll_data q)(n := v)\<rparr>) else None)"
| "ll_step (PuZero v n) q = map_option (Pair (PuNumber v n)) (ll_set_next n InitDoublePointer q)"
| "ll_step (PuNumber v n) q = Some (PuIn v n (ll_id q), q\<lparr>ll_id := ll_id q + 1\<rparr>)"
| "ll_step (PuIn v n k) q = Some (PuNext v n k (ll_in q), q)"
| "ll_step (PuNext v n k old) q =
     map_option (\<lambda>nx. (if IsDoublePointerNull nx then PuLink v n k old else PuHelp v n k old nx, q)) (ll_deref old q)"
| "ll_step (PuHelp v n k old nx) q = Some (PuIn v n k, if ll_in q = old then q\<lparr>ll_in := nx\<rparr> else q)"
| "ll_step (PuLink v n k old) q = do {
     tail \<leftarrow> snd old;
     nx \<leftarrow> ll_next q tail;
     Some (if IsDoublePointerNull nx then (PuSwing v n k old, q\<lparr>ll_next := (ll_next q)(tail \<mapsto> SetDoublePointer k n)\<rparr>) else (PuIn v n k, q))
   }"
| "ll_step (PuSwing v n k old) q = Some (PuDone True, if ll_in q = old then q\<lparr>ll_in := SetDoublePointer k n\<rparr> else q)"
| "ll_step PoOut q = Some (PoIn (ll_out q), q)"
| "ll_step (PoIn old) q = Some (PoNext old (ll_in q), q)"
| "ll_step (PoNext old inp) q =
     map_option (\<lambda>nx. (if IsDoublePointerNull nx then PoDone None else if inp = old then PoHelp inp nx else PoData old nx, q)) (ll_deref old q)"
| "ll_step (PoHelp inp nx) q = Some (PoOut, if ll_in q = inp then q\<lparr>ll_in := nx\<rparr> else q)"
| "ll_step (PoData old nx) q =
     Option.bind (snd nx) (\<lambda>m. if m < ll_max q then Some (PoCas old nx (ll_data q m), q) else None)"
| "ll_step (PoCas old nx v) q =
     (if ll_out q = old then map_option (\<lambda>n. (PoRel n v, q\<lparr>ll_out := nx\<rparr>)) (snd old) else Some (PoOut, q))"
| "ll_step (PoRel n v) q = (if n < ll_max q then Some (PoRelRead n (ll_id2 q) v, q\<lparr>ll_id2 := ll_id2 q + 1\<rparr>) else None)"
| "ll_step (PoRelRead n k v) q = Some (PoRelLink n k (ll_head q) v, q)"
| "ll_step (PoRelLink n k old v) q = map_option (Pair (PoRelCas n k old v)) (ll_set_next n old q)"
| "ll_step (PoRelCas n k old v) q =
     Some (if ll_head q = old then (PoDone (Some v), q\<lparr>ll_head := SetDoublePointer k n\<rparr>) else (PoRelRead n k v, q))"
| "ll_step pc q = Some (pc, q)"

fun ll_rest :: "'a ll_pc \<Rightarrow> bool" where
  "ll_rest LlRest = True"
| "ll_rest (PuDone r) = True"
| "ll_rest (PoDone r) = True"
| "ll_rest _ = False"

section \<open>One producer and one consumer\<close>

fun ll_walk :: "nat \<Rightarrow> (nat \<rightharpoonup> dptr) \<Rightarrow> dptr \<Rightarrow> nat list" where
  "ll_walk 0 f d = []"
| "ll_walk (Suc k) f d = (case snd d of None \<Rightarrow> [] | Some n \<Rightarrow> n # (case f n of None \<Rightarrow> [] | Some d' \<Rightarrow> ll_walk k f d'))"

text \<open>The values behind the dummy node.\<close>

definition ll_content :: "'a LockFreeListQueue \<Rightarrow> 'a list" where
  "ll_content q = map (ll_data q) (tl (ll_walk (ll_max q) (ll_next q) (ll_out q)))"

lemma dchain_walk: "dchain f tag d xs \<Longrightarrow> length xs \<le> k \<Longrightarrow> ll_walk k f d = xs"
proof (induction xs arbitrary: d k)
  case Nil
  then show ?case by (cases k) (auto simp: InitDoublePointer_def)
next
  case (Cons a xs)
  then show ?case by (cases k) (auto simp: SetDoublePointer_def)
qed

text \<open>What a step does, as a client sees it.\<close>

fun ll_event :: "'a ll_pc \<Rightarrow> 'a LockFreeListQueue \<Rightarrow> 'a fifo_event" where
  "ll_event (PuAlloc v) q = (if IsDoublePointerNull (ll_head q) then Full else Tau)"
| "ll_event (PuLink v n k old) q = (if ll_deref old q = Some InitDoublePointer then Enq v else Tau)"
| "ll_event (PoNext old inp) q = (if ll_deref old q = Some InitDoublePointer then Empty else Tau)"
| "ll_event (PoCas old nx v) q = (if ll_out q = old then Deq v else Tau)"
| "ll_event pc q = Tau"

text \<open>The node a thread has to itself.\<close>

fun ll_node :: "'a ll_pc \<Rightarrow> nat option" where
  "ll_node (PuInit v n) = Some n"
| "ll_node (PuData v n) = Some n"
| "ll_node (PuZero v n) = Some n"
| "ll_node (PuNumber v n) = Some n"
| "ll_node (PuIn v n k) = Some n"
| "ll_node (PuNext v n k old) = Some n"
| "ll_node (PuHelp v n k old nx) = Some n"
| "ll_node (PuLink v n k old) = Some n"
| "ll_node (PoRel n v) = Some n"
| "ll_node (PoRelRead n k v) = Some n"
| "ll_node (PoRelLink n k old v) = Some n"
| "ll_node (PoRelCas n k old v) = Some n"
| "ll_node _ = None"

inductive ll_spsc :: "'a ll_pc \<times> 'a ll_pc \<times> 'a LockFreeListQueue \<Rightarrow> 'a fifo_event \<Rightarrow> 'a ll_pc \<times> 'a ll_pc \<times> 'a LockFreeListQueue \<Rightarrow> bool" where
  call_push: "ll_rest p \<Longrightarrow> ll_spsc (p, c, q) Tau (PuAlloc v, c, q)"
| call_pop: "ll_rest c \<Longrightarrow> ll_spsc (p, c, q) Tau (p, PoOut, q)"
| step_push: "ll_step p q = Some (p', q') \<Longrightarrow> ll_spsc (p, c, q) (ll_event p q) (p', c, q')"
| step_pop: "ll_step c q = Some (c', q') \<Longrightarrow> ll_spsc (p, c, q) (ll_event c q) (p, c', q')"

inductive ll_reach :: "'a LockFreeListQueue \<Rightarrow> 'a ll_pc \<times> 'a ll_pc \<times> 'a LockFreeListQueue \<Rightarrow> bool" for q0 where
  start: "ll_reach q0 (LlRest, LlRest, q0)"
| step: "ll_reach q0 s \<Longrightarrow> ll_spsc s e s' \<Longrightarrow> ll_reach q0 s'"

section \<open>The invariant\<close>

text \<open>\<open>xs\<close> are the unused nodes and \<open>qs\<close> those of the queue, the dummy first; \<open>tag\<close> has the numbers of the pointers to them.\<close>

fun ll_push_ok :: "nat list \<Rightarrow> nat list \<Rightarrow> (nat \<Rightarrow> 64 word) \<Rightarrow> 'a LockFreeListQueue \<Rightarrow> 'a ll_pc \<Rightarrow> bool" where
  "ll_push_ok xs qs tag q (PuAlloc v) \<longleftrightarrow> True"
| "ll_push_ok xs qs tag q (PuAllocNext v i n) \<longleftrightarrow> n \<in> set xs \<and> i = tag n"
| "ll_push_ok xs qs tag q (PuAllocCas v i n d) \<longleftrightarrow> n \<in> set xs \<and> i = tag n \<and> ll_next q n = Some d"
| "ll_push_ok xs qs tag q (PuInit v n) \<longleftrightarrow> True"
| "ll_push_ok xs qs tag q (PuData v n) \<longleftrightarrow> True"
| "ll_push_ok xs qs tag q (PuZero v n) \<longleftrightarrow> ll_data q n = v"
| "ll_push_ok xs qs tag q (PuNumber v n) \<longleftrightarrow> ll_data q n = v \<and> ll_next q n = Some InitDoublePointer"
| "ll_push_ok xs qs tag q (PuIn v n k) \<longleftrightarrow> ll_data q n = v \<and> ll_next q n = Some InitDoublePointer"
| "ll_push_ok xs qs tag q (PuNext v n k old) \<longleftrightarrow> ll_data q n = v \<and> ll_next q n = Some InitDoublePointer \<and> old = ll_in q"
| "ll_push_ok xs qs tag q (PuLink v n k old) \<longleftrightarrow> ll_data q n = v \<and> ll_next q n = Some InitDoublePointer \<and> old = ll_in q"
| "ll_push_ok xs qs tag q (PuSwing v n k old) \<longleftrightarrow> n = last qs \<and> k = tag n \<and> (ll_in q = old \<or> ll_in q = SetDoublePointer k n)"
| "ll_push_ok xs qs tag q pc \<longleftrightarrow> ll_rest pc"

text \<open>There is a second node, the pointer to it is \<open>nx\<close>, and \<open>in_\<close> is not behind.\<close>

definition ll_second :: "nat list \<Rightarrow> (nat \<Rightarrow> 64 word) \<Rightarrow> dptr \<Rightarrow> bool" where
  "ll_second qs tag nx \<longleftrightarrow> 2 \<le> length qs \<and> nx = SetDoublePointer (tag (qs ! 1)) (qs ! 1)"

fun ll_pop_ok :: "nat list \<Rightarrow> (nat \<Rightarrow> 64 word) \<Rightarrow> 'a LockFreeListQueue \<Rightarrow> 'a ll_pc \<Rightarrow> bool" where
  "ll_pop_ok qs tag q PoOut \<longleftrightarrow> True"
| "ll_pop_ok qs tag q (PoIn old) \<longleftrightarrow> old = ll_out q"
| "ll_pop_ok qs tag q (PoNext old inp) \<longleftrightarrow> old = ll_out q \<and> (inp = old \<or> ll_in q \<noteq> ll_out q)"
| "ll_pop_ok qs tag q (PoHelp inp nx) \<longleftrightarrow> inp = ll_out q \<and> ll_second qs tag nx"
| "ll_pop_ok qs tag q (PoData old nx) \<longleftrightarrow> old = ll_out q \<and> ll_in q \<noteq> ll_out q \<and> ll_second qs tag nx"
| "ll_pop_ok qs tag q (PoCas old nx v) \<longleftrightarrow> old = ll_out q \<and> ll_in q \<noteq> ll_out q \<and> ll_second qs tag nx \<and> v = ll_data q (qs ! 1)"
| "ll_pop_ok qs tag q (PoRel n v) \<longleftrightarrow> True"
| "ll_pop_ok qs tag q (PoRelRead n k v) \<longleftrightarrow> True"
| "ll_pop_ok qs tag q (PoRelLink n k old v) \<longleftrightarrow> True"
| "ll_pop_ok qs tag q (PoRelCas n k old v) \<longleftrightarrow> ll_next q n = Some old"
| "ll_pop_ok qs tag q pc \<longleftrightarrow> ll_rest pc"

fun ll_swinging :: "'a ll_pc \<Rightarrow> bool" where
  "ll_swinging (PuSwing v n k old) = True"
| "ll_swinging _ = False"

text \<open>\<open>in_\<close> points to the last node, or to the one before it while the producer is about to move it.\<close>

definition ll_in_ok :: "nat list \<Rightarrow> (nat \<Rightarrow> 64 word) \<Rightarrow> 'a ll_pc \<Rightarrow> dptr \<Rightarrow> bool" where
  "ll_in_ok qs tag p d \<longleftrightarrow> (\<exists>m. d = SetDoublePointer (tag m) m \<and> (m = last qs \<or> ll_swinging p \<and> 2 \<le> length qs \<and> m = last (butlast qs)))"

definition ll_parts :: "nat list \<Rightarrow> nat list \<Rightarrow> 'a ll_pc \<Rightarrow> 'a ll_pc \<Rightarrow> nat list" where
  "ll_parts xs qs p c = xs @ qs @ picks ll_node [p, c]"

lemma ll_parts_mset:
  "mset (ll_parts xs qs p c) = mset xs + mset qs + mset_set (set_option (ll_node p)) + mset_set (set_option (ll_node c))"
  by (cases "ll_node p"; cases "ll_node c") (simp_all add: ll_parts_def)

definition ll_ok :: "nat list \<Rightarrow> nat list \<Rightarrow> (nat \<Rightarrow> 64 word) \<Rightarrow> 'a ll_pc \<times> 'a ll_pc \<times> 'a LockFreeListQueue \<Rightarrow> bool" where
  "ll_ok xs qs tag s \<longleftrightarrow> (case s of (p, c, q) \<Rightarrow>
     dchain (ll_next q) tag (ll_head q) xs \<and> dchain (ll_next q) tag (ll_out q) qs \<and> qs \<noteq> [] \<and> ll_in_ok qs tag p (ll_in q) \<and>
     mset (ll_parts xs qs p c) = mset [0..<ll_max q] \<and> dom (ll_next q) = {0..<ll_max q} \<and>
     ll_push_ok xs qs tag q p \<and> ll_pop_ok qs tag q c)"

lemma ll_okD:
  assumes "ll_ok xs qs tag (p, c, q)"
  shows "dchain (ll_next q) tag (ll_head q) xs" and "dchain (ll_next q) tag (ll_out q) qs" and "qs \<noteq> []" and "ll_in_ok qs tag p (ll_in q)"
    and "mset (ll_parts xs qs p c) = mset [0..<ll_max q]" and "dom (ll_next q) = {0..<ll_max q}"
    and "ll_push_ok xs qs tag q p" and "ll_pop_ok qs tag q c"
  using assms by (auto simp: ll_ok_def)

lemma ll_okI:
  assumes "dchain (ll_next q) tag (ll_head q) xs" and "dchain (ll_next q) tag (ll_out q) qs" and "qs \<noteq> []" and "ll_in_ok qs tag p (ll_in q)"
    and "mset (ll_parts xs qs p c) = mset [0..<ll_max q]" and "dom (ll_next q) = {0..<ll_max q}"
    and "ll_push_ok xs qs tag q p" and "ll_pop_ok qs tag q c"
  shows "ll_ok xs qs tag (p, c, q)"
  using assms by (auto simp: ll_ok_def)

lemma ll_parts_ok:
  assumes "ll_ok xs qs tag (p, c, q)"
  shows "distinct (ll_parts xs qs p c)" and "set (ll_parts xs qs p c) = {0..<ll_max q}" and "length (ll_parts xs qs p c) = ll_max q"
  using mset_eq_imp_distinct_iff [OF ll_okD(5) [OF assms]] mset_eq_setD [OF ll_okD(5) [OF assms]] mset_eq_length [OF ll_okD(5) [OF assms]]
  by simp_all

lemma ll_content_ok:
  assumes "ll_ok xs qs tag (p, c, q)"
  shows "ll_content q = map (ll_data q) (tl qs)"
proof -
  have "length qs \<le> ll_max q" using ll_parts_ok(3) [OF assms] by (simp add: ll_parts_def)
  then show ?thesis by (simp add: ll_content_def dchain_walk [OF ll_okD(2) [OF assms]])
qed

lemma ll_next_some: "ll_ok xs qs tag (p, c, q) \<Longrightarrow> n < ll_max q \<Longrightarrow> \<exists>d. ll_next q n = Some d"
  using ll_okD(6) [of xs qs tag p c q] by (intro domD) simp

text \<open>The pointers of the queue.\<close>

lemma dchain_hd: "dchain f tag d qs \<Longrightarrow> qs \<noteq> [] \<Longrightarrow> d = SetDoublePointer (tag (List.hd qs)) (List.hd qs)"
  by (cases qs) simp_all

lemma dchain_first:
  assumes "dchain f tag d qs" and "qs \<noteq> []"
  shows "f (List.hd qs) = Some (if length qs = 1 then InitDoublePointer else SetDoublePointer (tag (qs ! 1)) (qs ! 1))"
proof -
  obtain a ys where "qs = a # ys" using assms(2) by (cases qs) auto
  then show ?thesis using assms(1) by (cases ys) auto
qed

lemma dchain_last: "dchain f tag d qs \<Longrightarrow> qs \<noteq> [] \<Longrightarrow> f (last qs) = Some InitDoublePointer"
  by (induction qs arbitrary: d) auto

lemma dchain_snoc:
  "dchain f tag d qs \<Longrightarrow> qs \<noteq> [] \<Longrightarrow> distinct qs \<Longrightarrow> n \<notin> set qs \<Longrightarrow> f n = Some InitDoublePointer \<Longrightarrow>
   dchain (f(last qs \<mapsto> SetDoublePointer k n)) (tag(n := k)) d (qs @ [n])"
proof (induction qs arbitrary: d)
  case (Cons a qs)
  then obtain d' where d: "d = SetDoublePointer (tag a) a" "f a = Some d'" "dchain f tag d' qs" by auto
  show ?case
  proof (cases "qs = []")
    case False
    have "dchain (f(last qs \<mapsto> SetDoublePointer k n)) (tag(n := k)) d' (qs @ [n])"
      by (rule Cons.IH [OF d(3) False]) (use Cons.prems in simp_all)
    moreover have "a \<noteq> last qs" "a \<noteq> n" using False Cons.prems(3,4) by auto
    ultimately show ?thesis using d False by (simp add: fun_upd_def)
  qed (use Cons.prems d in simp)
qed simp

lemma ll_deref_out:
  assumes "ll_ok xs qs tag (p, c, q)"
  shows "ll_deref (ll_out q) q = Some (if length qs = 1 then InitDoublePointer else SetDoublePointer (tag (qs ! 1)) (qs ! 1))"
  using dchain_hd [OF ll_okD(2,3) [OF assms]] dchain_first [OF ll_okD(2,3) [OF assms]]
  by (simp add: ll_deref_def SetDoublePointer_def)

text \<open>Outside the last step of a push \<open>in_\<close> points to the last node, whose pointer is null.\<close>

lemma ll_in_last:
  assumes "ll_ok xs qs tag (p, c, q)" and "\<not> ll_swinging p"
  shows "ll_in q = SetDoublePointer (tag (last qs)) (last qs)" and "ll_next q (last qs) = Some InitDoublePointer"
    and "ll_deref (ll_in q) q = Some InitDoublePointer"
  using ll_okD(4) [OF assms(1)] assms(2) dchain_last [OF ll_okD(2,3) [OF assms(1)]]
  by (auto simp: ll_in_ok_def ll_deref_def SetDoublePointer_def)

lemma null_simps [simp]:
  "IsDoublePointerNull InitDoublePointer" "\<not> IsDoublePointerNull (SetDoublePointer i n)"
  "SetDoublePointer i n \<noteq> InitDoublePointer" "InitDoublePointer \<noteq> SetDoublePointer i n"
  by (simp_all add: IsDoublePointerNull_def InitDoublePointer_def SetDoublePointer_def)

section \<open>Steps of the producer\<close>

text \<open>What a step of the producer promises; a step of the consumer promises the same with the roles exchanged.\<close>

definition ll_busy :: "'a ll_pc \<Rightarrow> nat" where
  "ll_busy c = (if ll_node c = None then 0 else 1)"

definition ll_good :: "'a ll_pc \<times> 'a ll_pc \<times> 'a LockFreeListQueue \<Rightarrow> bool" where
  "ll_good s \<longleftrightarrow> (\<exists>xs qs tag. ll_ok xs qs tag s)"

text \<open>A write to a node outside the lists is not noticed.\<close>

lemma ll_pop_next: "ll_pop_ok qs tag q c \<Longrightarrow> ll_node c \<noteq> Some n \<Longrightarrow> ll_pop_ok qs tag (q\<lparr>ll_next := (ll_next q)(n \<mapsto> d)\<rparr>) c"
  by (cases c) auto

lemma ll_pop_data: "ll_pop_ok qs tag q c \<Longrightarrow> n \<notin> set qs \<Longrightarrow> ll_pop_ok qs tag (q\<lparr>ll_data := (ll_data q)(n := v)\<rparr>) c"
  by (cases c) (auto simp: ll_second_def)

lemma ll_push_next:
  "ll_push_ok xs qs tag q p \<Longrightarrow> n \<notin> set xs \<Longrightarrow> ll_node p \<noteq> Some n \<Longrightarrow> ll_push_ok xs qs tag (q\<lparr>ll_next := (ll_next q)(n \<mapsto> d)\<rparr>) p"
  by (cases p) auto

lemma ll_apart:
  assumes "ll_ok xs qs tag (p, c, q)"
  shows "ll_node p = Some n \<Longrightarrow> n \<notin> set xs \<and> n \<notin> set qs \<and> ll_node c \<noteq> Some n \<and> n < ll_max q"
    and "ll_node c = Some n \<Longrightarrow> n \<notin> set xs \<and> n \<notin> set qs \<and> ll_node p \<noteq> Some n \<and> n < ll_max q"
    and "distinct xs" and "distinct qs" and "n \<in> set xs \<Longrightarrow> n \<notin> set qs \<and> n < ll_max q" and "n \<in> set qs \<Longrightarrow> n < ll_max q"
proof -
  note d = ll_parts_ok(1,2) [OF assms]
  have s: "n < ll_max q" if "n \<in> set (ll_parts xs qs p c)" for n using that d(2) by auto
  show "ll_node p = Some n \<Longrightarrow> n \<notin> set xs \<and> n \<notin> set qs \<and> ll_node c \<noteq> Some n \<and> n < ll_max q"
    using d(1) s [of n] by (cases "ll_node c") (auto simp: ll_parts_def)
  show "ll_node c = Some n \<Longrightarrow> n \<notin> set xs \<and> n \<notin> set qs \<and> ll_node p \<noteq> Some n \<and> n < ll_max q"
    using d(1) s [of n] by (cases "ll_node p") (auto simp: ll_parts_def)
  show "distinct xs" "distinct qs" "n \<in> set xs \<Longrightarrow> n \<notin> set qs \<and> n < ll_max q" "n \<in> set qs \<Longrightarrow> n < ll_max q"
    using d(1) s [of n] by (auto simp: ll_parts_def)
qed

lemma ll_set_next_ok:
  assumes "ll_ok xs qs tag (p, c, q)" and "n < ll_max q"
  shows "ll_set_next n d q = Some (q\<lparr>ll_next := (ll_next q)(n \<mapsto> d)\<rparr>)"
  using ll_next_some [OF assms] by (auto simp: ll_set_next_def)

lemma ll_write_push:
  assumes "ll_ok xs qs tag (p, c, q)" and "ll_node p = Some n" and "ll_node p' = Some n"
    and "ll_push_ok xs qs tag (q\<lparr>ll_next := (ll_next q)(n \<mapsto> d)\<rparr>) p'"
  shows "ll_ok xs qs tag (p', c, q\<lparr>ll_next := (ll_next q)(n \<mapsto> d)\<rparr>)"
proof -
  note n = ll_apart(1) [OF assms(1,2)] and ok = ll_okD [OF assms(1)]
  have "ll_in_ok qs tag p' (ll_in q)" using ok(4) assms(2,3) by (cases p) (auto simp: ll_in_ok_def)
  then show ?thesis using n ok assms(2-4) by (intro ll_okI) (auto simp: dchain_upd ll_pop_next ll_parts_mset)
qed

lemma ll_write_pop:
  assumes "ll_ok xs qs tag (p, c, q)" and "ll_node c = Some n" and "ll_node c' = Some n"
    and "ll_pop_ok qs tag (q\<lparr>ll_next := (ll_next q)(n \<mapsto> d)\<rparr>) c'"
  shows "ll_ok xs qs tag (p, c', q\<lparr>ll_next := (ll_next q)(n \<mapsto> d)\<rparr>)"
proof -
  note n = ll_apart(2) [OF assms(1,2)] and ok = ll_okD [OF assms(1)]
  then show ?thesis using assms(2-4) by (intro ll_okI) (auto simp: dchain_upd ll_push_next ll_parts_mset)
qed

text \<open>A thread moves on by itself.\<close>

lemma ll_move_push:
  assumes "ll_ok xs qs tag (p, c, q)" and "ll_node p' = ll_node p" and "\<not> ll_swinging p" and "ll_push_ok xs qs tag q p'"
  shows "ll_ok xs qs tag (p', c, q)"
  using ll_okD [OF assms(1)] assms(2-4) by (intro ll_okI) (auto simp: ll_parts_mset ll_in_ok_def)

lemma ll_move_pop:
  assumes "ll_ok xs qs tag (p, c, q)" and "ll_node c' = ll_node c" and "ll_pop_ok qs tag q c'"
  shows "ll_ok xs qs tag (p, c', q)"
  using ll_okD [OF assms(1)] assms(2-3) by (intro ll_okI) (auto simp: ll_parts_mset)

lemma ll_alloc:
  assumes "ll_ok xs qs tag (PuAllocCas v i n d, c, q)" and "ll_head q = (i, Some n)"
  shows "ll_ok (tl xs) qs tag (PuInit v n, c, q\<lparr>ll_head := d\<rparr>)"
proof -
  note ok = ll_okD [OF assms(1)]
  obtain ys where xs: "xs = n # ys" using ok(1) assms(2) by (cases xs) (auto simp: SetDoublePointer_def InitDoublePointer_def)
  have "ll_pop_ok qs tag (q\<lparr>ll_head := d\<rparr>) c" using ok(8) by (cases c) auto
  then show ?thesis using ok xs by (intro ll_okI) (auto simp: ll_parts_mset ll_in_ok_def)
qed

lemma ll_link:
  assumes "ll_ok xs qs tag (PuLink v n k old, c, q)"
  defines "q' \<equiv> q\<lparr>ll_next := (ll_next q)(last qs \<mapsto> SetDoublePointer k n)\<rparr>"
  shows "ll_ok xs (qs @ [n]) (tag(n := k)) (PuSwing v n k old, c, q')"
proof -
  note ok = ll_okD [OF assms(1)] and n = ll_apart(1) [OF assms(1), of n]
  have l: "last qs \<in> set qs" "last qs \<notin> set xs" "last qs < ll_max q" "ll_node c \<noteq> Some (last qs)"
    using ok(3) ll_apart(2,5,6) [OF assms(1), of "last qs"] by auto
  have "ll_pop_ok (qs @ [n]) (tag(n := k)) q' c" using ok(8) l(4) n by (cases c) (auto simp: q'_def ll_second_def nth_append)
  moreover have "dchain (ll_next q') (tag(n := k)) (ll_out q') (qs @ [n])"
    using dchain_snoc [OF ok(2,3) ll_apart(4) [OF assms(1)], of n k] n ok(7) by (simp add: q'_def)
  moreover have "dom (ll_next q') = {0..<ll_max q'}" using ok(6) l(3) by (auto simp: q'_def)
  moreover have "ll_in_ok (qs @ [n]) (tag(n := k)) (PuSwing v n k old) (ll_in q')"
    using ll_in_last(1) [OF assms(1)] n l(1) ok(3) by (cases qs) (auto simp: q'_def ll_in_ok_def)
  ultimately show ?thesis using ok(1,5,7) l n
    by (intro ll_okI) (auto simp: q'_def ll_parts_mset dchain_upd dchain_tag)
qed

lemma ll_swing:
  assumes "ll_ok xs qs tag (PuSwing v n k old, c, q)"
  shows "ll_ok xs qs tag (PuDone True, c, if ll_in q = old then q\<lparr>ll_in := SetDoublePointer k n\<rparr> else q)"
proof -
  note ok = ll_okD [OF assms]
  let ?q = "q\<lparr>ll_in := SetDoublePointer k n\<rparr>"
  have new: "SetDoublePointer k n = SetDoublePointer (tag (last qs)) (last qs)" using ok(7) by simp
  have q: "(if ll_in q = old then ?q else q) = ?q" using ok(7) by auto
  have "ll_in q \<noteq> ll_out q \<Longrightarrow> SetDoublePointer k n \<noteq> ll_out q"
  proof
    assume ne: "ll_in q \<noteq> ll_out q" and "SetDoublePointer k n = ll_out q"
    then have "last qs = List.hd qs" using new dchain_hd [OF ok(2,3)] by (simp add: SetDoublePointer_def)
    then have "length qs = 1" using ok(3) ll_apart(4) [OF assms] by (cases qs) (auto split: if_splits)
    then show False using ok(4) ne \<open>SetDoublePointer k n = ll_out q\<close> new by (auto simp: ll_in_ok_def)
  qed
  then have "ll_pop_ok qs tag ?q c" using ok(8) by (cases c) auto
  then have "ll_ok xs qs tag (PuDone True, c, ?q)" using ok new by (intro ll_okI) (auto simp: ll_parts_mset ll_in_ok_def)
  then show ?thesis unfolding q .
qed

text \<open>The content changes only where the queue does.\<close>

lemma fifo_tau: "xs = ys \<Longrightarrow> fifo_step cap xs Tau ys"
  by (simp add: fifo_step.tau)

lemma ll_producer_step:
  assumes "ll_ok xs qs tag (p, c, q)"
  shows "\<exists>p' q'. ll_step p q = Some (p', q') \<and> ll_good (p', c, q') \<and> ll_max q' = ll_max q \<and>
     fifo_step (ll_max q - 1 - ll_busy c) (ll_content q) (ll_event p q) (ll_content q')"
proof -
  note ok = ll_okD [OF assms] and n = ll_apart(1) [OF assms] and move = ll_move_push [OF assms] and store = ll_write_push [OF assms]
  have len: "length xs + length qs + ll_busy p + ll_busy c = ll_max q"
    using ll_parts_ok(3) [OF assms] by (cases "ll_node p"; cases "ll_node c") (simp_all add: ll_parts_def ll_busy_def)
  have plain: ?thesis if "ll_step p q = Some (p', q')" "ll_ok xs' qs tag' (p', c, q')" "ll_max q' = ll_max q" "ll_event p q = Tau"
      "map (ll_data q') (tl qs) = map (ll_data q) (tl qs)" for p' q' xs' tag'
    using that ll_content_ok [OF assms] ll_content_ok [OF that(2)] by (auto simp: ll_good_def fifo_tau)
  show ?thesis
  proof (cases p)
    case (PuAlloc v)
    show ?thesis
    proof (cases xs)
      case Nil
      have "ll_ok xs qs tag (PuDone False, c, q)" using PuAlloc by (intro move) auto
      moreover have "length (ll_content q) = ll_max q - 1 - ll_busy c"
        using ll_content_ok [OF assms] len Nil PuAlloc ok(3) by (simp add: ll_busy_def)
      ultimately show ?thesis using PuAlloc dchain_null [OF ok(1)] Nil by (auto simp: ll_good_def intro!: fifo_step.full)
    next
      case (Cons a ys)
      have st: "ll_ok xs qs tag (PuAllocNext v (tag a) a, c, q)" using PuAlloc Cons by (intro move) auto
      then show ?thesis using PuAlloc Cons ok(1) dchain_null [OF ok(1)] by (intro plain [OF _ st]) (auto simp: SetDoublePointer_def)
    qed
  next
    case (PuAllocNext v i m)
    then obtain d where d: "ll_next q m = Some d" using ll_next_some [OF assms, of m] ok(7) ll_apart(5) [OF assms, of m] by auto
    then have st: "ll_ok xs qs tag (PuAllocCas v i m d, c, q)" using PuAllocNext ok(7) by (intro move) auto
    then show ?thesis using PuAllocNext d by (intro plain [OF _ st]) auto
  next
    case (PuAllocCas v i m d)
    show ?thesis
    proof (cases "ll_head q = (i, Some m)")
      case True
      then show ?thesis using PuAllocCas assms by (intro plain [OF _ ll_alloc [of xs qs tag v i m d c q]]) auto
    next
      case False
      have st: "ll_ok xs qs tag (PuAlloc v, c, q)" using PuAllocCas by (intro move) auto
      then show ?thesis using PuAllocCas False by (intro plain [OF _ st]) auto
    qed
  next
    case (PuInit v m)
    have st: "ll_ok xs qs tag (PuData v m, c, q\<lparr>ll_next := (ll_next q)(m \<mapsto> InitDoublePointer)\<rparr>)" using PuInit by (intro store) auto
    then show ?thesis using PuInit n [of m] ll_set_next_ok [OF assms, of m] by (intro plain [OF _ st]) auto
  next
    case (PuData v m)
    have st: "ll_ok xs qs tag (PuZero v m, c, q\<lparr>ll_data := (ll_data q)(m := v)\<rparr>)"
      using ok PuData n [of m] ll_pop_data [OF ok(8)] by (intro ll_okI) (auto simp: ll_parts_mset ll_in_ok_def)
    then show ?thesis using PuData n [of m] by (intro plain [OF _ st]) (auto dest: list.set_sel(2) [OF ok(3)])
  next
    case (PuZero v m)
    have st: "ll_ok xs qs tag (PuNumber v m, c, q\<lparr>ll_next := (ll_next q)(m \<mapsto> InitDoublePointer)\<rparr>)" using PuZero ok(7) by (intro store) auto
    then show ?thesis using PuZero n [of m] ll_set_next_ok [OF assms, of m] by (intro plain [OF _ st]) auto
  next
    case (PuNumber v m)
    have "ll_pop_ok qs tag (q\<lparr>ll_id := ll_id q + 1\<rparr>) c" using ok(8) by (cases c) auto
    then have st: "ll_ok xs qs tag (PuIn v m (ll_id q), c, q\<lparr>ll_id := ll_id q + 1\<rparr>)"
      using ok PuNumber by (intro ll_okI) (auto simp: ll_parts_mset ll_in_ok_def)
    then show ?thesis using PuNumber by (intro plain [OF _ st]) auto
  next
    case (PuIn v m k)
    have st: "ll_ok xs qs tag (PuNext v m k (ll_in q), c, q)" using PuIn ok(7) by (intro move) auto
    then show ?thesis using PuIn by (intro plain [OF _ st]) auto
  next
    case (PuNext v m k old)
    have st: "ll_ok xs qs tag (PuLink v m k old, c, q)" using PuNext ok(7) by (intro move) auto
    then show ?thesis using PuNext ok(7) ll_in_last(3) [OF assms] by (intro plain [OF _ st]) auto
  next
    case (PuLink v m k old)
    note l = ll_in_last [OF assms] and link = ll_link [of xs qs tag v m k old c q]
    have "fifo_step (ll_max q - 1 - ll_busy c) (ll_content q) (Enq v) (ll_content q @ [v])"
      using ll_content_ok [OF assms] len PuLink ok(3) by (intro fifo_step.enq) (auto simp: ll_busy_def neq_Nil_conv)
    moreover have "ll_content (q\<lparr>ll_next := (ll_next q)(last qs \<mapsto> SetDoublePointer k m)\<rparr>) = ll_content q @ [v]"
      using ll_content_ok [OF link] ll_content_ok [OF assms] PuLink assms ok(3,7) by (cases qs) auto
    ultimately show ?thesis using PuLink ok(7) l link assms by (auto simp: ll_good_def SetDoublePointer_def ll_deref_def)
  next
    case (PuSwing v m k old)
    then show ?thesis using assms by (intro plain [OF _ ll_swing [of xs qs tag v m k old c q]]) auto
  qed (use ok(7) assms in \<open>auto simp: ll_good_def fifo_tau\<close>)
qed

section \<open>Steps of the consumer\<close>

text \<open>\<open>in_\<close> points to the dummy node although there is another: the producer is about to move it there.\<close>

lemma ll_behind:
  assumes "ll_ok xs qs tag (p, c, q)" and "ll_in q = ll_out q" and "2 \<le> length qs"
  shows "ll_swinging p" and "length qs = 2"
proof -
  note ok = ll_okD [OF assms(1)]
  obtain a b ys where qs: "qs = a # b # ys" using assms(3) by (cases qs; cases "tl qs") auto
  have "ll_in q = SetDoublePointer (tag a) a" using assms(2) dchain_hd [OF ok(2,3)] qs by simp
  then have "a = last qs \<or> ll_swinging p \<and> a = last (butlast qs)" using ok(4) by (auto simp: ll_in_ok_def SetDoublePointer_def)
  moreover have "a \<notin> set (b # ys)" using ll_apart(4) [OF assms(1)] qs by simp
  moreover have "last (b # ys) \<in> set (b # ys)" by (rule last_in_set) simp
  moreover have "ys \<noteq> [] \<Longrightarrow> last (butlast qs) \<in> set (b # ys)" using qs last_in_set [of "butlast (b # ys)"] by (auto dest: in_set_butlastD)
  ultimately show "ll_swinging p" "length qs = 2" using qs by fastforce+
qed

lemma ll_help:
  assumes "ll_ok xs qs tag (p, PoHelp inp nx, q)"
  shows "ll_ok xs qs tag (p, PoOut, if ll_in q = inp then q\<lparr>ll_in := nx\<rparr> else q)"
proof (cases "ll_in q = inp")
  case True
  note ok = ll_okD [OF assms]
  have in_out: "ll_in q = ll_out q" and two: "2 \<le> length qs" and nx: "nx = SetDoublePointer (tag (qs ! 1)) (qs ! 1)"
    using ok(8) True by (auto simp: ll_second_def)
  note b = ll_behind [OF assms in_out two]
  then have "last qs = qs ! 1" using ok(3) by (simp add: last_conv_nth)
  then have nx: "nx = SetDoublePointer (tag (last qs)) (last qs)" using nx by simp
  have "ll_push_ok xs qs tag (q\<lparr>ll_in := nx\<rparr>) p" using ok(7) b(1) nx by (cases p) auto
  then have st: "ll_ok xs qs tag (p, PoOut, q\<lparr>ll_in := nx\<rparr>)" using ok nx by (intro ll_okI) (auto simp: ll_parts_mset ll_in_ok_def)
  then show ?thesis using True by simp
next
  case False
  have st: "ll_ok xs qs tag (p, PoOut, q)" using ll_move_pop [OF assms] by simp
  then show ?thesis using False by simp
qed

lemma ll_take:
  assumes "ll_ok xs qs tag (p, PoCas old nx v, q)"
  shows "ll_ok xs (tl qs) tag (p, PoRel (List.hd qs) v, q\<lparr>ll_out := nx\<rparr>)"
proof -
  note ok = ll_okD [OF assms]
  have "2 \<le> length qs" and nx: "nx = SetDoublePointer (tag (qs ! 1)) (qs ! 1)" and ne: "ll_in q \<noteq> ll_out q"
    using ok(8) by (auto simp: ll_second_def)
  then obtain a b ys where qs: "qs = a # b # ys" by (cases qs; cases "tl qs") auto
  obtain m where m: "ll_in q = SetDoublePointer (tag m) m" "m = last qs \<or> ll_swinging p \<and> m = last (butlast qs)"
    using ok(4) by (auto simp: ll_in_ok_def)
  have "m \<noteq> a" using ne m(1) dchain_hd [OF ok(2,3)] qs by auto
  then have "ll_in_ok (tl qs) tag p (ll_in q)" using m qs by (auto simp: ll_in_ok_def Suc_le_eq split: if_splits intro!: exI [of _ m])
  moreover have "ll_push_ok xs (tl qs) tag (q\<lparr>ll_out := nx\<rparr>) p" using ok(7) qs by (cases p) auto
  ultimately show ?thesis using ok qs nx by (intro ll_okI) (auto simp: ll_parts_mset)
qed

lemma ll_release:
  assumes "ll_ok xs qs tag (p, PoRelCas n k (ll_head q) v, q)"
  shows "ll_ok (n # xs) qs (tag(n := k)) (p, PoDone (Some v), q\<lparr>ll_head := SetDoublePointer k n\<rparr>)"
proof -
  note ok = ll_okD [OF assms] and n = ll_apart(2) [OF assms, of n]
  have "ll_push_ok (n # xs) qs (tag(n := k)) (q\<lparr>ll_head := SetDoublePointer k n\<rparr>) p" using ok(3,7) n by (cases p) auto
  moreover have "ll_in_ok qs (tag(n := k)) p (ll_in q)"
  proof -
    obtain m where m: "ll_in q = SetDoublePointer (tag m) m" "m = last qs \<or> ll_swinging p \<and> 2 \<le> length qs \<and> m = last (butlast qs)"
      using ok(4) by (auto simp: ll_in_ok_def)
    have "last (butlast qs) \<in> set qs" if "2 \<le> length qs"
      using that last_in_set [of "butlast qs"] in_set_butlastD [of "last (butlast qs)" qs] by (cases qs) (auto split: if_splits)
    then have "m \<noteq> n" using m(2) ok(3) n by auto
    then show ?thesis using m by (auto simp: ll_in_ok_def)
  qed
  ultimately show ?thesis using ok n by (intro ll_okI) (auto simp: ll_parts_mset dchain_tag)
qed

lemma ll_consumer_step:
  assumes "ll_ok xs qs tag (p, c, q)"
  shows "\<exists>c' q'. ll_step c q = Some (c', q') \<and> ll_good (p, c', q') \<and> ll_max q' = ll_max q \<and>
     fifo_step (ll_max q - 1 - ll_busy c) (ll_content q) (ll_event c q) (ll_content q')"
proof -
  note ok = ll_okD [OF assms] and n = ll_apart(2) [OF assms] and move = ll_move_pop [OF assms] and store = ll_write_pop [OF assms]
  have plain: ?thesis if "ll_step c q = Some (c', q')" "ll_ok xs' qs tag' (p, c', q')" "ll_max q' = ll_max q" "ll_event c q = Tau"
      "ll_data q' = ll_data q" for c' q' xs' tag'
    using that ll_content_ok [OF assms] ll_content_ok [OF that(2)] by (auto simp: ll_good_def fifo_tau)
  show ?thesis
  proof (cases c)
    case PoOut
    have st: "ll_ok xs qs tag (p, PoIn (ll_out q), q)" using PoOut by (intro move) auto
    then show ?thesis using PoOut by (intro plain [OF _ st]) auto
  next
    case (PoIn old)
    have st: "ll_ok xs qs tag (p, PoNext old (ll_in q), q)" using PoIn ok(8) by (intro move) auto
    then show ?thesis using PoIn by (intro plain [OF _ st]) auto
  next
    case (PoNext old inp)
    note d = ll_deref_out [OF assms]
    show ?thesis
    proof (cases "length qs = 1")
      case True
      have "ll_ok xs qs tag (p, PoDone None, q)" using PoNext by (intro move) auto
      moreover have "ll_content q = []" using ll_content_ok [OF assms] True by (cases qs) auto
      ultimately show ?thesis using PoNext ok(8) d True fifo_step.empty by (auto simp: ll_good_def)
    next
      case False
      let ?nx = "SetDoublePointer (tag (qs ! 1)) (qs ! 1)"
      have "2 \<le> length qs" using False ok(3) by (cases qs; cases "tl qs") auto
      then have st: "ll_ok xs qs tag (p, if inp = old then PoHelp inp ?nx else PoData old ?nx, q)"
        using PoNext ok(8) by (intro move) (auto simp: ll_second_def)
      then show ?thesis using PoNext ok(8) d False by (intro plain [OF _ st]) auto
    qed
  next
    case (PoHelp inp nx)
    then show ?thesis using assms by (intro plain [OF _ ll_help [of xs qs tag p inp nx q]]) auto
  next
    case (PoData old nx)
    then have two: "2 \<le> length qs" "nx = SetDoublePointer (tag (qs ! 1)) (qs ! 1)" using ok(8) by (auto simp: ll_second_def)
    have "qs ! 1 < ll_max q" using ll_apart(6) [OF assms, of "qs ! 1"] two(1) by simp
    moreover have st: "ll_ok xs qs tag (p, PoCas old nx (ll_data q (qs ! 1)), q)" using PoData ok(8) by (intro move) auto
    ultimately show ?thesis using PoData two by (intro plain [OF _ st]) (auto simp: SetDoublePointer_def)
  next
    case (PoCas old nx v)
    note t = ll_take [of xs qs tag p old nx v q]
    have old: "old = ll_out q" "2 \<le> length qs" "v = ll_data q (qs ! 1)" using PoCas ok(8) by (auto simp: ll_second_def)
    then obtain a b ys where qs: "qs = a # b # ys" by (cases qs; cases "tl qs") auto
    have "ll_content q = v # ll_content (q\<lparr>ll_out := nx\<rparr>)"
      using ll_content_ok [OF assms] ll_content_ok [OF t] assms PoCas old(3) qs by simp
    then have "fifo_step (ll_max q - 1 - ll_busy c) (ll_content q) (Deq v) (ll_content (q\<lparr>ll_out := nx\<rparr>))"
      by (simp add: fifo_step.deq)
    then show ?thesis using PoCas t assms old(1) dchain_hd [OF ok(2,3)] by (auto simp: ll_good_def SetDoublePointer_def)
  next
    case (PoRel m v)
    have "ll_push_ok xs qs tag (q\<lparr>ll_id2 := ll_id2 q + 1\<rparr>) p" using ok(7) by (cases p) auto
    then have st: "ll_ok xs qs tag (p, PoRelRead m (ll_id2 q) v, q\<lparr>ll_id2 := ll_id2 q + 1\<rparr>)"
      using ok PoRel by (intro ll_okI) (auto simp: ll_parts_mset)
    then show ?thesis using PoRel n [of m] by (intro plain [OF _ st]) auto
  next
    case (PoRelRead m k v)
    have st: "ll_ok xs qs tag (p, PoRelLink m k (ll_head q) v, q)" using PoRelRead by (intro move) auto
    then show ?thesis using PoRelRead by (intro plain [OF _ st]) auto
  next
    case (PoRelLink m k old v)
    have st: "ll_ok xs qs tag (p, PoRelCas m k old v, q\<lparr>ll_next := (ll_next q)(m \<mapsto> old)\<rparr>)" using PoRelLink by (intro store) auto
    then show ?thesis using PoRelLink n [of m] ll_set_next_ok [OF assms, of m] by (intro plain [OF _ st]) auto
  next
    case (PoRelCas m k old v)
    show ?thesis
    proof (cases "ll_head q = old")
      case True
      then show ?thesis using PoRelCas assms by (intro plain [OF _ ll_release [of xs qs tag p m k q v]]) auto
    next
      case False
      have st: "ll_ok xs qs tag (p, PoRelRead m k v, q)" using PoRelCas by (intro move) auto
      then show ?thesis using PoRelCas False by (intro plain [OF _ st]) auto
    qed
  qed (use ok(8) assms in \<open>auto simp: ll_good_def fifo_tau\<close>)
qed

section \<open>The refinement\<close>

lemma ll_spsc_ok:
  assumes "ll_good s" and "ll_spsc s e s'"
  shows "ll_good s' \<and> ll_max (snd (snd s')) = ll_max (snd (snd s)) \<and>
     fifo_step (ll_max (snd (snd s)) - 1 - ll_busy (fst (snd s))) (ll_content (snd (snd s))) e (ll_content (snd (snd s')))"
proof -
  obtain xs qs tag where ok: "ll_ok xs qs tag s" using assms(1) by (auto simp: ll_good_def)
  from assms(2) show ?thesis
  proof (cases rule: ll_spsc.cases)
    case (call_push p c q v)
    have "ll_ok xs qs tag (PuAlloc v, c, q)" using call_push(4) by (intro ll_move_push [OF ok [unfolded call_push(1)]]) (auto elim!: ll_rest.elims)
    then show ?thesis using call_push by (auto simp: ll_good_def fifo_tau)
  next
    case (call_pop c p q)
    have "ll_ok xs qs tag (p, PoOut, q)" using call_pop(4) by (intro ll_move_pop [OF ok [unfolded call_pop(1)]]) (auto elim!: ll_rest.elims)
    then show ?thesis using call_pop by (auto simp: ll_good_def fifo_tau)
  next
    case (step_push p q p' q' c)
    then show ?thesis using ll_producer_step [OF ok [unfolded step_push(1)]] by auto
  next
    case (step_pop c q c' q' p)
    then show ?thesis using ll_consumer_step [OF ok [unfolded step_pop(1)]] by auto
  qed
qed

lemma LockFreeListQueue_init_good:
  assumes "LockFreeListQueue_init junk capacity = Some q"
  shows "ll_good (LlRest, LlRest, q)" and "ll_max q = capacity" and "ll_content q = []"
proof -
  let ?f = "InitList_loop (capacity - 1) 0 Map.empty"
  have cap: "0 < capacity" using assms by (cases capacity) (auto simp: LockFreeListQueue_init_def)
  then obtain d where d: "?f 0 = Some d" "dchain ?f word_of_nat d [1..<capacity]"
    using InitList_loop_chain [of "capacity - 1" 0 Map.empty] by (simp add: upt_conv_Cons del: upt_Suc) auto
  have q: "q = \<lparr>ll_id = 1, ll_max = capacity, ll_in = SetDoublePointer 0 0, ll_out = SetDoublePointer 0 0,
      ll_id2 = word_of_nat (capacity - 1), ll_head = d, ll_next = ?f(0 \<mapsto> InitDoublePointer), ll_data = junk\<rparr>"
    using assms cap d(1) by (auto simp: LockFreeListQueue_init_def Let_def)
  have parts: "mset (ll_parts [1..<capacity] [0] LlRest LlRest) = mset [0..<capacity]"
    using cap by (simp only: ll_parts_mset upt_conv_Cons [of 0 capacity] mset.simps) simp
  have "dom (ll_next q) = {0..<ll_max q}" using cap by (auto simp: q InitList_loop_dom)
  moreover have "dchain (ll_next q) word_of_nat (ll_head q) [1..<capacity]" using d(2) by (simp add: q dchain_upd)
  ultimately have "ll_ok [1..<capacity] [0] word_of_nat (LlRest, LlRest, q)"
    using parts by (intro ll_okI) (auto simp: q ll_in_ok_def simp del: mset_upt)
  then show "ll_good (LlRest, LlRest, q)" "ll_content q = []" using ll_content_ok by (fastforce simp: ll_good_def)+
  show "ll_max q = capacity" by (simp add: q)
qed

lemma ll_reach_good:
  assumes "LockFreeListQueue_init junk capacity = Some q0"
  shows "ll_reach q0 s \<Longrightarrow> ll_good s \<and> ll_max (snd (snd s)) = capacity"
proof (induction rule: ll_reach.induct)
  case start
  then show ?case using LockFreeListQueue_init_good [OF assms] by simp
next
  case (step s e s')
  then show ?case using ll_spsc_ok by metis
qed


text \<open>Steps of the producer alone, for the sample.\<close>

primrec ll_iter :: "nat \<Rightarrow> 'a ll_pc \<times> 'a LockFreeListQueue \<Rightarrow> ('a ll_pc \<times> 'a LockFreeListQueue) option" where
  "ll_iter 0 x = Some x"
| "ll_iter (Suc k) x = Option.bind (ll_step (fst x) (snd x)) (ll_iter k)"

lemma ll_reach_iter: "ll_reach q0 (p, c, q) \<Longrightarrow> ll_iter k (p, q) = Some (p', q') \<Longrightarrow> ll_reach q0 (p', c, q')"
proof (induction k arbitrary: p q)
  case (Suc k)
  then obtain p1 q1 where st: "ll_step p q = Some (p1, q1)" "ll_iter k (p1, q1) = Some (p', q')" by (auto split: bind_splits)
  then show ?case using Suc.IH [OF ll_reach.step [OF Suc.prems(1) ll_spsc.step_push [OF st(1)]]] by simp
qed simp


section \<open>Several producers\<close>

text \<open>Threads with the values of the pops that are over.\<close>

datatype 'a ll_act = LlPush nat 'a | LlPop nat | LlGo nat

type_synonym 'a ll_sys = "'a LockFreeListQueue \<times> 'a ll_pc list \<times> 'a list"

fun ll_possible :: "'a ll_act \<Rightarrow> 'a ll_sys \<Rightarrow> bool" where
  "ll_possible (LlPush i v) (q, ts, outs) \<longleftrightarrow> i < length ts \<and> ll_rest (ts ! i)"
| "ll_possible (LlPop i) (q, ts, outs) \<longleftrightarrow> i < length ts \<and> ll_rest (ts ! i)"
| "ll_possible (LlGo i) (q, ts, outs) \<longleftrightarrow> i < length ts \<and> \<not> ll_rest (ts ! i)"

fun ll_act1 :: "'a ll_act \<Rightarrow> 'a ll_sys \<Rightarrow> 'a ll_sys option" where
  "ll_act1 (LlPush i v) (q, ts, outs) = Some (q, ts[i := PuAlloc v], outs)"
| "ll_act1 (LlPop i) (q, ts, outs) = Some (q, ts[i := PoOut], outs)"
| "ll_act1 (LlGo i) (q, ts, outs) = do {
     (pc, q') \<leftarrow> ll_step (ts ! i) q;
     Some (q', ts[i := pc], (case pc of PoDone (Some v) \<Rightarrow> outs @ [v] | _ \<Rightarrow> outs))
   }"

text \<open>
  With two producers a message can be lost. A node that goes back to an empty list of unused nodes has the null pointer in
  \<open>next\<close>, as the last node of the queue has; a producer that read it as the last node before takes it for the last one still. In this run the push of 1
  reports success, only the 2 is popped, and then the queue is empty.
\<close>

theorem push_lost:
  "(case run_schedule ll_possible ll_act1
      ((LlPush 0 1 # replicate 9 (LlGo 0)) @ (LlPush 1 2 # replicate 11 (LlGo 1)) @ (LlPop 2 # replicate 9 (LlGo 2)) @ replicate 2 (LlGo 0) @
       (LlPop 2 # replicate 3 (LlGo 2)))
      (the (LockFreeListQueue_init (\<lambda>_. 0 :: nat) 3), replicate 3 LlRest, []) of
    None \<Rightarrow> False | Some (q, ts, outs) \<Rightarrow> ts = [PuDone True, PuDone True, PoDone None] \<and> outs = [2])"
  by code_simp

end
