(* ===== verification/LockFreeCalls.thy ===== *)
theory LockFreeCalls
  imports LockFreeList FixedBuffer
begin

text \<open>
  The calls of \<open>LockFreeBuffer\<close> and \<open>LockFreeListQueue\<close> run to their end without interruption: what a caller relies on, as two locales,
  and that the step models keep it. A call takes a bounded number of steps.
\<close>

section \<open>The contracts\<close>

text \<open>A pool of buffers with the buffers that are free, in the order in which they are handed out, and those in use.\<close>

locale buffer_calls =
  fixes repr :: "'b \<Rightarrow> nat list \<Rightarrow> nat list \<Rightarrow> bool"
    and alloc :: "'b \<Rightarrow> (ptr \<times> 'b) option"
    and release :: "nat \<Rightarrow> 'b \<Rightarrow> 'b option"
  assumes alloc_none: "repr b [] held \<Longrightarrow> alloc b = Some (None, b)"
    and alloc_some: "repr b (n # free) held \<Longrightarrow> \<exists>b'. alloc b = Some (Some n, b') \<and> repr b' free (n # held)"
    and release_ok: "repr b free held \<Longrightarrow> n \<in> set held \<Longrightarrow> \<exists>b'. release n b = Some b' \<and> repr b' (n # free) (remove1 n held)"

text \<open>Such a pool is a store of cells.\<close>

sublocale buffer_calls \<subseteq> bcs: cell_store "\<lambda>b held. \<exists>free. repr b free held" alloc release "\<lambda>(_ :: unit) _. Some"
proof (unfold_locales, goal_cases)
  case (1 b held)
  then obtain free where "repr b free held" by blast
  then show ?case using alloc_none [of b held] alloc_some by (cases free) fastforce+
next
  case (2 b held a)
  then show ?case using release_ok by blast
qed simp

text \<open>A bounded queue of values.\<close>

locale queue_calls =
  fixes repr :: "'q \<Rightarrow> 'v list \<Rightarrow> bool"
    and push :: "'v \<Rightarrow> 'q \<Rightarrow> (bool \<times> 'q) option"
    and pop :: "'q \<Rightarrow> ('v option \<times> 'q) option"
    and cap :: nat
  assumes push_room: "repr q vs \<Longrightarrow> length vs < cap \<Longrightarrow> \<exists>q'. push v q = Some (True, q') \<and> repr q' (vs @ [v])"
    and push_full: "repr q vs \<Longrightarrow> length vs = cap \<Longrightarrow> push v q = Some (False, q)"
    and pop_some: "repr q (v # vs) \<Longrightarrow> \<exists>q'. pop q = Some (Some v, q') \<and> repr q' vs"
    and pop_none: "repr q [] \<Longrightarrow> pop q = Some (None, q)"

section \<open>The pool of buffers\<close>

primrec lb_iter :: "nat \<Rightarrow> lb_pc \<times> LockFreeBuffer \<Rightarrow> (lb_pc \<times> LockFreeBuffer) option" where
  "lb_iter 0 x = Some x"
| "lb_iter (Suc k) x = Option.bind (lb_step (fst x) (snd x)) (lb_iter k)"

definition AllocBuffer :: "LockFreeBuffer \<Rightarrow> (ptr \<times> LockFreeBuffer) option" where
  "AllocBuffer l = do { (pc, l') \<leftarrow> lb_iter 4 (AlRead, l); (case pc of AlDone r \<Rightarrow> Some (r, l') | _ \<Rightarrow> None) }"

definition ReleaseBuffer :: "nat \<Rightarrow> LockFreeBuffer \<Rightarrow> LockFreeBuffer option" where
  "ReleaseBuffer n l = do { (pc, l') \<leftarrow> lb_iter 4 (ReStart n, l); (if pc = ReDone then Some l' else None) }"

definition lb_repr :: "nat \<Rightarrow> LockFreeBuffer \<Rightarrow> nat list \<Rightarrow> nat list \<Rightarrow> bool" where
  "lb_repr num l xs held \<longleftrightarrow> lb_num l = num \<and> dom (lb_next l) = {0..<num} \<and> mset (xs @ held) = mset [0..<num] \<and>
     (\<exists>tag. dchain (lb_next l) tag (lb_head l) xs)"

lemma lb_repr_set:
  assumes "lb_repr num l xs held"
  shows "distinct (xs @ held)" and "n \<in> set (xs @ held) \<Longrightarrow> n < num"
proof -
  have m: "mset (xs @ held) = mset [0..<num]" using assms by (simp add: lb_repr_def)
  show "distinct (xs @ held)" using mset_eq_imp_distinct_iff [OF m] by simp
  show "n \<in> set (xs @ held) \<Longrightarrow> n < num" using mset_eq_setD [OF m] by auto
qed

lemma LockFreeBuffer_init_repr:
  assumes "LockFreeBuffer_init num = Some l"
  shows "lb_repr num l [0..<num] []"
proof -
  from assms obtain k where k: "num = Suc k" by (cases num) (auto simp: LockFreeBuffer_init_def)
  have l: "l = \<lparr>lb_num = num, lb_id = word_of_nat k, lb_head = SetDoublePointer 0 0, lb_next = InitList_loop k 0 Map.empty\<rparr>"
    using assms by (simp add: LockFreeBuffer_init_def k)
  have "dom (InitList_loop k 0 Map.empty) = {0..<num}" by (simp add: InitList_loop_dom k atLeastLessThanSuc_atLeastAtMost)
  moreover have "dchain (InitList_loop k 0 Map.empty) word_of_nat (SetDoublePointer 0 0) [0..<num]"
    using InitList_loop_chain [of k 0 Map.empty] by (simp add: k)
  ultimately show ?thesis unfolding lb_repr_def l by (auto simp del: upt_Suc)
qed

lemma AllocBuffer_none: "lb_repr num l [] held \<Longrightarrow> AllocBuffer l = Some (None, l)"
  by (simp add: AllocBuffer_def lb_repr_def numeral_eq_Suc)

lemma AllocBuffer_some:
  assumes "lb_repr num l (n # xs) held"
  shows "\<exists>l'. AllocBuffer l = Some (Some n, l') \<and> lb_repr num l' xs (n # held)"
proof -
  obtain tag d where d: "lb_head l = SetDoublePointer (tag n) n" "lb_next l n = Some d" "dchain (lb_next l) tag d xs"
    using assms by (auto simp: lb_repr_def)
  let ?l = "l\<lparr>lb_head := d, lb_next := (lb_next l)(n \<mapsto> InitDoublePointer)\<rparr>"
  have "AllocBuffer l = Some (Some n, ?l)"
    using d by (simp add: AllocBuffer_def numeral_eq_Suc SetDoublePointer_def IsDoublePointerNull_def InitDoublePointer_def)
  moreover have "lb_repr num ?l xs (n # held)"
    using assms d lb_repr_set(1) [OF assms] lb_repr_set(2) [OF assms, of n] by (auto simp: lb_repr_def dchain_upd)
  ultimately show ?thesis by blast
qed

lemma ReleaseBuffer_ok:
  assumes "lb_repr num l xs held" and "n \<in> set held"
  shows "\<exists>l'. ReleaseBuffer n l = Some l' \<and> lb_repr num l' (n # xs) (remove1 n held)"
proof -
  have n: "n < num" "n \<notin> set xs" using lb_repr_set(1) [OF assms(1)] lb_repr_set(2) [OF assms(1), of n] assms(2) by auto
  obtain tag where tag: "dchain (lb_next l) tag (lb_head l) xs" using assms(1) by (auto simp: lb_repr_def)
  have some: "lb_next l n \<noteq> None" using assms(1) n(1) domIff [of n "lb_next l"] by (simp add: lb_repr_def)
  let ?l = "l\<lparr>lb_id := lb_id l + 1, lb_next := (lb_next l)(n \<mapsto> lb_head l), lb_head := SetDoublePointer (lb_id l) n\<rparr>"
  have "ReleaseBuffer n l = Some ?l"
    using some n(1) assms(1) by (auto simp: ReleaseBuffer_def numeral_eq_Suc lb_repr_def)
  moreover have "dchain (lb_next ?l) (tag(n := lb_id l)) (lb_head ?l) (n # xs)"
    using tag n(2) by (simp add: dchain_upd dchain_tag)
  then have "lb_repr num ?l (n # xs) (remove1 n held)" using assms n by (auto simp: lb_repr_def simp del: dchain.simps)
  ultimately show ?thesis by blast
qed

interpretation lbc: buffer_calls "lb_repr num" AllocBuffer ReleaseBuffer for num
  by unfold_locales (fact AllocBuffer_none AllocBuffer_some ReleaseBuffer_ok)+

section \<open>The queue\<close>

text \<open>A run of one thread with the events of its steps.\<close>

primrec ll_trace :: "nat \<Rightarrow> 'a ll_pc \<Rightarrow> 'a LockFreeListQueue \<Rightarrow> ('a ll_pc \<times> 'a LockFreeListQueue \<times> 'a fifo_event list) option" where
  "ll_trace 0 pc q = Some (pc, q, [])"
| "ll_trace (Suc k) pc q = do {
     (pc1, q1) \<leftarrow> ll_step pc q;
     (pc2, q2, es) \<leftarrow> ll_trace k pc1 q1;
     Some (pc2, q2, (if ll_event pc q = Tau then es else ll_event pc q # es))
   }"

definition LockFreeListQueue_Push :: "'a \<Rightarrow> 'a LockFreeListQueue \<Rightarrow> (bool \<times> 'a LockFreeListQueue) option" where
  "LockFreeListQueue_Push v q = do { (pc, q', es) \<leftarrow> ll_trace 11 (PuAlloc v) q; (case pc of PuDone r \<Rightarrow> Some (r, q') | _ \<Rightarrow> None) }"

definition LockFreeListQueue_Pop :: "'a LockFreeListQueue \<Rightarrow> ('a option \<times> 'a LockFreeListQueue) option" where
  "LockFreeListQueue_Pop q = do { (pc, q', es) \<leftarrow> ll_trace 9 PoOut q; (case pc of PoDone r \<Rightarrow> Some (r, q') | _ \<Rightarrow> None) }"

text \<open>What the events say of the content.\<close>

fun fifo_run :: "'a fifo_event list \<Rightarrow> 'a list \<Rightarrow> 'a list" where
  "fifo_run [] xs = xs"
| "fifo_run (Enq v # es) xs = fifo_run es (xs @ [v])"
| "fifo_run (Deq v # es) xs = fifo_run es (tl xs)"
| "fifo_run (_ # es) xs = fifo_run es xs"

lemma fifo_run_step: "fifo_step cap xs e ys \<Longrightarrow> fifo_run es ys = fifo_run (if e = Tau then es else e # es) xs"
  by (erule fifo_stepE) auto

lemma ll_trace_push:
  assumes "ll_good (p, c, q)" and "ll_trace k p q = Some (p', q', es)"
  shows "ll_good (p', c, q') \<and> ll_max q' = ll_max q \<and> ll_content q' = fifo_run es (ll_content q)"
  using assms
proof (induction k arbitrary: p q es)
  case (Suc k)
  then obtain p1 q1 es1 where st: "ll_step p q = Some (p1, q1)" "ll_trace k p1 q1 = Some (p', q', es1)"
    "es = (if ll_event p q = Tau then es1 else ll_event p q # es1)" by (auto split: bind_splits)
  then have "ll_good (p1, c, q1)" "ll_max q1 = ll_max q" "\<exists>cap. fifo_step cap (ll_content q) (ll_event p q) (ll_content q1)"
    using Suc.prems(1) ll_producer_step [of _ _ _ p c q] by (fastforce simp: ll_good_def)+
  then show ?case using Suc.IH [OF _ st(2)] fifo_run_step [of _ "ll_content q" "ll_event p q" "ll_content q1" es1] st(3) by auto
qed simp

lemma ll_trace_pop:
  assumes "ll_good (p, c, q)" and "ll_trace k c q = Some (c', q', es)"
  shows "ll_good (p, c', q') \<and> ll_max q' = ll_max q \<and> ll_content q' = fifo_run es (ll_content q)"
  using assms
proof (induction k arbitrary: c q es)
  case (Suc k)
  then obtain c1 q1 es1 where st: "ll_step c q = Some (c1, q1)" "ll_trace k c1 q1 = Some (c', q', es1)"
    "es = (if ll_event c q = Tau then es1 else ll_event c q # es1)" by (auto split: bind_splits)
  then have "ll_good (p, c1, q1)" "ll_max q1 = ll_max q" "\<exists>cap. fifo_step cap (ll_content q) (ll_event c q) (ll_content q1)"
    using Suc.prems(1) ll_consumer_step [of _ _ _ p c q] by (fastforce simp: ll_good_def)+
  then show ?case using Suc.IH [OF _ st(2)] fifo_run_step [of _ "ll_content q" "ll_event c q" "ll_content q1" es1] st(3) by auto
qed simp

definition ll_repr :: "nat \<Rightarrow> 'a LockFreeListQueue \<Rightarrow> 'a list \<Rightarrow> bool" where
  "ll_repr cap q vs \<longleftrightarrow> ll_max q = Suc cap \<and> ll_good (LlRest, LlRest, q) \<and> ll_content q = vs"

text \<open>Outside the calls a thread that has returned is at rest.\<close>

lemma ll_rest_push: "ll_good (p, c, q) \<Longrightarrow> ll_rest p \<Longrightarrow> ll_rest p' \<Longrightarrow> ll_good (p', c, q)"
  unfolding ll_good_def using ll_move_push [of _ _ _ p c q p'] by (fastforce elim!: ll_rest.elims)

lemma ll_rest_pop: "ll_good (p, c, q) \<Longrightarrow> ll_rest c \<Longrightarrow> ll_rest c' \<Longrightarrow> ll_good (p, c', q)"
  unfolding ll_good_def using ll_move_pop [of _ _ _ p c q c'] by (fastforce elim!: ll_rest.elims)

lemma ll_start_push: "ll_good (LlRest, c, q) \<Longrightarrow> ll_good (PuAlloc v, c, q)"
  using ll_spsc_ok [OF _ ll_spsc.call_push [of LlRest c q v]] by simp

lemma ll_start_pop: "ll_good (p, LlRest, q) \<Longrightarrow> ll_good (p, PoOut, q)"
  using ll_spsc_ok [OF _ ll_spsc.call_pop [of LlRest p q]] by simp

text \<open>How many nodes are free.\<close>

lemma ll_free:
  assumes "ll_ok xs qs tag (LlRest, LlRest, q)"
  shows "length xs + length (ll_content q) + 1 = ll_max q"
  using ll_parts_ok(3) [OF assms] ll_content_ok [OF assms] ll_okD(3) [OF assms] by (cases qs) (auto simp: ll_parts_def)

lemma Push_room:
  assumes "ll_repr cap q vs" and "length vs < cap"
  shows "\<exists>q'. LockFreeListQueue_Push v q = Some (True, q') \<and> ll_repr cap q' (vs @ [v])"
proof -
  obtain xs qs tag where ok: "ll_ok xs qs tag (LlRest, LlRest, q)" using assms(1) by (auto simp: ll_repr_def ll_good_def)
  obtain n ys where xs: "xs = n # ys" using ll_free [OF ok] assms by (cases xs) (auto simp: ll_repr_def)
  note ok' = ll_okD [OF ok] and l = ll_in_last [OF ok]
  obtain d where d: "ll_head q = (tag n, Some n)" "ll_next q n = Some d" using ok'(1) xs by (auto simp: SetDoublePointer_def)
  have n: "n < ll_max q" "last qs \<noteq> n" "n \<noteq> last qs" using ll_apart(5) [OF ok, of n] xs ok'(3) by auto
  have "\<exists>q'. ll_trace 11 (PuAlloc v) q = Some (PuDone True, q', [Enq v])"
    using d n l by (auto simp: numeral_eq_Suc IsDoublePointerNull_def InitDoublePointer_def SetDoublePointer_def ll_set_next_def ll_deref_def)
  then obtain q' where q': "ll_trace 11 (PuAlloc v) q = Some (PuDone True, q', [Enq v])" by blast
  have "ll_good (PuDone True, LlRest, q') \<and> ll_max q' = ll_max q \<and> ll_content q' = fifo_run [Enq v] (ll_content q)"
    by (rule ll_trace_push [OF ll_start_push q']) (use ok in \<open>auto simp: ll_good_def\<close>)
  then show ?thesis using q' assms(1) ll_rest_push [of "PuDone True" LlRest q' LlRest] by (auto simp: LockFreeListQueue_Push_def ll_repr_def)
qed

lemma Push_full:
  assumes "ll_repr cap q vs" and "length vs = cap"
  shows "LockFreeListQueue_Push v q = Some (False, q)"
proof -
  obtain xs qs tag where ok: "ll_ok xs qs tag (LlRest, LlRest, q)" using assms(1) by (auto simp: ll_repr_def ll_good_def)
  have "xs = []" using ll_free [OF ok] assms by (simp add: ll_repr_def)
  then show ?thesis using dchain_null [OF ll_okD(1) [OF ok]] by (simp add: LockFreeListQueue_Push_def numeral_eq_Suc)
qed

lemma Pop_none:
  assumes "ll_repr cap q []"
  shows "LockFreeListQueue_Pop q = Some (None, q)"
proof -
  obtain xs qs tag where ok: "ll_ok xs qs tag (LlRest, LlRest, q)" using assms by (auto simp: ll_repr_def ll_good_def)
  have "length qs = 1" using ll_content_ok [OF ok] assms ll_okD(3) [OF ok] by (cases qs) (auto simp: ll_repr_def)
  then show ?thesis using ll_deref_out [OF ok] by (simp add: LockFreeListQueue_Pop_def numeral_eq_Suc)
qed

lemma Pop_some:
  assumes "ll_repr cap q (v # vs)"
  shows "\<exists>q'. LockFreeListQueue_Pop q = Some (Some v, q') \<and> ll_repr cap q' vs"
proof -
  obtain xs qs tag where ok: "ll_ok xs qs tag (LlRest, LlRest, q)" using assms by (auto simp: ll_repr_def ll_good_def)
  note ok' = ll_okD [OF ok] and l = ll_in_last(1) [OF ok]
  obtain a b ys where qs: "qs = a # b # ys" "ll_data q b = v"
    using ll_content_ok [OF ok] assms ok'(3) by (cases qs; cases "tl qs") (auto simp: ll_repr_def)
  have ab: "a < ll_max q" "b < ll_max q" "last qs \<noteq> a" using ll_apart(6) [OF ok] ll_apart(4) [OF ok] qs by auto
  have out: "ll_out q = (tag a, Some a)" "ll_next q a = Some (tag b, Some b)" "ll_in q \<noteq> (tag a, Some a)"
    using ok'(2) qs l ab(3) by (auto simp: SetDoublePointer_def)
  have "\<exists>q'. ll_trace 9 PoOut q = Some (PoDone (Some v), q', [Deq v])"
    using out ab qs by (auto simp: numeral_eq_Suc IsDoublePointerNull_def InitDoublePointer_def ll_set_next_def ll_deref_def)
  then obtain q' where q': "ll_trace 9 PoOut q = Some (PoDone (Some v), q', [Deq v])" by blast
  have "ll_good (LlRest, PoDone (Some v), q') \<and> ll_max q' = ll_max q \<and> ll_content q' = fifo_run [Deq v] (ll_content q)"
    by (rule ll_trace_pop [OF ll_start_pop q']) (use ok in \<open>auto simp: ll_good_def\<close>)
  then show ?thesis using q' assms ll_rest_pop [of LlRest "PoDone (Some v)" q' LlRest] by (auto simp: LockFreeListQueue_Pop_def ll_repr_def)
qed

interpretation llc: queue_calls "ll_repr cap" LockFreeListQueue_Push LockFreeListQueue_Pop cap for cap
  by unfold_locales (fact Push_room Push_full Pop_some Pop_none)+

lemma LockFreeListQueue_init_repr: "LockFreeListQueue_init junk (Suc cap) = Some q \<Longrightarrow> ll_repr cap q []"
  using LockFreeListQueue_init_good [of junk "Suc cap" q] by (simp add: ll_repr_def)

end
