(* ===== verification/SysLogger.thy ===== *)
theory SysLogger
  imports LockFreeCalls PerThreadMemory
begin

text \<open>
  \<open>sys/Logger.{h,cc}\<close> and \<open>sys/Log.{h,cc}\<close>: the log worker. A message goes with a number and a time into a buffer of the lock-free
  pool, the buffer into the lock-free queue, and the worker thread writes the queued buffers to their streams. The calls of one
  worker follow one another. A buffer is the memory from which a C string is read; what lies outside is a fault.
\<close>

section \<open>The worker\<close>

record LogEntity =
  le_fout :: nat
  le_data :: bytes

text \<open>An output stream with the text it has taken; a stream that is good takes all.\<close>

record ostream =
  os_good :: bool
  os_text :: string

record LogWorker =
  lw_sig :: nat
  lw_stop :: nat
  lw_run :: bool
  lw_size :: nat
  lw_granularity :: nat
  lw_counter :: "64 word"
  lw_buffer :: LockFreeBuffer
  lw_mem :: "nat \<Rightarrow> LogEntity"
  lw_pendingMsg :: "nat LockFreeListQueue"

definition sizeof_LogEntity :: nat where
  "sizeof_LogEntity = 8"

text \<open>What a buffer of the pool has for \<open>data\<close>: the pool rounds to the size of a double pointer.\<close>

definition data_room :: "nat \<Rightarrow> nat" where
  "data_room granularity = AlignTo (granularity + sizeof_LogEntity) 16 - sizeof_LogEntity"

text \<open>\<open>mem\<close> is what the memory of the buffers holds.\<close>

definition LogWorker_init :: "nat \<Rightarrow> nat \<Rightarrow> (nat \<Rightarrow> LogEntity) \<Rightarrow> LogWorker option" where
  "LogWorker_init max_pending_log granularity mem = do {
     b \<leftarrow> LockFreeBuffer_init max_pending_log;
     q \<leftarrow> LockFreeListQueue_init (\<lambda>_. 0) (max_pending_log + 1);
     Some \<lparr>lw_sig = 0, lw_stop = 0, lw_run = False, lw_size = max_pending_log, lw_granularity = granularity, lw_counter = 0,
       lw_buffer = b, lw_mem = mem, lw_pendingMsg = q\<rparr>
   }"

definition StopLogging :: "LogWorker \<Rightarrow> LogWorker" where
  "StopLogging w = w\<lparr>lw_run := False, lw_sig := sem_up (lw_sig w), lw_stop := sem_up (lw_stop w)\<rparr>"

text \<open>\<open>running\<close> is \<open>IsRunning\<close>; the flag that is returned says that the thread is started.\<close>

definition RunWorker :: "bool \<Rightarrow> LogWorker \<Rightarrow> bool \<times> LogWorker" where
  "RunWorker running w = (\<not> running, w\<lparr>lw_run := True\<rparr>)"

text \<open>The destructor; the flag says whether it waits for the thread.\<close>

definition LogWorker_destroy :: "LogWorker \<Rightarrow> bool \<times> LogWorker" where
  "LogWorker_destroy w = (if lw_run w then (True, StopLogging w) else (False, w))"

text \<open>\<open>*fout << (char*)data << endl\<close> reads up to the first NUL byte.\<close>

definition read_str :: "bytes \<Rightarrow> string option" where
  "read_str data = (if CHR 0x00 \<in> set data then Some (c_str data) else None)"

definition put_line :: "nat \<Rightarrow> string \<Rightarrow> (nat \<Rightarrow> ostream) \<Rightarrow> (nat \<Rightarrow> ostream)" where
  "put_line f line s = s(f := (s f)\<lparr>os_text := os_text (s f) @ line @ [CHR 0x0A]\<rparr>)"

partial_function (option) LogWorker_Flush :: "LogWorker \<Rightarrow> (nat \<Rightarrow> ostream) \<Rightarrow> (LogWorker \<times> (nat \<Rightarrow> ostream)) option" where
  "LogWorker_Flush w s = do {
     (r, q) \<leftarrow> LockFreeListQueue_Pop (lw_pendingMsg w);
     (case r of
       None \<Rightarrow> Some (w\<lparr>lw_pendingMsg := q\<rparr>, s)
     | Some log \<Rightarrow>
         if \<not> os_good (s (le_fout (lw_mem w log))) then LogWorker_Flush (w\<lparr>lw_pendingMsg := q\<rparr>) s
         else do {
           line \<leftarrow> read_str (le_data (lw_mem w log));
           b \<leftarrow> ReleaseBuffer log (lw_buffer w);
           LogWorker_Flush (w\<lparr>lw_pendingMsg := q, lw_buffer := b\<rparr>) (put_line (le_fout (lw_mem w log)) line s)
         })
   }"

declare LogWorker_Flush.simps [code]

text \<open>One round of \<open>Run\<close> after \<open>clock_gettime\<close> has succeeded: the wait ends by a post or by the time-out; the flag says that the loop is left.\<close>

definition LogWorker_Run :: "LogWorker \<Rightarrow> (nat \<Rightarrow> ostream) \<Rightarrow> (bool \<times> LogWorker \<times> (nat \<Rightarrow> ostream)) option" where
  "LogWorker_Run w s = do {
     (w1, s1) \<leftarrow> LogWorker_Flush (w\<lparr>lw_sig := lw_sig w - 1\<rparr>) s;
     Some (0 < lw_stop w1, w1\<lparr>lw_stop := lw_stop w1 - 1\<rparr>, s1)
   }"

text \<open>With \<open>LOG_NO_PENDING\<close>, which \<open>Logger.h\<close> defines, the worker is woken after every push.\<close>

function DoLog :: "nat \<Rightarrow> nat \<Rightarrow> LogWorker \<Rightarrow> (nat \<times> LogWorker) option" where
  "DoLog retry log w =
     Option.bind (LockFreeListQueue_Push log (lw_pendingMsg w)) (\<lambda>(ret, q).
       if retry < 32
       then (if ret then Some (lw_granularity w - 1, w\<lparr>lw_pendingMsg := q, lw_sig := sem_up (lw_sig w)\<rparr>)
             else DoLog (retry + 1) log (w\<lparr>lw_pendingMsg := q, lw_sig := sem_up (lw_sig w)\<rparr>))
       else Some (0, w\<lparr>lw_pendingMsg := q\<rparr>))"
  by pat_completeness auto
termination
  by (relation "measure (\<lambda>(retry, log, w). 32 - retry)") auto

declare DoLog.simps [simp del]

text \<open>\<open>stamp\<close> is the text of \<open>strftime\<close>, which takes at most 32 bytes.\<close>

definition PatchTimeStamp :: "string \<Rightarrow> nat \<Rightarrow> LogWorker \<Rightarrow> (nat \<times> LogWorker) option" where
  "PatchTimeStamp stamp log w = do {
     let num = ''['' @ dec (unat (lw_counter w)) @ '']'';
     d1 \<leftarrow> memcpy_to (le_data (lw_mem w log)) 0 (num @ [CHR 0x00]);
     d2 \<leftarrow> (if length stamp < 32 then memcpy_to d1 (length num) (stamp @ [CHR 0x00]) else Some d1);
     Some (length num + (if length stamp < 32 then length stamp else 0),
       w\<lparr>lw_counter := lw_counter w + 1, lw_mem := (lw_mem w)(log := (lw_mem w log)\<lparr>le_data := d2\<rparr>)\<rparr>)
   }"

text \<open>The message is put behind the stamp, and the buffer is queued.\<close>

definition log_write :: "nat \<Rightarrow> string \<Rightarrow> bytes \<Rightarrow> LogWorker \<Rightarrow> (nat \<times> LogWorker) option" where
  "log_write fout stamp msg w = do {
     (r, b) \<leftarrow> AllocBuffer (lw_buffer w);
     (case r of
       None \<Rightarrow> Some (0, w\<lparr>lw_buffer := b\<rparr>)
     | Some log \<Rightarrow> do {
         (tl, w1) \<leftarrow> PatchTimeStamp stamp log (w\<lparr>lw_buffer := b, lw_mem := (lw_mem w)(log := (lw_mem w log)\<lparr>le_fout := fout\<rparr>)\<rparr>);
         d \<leftarrow> memcpy_to (le_data (lw_mem w1 log)) tl msg;
         DoLog 0 log (w1\<lparr>lw_mem := (lw_mem w1)(log := (lw_mem w1 log)\<lparr>le_data := d\<rparr>)\<rparr>)
       })
   }"

text \<open>\<open>strncpy\<close> pads with NUL bytes and does not end a text of full length; \<open>vsnprintf\<close> always ends its text.\<close>

definition strncpy_bytes :: "nat \<Rightarrow> string \<Rightarrow> bytes" where
  "strncpy_bytes n s = take n (c_str s) @ replicate (n - length (c_str s)) (CHR 0x00)"

definition vsnprintf_bytes :: "nat \<Rightarrow> string \<Rightarrow> bytes" where
  "vsnprintf_bytes n s = (if n = 0 then [] else take (n - 1) s @ [CHR 0x00])"

definition LogWorker_Log :: "nat \<Rightarrow> string \<Rightarrow> string \<Rightarrow> LogWorker \<Rightarrow> (nat \<times> LogWorker) option" where
  "LogWorker_Log fout stamp msg w =
     (if msg = [] then Some (0, w)
      else log_write fout stamp (strncpy_bytes (if length msg \<ge> lw_granularity w then lw_granularity w - 1 else length msg) msg) w)"

text \<open>\<open>body\<close> is what the format and its arguments make.\<close>

definition LogWorker_Log_format :: "nat \<Rightarrow> string \<Rightarrow> string \<Rightarrow> LogWorker \<Rightarrow> (nat \<times> LogWorker) option" where
  "LogWorker_Log_format fout stamp body w = log_write fout stamp (vsnprintf_bytes (lw_granularity w - 1) body) w"

section \<open>Loggers and levels\<close>

text \<open>The file of a logger: \<open>snprintf\<close> into 256 bytes.\<close>

definition Logger_file :: "string \<Rightarrow> nat \<Rightarrow> string" where
  "Logger_file f pid = take 255 (f @ ''.'' @ dec pid)"

definition slog_files :: "string list" where
  "slog_files = [''slog_all.log'', ''slog_verb.log'', ''slog_info.log'', ''slog_debug.log'', ''slog_warn.log'', ''slog_error.log'', ''slog_fatal.log'']"

text \<open>\<open>slog\<close>: the file whose logger takes the message, if the level is not below the threshold; an index outside the table is a fault.\<close>

definition slog_target :: "int \<Rightarrow> int \<Rightarrow> string option option" where
  "slog_target threshold level =
     (if level < 0 \<or> level < threshold then Some None
      else if nat level < length slog_files then Some (Some (slog_files ! nat level)) else None)"

section \<open>The specification\<close>

text \<open>The messages that wait, as a stream and a line each; how many messages were accepted; the stops that were asked for; the streams. The number of a message is
  the count modulo the width of the counter.\<close>

type_synonym log_state = "(nat \<times> string) list \<times> nat \<times> nat \<times> (nat \<Rightarrow> ostream)"

datatype log_op = OpLog nat string string | OpFlush | OpStop | OpRun

fun emit :: "(nat \<times> string) list \<Rightarrow> (nat \<Rightarrow> ostream) \<Rightarrow> (nat \<Rightarrow> ostream)" where
  "emit [] s = s"
| "emit ((f, line) # ms) s = emit ms (put_line f line s)"

fun log_spec :: "nat \<Rightarrow> nat \<Rightarrow> log_op \<Rightarrow> log_state \<Rightarrow> nat \<times> log_state" where
  "log_spec room g (OpLog f stamp body) (pend, cnt, stops, s) =
     (if length pend < room then (g - 1, pend @ [(f, ''['' @ dec (cnt mod 2 ^ 64) @ '']'' @ stamp @ take (g - 2) body)], cnt + 1, stops, s)
      else (0, pend, cnt, stops, s))"
| "log_spec room g OpFlush (pend, cnt, stops, s) = (0, [], cnt, stops, emit pend s)"
| "log_spec room g OpStop (pend, cnt, stops, s) = (0, pend, cnt, min SEM_VALUE_MAX (stops + 1), s)"
| "log_spec room g OpRun (pend, cnt, stops, s) = ((if 0 < stops then 1 else 0), [], cnt, stops - 1, emit pend s)"

fun log_specs :: "nat \<Rightarrow> nat \<Rightarrow> log_op list \<Rightarrow> log_state \<Rightarrow> nat list \<times> log_state" where
  "log_specs room g [] st = ([], st)"
| "log_specs room g (x # xs) st = (case log_spec room g x st of (r, st1) \<Rightarrow> case log_specs room g xs st1 of (rs, st2) \<Rightarrow> (r # rs, st2))"

text \<open>The same calls on the worker.\<close>

fun log_impl :: "log_op \<Rightarrow> LogWorker \<times> (nat \<Rightarrow> ostream) \<Rightarrow> (nat \<times> LogWorker \<times> (nat \<Rightarrow> ostream)) option" where
  "log_impl (OpLog f stamp body) (w, s) = map_option (\<lambda>(r, w'). (r, w', s)) (LogWorker_Log_format f stamp body w)"
| "log_impl OpFlush (w, s) = map_option (Pair 0) (LogWorker_Flush w s)"
| "log_impl OpStop (w, s) = Some (0, StopLogging w, s)"
| "log_impl OpRun (w, s) = map_option (\<lambda>(b, x). ((if b then 1 else 0), x)) (LogWorker_Run w s)"

fun log_impls :: "log_op list \<Rightarrow> LogWorker \<times> (nat \<Rightarrow> ostream) \<Rightarrow> (nat list \<times> LogWorker \<times> (nat \<Rightarrow> ostream)) option" where
  "log_impls [] x = Some ([], x)"
| "log_impls (a # as) x = do { (r, y) \<leftarrow> log_impl a x; (rs, z) \<leftarrow> log_impls as y; Some (r # rs, z) }"

text \<open>The message and its stamp fit the buffer, with up to twenty digits for the number.\<close>

fun op_fits :: "nat \<Rightarrow> log_op \<Rightarrow> bool" where
  "op_fits g (OpLog f stamp body) \<longleftrightarrow> length stamp < 32 \<and> CHR 0x00 \<notin> set stamp \<and> CHR 0x00 \<notin> set body \<and>
     length stamp + length body + 23 \<le> data_room g"
| "op_fits g _ \<longleftrightarrow> True"

section \<open>The refinement\<close>

definition lw_line :: "LogEntity \<Rightarrow> nat \<times> string" where
  "lw_line e = (le_fout e, c_str (le_data e))"

text \<open>\<open>ns\<close> are the queued buffers; there are as many places in the queue as there are buffers.\<close>

definition lw_repr :: "nat \<Rightarrow> nat \<Rightarrow> nat list \<Rightarrow> nat list \<Rightarrow> LogWorker \<Rightarrow> bool" where
  "lw_repr room g free ns w \<longleftrightarrow> lb_repr room (lw_buffer w) free (rev ns) \<and> ll_repr room (lw_pendingMsg w) ns \<and> lw_granularity w = g \<and>
     (\<forall>n. length (le_data (lw_mem w n)) = data_room g) \<and> (\<forall>n \<in> set ns. CHR 0x00 \<in> set (le_data (lw_mem w n)))"

lemma lw_reprD:
  assumes "lw_repr room g free ns w"
  shows "lb_repr room (lw_buffer w) free (rev ns)" and "ll_repr room (lw_pendingMsg w) ns" and "lw_granularity w = g"
    and "length (le_data (lw_mem w n)) = data_room g" and "n \<in> set ns \<Longrightarrow> CHR 0x00 \<in> set (le_data (lw_mem w n))"
    and "distinct ns" and "length free + length ns = room"
proof -
  show "lb_repr room (lw_buffer w) free (rev ns)" "ll_repr room (lw_pendingMsg w) ns" "lw_granularity w = g"
    "length (le_data (lw_mem w n)) = data_room g" "n \<in> set ns \<Longrightarrow> CHR 0x00 \<in> set (le_data (lw_mem w n))"
    using assms by (auto simp: lw_repr_def)
  have lb: "lb_repr room (lw_buffer w) free (rev ns)" using assms by (simp add: lw_repr_def)
  show "distinct ns" using lb_repr_set(1) [OF lb] by simp
  have "mset (free @ rev ns) = mset [0..<room]" using lb by (simp add: lb_repr_def)
  from mset_eq_length [OF this] show "length free + length ns = room" by simp
qed

lemma LogWorker_init_repr:
  assumes "LogWorker_init room g mem = Some w" and "\<forall>n. length (le_data (mem n)) = data_room g"
  shows "lw_repr room g [0..<room] [] w" and "lw_counter w = 0" and "lw_stop w = 0"
proof -
  obtain b q where "LockFreeBuffer_init room = Some b" "LockFreeListQueue_init (\<lambda>_. 0) (Suc room) = Some q"
    "w = \<lparr>lw_sig = 0, lw_stop = 0, lw_run = False, lw_size = room, lw_granularity = g, lw_counter = 0,
       lw_buffer = b, lw_mem = mem, lw_pendingMsg = q\<rparr>"
    using assms(1) by (auto simp: LogWorker_init_def split: bind_splits)
  then show "lw_repr room g [0..<room] [] w" "lw_counter w = 0" "lw_stop w = 0"
    using LockFreeBuffer_init_repr LockFreeListQueue_init_repr assms(2) by (auto simp: lw_repr_def)
qed

lemma put_line_good: "\<forall>f. os_good (s f) \<Longrightarrow> \<forall>f. os_good (put_line f' line s f)"
  by (simp add: put_line_def)

lemma emit_good: "\<forall>f. os_good (s f) \<Longrightarrow> \<forall>f. os_good (emit ms s f)"
  by (induction ms s rule: emit.induct) (simp_all add: put_line_def)

text \<open>\<open>Flush\<close> returns, has written every queued line in order, and has given every buffer back.\<close>

lemma Flush_ok:
  assumes "lw_repr room g free ns w" and "\<forall>f. os_good (s f)"
  shows "\<exists>w' free'. LogWorker_Flush w s = Some (w', emit (map (\<lambda>n. lw_line (lw_mem w n)) ns) s) \<and> lw_repr room g free' [] w' \<and>
     lw_counter w' = lw_counter w \<and> lw_stop w' = lw_stop w"
  using assms
proof (induction ns arbitrary: w s free)
  case Nil
  then show ?case using llc.pop_none [OF lw_reprD(2) [OF Nil(1)]]
    by (subst LogWorker_Flush.simps) (auto simp: lw_repr_def)
next
  case (Cons n ns)
  note r = lw_reprD [OF Cons.prems(1)]
  obtain q where q: "LockFreeListQueue_Pop (lw_pendingMsg w) = Some (Some n, q)" "ll_repr room q ns" using llc.pop_some [OF r(2)] by blast
  obtain b where b: "ReleaseBuffer n (lw_buffer w) = Some b" "lb_repr room b (n # free) (remove1 n (rev (n # ns)))"
    using lbc.release_ok [OF r(1), of n] by auto
  have "remove1 n (rev (n # ns)) = rev ns" using r(6) by (simp add: remove1_append)
  then have "lw_repr room g (n # free) ns (w\<lparr>lw_pendingMsg := q, lw_buffer := b\<rparr>)" using Cons.prems(1) q(2) b(2) by (simp add: lw_repr_def)
  from Cons.IH [OF this put_line_good [OF Cons.prems(2)], of "le_fout (lw_mem w n)" "c_str (le_data (lw_mem w n))"]
  show ?case using q(1) b(1) r(5) [of n] Cons.prems(2) by (subst LogWorker_Flush.simps) (simp add: read_str_def lw_line_def)
qed

lemma DoLog_ok:
  assumes "LockFreeListQueue_Push log (lw_pendingMsg w) = Some (True, q)"
  shows "DoLog 0 log w = Some (lw_granularity w - 1, w\<lparr>lw_pendingMsg := q, lw_sig := sem_up (lw_sig w)\<rparr>)"
  using assms by (subst DoLog.simps) simp

text \<open>The writes into the buffer.\<close>

lemma c_str_prefix: "CHR 0x00 \<notin> set xs \<Longrightarrow> c_str (xs @ CHR 0x00 # ys) = xs"
  unfolding c_str_def by (induction xs) auto

lemma Log_ok:
  assumes "lw_repr room g free ns w" and "op_fits g (OpLog f stamp body)" and "2 \<le> g" and "free \<noteq> []"
  shows "\<exists>w' free' log. LogWorker_Log_format f stamp body w = Some (g - 1, w') \<and> lw_repr room g free' (ns @ [log]) w' \<and>
     lw_counter w' = lw_counter w + 1 \<and> lw_stop w' = lw_stop w \<and> (\<forall>n \<in> set ns. lw_mem w' n = lw_mem w n) \<and>
     lw_line (lw_mem w' log) = (f, ''['' @ dec (unat (lw_counter w)) @ '']'' @ stamp @ take (g - 2) body)"
proof -
  note r = lw_reprD [OF assms(1)]
  obtain log fr where free: "free = log # fr" using assms(4) by (cases free) auto
  obtain b where b: "AllocBuffer (lw_buffer w) = Some (Some log, b)" "lb_repr room b fr (rev (ns @ [log]))"
    using lbc.alloc_some [OF r(1) [unfolded free]] by auto
  obtain q where q: "LockFreeListQueue_Push log (lw_pendingMsg w) = Some (True, q)" "ll_repr room q (ns @ [log])"
    using llc.push_room [OF r(2), of log] r(7) free by auto
  have new: "log \<notin> set ns" using lb_repr_set(1) [OF r(1)] free by auto
  define num where "num = ''['' @ dec (unat (lw_counter w)) @ '']''"
  define msg where "msg = take (g - 2) body @ [CHR 0x00]"
  define d where "d = le_data (lw_mem w log)"
  have "unat (lw_counter w) < 10 ^ Suc 19" using unsigned_less [of "lw_counter w", where ?'a = nat] by simp
  then have "length (dec (unat (lw_counter w))) \<le> 20" using length_dec by fastforce
  then have fit: "length num + length stamp + length msg \<le> length d" using assms(2) r(4) by (auto simp: num_def msg_def d_def)
  have msg: "vsnprintf_bytes (g - 1) body = msg" using assms(3) by (simp add: vsnprintf_bytes_def msg_def numeral_2_eq_2)
  define d1 where "d1 = (num @ [CHR 0x00]) @ drop (length num + 1) d"
  define d2 where "d2 = num @ (stamp @ [CHR 0x00]) @ drop (length num + length stamp + 1) d1"
  define d3 where "d3 = num @ stamp @ msg @ drop (length num + length stamp + length msg) d2"
  have len: "1 \<le> length msg" by (simp add: msg_def)
  have w1: "memcpy_to d 0 (num @ [CHR 0x00]) = Some d1" using fit len by (simp add: memcpy_to_def d1_def)
  have w2: "memcpy_to d1 (length num) (stamp @ [CHR 0x00]) = Some d2" using fit len by (simp add: memcpy_to_def d1_def d2_def)
  have w3: "memcpy_to d2 (length num + length stamp) msg = Some d3" using fit len by (simp add: memcpy_to_def d1_def d2_def d3_def)
  let ?w = "w\<lparr>lw_buffer := b, lw_counter := lw_counter w + 1, lw_mem := (lw_mem w)(log := (lw_mem w log)\<lparr>le_fout := f, le_data := d3\<rparr>),
      lw_pendingMsg := q, lw_sig := sem_up (lw_sig w)\<rparr>"
  have "LogWorker_Log_format f stamp body w = Some (g - 1, ?w)"
    using b(1) q(1) w1 w2 w3 assms(2) r(3) DoLog_ok
    by (simp add: LogWorker_Log_format_def log_write_def PatchTimeStamp_def Let_def num_def msg [simplified] flip: d_def)
  moreover have "c_str d3 = num @ stamp @ take (g - 2) body"
  proof -
    have "CHR 0x00 \<notin> set (num @ stamp @ take (g - 2) body)"
      using assms(2) dec_no_nul by (auto simp: num_def dest: in_set_takeD)
    from c_str_prefix [OF this] show ?thesis by (simp add: d3_def msg_def)
  qed
  moreover have "length d3 = data_room g" using fit r(4) [of log] len by (simp add: d3_def d2_def d1_def flip: d_def)
  moreover have "CHR 0x00 \<in> set d3" by (simp add: d3_def msg_def)
  ultimately show ?thesis using assms(1) b(2) q(2) new r(3)
    by (intro exI [of _ ?w] exI [of _ fr] exI [of _ log]) (auto simp: lw_repr_def lw_line_def num_def)
qed

lemma Log_none:
  assumes "lw_repr room g [] ns w"
  shows "LogWorker_Log_format f stamp body w = Some (0, w)"
  using lbc.alloc_none [OF lw_reprD(1) [OF assms]] by (simp add: LogWorker_Log_format_def log_write_def)

definition lw_abs :: "nat \<Rightarrow> nat \<Rightarrow> LogWorker \<Rightarrow> (nat \<times> string) list \<Rightarrow> nat \<Rightarrow> nat \<Rightarrow> bool" where
  "lw_abs room g w pend cnt stops \<longleftrightarrow> (\<exists>free ns. lw_repr room g free ns w \<and> pend = map (\<lambda>n. lw_line (lw_mem w n)) ns) \<and>
     lw_counter w = word_of_nat cnt \<and> lw_stop w = stops \<and> stops \<le> SEM_VALUE_MAX"

lemma log_impl_ok:
  assumes "lw_abs room g w pend cnt stops" and "\<forall>f. os_good (s f)" and "op_fits g x" and "2 \<le> g"
    and "log_spec room g x (pend, cnt, stops, s) = (r, pend', cnt', stops', s')"
  shows "\<exists>w'. log_impl x (w, s) = Some (r, w', s') \<and> lw_abs room g w' pend' cnt' stops' \<and> (\<forall>f. os_good (s' f))"
proof -
  obtain free ns where r: "lw_repr room g free ns w" and pend: "pend = map (\<lambda>n. lw_line (lw_mem w n)) ns"
    and cs: "lw_counter w = word_of_nat cnt" "lw_stop w = stops" "stops \<le> SEM_VALUE_MAX" using assms(1) by (auto simp: lw_abs_def)
  show ?thesis
  proof (cases x)
    case (OpLog f stamp body)
    show ?thesis
    proof (cases "free = []")
      case True
      then have "length ns = room" using lw_reprD(7) [OF r] by simp
      then show ?thesis using OpLog assms(1,2,5) pend Log_none [of room g ns w] r True by auto
    next
      case False
      then have "length ns < room" using lw_reprD(7) [OF r] by (cases free) auto
      moreover obtain w' free' log where w': "LogWorker_Log_format f stamp body w = Some (g - 1, w')" "lw_repr room g free' (ns @ [log]) w'"
        "lw_counter w' = word_of_nat (cnt + 1)" "lw_stop w' = stops" "\<forall>n \<in> set ns. lw_mem w' n = lw_mem w n"
        "lw_line (lw_mem w' log) = (f, ''['' @ dec (cnt mod 2 ^ 64) @ '']'' @ stamp @ take (g - 2) body)"
        using Log_ok [OF r _ assms(4) False, of f stamp body] assms(3) OpLog cs by (auto simp: unat_of_nat)
      moreover have "map (\<lambda>n. lw_line (lw_mem w' n)) (ns @ [log]) = pend @ [(f, ''['' @ dec (cnt mod 2 ^ 64) @ '']'' @ stamp @ take (g - 2) body)]"
        using w'(5,6) pend by simp
      ultimately show ?thesis using OpLog assms(2,5) pend cs(3) by (fastforce simp: lw_abs_def)
    qed
  next
    case OpFlush
    then show ?thesis using Flush_ok [OF r assms(2)] emit_good [OF assms(2)] assms(5) pend cs by (fastforce simp: lw_abs_def)
  next
    case OpStop
    then show ?thesis using r assms(2,5) pend cs by (auto simp: lw_abs_def lw_repr_def StopLogging_def sem_up_def)
  next
    case OpRun
    have "lw_repr room g free ns (w\<lparr>lw_sig := lw_sig w - 1\<rparr>)" using r by (simp add: lw_repr_def)
    from Flush_ok [OF this assms(2)] obtain w' free' where w': "LogWorker_Flush (w\<lparr>lw_sig := lw_sig w - 1\<rparr>) s = Some (w', emit pend s)"
      "lw_repr room g free' [] w'" "lw_counter w' = word_of_nat cnt" "lw_stop w' = stops" using pend cs by auto
    have "lw_repr room g free' [] (w'\<lparr>lw_stop := stops - 1\<rparr>)" using w'(2) by (simp add: lw_repr_def)
    then have "lw_abs room g (w'\<lparr>lw_stop := stops - 1\<rparr>) [] cnt (stops - 1)" using w'(3) cs(3) by (auto simp: lw_abs_def)
    then show ?thesis using OpRun w' emit_good [OF assms(2)] assms(5) by (auto simp: LogWorker_Run_def)
  qed
qed

lemma log_impls_ok:
  assumes "lw_abs room g w pend cnt stops" and "\<forall>f. os_good (s f)" and "\<forall>x \<in> set xs. op_fits g x" and "2 \<le> g"
    and "log_specs room g xs (pend, cnt, stops, s) = (rs, pend', cnt', stops', s')"
  shows "\<exists>w'. log_impls xs (w, s) = Some (rs, w', s')"
  using assms
proof (induction xs arbitrary: w pend cnt stops s rs)
  case (Cons x xs)
  obtain r p1 c1 t1 s1 where one: "log_spec room g x (pend, cnt, stops, s) = (r, p1, c1, t1, s1)" by (metis prod_cases4)
  obtain rs1 where more: "log_specs room g xs (p1, c1, t1, s1) = (rs1, pend', cnt', stops', s')" "rs = r # rs1"
    using Cons.prems(5) one by (auto split: prod.splits)
  obtain w1 where w1: "log_impl x (w, s) = Some (r, w1, s1)" "lw_abs room g w1 p1 c1 t1" "\<forall>f. os_good (s1 f)"
    using log_impl_ok [OF Cons.prems(1,2) _ Cons.prems(4) one] Cons.prems(3) by auto
  have "\<exists>w'. log_impls xs (w1, s1) = Some (rs1, w', s')"
    by (rule Cons.IH [OF w1(2,3) _ Cons.prems(4) more(1)]) (use Cons.prems(3) in auto)
  then show ?case using w1(1) more(2) by auto
qed auto

text \<open>
  C26. The log worker over the lock-free pool and queue does what its specification says. For any sequence of formatted log calls that fit
  a buffer, flushes, rounds of the worker thread and stops, one after another and on good streams: no access is out of bounds and every loop ends; a call is accepted
  exactly when fewer messages wait than there are buffers, and then never for a full queue refused; a
  flush, and a round of the thread, writes the waiting lines, stamped and numbered modulo 2 to the 64, in order to their streams; and each stop, of which the
  semaphore keeps as many as it can count, makes one round the last one.
\<close>

theorem log_worker_refines:
  assumes "LogWorker_init room g mem = Some w" and "\<forall>n. length (le_data (mem n)) = data_room g" and "2 \<le> g" and "\<forall>f. os_good (s f)"
    and "\<forall>x \<in> set xs. op_fits g x" and "log_specs room g xs ([], 0, 0, s) = (rs, pend, cnt, stops, s')"
  shows "\<exists>w'. log_impls xs (w, s) = Some (rs, w', s')"
proof (rule log_impls_ok [OF _ assms(4,5,3,6)])
  show "lw_abs room g w [] 0 0" using LogWorker_init_repr [OF assms(1,2)] by (auto simp: lw_abs_def)
qed

lemma LogWorker_init_some: "0 < room \<Longrightarrow> LogWorker_init room g mem = Some (the (LogWorker_init room g mem))"
proof -
  assume room: "0 < room"
  have "0 \<in> dom (InitList_loop room 0 Map.empty)" by (simp add: InitList_loop_dom)
  then show ?thesis using room by (auto simp: LogWorker_init_def LockFreeBuffer_init_def LockFreeListQueue_init_def Let_def)
qed

definition sample_log_ops :: "log_op list" where
  "sample_log_ops = [OpLog 0 ''t'' ''hello'', OpLog 1 ''t'' ''world'', OpLog 0 ''t'' ''lost'', OpStop, OpRun]"

definition sample_streams :: "nat \<Rightarrow> ostream" where
  "sample_streams = (\<lambda>_. \<lparr>os_good = True, os_text = []\<rparr>)"

definition sample_mem :: "nat \<Rightarrow> nat \<Rightarrow> LogEntity" where
  "sample_mem g = (\<lambda>_. \<lparr>le_fout = 0, le_data = replicate (data_room g) (CHR 0x00)\<rparr>)"

theorem log_worker_refines_witness:
  "\<exists>w'. log_impls sample_log_ops (the (LogWorker_init 2 32 (sample_mem 32)), sample_streams) =
     Some ([31, 31, 0, 0, 1], w', emit [(0, ''[0]thello''), (1, ''[1]tworld'')] sample_streams)"
proof -
  note i = LogWorker_init_some [of 2 32 "sample_mem 32"]
  have "log_specs 2 32 sample_log_ops ([], 0, 0, sample_streams) =
      ([31, 31, 0, 0, 1], [], 2, 0, emit [(0, ''[0]thello''), (1, ''[1]tworld'')] sample_streams)"
    by (simp add: sample_log_ops_def dec.simps SEM_VALUE_MAX_def)
  from log_worker_refines [OF i _ _ _ _ this] show ?thesis
    by (simp add: sample_mem_def sample_streams_def sample_log_ops_def data_room_def AlignTo_def sizeof_LogEntity_def)
qed

section \<open>Where the worker goes wrong\<close>

text \<open>
  A message of a \<open>string\<close> shows the end of an older one. \<open>strncpy\<close> puts no NUL byte behind the message and the buffers are not
  cleared, so the line goes on with what a longer message left in the buffer.
\<close>

theorem log_shows_old_text:
  "(case LogWorker_Log 0 ''t'' ''secret'' (the (LogWorker_init 1 32 (sample_mem 32))) of None \<Rightarrow> False | Some (r1, w1) \<Rightarrow>
     (case LogWorker_Flush w1 sample_streams of None \<Rightarrow> False | Some (w2, s1) \<Rightarrow>
     (case LogWorker_Log 0 ''t'' ''x'' w2 of None \<Rightarrow> False | Some (r2, w3) \<Rightarrow>
     (case LogWorker_Flush w3 s1 of None \<Rightarrow> False | Some (w4, s2) \<Rightarrow>
       r1 = 31 \<and> r2 = 31 \<and> os_text (s2 0) = ''[0]tsecret'' @ [CHR 0x0A] @ ''[1]txecret'' @ [CHR 0x0A]))))"
  by code_simp

text \<open>A stream that has failed: its buffers are not given back, and no logger of the worker gets one any more.\<close>

lemma failed_stream_starves:
  "(case LogWorker_Log_format 0 ''t'' ''a'' (the (LogWorker_init 1 32 (sample_mem 32))) of None \<Rightarrow> False | Some (r1, w1) \<Rightarrow>
     (case LogWorker_Flush w1 (sample_streams(0 := \<lparr>os_good = False, os_text = []\<rparr>)) of None \<Rightarrow> False | Some (w2, s1) \<Rightarrow>
     (case LogWorker_Log_format 1 ''t'' ''b'' w2 of None \<Rightarrow> False | Some (r2, w3) \<Rightarrow> r1 = 31 \<and> r2 = 0)))"
  by code_simp

definition LOG_GRANULARITY :: nat where
  "LOG_GRANULARITY = 256"

text \<open>
  A long message overruns its buffer. \<open>vsnprintf\<close> is given the size of a whole buffer although number and time lie before it: with the
  granularity of the program and a time of 19 characters, a text of 242 characters is written beyond the end.
\<close>

theorem long_message_overruns:
  assumes "LogWorker_init room LOG_GRANULARITY mem = Some w" and "\<forall>n. length (le_data (mem n)) = data_room LOG_GRANULARITY"
    and "length stamp = 19" and "242 \<le> length body"
  shows "LogWorker_Log_format f stamp body w = None"
proof -
  note r = LogWorker_init_repr [OF assms(1,2)]
  have "room \<noteq> 0" using assms(1) by (cases room) (auto simp: LogWorker_init_def LockFreeBuffer_init_def)
  then have "[0..<room] = 0 # [1..<room]" by (simp add: upt_conv_Cons)
  then obtain b where b: "AllocBuffer (lw_buffer w) = Some (Some 0, b)" using lbc.alloc_some lw_reprD(1) [OF r(1)] by metis
  have len: "length (le_data (lw_mem w 0)) = 264"
    using lw_reprD(4) [OF r(1)] by (simp add: data_room_def AlignTo_def sizeof_LogEntity_def LOG_GRANULARITY_def)
  show ?thesis using b len assms(3,4) r(2) lw_reprD(3) [OF r(1)]
    by (simp add: LogWorker_Log_format_def log_write_def PatchTimeStamp_def Let_def memcpy_to_def dec.simps vsnprintf_bytes_def LOG_GRANULARITY_def min_def)
qed

theorem long_message_overruns_witness:
  "LogWorker_Log_format 0 (replicate 19 (CHR ''t'')) (replicate 242 (CHR ''x'')) (the (LogWorker_init 64 LOG_GRANULARITY (sample_mem LOG_GRANULARITY))) = None"
proof (rule long_message_overruns)
  show "LogWorker_init 64 LOG_GRANULARITY (sample_mem LOG_GRANULARITY) = Some (the (LogWorker_init 64 LOG_GRANULARITY (sample_mem LOG_GRANULARITY)))"
    by (rule LogWorker_init_some) simp
qed (simp_all add: sample_mem_def)

end
