(* ===== verification/SysLogFiles.thy ===== *)
theory SysLogFiles
  imports SysLogger
begin

text \<open>
  The class \<open>Logger\<close> of \<open>sys/src/Logger.cc\<close> and the functions of \<open>sys/Log.{h,cc}\<close> over the one log worker. A logger owns its output stream and deletes it;
  the messages that wait in the worker point to it. Streams have addresses, and a stream that was deleted is \<open>None\<close>: to write to it is a fault. A stream that was
  opened on a file writes to that file; files are opened for appending, so that two streams on one file would both add to it.
\<close>

section \<open>Loggers\<close>

text \<open>A stream with the path of the file it is open on, if any; the open streams by their addresses, and what the files hold.\<close>

record stream = ostream +
  os_path :: "string option"

record streams =
  st_open :: "nat \<rightharpoonup> stream"
  st_disk :: "string \<Rightarrow> string"

text \<open>\<open>*fout << line << endl\<close> on the good stream \<open>fout\<close> at address \<open>f\<close>: \<open>endl\<close> flushes, so that the line is in the file at once.\<close>

definition stream_line :: "nat \<Rightarrow> stream \<Rightarrow> string \<Rightarrow> streams \<Rightarrow> streams" where
  "stream_line f fout line S =
     S\<lparr>st_open := (st_open S)(f \<mapsto> fout\<lparr>os_text := os_text fout @ line @ [CHR 0x0A]\<rparr>),
       st_disk := (case os_path fout of None \<Rightarrow> st_disk S | Some p \<Rightarrow> (st_disk S)(p := st_disk S p @ line @ [CHR 0x0A]))\<rparr>"

text \<open>The address 0 is the null pointer.\<close>

record sys_Logger =
  lg_fout :: nat

text \<open>\<open>new\<close> returns \<open>addr\<close>; \<open>good\<close> says which files can be opened. The stream is opened on the file in append mode, which leaves the
  file as it is. The stream of a constructor that throws stays behind.\<close>

definition sys_Logger_init :: "(string \<Rightarrow> bool) \<Rightarrow> nat \<Rightarrow> nat \<Rightarrow> string \<Rightarrow> streams \<Rightarrow> (string + sys_Logger) \<times> streams" where
  "sys_Logger_init good pid addr path S =
     (let file = Logger_file path pid; ok = good file;
          fout = \<lparr>os_good = ok, os_text = [], os_path = (if ok then Some file else None)\<rparr>;
          S' = S\<lparr>st_open := (st_open S)(addr \<mapsto> fout)\<rparr> in
      if \<not> ok then (Inl ''can not open file'', S') else (Inr \<lparr>lg_fout = addr\<rparr>, S'))"

definition delete_stream :: "nat \<Rightarrow> streams \<Rightarrow> streams option" where
  "delete_stream f S = (if f = 0 then Some S else if st_open S f = None then None else Some (S\<lparr>st_open := (st_open S)(f := None)\<rparr>))"

definition sys_Logger_destroy :: "sys_Logger \<Rightarrow> streams \<Rightarrow> streams option" where
  "sys_Logger_destroy lg S = delete_stream (lg_fout lg) S"

definition SetOutStream :: "nat \<Rightarrow> sys_Logger \<Rightarrow> streams \<Rightarrow> (sys_Logger \<times> streams) option" where
  "SetOutStream fout lg S = map_option (\<lambda>S'. (lg\<lparr>lg_fout := fout\<rparr>, S')) (delete_stream (lg_fout lg) S)"

definition sys_Logger_Log :: "sys_Logger \<Rightarrow> string \<Rightarrow> string \<Rightarrow> LogWorker \<Rightarrow> (nat \<times> LogWorker) option" where
  "sys_Logger_Log lg stamp msg w = LogWorker_Log (lg_fout lg) stamp msg w"

definition sys_Logger_Log_format :: "sys_Logger \<Rightarrow> string \<Rightarrow> string \<Rightarrow> LogWorker \<Rightarrow> (nat \<times> LogWorker) option" where
  "sys_Logger_Log_format lg stamp body w = LogWorker_Log_format (lg_fout lg) stamp body w"

text \<open>\<open>Flush\<close> of the worker, on streams that may be gone.\<close>

partial_function (option) sys_Logger_Flush :: "LogWorker \<Rightarrow> streams \<Rightarrow> (LogWorker \<times> streams) option" where
  "sys_Logger_Flush w S = do {
     (r, q) \<leftarrow> LockFreeListQueue_Pop (lw_pendingMsg w);
     (case r of
       None \<Rightarrow> Some (w\<lparr>lw_pendingMsg := q\<rparr>, S)
     | Some log \<Rightarrow> do {
         fout \<leftarrow> st_open S (le_fout (lw_mem w log));
         if \<not> os_good fout then sys_Logger_Flush (w\<lparr>lw_pendingMsg := q\<rparr>) S
         else do {
           line \<leftarrow> read_str (le_data (lw_mem w log));
           b \<leftarrow> ReleaseBuffer log (lw_buffer w);
           sys_Logger_Flush (w\<lparr>lw_pendingMsg := q, lw_buffer := b\<rparr>) (stream_line (le_fout (lw_mem w log)) fout line S)
         }
       })
   }"

declare sys_Logger_Flush.simps [code]

section \<open>The global functions\<close>

text \<open>The level, the loggers of the functions \<open>slog_all\<close> to \<open>slog_fatal\<close> by the level they serve, which are made when they are first used, the streams, the worker,
  and the next address.\<close>

record sys_log =
  sl_level :: int
  sl_loggers :: "nat \<rightharpoonup> sys_Logger"
  sl_streams :: streams
  sl_worker :: LogWorker
  sl_next :: nat

definition sys_SetLogLevel :: "int \<Rightarrow> sys_log \<Rightarrow> sys_log" where
  "sys_SetLogLevel level x = x\<lparr>sl_level := level\<rparr>"

definition slog_level :: "sys_log \<Rightarrow> int" where
  "slog_level x = sl_level x"

definition slog_logger :: "(string \<Rightarrow> bool) \<Rightarrow> nat \<Rightarrow> nat \<Rightarrow> string \<Rightarrow> sys_log \<Rightarrow> (string + sys_Logger) \<times> sys_log" where
  "slog_logger good pid i path x = (case sl_loggers x i of
     Some lg \<Rightarrow> (Inr lg, x)
   | None \<Rightarrow> (case sys_Logger_init good pid (sl_next x) path (sl_streams x) of
       (Inl e, S) \<Rightarrow> (Inl e, x\<lparr>sl_streams := S, sl_next := sl_next x + 1\<rparr>)
     | (Inr lg, S) \<Rightarrow> (Inr lg, x\<lparr>sl_loggers := (sl_loggers x)(i \<mapsto> lg), sl_streams := S, sl_next := sl_next x + 1\<rparr>)))"

text \<open>\<open>Inl\<close> is the exception of a logger that cannot be made.\<close>

definition sys_slog :: "(string \<Rightarrow> bool) \<Rightarrow> nat \<Rightarrow> string \<Rightarrow> int \<Rightarrow> string \<Rightarrow> sys_log \<Rightarrow> ((string + unit) \<times> sys_log) option" where
  "sys_slog good pid stamp level body x = do {
     target \<leftarrow> slog_target (slog_level x) level;
     (case target of
       None \<Rightarrow> Some (Inr (), x)
     | Some path \<Rightarrow> (case slog_logger good pid (nat level) path x of
         (Inl e, x1) \<Rightarrow> Some (Inl e, x1)
       | (Inr lg, x1) \<Rightarrow> map_option (\<lambda>(r, w). (Inr (), x1\<lparr>sl_worker := w\<rparr>)) (sys_Logger_Log_format lg stamp body (sl_worker x1))))
   }"

fun sys_slogs :: "(string \<Rightarrow> bool) \<Rightarrow> nat \<Rightarrow> (string \<times> int \<times> string) list \<Rightarrow> sys_log \<Rightarrow> sys_log option" where
  "sys_slogs good pid [] x = Some x"
| "sys_slogs good pid ((stamp, level, body) # ms) x = do { (r, x1) \<leftarrow> sys_slog good pid stamp level body x; sys_slogs good pid ms x1 }"

section \<open>Flushing\<close>

fun emit_live :: "(nat \<times> string) list \<Rightarrow> streams \<Rightarrow> streams" where
  "emit_live [] S = S"
| "emit_live ((f, line) # ms) S = emit_live ms (case st_open S f of None \<Rightarrow> S | Some fout \<Rightarrow> stream_line f fout line S)"

text \<open>The text that a stream gets of the lines \<open>ms\<close>.\<close>

definition lines_for :: "'a \<Rightarrow> ('a \<times> string) list \<Rightarrow> string" where
  "lines_for f ms = concat (map (\<lambda>(f', line). line @ [CHR 0x0A]) (filter (\<lambda>m. fst m = f) ms))"

lemma emit_live_text:
  "st_open S f = Some fout \<Longrightarrow> st_open (emit_live ms S) f = Some (fout\<lparr>os_text := os_text fout @ lines_for f ms\<rparr>)"
proof (induction ms S arbitrary: fout rule: emit_live.induct)
  case (2 f' line ms S)
  then show ?case by (cases "f' = f") (auto simp: lines_for_def stream_line_def split: option.split)
qed (simp add: lines_for_def)

text \<open>The file a stream is open on; the text that a file gets is that of its streams.\<close>

definition file_of :: "streams \<Rightarrow> nat \<Rightarrow> string option" where
  "file_of S f = Option.bind (st_open S f) os_path"

lemma file_of_line: "st_open S f = Some fout \<Longrightarrow> file_of (stream_line f fout line S) = file_of S"
  by (auto simp: file_of_def stream_line_def fun_eq_iff)

lemma emit_live_disk:
  "\<forall>m \<in> set ms. st_open S (fst m) \<noteq> None \<Longrightarrow>
   st_disk (emit_live ms S) p = st_disk S p @ lines_for (Some p) (map (\<lambda>(f, line). (file_of S f, line)) ms)"
proof (induction ms S rule: emit_live.induct)
  case (2 f line ms S)
  then obtain fout where fout: "st_open S f = Some fout" by auto
  have "\<forall>m \<in> set ms. st_open (stream_line f fout line S) (fst m) \<noteq> None" using 2(2) by (simp add: stream_line_def)
  with 2(1) fout have ih: "st_disk (emit_live ms (stream_line f fout line S)) p =
      st_disk (stream_line f fout line S) p @ lines_for (Some p) (map (\<lambda>(f, line). (file_of S f, line)) ms)"
    by (simp add: file_of_line)
  show ?case using ih fout by (auto simp: lines_for_def stream_line_def file_of_def split: option.splits)
qed (simp add: lines_for_def)

lemma sys_Logger_Flush_ok:
  assumes "lw_repr room g free ns w" and "\<forall>n \<in> set ns. \<exists>fout. st_open S (le_fout (lw_mem w n)) = Some fout \<and> os_good fout"
  shows "\<exists>w' free'. sys_Logger_Flush w S = Some (w', emit_live (map (\<lambda>n. lw_line (lw_mem w n)) ns) S) \<and> lw_repr room g free' [] w'"
  using assms
proof (induction ns arbitrary: w S free)
  case Nil
  then show ?case using llc.pop_none [OF lw_reprD(2) [OF Nil(1)]]
    by (subst sys_Logger_Flush.simps) (auto simp: lw_repr_def)
next
  case (Cons n ns)
  note r = lw_reprD [OF Cons.prems(1)]
  obtain q where q: "LockFreeListQueue_Pop (lw_pendingMsg w) = Some (Some n, q)" "ll_repr room q ns" using llc.pop_some [OF r(2)] by blast
  obtain b where b: "ReleaseBuffer n (lw_buffer w) = Some b" "lb_repr room b (n # free) (remove1 n (rev (n # ns)))"
    using lbc.release_ok [OF r(1), of n] by auto
  obtain fout where fout: "st_open S (le_fout (lw_mem w n)) = Some fout" "os_good fout" using Cons.prems(2) by auto
  let ?w = "w\<lparr>lw_pendingMsg := q, lw_buffer := b\<rparr>"
  let ?S = "stream_line (le_fout (lw_mem w n)) fout (c_str (le_data (lw_mem w n))) S"
  have "remove1 n (rev (n # ns)) = rev ns" using r(6) by (simp add: remove1_append)
  then have repr: "lw_repr room g (n # free) ns ?w" using Cons.prems(1) q(2) b(2) by (simp add: lw_repr_def)
  have live: "\<forall>m \<in> set ns. \<exists>fout. st_open ?S (le_fout (lw_mem ?w m)) = Some fout \<and> os_good fout" using Cons.prems(2) fout(2) by (auto simp: stream_line_def)
  show ?case using Cons.IH [OF repr live] q(1) b(1) r(5) [of n] fout
    by (subst sys_Logger_Flush.simps) (simp add: read_str_def lw_line_def)
qed

lemma sys_Logger_Flush_dead:
  assumes "lw_repr room g free (n # ns) w" and "st_open S (le_fout (lw_mem w n)) = None"
  shows "sys_Logger_Flush w S = None"
  using llc.pop_some [OF lw_reprD(2) [OF assms(1)]] assms(2) by (subst sys_Logger_Flush.simps) auto

section \<open>Streams that are gone\<close>

text \<open>
  C40. A logger deletes the stream of its waiting messages. After a message was accepted, \<open>SetOutStream\<close> and the destructor delete the stream although the message
  still points to it: the next flush of the worker, which would have written the line, uses a deleted object.
\<close>

theorem flush_uses_deleted_stream:
  assumes "LogWorker_init room g mem = Some w" and "\<forall>n. length (le_data (mem n)) = data_room g" and "2 \<le> g"
    and "op_fits g (OpLog (lg_fout lg) stamp body)" and "lg_fout lg \<noteq> 0" and "st_open S (lg_fout lg) = Some fout" and "os_good fout"
  shows "\<exists>w1. sys_Logger_Log_format lg stamp body w = Some (g - 1, w1) \<and>
     (\<exists>w2 S2. sys_Logger_Flush w1 S = Some (w2, S2) \<and>
       st_open S2 (lg_fout lg) = Some (fout\<lparr>os_text := os_text fout @ ''[0]'' @ stamp @ take (g - 2) body @ [CHR 0x0A]\<rparr>)) \<and>
     (\<exists>S1. SetOutStream 0 lg S = Some (lg\<lparr>lg_fout := 0\<rparr>, S1) \<and> sys_Logger_destroy lg S = Some S1 \<and> sys_Logger_Flush w1 S1 = None)"
proof -
  note i = LogWorker_init_repr [OF assms(1,2)]
  have "room \<noteq> 0" using assms(1) by (cases room) (auto simp: LogWorker_init_def LockFreeBuffer_init_def)
  then obtain w1 free log where w1: "LogWorker_Log_format (lg_fout lg) stamp body w = Some (g - 1, w1)" "lw_repr room g free [log] w1"
    "lw_line (lw_mem w1 log) = (lg_fout lg, ''[0]'' @ stamp @ take (g - 2) body)"
    using Log_ok [OF i(1) assms(4,3)] i(2) by (auto simp: dec.simps)
  have f: "le_fout (lw_mem w1 log) = lg_fout lg" using w1(3) by (simp add: lw_line_def)
  obtain w2 where "sys_Logger_Flush w1 S = Some (w2, emit_live [lw_line (lw_mem w1 log)] S)"
    using sys_Logger_Flush_ok [OF w1(2), of S] assms(6,7) f by auto
  moreover have "st_open (emit_live [lw_line (lw_mem w1 log)] S) (lg_fout lg) =
      Some (fout\<lparr>os_text := os_text fout @ ''[0]'' @ stamp @ take (g - 2) body @ [CHR 0x0A]\<rparr>)" using w1(3) assms(6) by (simp add: stream_line_def)
  moreover have "sys_Logger_Flush w1 (S\<lparr>st_open := (st_open S)(lg_fout lg := None)\<rparr>) = None" using sys_Logger_Flush_dead [OF w1(2)] f by simp
  ultimately show ?thesis using w1(1) assms(5,6)
    by (auto simp: sys_Logger_Log_format_def SetOutStream_def sys_Logger_destroy_def delete_stream_def)
qed

text \<open>One stream, at address 1, on the file \<open>f\<close>.\<close>

definition one_stream :: streams where
  "one_stream = \<lparr>st_open = [1 \<mapsto> \<lparr>os_good = True, os_text = [], os_path = Some ''f''\<rparr>], st_disk = (\<lambda>_. [])\<rparr>"

theorem flush_uses_deleted_stream_witness:
  "\<exists>w1 S1. sys_Logger_Log_format \<lparr>lg_fout = 1\<rparr> ''t'' ''hi'' (the (LogWorker_init 2 32 (sample_mem 32))) = Some (31, w1) \<and>
     SetOutStream 0 \<lparr>lg_fout = 1\<rparr> one_stream = Some (\<lparr>lg_fout = 0\<rparr>, S1) \<and> sys_Logger_Flush w1 S1 = None"
proof -
  have "\<forall>n. length (le_data (sample_mem 32 n)) = data_room 32" by (simp add: sample_mem_def)
  note t = flush_uses_deleted_stream [OF LogWorker_init_some [of 2 32 "sample_mem 32"] this, where lg = "\<lparr>lg_fout = 1\<rparr>" and stamp = "''t''" and body = "''hi''"
      and S = one_stream and fout = "\<lparr>os_good = True, os_text = [], os_path = Some ''f''\<rparr>"]
  have "op_fits 32 (OpLog 1 ''t'' ''hi'')" by (simp add: data_room_def AlignTo_def sizeof_LogEntity_def)
  then show ?thesis using t by (auto simp: one_stream_def)
qed

section \<open>Levels\<close>

text \<open>What the calls leave in the files: the level and the line of every message that is not below the threshold, with their common numbers.\<close>

fun slog_lines :: "nat \<Rightarrow> int \<Rightarrow> nat \<Rightarrow> (string \<times> int \<times> string) list \<Rightarrow> (nat \<times> string) list" where
  "slog_lines g threshold cnt [] = []"
| "slog_lines g threshold cnt ((stamp, level, body) # ms) =
     (if level < 0 \<or> level < threshold then slog_lines g threshold cnt ms
      else (nat level, ''['' @ dec (cnt mod 2 ^ 64) @ '']'' @ stamp @ take (g - 2) body) # slog_lines g threshold (cnt + 1) ms)"

text \<open>The file of a level. The names of the levels differ in their sixth character.\<close>

definition level_file :: "nat \<Rightarrow> nat \<Rightarrow> string" where
  "level_file pid i = Logger_file (slog_files ! i) pid"

lemma level_file_char:
  assumes "i < 7"
  shows "level_file pid i ! 5 = ''avidwef'' ! i"
proof -
  have "i \<in> {0, 1, 2, 3, 4, 5, 6}" using assms by auto
  then show ?thesis by (auto simp: level_file_def Logger_file_def slog_files_def nth_append)
qed

lemma level_file_inj: "i < 7 \<Longrightarrow> j < 7 \<Longrightarrow> level_file pid i = level_file pid j \<longleftrightarrow> i = j"
proof -
  assume ij: "i < 7" "j < 7"
  have "distinct ''avidwef''" "length ''avidwef'' = 7" by simp_all
  then have "''avidwef'' ! i = ''avidwef'' ! j \<longleftrightarrow> i = j" using ij nth_eq_iff_index_eq by metis
  then show ?thesis using level_file_char [OF ij(1), of pid] level_file_char [OF ij(2), of pid] by metis
qed

definition fout_of :: "sys_log \<Rightarrow> nat \<Rightarrow> nat" where
  "fout_of x i = lg_fout (the (sl_loggers x i))"

definition new_stream :: "nat \<Rightarrow> nat \<Rightarrow> stream" where
  "new_stream pid i = \<lparr>os_good = True, os_text = [], os_path = Some (level_file pid i)\<rparr>"

text \<open>Every logger has a stream of its own, which is good and empty and open on the file of its level; the waiting lines are \<open>ls\<close>, and the files are as they were.\<close>

definition sl_ok :: "nat \<Rightarrow> (string \<Rightarrow> string) \<Rightarrow> nat \<Rightarrow> nat \<Rightarrow> sys_log \<Rightarrow> (nat \<times> string) list \<Rightarrow> bool" where
  "sl_ok pid disk room g x ls \<longleftrightarrow> lw_abs room g (sl_worker x) (map (\<lambda>(i, l). (fout_of x i, l)) ls) (length ls) 0 \<and> fst ` set ls \<subseteq> dom (sl_loggers x) \<and>
     (\<forall>i \<in> dom (sl_loggers x). i < 7 \<and> fout_of x i < sl_next x \<and> st_open (sl_streams x) (fout_of x i) = Some (new_stream pid i)) \<and>
     inj_on (fout_of x) (dom (sl_loggers x)) \<and> st_disk (sl_streams x) = disk"

lemma slog_logger_ok:
  assumes "sl_ok pid disk room g x ls" and "\<forall>path. good path" and "i < 7"
  shows "\<exists>lg x1. slog_logger good pid i (slog_files ! i) x = (Inr lg, x1) \<and> sl_ok pid disk room g x1 ls \<and> sl_loggers x1 i = Some lg \<and>
     sl_level x1 = sl_level x \<and> sl_worker x1 = sl_worker x"
proof (cases "sl_loggers x i")
  case (Some lg)
  then show ?thesis using assms(1) by (simp add: slog_logger_def)
next
  case None
  let ?lg = "\<lparr>lg_fout = sl_next x\<rparr>"
  let ?S = "(sl_streams x)\<lparr>st_open := (st_open (sl_streams x))(sl_next x \<mapsto> new_stream pid i)\<rparr>"
  let ?x = "x\<lparr>sl_loggers := (sl_loggers x)(i \<mapsto> ?lg), sl_streams := ?S, sl_next := Suc (sl_next x)\<rparr>"
  have old: "fout_of ?x j = fout_of x j" if "j \<in> dom (sl_loggers x)" for j using that None by (auto simp: fout_of_def)
  have new: "fout_of ?x i = sl_next x" by (simp add: fout_of_def)
  have ok: "fst ` set ls \<subseteq> dom (sl_loggers x)" "inj_on (fout_of x) (dom (sl_loggers x))"
    "\<And>j. j \<in> dom (sl_loggers x) \<Longrightarrow> j < 7 \<and> fout_of x j < sl_next x \<and> st_open (sl_streams x) (fout_of x j) = Some (new_stream pid j)"
    using assms(1) by (simp_all add: sl_ok_def)
  have dom: "dom (sl_loggers ?x) = insert i (dom (sl_loggers x))" by auto
  have "map (\<lambda>(j, l). (fout_of ?x j, l)) ls = map (\<lambda>(j, l). (fout_of x j, l)) ls" using ok(1) old by (fastforce simp: image_subset_iff)
  moreover have "inj_on (fout_of ?x) (dom (sl_loggers ?x))"
  proof -
    have "inj_on (fout_of ?x) (dom (sl_loggers x)) = inj_on (fout_of x) (dom (sl_loggers x))" by (intro inj_on_cong old)
    moreover have "fout_of ?x ` dom (sl_loggers x) = fout_of x ` dom (sl_loggers x)" by (intro image_cong refl old)
    moreover have "sl_next x \<notin> fout_of x ` dom (sl_loggers x)"
    proof
      assume "sl_next x \<in> fout_of x ` dom (sl_loggers x)"
      then obtain j where "j \<in> dom (sl_loggers x)" "sl_next x = fout_of x j" by (elim imageE)
      then show False using ok(3) [of j] by simp
    qed
    ultimately show ?thesis unfolding dom inj_on_insert new using None ok(2) by (simp add: domIff)
  qed
  moreover have "j < 7 \<and> fout_of ?x j < sl_next ?x \<and> st_open (sl_streams ?x) (fout_of ?x j) = Some (new_stream pid j)" if "j \<in> dom (sl_loggers ?x)" for j
  proof (cases "j = i")
    case False
    then have j: "j \<in> dom (sl_loggers x)" using that by auto
    then show ?thesis using ok(3) [OF j] by (simp add: old [OF j] less_Suc_eq)
  qed (simp add: new assms(3))
  moreover have "fst ` set ls \<subseteq> dom (sl_loggers ?x)" unfolding dom using ok(1) by (rule subset_insertI2)
  moreover have "lw_abs room g (sl_worker ?x) (map (\<lambda>(j, l). (fout_of x j, l)) ls) (length ls) 0" using assms(1) by (simp add: sl_ok_def)
  moreover have "st_disk (sl_streams ?x) = disk" using assms(1) by (simp add: sl_ok_def)
  ultimately have "sl_ok pid disk room g ?x ls" unfolding sl_ok_def by (simp only: simp_thms ball_triv) blast
  then show ?thesis using None assms(2) by (simp add: slog_logger_def sys_Logger_init_def Let_def new_stream_def level_file_def)
qed

lemma sys_slog_ok:
  assumes "sl_ok pid disk room g x ls" and "\<forall>path. good path" and "length ls < room" and "2 \<le> g" and "level < 7"
    and "op_fits g (OpLog 0 stamp body)"
  shows "\<exists>r x1. sys_slog good pid stamp level body x = Some (r, x1) \<and> sl_level x1 = sl_level x \<and>
     sl_ok pid disk room g x1 (ls @ slog_lines g (sl_level x) (length ls) [(stamp, level, body)])"
proof (cases "level < 0 \<or> level < sl_level x")
  case True
  then show ?thesis using assms(1) by (auto simp: sys_slog_def slog_target_def slog_level_def)
next
  case False
  then have t: "slog_target (slog_level x) level = Some (Some (slog_files ! nat level))" "nat level < 7" using assms(5)
    by (auto simp: slog_target_def slog_level_def slog_files_def)
  obtain lg x1 where lg: "slog_logger good pid (nat level) (slog_files ! nat level) x = (Inr lg, x1)" "sl_ok pid disk room g x1 ls"
    "sl_loggers x1 (nat level) = Some lg" "sl_level x1 = sl_level x" using slog_logger_ok [OF assms(1,2) t(2)] by metis
  define line where "line = ''['' @ dec (length ls mod 2 ^ 64) @ '']'' @ stamp @ take (g - 2) body"
  let ?pend = "map (\<lambda>(i, l). (fout_of x1 i, l)) ls"
  have abs: "lw_abs room g (sl_worker x1) ?pend (length ls) 0" using lg(2) by (simp add: sl_ok_def)
  have spec: "log_spec room g (OpLog (lg_fout lg) stamp body) (?pend, length ls, 0, sample_streams) =
      (g - 1, ?pend @ [(lg_fout lg, line)], length ls + 1, 0, sample_streams)" using assms(3) by (simp add: line_def)
  have fits: "op_fits g (OpLog (lg_fout lg) stamp body)" using assms(6) by simp
  have good: "\<forall>f. os_good (sample_streams f)" by (simp add: sample_streams_def)
  obtain w where w: "LogWorker_Log_format (lg_fout lg) stamp body (sl_worker x1) = Some (g - 1, w)"
    "lw_abs room g w (?pend @ [(lg_fout lg, line)]) (length ls + 1) 0"
    using log_impl_ok [OF abs good fits assms(4) spec] by auto
  have fo: "fout_of (x1\<lparr>sl_worker := w\<rparr>) = fout_of x1" by (simp add: fout_of_def fun_eq_iff)
  have "sl_ok pid disk room g (x1\<lparr>sl_worker := w\<rparr>) (ls @ [(nat level, line)])"
    using lg(2,3) w(2) unfolding sl_ok_def fo by (auto simp: fout_of_def)
  then show ?thesis using t(1) lg(1,4) w(1) False by (auto simp: sys_slog_def sys_Logger_Log_format_def line_def)
qed

lemma slog_lines_append:
  "slog_lines g t cnt (ms @ ms') = slog_lines g t cnt ms @ slog_lines g t (cnt + length (slog_lines g t cnt ms)) ms'"
  by (induction g t cnt ms rule: slog_lines.induct) auto

lemma length_slog_lines: "length (slog_lines g t cnt ms) \<le> length ms"
  by (induction g t cnt ms rule: slog_lines.induct) auto

lemma sys_slogs_ok:
  assumes "sl_ok pid disk room g x ls" and "\<forall>path. good path" and "length ls + length ms \<le> room" and "2 \<le> g"
    and "\<forall>(stamp, level, body) \<in> set ms. level < 7 \<and> op_fits g (OpLog 0 stamp body)"
  shows "\<exists>x1. sys_slogs good pid ms x = Some x1 \<and> sl_ok pid disk room g x1 (ls @ slog_lines g (sl_level x) (length ls) ms)"
  using assms
proof (induction ms arbitrary: x ls)
  case (Cons m ms)
  obtain stamp level body where m: "m = (stamp, level, body)" by (cases m)
  let ?new = "slog_lines g (sl_level x) (length ls) [m]"
  obtain r x1 where x1: "sys_slog good pid stamp level body x = Some (r, x1)" "sl_level x1 = sl_level x" "sl_ok pid disk room g x1 (ls @ ?new)"
    using sys_slog_ok [OF Cons.prems(1,2) _ Cons.prems(4), of level stamp body] Cons.prems(3,5) by (auto simp: m)
  have len: "length (ls @ ?new) + length ms \<le> length ls + length (m # ms)" using length_slog_lines [of g "sl_level x" "length ls" "[m]"] by simp
  have all: "slog_lines g (sl_level x) (length ls) (m # ms) = ?new @ slog_lines g (sl_level x) (length (ls @ ?new)) ms"
    using slog_lines_append [of g "sl_level x" "length ls" "[m]" ms] by simp
  obtain x2 where "sys_slogs good pid ms x1 = Some x2" "sl_ok pid disk room g x2 ((ls @ ?new) @ slog_lines g (sl_level x1) (length (ls @ ?new)) ms)"
    using Cons.IH [OF x1(3) Cons.prems(2) _ Cons.prems(4)] Cons.prems(3,5) len by fastforce
  then show ?case using x1(1,2) all by (simp add: m)
qed simp

text \<open>The lines behind a renaming that tells the key \<open>k\<close> from the others.\<close>

lemma lines_for_rename:
  assumes "\<And>m. m \<in> set ms \<Longrightarrow> f (fst m) = f' \<longleftrightarrow> fst m = k"
  shows "lines_for f' (map (\<lambda>(i, l). (f i, l)) ms) = lines_for k ms"
proof -
  have "filter (\<lambda>m. fst m = f') (map (\<lambda>(i, l). (f i, l)) ms) = map (\<lambda>(i, l). (f i, l)) (filter (\<lambda>m. fst m = k) ms)"
    unfolding filter_map by (intro arg_cong [of _ _ "map _"] filter_cong refl) (use assms in \<open>auto simp: case_prod_unfold\<close>)
  then show ?thesis by (simp add: lines_for_def case_prod_unfold o_def)
qed

text \<open>
  C27. Messages reach the files of their levels. Any sequence of calls of \<open>slog\<close> with levels below 7, texts that fit and no more messages than the worker has
  buffers, made by a process whose loggers are still to be made, while the files can be opened, followed by a flush: nothing faults; the file of each of the seven levels (\<open>slog_all.log\<close> to \<open>slog_fatal.log\<close>, each followed by the number of the
  process) holds what it held before and behind it exactly the lines of its level, in the order of the calls, with the numbers that count all messages; no other
  file is changed; and every level with a message at or above the threshold has a logger, whose own stream has taken these lines.
\<close>

theorem slog_files_filled:
  assumes "LogWorker_init room g mem = Some w" and "\<forall>n. length (le_data (mem n)) = data_room g" and "2 \<le> g" and "\<forall>path. good path"
    and "length ms \<le> room" and "\<forall>(stamp, level, body) \<in> set ms. level < 7 \<and> op_fits g (OpLog 0 stamp body)"
  shows "\<exists>x w' S. sys_slogs good pid ms \<lparr>sl_level = threshold, sl_loggers = Map.empty, sl_streams = \<lparr>st_open = Map.empty, st_disk = disk\<rparr>,
       sl_worker = w, sl_next = 1\<rparr> = Some x \<and>
     sys_Logger_Flush (sl_worker x) (sl_streams x) = Some (w', S) \<and>
     (\<forall>i < 7. st_disk S (Logger_file (slog_files ! i) pid) =
        disk (Logger_file (slog_files ! i) pid) @ lines_for i (slog_lines g threshold 0 ms)) \<and>
     (\<forall>p. (\<forall>i < 7. p \<noteq> Logger_file (slog_files ! i) pid) \<longrightarrow> st_disk S p = disk p) \<and>
     fst ` set (slog_lines g threshold 0 ms) \<subseteq> dom (sl_loggers x) \<and>
     (\<forall>i lg. sl_loggers x i = Some lg \<longrightarrow> (\<exists>fout. st_open S (lg_fout lg) = Some fout \<and> os_text fout = lines_for i (slog_lines g threshold 0 ms)))"
proof -
  let ?S0 = "\<lparr>st_open = Map.empty, st_disk = disk\<rparr>"
  let ?x0 = "\<lparr>sl_level = threshold, sl_loggers = Map.empty, sl_streams = ?S0, sl_worker = w, sl_next = 1\<rparr>"
  let ?ls = "slog_lines g threshold 0 ms"
  have "sl_ok pid disk room g ?x0 []" using LogWorker_init_repr [OF assms(1,2)] by (auto simp: sl_ok_def lw_abs_def)
  from sys_slogs_ok [OF this assms(4) _ assms(3,6)] assms(5) obtain x where
    x: "sys_slogs good pid ms ?x0 = Some x" "sl_ok pid disk room g x ?ls" by auto
  define pend where "pend = map (\<lambda>(i, l). (fout_of x i, l)) ?ls"
  have ok: "fst ` set ?ls \<subseteq> dom (sl_loggers x)" "inj_on (fout_of x) (dom (sl_loggers x))" "st_disk (sl_streams x) = disk"
    "\<And>j. j \<in> dom (sl_loggers x) \<Longrightarrow> j < 7 \<and> st_open (sl_streams x) (fout_of x j) = Some (new_stream pid j)"
    using x(2) by (simp_all add: sl_ok_def)
  have lev: "fst m \<in> dom (sl_loggers x)" if "m \<in> set ?ls" for m using ok(1) that by (rule subsetD [OF _ imageI])
  obtain free ns where repr: "lw_repr room g free ns (sl_worker x)" "pend = map (\<lambda>n. lw_line (lw_mem (sl_worker x) n)) ns"
    using x(2) by (auto simp: sl_ok_def lw_abs_def pend_def)
  have pend: "st_open (sl_streams x) (fst m) \<noteq> None \<and> (\<forall>fout. st_open (sl_streams x) (fst m) = Some fout \<longrightarrow> os_good fout)" if "m \<in> set pend" for m
    using that ok(4) lev by (fastforce simp: pend_def new_stream_def)
  have live: "\<exists>fout. st_open (sl_streams x) (le_fout (lw_mem (sl_worker x) n)) = Some fout \<and> os_good fout" if "n \<in> set ns" for n
    using pend [of "lw_line (lw_mem (sl_worker x) n)"] that repr(2) by (auto simp: lw_line_def)
  obtain w' where fl: "sys_Logger_Flush (sl_worker x) (sl_streams x) = Some (w', emit_live pend (sl_streams x))"
    using sys_Logger_Flush_ok [OF repr(1), of "sl_streams x"] live repr(2) by auto
  have files: "map (\<lambda>(f, line). (file_of (sl_streams x) f, line)) pend = map (\<lambda>(i, l). (Some (level_file pid i), l)) ?ls"
    using ok(4) [OF lev] by (auto simp: pend_def file_of_def new_stream_def)
  have disk: "st_disk (emit_live pend (sl_streams x)) p = disk p @ lines_for (Some p) (map (\<lambda>(i, l). (Some (level_file pid i), l)) ?ls)" for p
    using emit_live_disk [of pend "sl_streams x" p] pend unfolding files ok(3) by blast
  have own: "lines_for (Some (level_file pid i)) (map (\<lambda>(i, l). (Some (level_file pid i), l)) ?ls) = lines_for i ?ls" if "i < 7" for i
    by (rule lines_for_rename) (use ok(4) lev level_file_inj that in auto)
  have other: "lines_for (Some p) (map (\<lambda>(i, l). (Some (level_file pid i), l)) ?ls) = []" if p: "\<forall>i < 7. p \<noteq> level_file pid i" for p
    using ok(4) [OF lev] p by (force simp: lines_for_def filter_empty_conv)
  have taken: "\<exists>fout. st_open (emit_live pend (sl_streams x)) (lg_fout lg) = Some fout \<and> os_text fout = lines_for i ?ls" if "sl_loggers x i = Some lg" for i lg
  proof -
    have i: "fout_of x i = lg_fout lg" "i \<in> dom (sl_loggers x)" using that by (auto simp: fout_of_def)
    have "lines_for (fout_of x i) pend = lines_for i ?ls"
      unfolding pend_def by (rule lines_for_rename) (use inj_on_eq_iff [OF ok(2) lev i(2)] in simp)
    then show ?thesis using ok(4) [OF i(2)] i(1) by (simp add: emit_live_text new_stream_def)
  qed
  show ?thesis using x(1) fl ok(1) taken disk own other unfolding level_file_def by (intro exI conjI) (assumption | simp)+
qed

theorem slog_files_filled_witness:
  "\<exists>x w' S. sys_slogs (\<lambda>_. True) 7 [(''t'', 2, ''low''), (''t'', 5, ''first''), (''t'', 6, ''bad''), (''t'', 5, ''last'')]
       \<lparr>sl_level = 5, sl_loggers = Map.empty, sl_streams = \<lparr>st_open = Map.empty, st_disk = (\<lambda>_. ''old'')\<rparr>,
        sl_worker = the (LogWorker_init 4 32 (sample_mem 32)), sl_next = 1\<rparr> = Some x \<and>
     sys_Logger_Flush (sl_worker x) (sl_streams x) = Some (w', S) \<and>
     st_disk S ''slog_error.log.7'' = ''old[0]tfirst'' @ [CHR 0x0A] @ ''[2]tlast'' @ [CHR 0x0A] \<and>
     st_disk S ''slog_fatal.log.7'' = ''old[1]tbad'' @ [CHR 0x0A] \<and> st_disk S ''slog_info.log.7'' = ''old''"
proof -
  let ?ms = "[(''t'', 2, ''low''), (''t'', 5, ''first''), (''t'', 6, ''bad''), (''t'', 5, ''last'')] :: (string \<times> int \<times> string) list"
  have mem: "\<forall>n. length (le_data (sample_mem 32 n)) = data_room 32" by (simp add: sample_mem_def)
  have fit: "\<forall>(stamp, level, body) \<in> set ?ms. level < 7 \<and> op_fits 32 (OpLog 0 stamp body)"
    by (simp add: data_room_def AlignTo_def sizeof_LogEntity_def)
  have ls: "slog_lines 32 5 0 ?ms = [(5, ''[0]tfirst''), (6, ''[1]tbad''), (5, ''[2]tlast'')]" by (simp add: dec.simps)
  have names: "Logger_file (slog_files ! 5) 7 = ''slog_error.log.7''" "Logger_file (slog_files ! 6) 7 = ''slog_fatal.log.7''"
    "Logger_file (slog_files ! 2) 7 = ''slog_info.log.7''" by (simp_all add: Logger_file_def slog_files_def dec.simps)
  from slog_files_filled [OF LogWorker_init_some [of 4 32 "sample_mem 32"] mem _ _ _ fit, of "\<lambda>_. True" 7 5 "\<lambda>_. ''old''", unfolded ls] obtain x w' S where
    r: "sys_slogs (\<lambda>_. True) 7 ?ms \<lparr>sl_level = 5, sl_loggers = Map.empty, sl_streams = \<lparr>st_open = Map.empty, st_disk = (\<lambda>_. ''old'')\<rparr>,
        sl_worker = the (LogWorker_init 4 32 (sample_mem 32)), sl_next = 1\<rparr> = Some x"
      "sys_Logger_Flush (sl_worker x) (sl_streams x) = Some (w', S)"
      "\<forall>i < 7. st_disk S (Logger_file (slog_files ! i) 7) = ''old'' @ lines_for i [(5, ''[0]tfirst''), (6, ''[1]tbad''), (5, ''[2]tlast'')]" by auto
  have "st_disk S ''slog_error.log.7'' = ''old[0]tfirst'' @ [CHR 0x0A] @ ''[2]tlast'' @ [CHR 0x0A]"
    using r(3) [rule_format, of 5] by (simp add: names lines_for_def)
  moreover have "st_disk S ''slog_fatal.log.7'' = ''old[1]tbad'' @ [CHR 0x0A]" using r(3) [rule_format, of 6] by (simp add: names lines_for_def)
  moreover have "st_disk S ''slog_info.log.7'' = ''old''" using r(3) [rule_format, of 2] by (simp add: names lines_for_def)
  ultimately show ?thesis using r(1,2) by blast
qed

end
