(* ===== verification/AtomicOps.thy ===== *)
theory AtomicOps
  imports Slots "HOL-Library.Word"
begin

text \<open>
  \<open>sys/AtomicOps.h\<close>: the increments that are built from a compare-and-swap, which the header uses in place of the intrinsic fetch-and-add when
  \<open>USING_CAS_TO_DO_INCREASE\<close> is set. Threads call them on one word; every access to the word is a step. They are shown to be
  the fetch-and-add that they replace. The width of the word is a parameter, as \<open>int\<close> and \<open>size_t\<close> have one each.
\<close>

section \<open>The loops\<close>

text \<open>A thread before it reads, with the amount to add; before its compare-and-swap, with the old and the new value; and when it has returned the old value.\<close>

datatype 'a aa_pc = AaRest | AaRead 'a | AaCas 'a 'a 'a | AaDone 'a

text \<open>\<open>atomic_cas\<close>: whether the word was the old value, and the word after it.\<close>

definition atomic_cas :: "'a \<Rightarrow> 'a \<Rightarrow> 'a \<Rightarrow> bool \<times> 'a" where
  "atomic_cas v oldVal newVal = (if v = oldVal then (True, newVal) else (False, v))"

fun atomic_add_step :: "('a :: len) word aa_pc \<Rightarrow> 'a word \<Rightarrow> 'a word aa_pc \<times> 'a word" where
  "atomic_add_step (AaRead gap) v = (AaCas gap v (v + gap), v)"
| "atomic_add_step (AaCas gap oldval newval) v =
     (case atomic_cas v oldval newval of (ok, v') \<Rightarrow> (if ok then AaDone oldval else AaRead gap, v'))"
| "atomic_add_step pc v = (pc, v)"

definition atomic_increment :: "('a :: len) word aa_pc" where
  "atomic_increment = AaRead 1"

definition atomic_decrement :: "('a :: len) word aa_pc" where
  "atomic_decrement = AaRead (-1)"

section \<open>Threads\<close>

fun aa_rest :: "'a aa_pc \<Rightarrow> bool" where
  "aa_rest AaRest \<longleftrightarrow> True"
| "aa_rest (AaDone r) \<longleftrightarrow> True"
| "aa_rest _ \<longleftrightarrow> False"

text \<open>The word, the threads, and the calls that have returned, in the order in which they did: what was added and what was returned.\<close>

type_synonym 'a aa_sys = "'a word \<times> 'a word aa_pc list \<times> ('a word \<times> 'a word) list"

datatype 'a aa_act = AaCall nat 'a | AaGo nat

fun aa_possible :: "('a :: len) word aa_act \<Rightarrow> 'a aa_sys \<Rightarrow> bool" where
  "aa_possible (AaCall i gap) (v, ts, calls) \<longleftrightarrow> i < length ts \<and> aa_rest (ts ! i)"
| "aa_possible (AaGo i) (v, ts, calls) \<longleftrightarrow> i < length ts \<and> \<not> aa_rest (ts ! i)"

definition aa_gap :: "'a aa_pc \<Rightarrow> 'a \<Rightarrow> 'a" where
  "aa_gap pc d = (case pc of AaCas gap old new \<Rightarrow> gap | _ \<Rightarrow> d)"

fun aa_act1 :: "('a :: len) word aa_act \<Rightarrow> 'a aa_sys \<Rightarrow> 'a aa_sys option" where
  "aa_act1 (AaCall i gap) (v, ts, calls) = Some (v, ts[i := AaRead gap], calls)"
| "aa_act1 (AaGo i) (v, ts, calls) =
     (case atomic_add_step (ts ! i) v of (pc, v') \<Rightarrow>
       Some (v', ts[i := pc], (case pc of AaDone old \<Rightarrow> calls @ [(aa_gap (ts ! i) 0, old)] | _ \<Rightarrow> calls)))"

section \<open>The intrinsic\<close>

text \<open>\<open>__sync_fetch_and_add\<close> and the calls of it that follow one another; \<open>None\<close> if one returned another value than the word had.\<close>

definition fetch_and_add :: "('a :: len) word \<Rightarrow> 'a word \<Rightarrow> 'a word \<times> 'a word" where
  "fetch_and_add v gap = (v, v + gap)"

fun fetch_and_adds :: "('a :: len) word \<Rightarrow> ('a word \<times> 'a word) list \<Rightarrow> 'a word option" where
  "fetch_and_adds v [] = Some v"
| "fetch_and_adds v ((gap, r) # calls) = (case fetch_and_add v gap of (old, v') \<Rightarrow> if r = old then fetch_and_adds v' calls else None)"

lemma fetch_and_adds_append:
  "fetch_and_adds v (calls @ calls') = Option.bind (fetch_and_adds v calls) (\<lambda>v'. fetch_and_adds v' calls')"
  by (induction v calls rule: fetch_and_adds.induct) (simp_all add: fetch_and_add_def)

lemma fetch_and_adds_sum: "fetch_and_adds v calls = Some v' \<Longrightarrow> v' = v + sum_list (map fst calls)"
  by (induction v calls rule: fetch_and_adds.induct) (auto simp: fetch_and_add_def split: if_splits)

lemma fetch_and_adds_ticket:
  "fetch_and_adds v calls = Some v' \<Longrightarrow> \<forall>(gap, r) \<in> set calls. gap = 1 \<Longrightarrow> i < length calls \<Longrightarrow> snd (calls ! i) = v + word_of_nat i"
proof (induction v calls arbitrary: i rule: fetch_and_adds.induct)
  case (2 v gap r calls)
  then show ?case by (cases i) (auto simp: fetch_and_add_def split: if_splits)
qed simp

section \<open>The refinement\<close>

fun aa_pc_ok :: "('a :: len) word aa_pc \<Rightarrow> bool" where
  "aa_pc_ok (AaCas gap old new) \<longleftrightarrow> new = old + gap"
| "aa_pc_ok _ \<longleftrightarrow> True"

definition aa_ok :: "('a :: len) word \<Rightarrow> 'a aa_sys \<Rightarrow> bool" where
  "aa_ok v0 x \<longleftrightarrow> (case x of (v, ts, calls) \<Rightarrow> fetch_and_adds v0 calls = Some v \<and> list_all aa_pc_ok ts)"

lemma aa_act1_ok:
  assumes "aa_ok v0 x" and "aa_possible a x"
  shows "\<exists>y. aa_act1 a x = Some y \<and> aa_ok v0 y"
proof -
  obtain v ts calls where x: "x = (v, ts, calls)" by (cases x)
  have upd: "list_all aa_pc_ok (ts[i := pc])" if "aa_pc_ok pc" for i pc
    using assms(1) that unfolding x aa_ok_def by (auto simp: list_all_iff dest!: set_update_subset_insert [THEN subsetD])
  show ?thesis
  proof (cases a)
    case (AaGo i)
    then have "aa_pc_ok (ts ! i)" "\<not> aa_rest (ts ! i)" using assms x by (auto simp: aa_ok_def list_all_length)
    then show ?thesis using assms(1) x AaGo upd
      by (cases "ts ! i") (auto simp: aa_ok_def atomic_cas_def aa_gap_def fetch_and_adds_append fetch_and_add_def)
  qed (use assms(1) x upd in \<open>auto simp: aa_ok_def\<close>)
qed

interpretation aas: safe_steps "aa_ok v0" aa_possible aa_act1 for v0
  by unfold_locales (rule aa_act1_ok)

text \<open>
  C25. The loops are the intrinsic. In every schedule of any number of threads that add to one word by compare-and-swap, the calls that have returned are, in the
  order of their returns, calls of fetch-and-add that follow one another: each has returned the value that the word had, and the word is
  the sum of what they added, with the wrap-around of its width.
\<close>

theorem atomic_add_refines:
  "\<exists>v ts calls. run_schedule aa_possible aa_act1 acts (v0, replicate k AaRest, []) = Some (v, ts, calls) \<and>
     fetch_and_adds v0 calls = Some v \<and> v = v0 + sum_list (map fst calls)"
proof -
  have "aa_ok v0 (v0, replicate k AaRest, [])" by (simp add: aa_ok_def list_all_length)
  from aas.run_good [OF this, of acts] show ?thesis by (fastforce simp: aa_ok_def fetch_and_adds_sum)
qed

text \<open>
  Increments hand out numbers: as long as fewer calls than the word has values have returned, no number is returned twice. (The tags of the lock-free lists rest on
  this.)
\<close>

theorem increments_distinct:
  assumes "run_schedule aa_possible aa_act1 acts (v0 :: 'a :: len word, replicate k AaRest, []) = Some (v, ts, calls)" and "\<forall>(gap, r) \<in> set calls. gap = 1"
    and "length calls \<le> 2 ^ LENGTH('a)"
  shows "distinct (map snd calls)"
proof -
  have "aa_ok v0 (v0, replicate k AaRest, [])" by (simp add: aa_ok_def list_all_length)
  from aas.run_good [OF this, of acts] assms(1) have run: "fetch_and_adds v0 calls = Some v" by (auto simp: aa_ok_def)
  have "(word_of_nat i :: 'a word) \<noteq> word_of_nat j" if "i < length calls" "j < length calls" "i \<noteq> j" for i j
    using that assms(3) by (simp add: word_of_nat_eq_iff take_bit_nat_eq_self_iff [THEN iffD2] less_le_trans)
  then show ?thesis unfolding distinct_conv_nth using fetch_and_adds_ticket [OF run assms(2)] by simp
qed

theorem increments_distinct_witness:
  "\<exists>v ts calls. run_schedule aa_possible aa_act1 [AaCall 0 1, AaCall 1 1, AaGo 0, AaGo 1, AaGo 1, AaGo 0, AaGo 0, AaGo 0]
       (255 :: 8 word, replicate 2 AaRest, []) = Some (v, ts, calls) \<and> calls = [(1, 255), (1, 0)] \<and> distinct (map snd calls)"
proof -
  have run: "run_schedule aa_possible aa_act1 [AaCall 0 1, AaCall 1 1, AaGo 0, AaGo 1, AaGo 1, AaGo 0, AaGo 0, AaGo 0]
       (255 :: 8 word, replicate 2 AaRest, []) = Some (1, [AaDone 0, AaDone 255], [(1, 255), (1, 0)])"
    by code_simp
  from increments_distinct [OF run] show ?thesis using run by simp
qed

end
