(* ===== verification/Functor.thy ===== *)
theory Functor
  imports Slots
begin

text \<open>
  \<open>misc/functor.h\<close>: \<open>misc::function\<close>, a callable value. A \<open>function\<close> holds a pointer to an implementation object that it allocates, copies
  with \<open>clone\<close> and deletes, or that the program has made and hands over. The implementation is a plain procedure, a member function of an object elsewhere, or a functor object of its own. What the procedures,
  the member functions and the functors compute is given by an environment.
\<close>

section \<open>The classes\<close>

text \<open>\<open>'o\<close> are the states of objects; a procedure pointer may be null.\<close>

datatype 'o function_impl = function_impl_normal "nat option" | function_impl_class nat nat | function_impl_functor 'o

record ('o, 'a, 'r) fun_env =
  fe_norm :: "nat \<Rightarrow> 'a \<Rightarrow> 'r"
  fe_method :: "nat \<Rightarrow> 'a \<Rightarrow> 'o \<Rightarrow> 'r \<times> 'o"
  fe_functor :: "'a \<Rightarrow> 'o \<Rightarrow> 'r \<times> 'o"

text \<open>The implementation objects, the objects member functions are bound to, and the next address that \<open>new\<close> returns.\<close>

record 'o fun_heap =
  fh_impl :: "nat \<rightharpoonup> 'o function_impl"
  fh_obj :: "nat \<rightharpoonup> 'o"
  fh_next :: nat

definition fun_new :: "'o function_impl \<Rightarrow> 'o fun_heap \<Rightarrow> nat \<times> 'o fun_heap" where
  "fun_new i h = (fh_next h, h\<lparr>fh_impl := (fh_impl h)(fh_next h \<mapsto> i), fh_next := fh_next h + 1\<rparr>)"

text \<open>\<open>clone\<close> makes a new object of the same class with the same members.\<close>

definition impl_clone :: "nat \<Rightarrow> 'o fun_heap \<Rightarrow> (nat \<times> 'o fun_heap) option" where
  "impl_clone a h = map_option (\<lambda>i. fun_new i h) (fh_impl h a)"

definition impl_call :: "('o, 'a, 'r) fun_env \<Rightarrow> nat \<Rightarrow> 'a \<Rightarrow> 'o fun_heap \<Rightarrow> ('r \<times> 'o fun_heap) option" where
  "impl_call E a arg h = do {
     i \<leftarrow> fh_impl h a;
     (case i of
       function_impl_normal p \<Rightarrow> map_option (\<lambda>f. (fe_norm E f arg, h)) p
     | function_impl_class obj m \<Rightarrow> map_option (\<lambda>s. case fe_method E m arg s of (r, s') \<Rightarrow> (r, h\<lparr>fh_obj := (fh_obj h)(obj \<mapsto> s')\<rparr>)) (fh_obj h obj)
     | function_impl_functor s \<Rightarrow> (case fe_functor E arg s of (r, s') \<Rightarrow> Some (r, h\<lparr>fh_impl := (fh_impl h)(a \<mapsto> function_impl_functor s')\<rparr>)))
   }"

text \<open>A \<open>function\<close> is its pointer \<open>fun_\<close>, which is null when the program handed a null pointer over.\<close>

definition function_ptr :: "ptr \<Rightarrow> ptr" where
  "function_ptr p = p"

definition function_proc :: "nat option \<Rightarrow> 'o fun_heap \<Rightarrow> ptr \<times> 'o fun_heap" where
  "function_proc p h = apfst Some (fun_new (function_impl_normal p) h)"

definition function_functor :: "'o \<Rightarrow> 'o fun_heap \<Rightarrow> ptr \<times> 'o fun_heap" where
  "function_functor s h = apfst Some (fun_new (function_impl_functor s) h)"

definition function_bind :: "nat \<Rightarrow> nat \<Rightarrow> 'o fun_heap \<Rightarrow> ptr \<times> 'o fun_heap" where
  "function_bind m obj h = (case fun_new (function_impl_class obj m) h of (pf, h') \<Rightarrow> (function_ptr (Some pf), h'))"

text \<open>Cloning goes through the pointer; \<open>delete\<close> of a null pointer does nothing.\<close>

definition function_copy :: "ptr \<Rightarrow> 'o fun_heap \<Rightarrow> (ptr \<times> 'o fun_heap) option" where
  "function_copy f h = do { a \<leftarrow> f; (g, h') \<leftarrow> impl_clone a h; Some (Some g, h') }"

definition function_destroy :: "ptr \<Rightarrow> 'o fun_heap \<Rightarrow> 'o fun_heap option" where
  "function_destroy f h = (case f of
     None \<Rightarrow> Some h
   | Some a \<Rightarrow> if fh_impl h a = None then None else Some (h\<lparr>fh_impl := (fh_impl h)(a := None)\<rparr>))"

definition function_call :: "('o, 'a, 'r) fun_env \<Rightarrow> ptr \<Rightarrow> 'a \<Rightarrow> 'o fun_heap \<Rightarrow> ('r \<times> 'o fun_heap) option" where
  "function_call E f arg h = do { a \<leftarrow> f; impl_call E a arg h }"

text \<open>\<open>operator=\<close>; \<open>same\<close> says that the two are one object. The old implementation is not deleted.\<close>

definition function_assign :: "bool \<Rightarrow> ptr \<Rightarrow> ptr \<Rightarrow> 'o fun_heap \<Rightarrow> (ptr \<times> 'o fun_heap) option" where
  "function_assign same this f h = (if same then Some (this, h) else function_copy f h)"

section \<open>Programs that use them\<close>

text \<open>The variables of type \<open>function\<close> that live, as a list of their pointers; the implementations the program has made itself and still holds; the
  heap; and how many implementations an assignment has left behind.\<close>

type_synonym 'o fun_sys = "ptr list \<times> nat list \<times> 'o fun_heap \<times> nat"

text \<open>\<open>FunNew\<close> is a \<open>new\<close> of the program, \<open>FunAdopt\<close> the constructor from a pointer.\<close>

datatype ('o, 'a) fun_act =
    FunNew "'o function_impl" | FunAdopt ptr
  | FunProc "nat option" | FunFunctor 'o | FunBind nat nat | FunCopy nat | FunAssign nat nat | FunDestroy nat | FunCall nat 'a

fun callable :: "'o fun_heap \<Rightarrow> 'o function_impl \<Rightarrow> bool" where
  "callable h (function_impl_normal p) \<longleftrightarrow> p \<noteq> None"
| "callable h (function_impl_class obj m) \<longleftrightarrow> fh_obj h obj \<noteq> None"
| "callable h (function_impl_functor s) \<longleftrightarrow> True"

text \<open>What a program keeps to: it uses variables that live; a pointer it hands over is null or one of its own that it has not handed over
  before; it does not copy from a variable made of a null pointer; and it calls only what can be called.\<close>

fun fun_possible :: "('o, 'a) fun_act \<Rightarrow> 'o fun_sys \<Rightarrow> bool" where
  "fun_possible (FunAdopt p) (vs, own, h, lost) \<longleftrightarrow> (case p of None \<Rightarrow> True | Some a \<Rightarrow> a \<in> set own)"
| "fun_possible (FunCopy v) (vs, own, h, lost) \<longleftrightarrow> v < length vs \<and> vs ! v \<noteq> None"
| "fun_possible (FunAssign v w) (vs, own, h, lost) \<longleftrightarrow> v < length vs \<and> w < length vs \<and> (v = w \<or> vs ! w \<noteq> None)"
| "fun_possible (FunDestroy v) (vs, own, h, lost) \<longleftrightarrow> v < length vs"
| "fun_possible (FunCall v arg) (vs, own, h, lost) \<longleftrightarrow> v < length vs \<and> (\<exists>a i. vs ! v = Some a \<and> fh_impl h a = Some i \<and> callable h i)"
| "fun_possible _ _ \<longleftrightarrow> True"

fun fun_act1 :: "('o, 'a, 'r) fun_env \<Rightarrow> ('o, 'a) fun_act \<Rightarrow> 'o fun_sys \<Rightarrow> 'o fun_sys option" where
  "fun_act1 E (FunNew i) (vs, own, h, lost) = (case fun_new i h of (a, h') \<Rightarrow> Some (vs, own @ [a], h', lost))"
| "fun_act1 E (FunAdopt p) (vs, own, h, lost) =
     Some (vs @ [function_ptr p], (case p of None \<Rightarrow> own | Some a \<Rightarrow> remove1 a own), h, lost)"
| "fun_act1 E (FunProc p) (vs, own, h, lost) = (case function_proc p h of (f, h') \<Rightarrow> Some (vs @ [f], own, h', lost))"
| "fun_act1 E (FunFunctor s) (vs, own, h, lost) = (case function_functor s h of (f, h') \<Rightarrow> Some (vs @ [f], own, h', lost))"
| "fun_act1 E (FunBind m obj) (vs, own, h, lost) = (case function_bind m obj h of (f, h') \<Rightarrow> Some (vs @ [f], own, h', lost))"
| "fun_act1 E (FunCopy v) (vs, own, h, lost) = do { (f, h') \<leftarrow> function_copy (vs ! v) h; Some (vs @ [f], own, h', lost) }"
| "fun_act1 E (FunAssign v w) (vs, own, h, lost) = do {
     (f, h') \<leftarrow> function_assign (v = w) (vs ! v) (vs ! w) h;
     Some (vs[v := f], own, h', (if v = w \<or> vs ! v = None then lost else lost + 1))
   }"
| "fun_act1 E (FunDestroy v) (vs, own, h, lost) = do { h' \<leftarrow> function_destroy (vs ! v) h; Some (take v vs @ drop (Suc v) vs, own, h', lost) }"
| "fun_act1 E (FunCall v arg) (vs, own, h, lost) = do { (r, h') \<leftarrow> function_call E (vs ! v) arg h; Some (vs, own, h', lost) }"

text \<open>The implementations of the variables and of the program; each is one of a kind, and the others are those that assignments left behind.\<close>

definition owned :: "ptr list \<Rightarrow> nat list" where
  "owned vs = picks (\<lambda>p. p) vs"

lemma owned_simps [simp]:
  "owned [] = []" "owned (None # vs) = owned vs" "owned (Some a # vs) = a # owned vs" "owned (vs @ ws) = owned vs @ owned ws"
  by (simp_all add: owned_def picks_append)

lemma owned_in: "v < length vs \<Longrightarrow> vs ! v = Some a \<Longrightarrow> a \<in> set (owned vs)"
  unfolding owned_def by (rule picks_in)

definition fun_ok :: "'o fun_sys \<Rightarrow> bool" where
  "fun_ok x \<longleftrightarrow> (case x of (vs, own, h, lost) \<Rightarrow>
     distinct (owned vs @ own) \<and> set (owned vs @ own) \<subseteq> dom (fh_impl h) \<and> dom (fh_impl h) \<subseteq> {..<fh_next h} \<and>
     card (dom (fh_impl h)) = length (owned vs) + length own + lost)"

lemma fun_okD:
  assumes "fun_ok (vs, own, h, lost)"
  shows "v < length vs \<Longrightarrow> vs ! v = Some a \<Longrightarrow> \<exists>i. fh_impl h a = Some i" and "fh_impl h (fh_next h) = None"
    and "fh_next h \<notin> set (owned vs @ own)" and "finite (dom (fh_impl h))"
proof -
  have ok: "set (owned vs @ own) \<subseteq> dom (fh_impl h)" "dom (fh_impl h) \<subseteq> {..<fh_next h}"
    using assms by (auto simp: fun_ok_def)
  show "v < length vs \<Longrightarrow> vs ! v = Some a \<Longrightarrow> \<exists>i. fh_impl h a = Some i" using ok(1) owned_in [of v vs a] by auto
  show "fh_next h \<notin> set (owned vs @ own)" "fh_impl h (fh_next h) = None" using ok by (auto simp: subset_iff dom_def)
  show "finite (dom (fh_impl h))" using ok(2) finite_subset by blast
qed

text \<open>A new implementation goes to a new variable, to the program, or to a variable that lives.\<close>

lemma fun_ok_new:
  assumes "fun_ok (vs, own, h, lost)"
  shows "fun_ok (vs @ [Some (fh_next h)], own, snd (fun_new i h), lost)" and "fun_ok (vs, own @ [fh_next h], snd (fun_new i h), lost)"
  using assms fun_okD(2-4) [OF assms] by (auto simp: fun_ok_def fun_new_def card_insert_if subset_iff)

lemma fun_ok_replace:
  assumes "fun_ok (vs, own, h, lost)" and "v < length vs"
  shows "fun_ok (vs[v := Some (fh_next h)], own, snd (fun_new i h), if vs ! v = None then lost else lost + 1)"
proof -
  let ?a = "take v vs" and ?b = "drop (Suc v) vs"
  have vs: "vs = ?a @ vs ! v # ?b" by (rule id_take_nth_drop [OF assms(2)])
  have upd: "vs[v := x] = ?a @ x # ?b" for x by (rule upd_conv_take_nth_drop [OF assms(2)])
  have o: "owned vs = owned ?a @ (case vs ! v of None \<Rightarrow> [] | Some a \<Rightarrow> [a]) @ owned ?b"
    by (subst vs) (simp split: option.split)
  show ?thesis using assms(1) fun_okD(2-4) [OF assms(1)]
    by (auto simp: fun_ok_def fun_new_def card_insert_if subset_iff upd o split: option.splits)
qed

lemma fun_ok_adopt:
  assumes "fun_ok (vs, own, h, lost)" and "a \<in> set own"
  shows "fun_ok (vs @ [Some a], remove1 a own, h, lost)"
  using assms by (auto simp: fun_ok_def length_remove1 notin_set_remove1 subset_iff dest: length_pos_if_in_set)

lemma fun_ok_delete:
  assumes "fun_ok (vs, own, h, lost)" and "v < length vs" and "vs ! v = Some a"
  shows "fun_ok (take v vs @ drop (Suc v) vs, own, h\<lparr>fh_impl := (fh_impl h)(a := None)\<rparr>, lost)"
proof -
  let ?a = "take v vs" and ?b = "drop (Suc v) vs"
  have vs: "vs = ?a @ Some a # ?b" using id_take_nth_drop [OF assms(2)] assms(3) by simp
  have o: "owned vs = owned ?a @ a # owned ?b" by (subst vs) simp
  have "a \<in> dom (fh_impl h)" using fun_okD(1) [OF assms] by auto
  then show ?thesis using assms(1) fun_okD(4) [OF assms(1)] by (auto simp: fun_ok_def o card_Diff_singleton subset_iff)
qed

lemma fun_ok_drop_null:
  assumes "fun_ok (vs, own, h, lost)" and "v < length vs" and "vs ! v = None"
  shows "fun_ok (take v vs @ drop (Suc v) vs, own, h, lost)"
proof -
  have "owned vs = owned (take v vs) @ owned (drop (Suc v) vs)"
    using arg_cong [OF id_take_nth_drop [OF assms(2)], of owned] assms(3) by simp
  then show ?thesis using assms(1) by (simp add: fun_ok_def)
qed

lemma fun_act1_ok:
  assumes "fun_ok x" and "fun_possible a x"
  shows "\<exists>y. fun_act1 E a x = Some y \<and> fun_ok y"
proof -
  obtain vs own h lost where x: "x = (vs, own, h, lost)" by (cases x)
  note ok = assms(1) [unfolded x]
  note new = fun_ok_new [OF ok]
  show ?thesis
  proof (cases a)
    case (FunNew i)
    then show ?thesis using new(2) [of i] x by (auto simp: fun_new_def)
  next
    case (FunAdopt p)
    have "fun_ok (vs @ [None], own, h, lost)" using ok by (simp add: fun_ok_def)
    then show ?thesis using fun_ok_adopt [OF ok] FunAdopt x assms(2) by (cases p) (auto simp: function_ptr_def)
  next
    case (FunProc p)
    then show ?thesis using new(1) [of "function_impl_normal p"] x by (auto simp: function_proc_def fun_new_def)
  next
    case (FunFunctor s)
    then show ?thesis using new(1) [of "function_impl_functor s"] x by (auto simp: function_functor_def fun_new_def)
  next
    case (FunBind m obj)
    then show ?thesis using new(1) [of "function_impl_class obj m"] x by (auto simp: function_bind_def fun_new_def function_ptr_def)
  next
    case (FunCopy v)
    then obtain b i where "vs ! v = Some b" "fh_impl h b = Some i" using fun_okD(1) [OF ok, of v] assms(2) x by auto
    then show ?thesis using new(1) [of i] FunCopy x by (auto simp: function_copy_def impl_clone_def fun_new_def)
  next
    case (FunAssign v w)
    show ?thesis
    proof (cases "v = w")
      case True
      then show ?thesis using FunAssign x ok by (simp add: function_assign_def)
    next
      case False
      then obtain b i where "vs ! w = Some b" "fh_impl h b = Some i" using fun_okD(1) [OF ok, of w] assms(2) x FunAssign by auto
      then show ?thesis using fun_ok_replace [OF ok, of v i] False FunAssign assms(2) x
        by (auto simp: function_assign_def function_copy_def impl_clone_def fun_new_def)
    qed
  next
    case (FunDestroy v)
    then show ?thesis using fun_ok_delete [OF ok, of v] fun_ok_drop_null [OF ok, of v] fun_okD(1) [OF ok, of v] assms(2) x
      by (cases "vs ! v") (auto simp: function_destroy_def)
  next
    case (FunCall v arg)
    then obtain b i where i: "vs ! v = Some b" "fh_impl h b = Some i" "callable h i" using assms(2) x by auto
    then have "insert b (dom (fh_impl h)) = dom (fh_impl h)" by auto
    then show ?thesis using i ok FunCall x
      by (cases i) (auto simp: function_call_def impl_call_def fun_ok_def split: prod.splits)
  qed
qed

interpretation fus: safe_steps fun_ok fun_possible "fun_act1 E" for E
  by unfold_locales (rule fun_act1_ok)

text \<open>
  C31. The implementations of callable values. A program makes values from procedures, functors, member functions and pointers, and copies, assigns, calls and destroys
  them in any order, as long as a pointer it hands over is null or an object of its own that it has not handed over before, it copies no value made of a null
  pointer, and it calls only what can be called. Then no implementation is used after it was deleted or deleted twice, each value that is not null has one to itself, and
  those that are allocated are exactly these, the objects the program still holds itself, and one for every assignment between two different values of
  which the one assigned to was not null: such an assignment never gives the old one back.
\<close>

theorem functions_owned:
  "\<exists>vs own h lost. run_schedule fun_possible (fun_act1 E) acts ([], [], \<lparr>fh_impl = Map.empty, fh_obj = objs, fh_next = 0\<rparr>, 0) = Some (vs, own, h, lost) \<and>
     distinct (owned vs @ own) \<and> set (owned vs @ own) \<subseteq> dom (fh_impl h) \<and> card (dom (fh_impl h)) = length (owned vs) + length own + lost"
proof -
  have "fun_ok ([], [], \<lparr>fh_impl = Map.empty, fh_obj = objs, fh_next = 0\<rparr>, 0)" by (simp add: fun_ok_def)
  from fus.run_good [OF this, of E acts] show ?thesis by (fastforce simp: fun_ok_def)
qed

text \<open>Nothing in the class enforces the discipline: two values made of one pointer delete it twice, and a value made of a null pointer cannot be copied.\<close>

lemma shared_pointer_deleted_twice:
  assumes "fh_impl h a = Some i"
  shows "\<exists>h1. function_destroy (function_ptr (Some a)) h = Some h1 \<and> function_destroy (function_ptr (Some a)) h1 = None"
  using assms by (simp add: function_destroy_def function_ptr_def)

lemma null_function_faults: "function_copy (function_ptr None) h = None" "function_call E (function_ptr None) arg h = None"
  by (simp_all add: function_copy_def function_call_def function_ptr_def)

text \<open>A copy of a functor is independent: a call of the one does not change what a call of the other returns.\<close>

lemma copy_independent:
  assumes "fh_impl h f = Some (function_impl_functor s)" and "f \<noteq> fh_next h" and "function_copy (Some f) h = Some (g, h1)"
    and "function_call E g arg h1 = Some (r, h2)"
  shows "function_call E (Some f) arg' h2 = Some (fst (fe_functor E arg' s), h2\<lparr>fh_impl := (fh_impl h2)(f \<mapsto> function_impl_functor (snd (fe_functor E arg' s)))\<rparr>)"
  using assms by (auto simp: function_copy_def impl_clone_def fun_new_def function_call_def impl_call_def split: prod.splits)

text \<open>Calling a value made from no procedure goes through a null pointer.\<close>

lemma empty_function_faults: "function_proc None h = (f, h') \<Longrightarrow> function_call E f arg h' = None"
  by (auto simp: function_proc_def fun_new_def function_call_def impl_call_def)

end
