(* ===== verification/Daemon.thy ===== *)
theory Daemon
  imports Prelude
begin

text \<open>
  \<open>sys/src/Daemon.cc\<close>: how a process becomes a daemon. The results of the system calls are arguments. Descriptors are numbered by their place in a list; a call that makes one takes the lowest number that is free.
\<close>

section \<open>Descriptors\<close>

type_synonym fds = "string option list"

definition fd_at :: "fds \<Rightarrow> nat \<Rightarrow> string option" where
  "fd_at t i = (if i < length t then t ! i else None)"

definition fd_close :: "nat \<Rightarrow> fds \<Rightarrow> fds" where
  "fd_close i t = t[i := None]"

definition fd_lowest :: "fds \<Rightarrow> nat" where
  "fd_lowest t = length (takeWhile (\<lambda>f. f \<noteq> None) t)"

definition fd_put :: "string \<Rightarrow> fds \<Rightarrow> nat \<times> fds" where
  "fd_put f t = (let k = fd_lowest t in (k, if k < length t then t[k := Some f] else t @ [Some f]))"

lemma fd_lowest_free: "fd_at t (fd_lowest t) = None"
proof -
  have "fd_lowest t < length t \<Longrightarrow> t ! fd_lowest t = None"
    using nth_length_takeWhile [of "\<lambda>f. f \<noteq> None" t] by (simp add: fd_lowest_def)
  then show ?thesis by (simp add: fd_at_def)
qed

lemma fd_lowest_least: "j < fd_lowest t \<Longrightarrow> fd_at t j \<noteq> None"
proof -
  assume j: "j < fd_lowest t"
  then have "takeWhile (\<lambda>f. f \<noteq> None) t ! j \<noteq> None" using nth_mem set_takeWhileD by (fastforce simp: fd_lowest_def)
  moreover have "fd_lowest t \<le> length t" by (simp add: fd_lowest_def length_takeWhile_le)
  ultimately show ?thesis using j by (simp add: fd_at_def fd_lowest_def takeWhile_nth)
qed

lemma fd_lowest_eq: "fd_at t k = None \<Longrightarrow> (\<And>j. j < k \<Longrightarrow> fd_at t j \<noteq> None) \<Longrightarrow> fd_lowest t = k"
  using fd_lowest_free [of t] fd_lowest_least [of k t] by (metis linorder_neqE_nat)

lemma fd_at_put: "fd_at (snd (fd_put f t)) i = (if i = fd_lowest t then Some f else fd_at t i)"
proof -
  have "fd_lowest t \<le> length t" by (simp add: fd_lowest_def length_takeWhile_le)
  then show ?thesis by (auto simp: fd_put_def fd_at_def Let_def nth_list_update nth_append)
qed

lemma fst_fd_put [simp]: "fst (fd_put f t) = fd_lowest t"
  by (simp add: fd_put_def Let_def)

section \<open>Daemons\<close>

record proc =
  pr_umask :: nat
  pr_cwd :: string
  pr_leader :: bool
  pr_nohup :: bool
  pr_fds :: fds

text \<open>What the calls return: \<open>None\<close> for a failing \<open>getrlimit\<close>, \<open>Some None\<close> for no limit.\<close>

record daemon_calls =
  dc_getrlimit :: "nat option option"
  dc_fork :: int
  dc_setsid :: int
  dc_sigaction :: int
  dc_fork2 :: int
  dc_chdir :: int
  dc_open :: bool

function close_loop :: "nat \<Rightarrow> nat \<Rightarrow> fds \<Rightarrow> fds" where
  "close_loop i limit t = (if i < limit then close_loop (i + 1) limit (fd_close i t) else t)"
  by pat_completeness auto
termination
  by (relation "measure (\<lambda>(i, limit, t). limit - i)") auto

declare close_loop.simps [simp del]

definition close_limit :: "nat option \<Rightarrow> nat" where
  "close_limit m = (case m of None \<Rightarrow> 1024 | Some n \<Rightarrow> n)"

text \<open>\<open>dup(0)\<close>: \<open>None\<close> when descriptor 0 is not open.\<close>

definition fd_dup0 :: "fds \<Rightarrow> (nat \<times> fds) option" where
  "fd_dup0 t = map_option (\<lambda>f. fd_put f t) (fd_at t 0)"

text \<open>The last part: the three standard descriptors. A result that is negative is, as a \<open>size_t\<close>, none of the numbers that are asked for.\<close>

definition open_standard :: "bool \<Rightarrow> fds \<Rightarrow> fds option" where
  "open_standard ok t = do {
     (fd0, t0) \<leftarrow> (if ok then Some (fd_put ''/dev/null'' t) else None);
     (fd1, t1) \<leftarrow> fd_dup0 t0;
     (fd2, t2) \<leftarrow> fd_dup0 t1;
     if fd0 \<noteq> 0 \<or> fd1 \<noteq> 1 \<or> fd2 \<noteq> 2 then None else Some t2
   }"

text \<open>\<open>None\<close> is a process that exits; in the process that goes on both calls of \<open>fork\<close> returned 0.\<close>

definition daemonize :: "daemon_calls \<Rightarrow> proc \<Rightarrow> proc option" where
  "daemonize C p = (let p = p\<lparr>pr_umask := 0\<rparr> in
     case dc_getrlimit C of
       None \<Rightarrow> None
     | Some m \<Rightarrow>
         if dc_fork C < 0 then None else if dc_fork C \<noteq> 0 then None
         else if dc_setsid C < 0 then None
         else (let p = p\<lparr>pr_leader := True\<rparr> in
           if dc_sigaction C < 0 then None
           else (let p = p\<lparr>pr_nohup := True\<rparr> in
             if dc_fork2 C < 0 then None else if dc_fork2 C \<noteq> 0 then None
             else (let p = p\<lparr>pr_leader := False\<rparr> in
               if dc_chdir C < 0 then None
               else map_option (\<lambda>t. p\<lparr>pr_cwd := ''/'', pr_fds := t\<rparr>)
                 (open_standard (dc_open C) (close_loop 0 (close_limit m) (pr_fds p)))))))"

lemma fd_at_close: "fd_at (fd_close i t) j = (if j = i then None else fd_at t j)"
  by (simp add: fd_at_def fd_close_def nth_list_update)

lemma close_loop_at: "fd_at (close_loop i limit t) j = (if i \<le> j \<and> j < limit then None else fd_at t j)"
proof (induction i limit t rule: close_loop.induct)
  case (1 i limit t)
  then show ?case by (cases "i < limit"; subst close_loop.simps) (auto simp: fd_at_close)
qed

lemma open_standard_at:
  assumes "open_standard ok t = Some t'"
  shows "fd_at t' i = (if i < 3 then Some ''/dev/null'' else fd_at t i)"
proof -
  obtain t0 t1 where t: "ok" "t0 = snd (fd_put ''/dev/null'' t)" "fd_lowest t = 0" "fd_dup0 t0 = Some (1, t1)" "fd_dup0 t1 = Some (2, t')"
    using assms by (auto simp: open_standard_def fd_put_def Let_def split: bind_splits if_splits)
  have 0: "fd_at t0 i = (if i = 0 then Some ''/dev/null'' else fd_at t i)" for i using t(2,3) by (simp add: fd_at_put)
  then have "t1 = snd (fd_put ''/dev/null'' t0)" "fd_lowest t0 = 1" using t(4) by (auto simp: fd_dup0_def dest: arg_cong [where f = fst] arg_cong [where f = snd])
  then have 1: "fd_at t1 i = (if i < 2 then Some ''/dev/null'' else fd_at t i)" for i using 0 by (auto simp: fd_at_put)
  then have "t' = snd (fd_put ''/dev/null'' t1)" "fd_lowest t1 = 2" using t(5) by (auto simp: fd_dup0_def dest: arg_cong [where f = fst] arg_cong [where f = snd])
  then show ?thesis using 1 by (auto simp: fd_at_put)
qed

lemma open_standard_ok:
  assumes "\<And>i. i < 3 \<Longrightarrow> fd_at t i = None"
  shows "\<exists>t'. open_standard True t = Some t'"
proof -
  let ?t0 = "snd (fd_put ''/dev/null'' t)" and ?f = "''/dev/null''"
  have l: "fd_lowest t = 0" using assms [of 0] by (intro fd_lowest_eq) auto
  have l0: "fd_lowest ?t0 = 1" using assms [of 1] l by (intro fd_lowest_eq) (auto simp: fd_at_put)
  have l1: "fd_lowest (snd (fd_put ?f ?t0)) = 2" using assms [of 2] l l0 by (intro fd_lowest_eq) (auto simp: fd_at_put)
  have put: "fd_put f x = (fd_lowest x, snd (fd_put f x))" for f x by (rule prod_eqI) simp_all
  have "fd_dup0 ?t0 = Some (1, snd (fd_put ?f ?t0))" using l l0 put [of ?f ?t0] by (simp add: fd_dup0_def fd_at_put)
  moreover have "fd_dup0 (snd (fd_put ?f ?t0)) = Some (2, snd (fd_put ?f (snd (fd_put ?f ?t0))))"
    using l l0 l1 put [of ?f "snd (fd_put ?f ?t0)"] by (simp add: fd_dup0_def fd_at_put)
  ultimately show ?thesis using l by (simp add: open_standard_def case_prod_unfold)
qed

text \<open>
  C19. What a daemon is. A process comes back from \<open>daemonize\<close> exactly when every system call has succeeded, it is the child of both forks, and
  its first three descriptors were below the limit of the closing loop or closed before. Then these three are the null device, the others below the
  limit are closed, and those above it are as before; it leads no session, ignores the hang-up, and is in the root directory.
\<close>

theorem daemon_detached:
  assumes "dc_getrlimit C = Some m"
  shows "(\<forall>p'. daemonize C p = Some p' \<longrightarrow>
       (\<forall>i. fd_at (pr_fds p') i = (if i < 3 then Some ''/dev/null'' else if i < close_limit m then None else fd_at (pr_fds p) i)) \<and>
       pr_umask p' = 0 \<and> pr_cwd p' = ''/'' \<and> \<not> pr_leader p' \<and> pr_nohup p') \<and>
     (dc_fork C = 0 \<and> 0 \<le> dc_setsid C \<and> 0 \<le> dc_sigaction C \<and> dc_fork2 C = 0 \<and> 0 \<le> dc_chdir C \<and> dc_open C \<and> 3 \<le> close_limit m \<longrightarrow>
       daemonize C p \<noteq> None)"
proof -
  let ?t = "close_loop 0 (close_limit m) (pr_fds p)"
  have "\<exists>t'. open_standard True ?t = Some t'" if "3 \<le> close_limit m" using that by (intro open_standard_ok) (simp add: close_loop_at)
  then show ?thesis using assms by (auto simp: daemonize_def Let_def open_standard_at close_loop_at split: if_splits)
qed

theorem daemon_detached_witness:
  "\<exists>p'. daemonize \<lparr>dc_getrlimit = Some (Some 4), dc_fork = 0, dc_setsid = 7, dc_sigaction = 0, dc_fork2 = 0, dc_chdir = 0, dc_open = True\<rparr>
       \<lparr>pr_umask = 18, pr_cwd = ''/home'', pr_leader = False, pr_nohup = False, pr_fds = [Some ''tty'', Some ''tty'', Some ''tty'', Some ''log'']\<rparr> = Some p' \<and>
     fd_at (pr_fds p') 1 = Some ''/dev/null'' \<and> fd_at (pr_fds p') 3 = None"
proof -
  let ?C = "\<lparr>dc_getrlimit = Some (Some 4), dc_fork = 0, dc_setsid = 7, dc_sigaction = 0, dc_fork2 = 0, dc_chdir = 0, dc_open = True\<rparr>"
  let ?p = "\<lparr>pr_umask = 18, pr_cwd = ''/home'', pr_leader = False, pr_nohup = False, pr_fds = [Some ''tty'', Some ''tty'', Some ''tty'', Some ''log'']\<rparr>"
  have "dc_getrlimit ?C = Some (Some 4)" by simp
  from daemon_detached [OF this, of ?p] show ?thesis by (auto simp: close_limit_def)
qed

end
