(* ===== verification/Spec2Isabelle.thy ===== *)
theory Spec2Isabelle
  imports ServerMemory SlogSetup ThreadPool WorkerThreads LockFreeQueue LockFreeStack BufferLayout SysLogFiles AtomicOps Functor Daemon
begin

text \<open>
  \<^bold>\<open>A verification library for back-end-facility\<close>

  The repository holds the parts of a server back end: an HTTP server over \<open>epoll\<close> (\<open>src/http\<close>), a thread pool
  (\<open>src/thread\<close>), containers and allocators shared between threads (\<open>src/misc\<close>), an asynchronous logging library
  (\<open>src/slog\<close>), and a few system services (\<open>src/sys\<close>). The library follows the code: a \<open>record\<close> for a class, a
  \<open>datatype\<close> for an enumeration, one definition for an operation with all of its branches. Faults (a failing assertion, a null or
  dangling pointer, an access outside an allocation) are the value \<open>None\<close>; a loop that the code does not bound is a
  \<open>partial_function (option)\<close>, so that \<open>None\<close> is also a loop that never ends, and a theorem that something returns says
  so. There is no fuel in the model. Machine integers are words where the code depends on their width (\<open>size_t\<close> cursors, masks, shifts), else numbers
  with the conversions written out. What is not in the repository (\<open>malloc\<close> and \<open>new\<close>, the kernel, \<open>localtime_r\<close>, the growth of
  strings and vectors) is an argument of the definitions, and what is asked of it is a named predicate
  (\<open>malloc_ok\<close>, \<open>new_ok\<close>, \<open>writer_ok\<close> and the like) in the hypotheses, each with a concrete instance in a witness.

  \<^bold>\<open>Theories\<close>

  \<^item> \<open>Prelude\<close>: bytes, \<open>memcpy\<close>, C strings, \<open>std::find\<close>, \<open>std::search\<close>, \<open>std::map\<close>, chains of cells.
  \<^item> \<open>Connection\<close>: what the HTTP client asks of a socket, as the locale \<open>connection\<close>.
  \<^item> \<open>HttpBuffer\<close>, \<open>HttpBufferPool\<close> (\<open>http/HttpBuffer.{h,cc}\<close>): the read buffer, the list of pending blocks and the size-class
    allocator on an explicit heap. The read buffer is a byte queue (locale \<open>byte_fifo\<close>), the list a queue of blocks
    (\<open>block_queue\<close>), the allocator a pool of distinct blocks that serves all requests in range (\<open>block_pool\<close>); the client is proved against these.
  \<^item> \<open>HttpRequest\<close>, \<open>HttpResponse\<close> (\<open>http/HttpRequest.h\<close>, \<open>http/HttpResponse.h\<close>): the message objects, the names of methods and
    versions, the size estimate of a response and its serialisation.
  \<^item> \<open>HttpClient\<close>, \<open>HttpClientParse\<close>, \<open>HttpClientRun\<close> (\<open>http/HttpClient.{h,cc}\<close>): the connection state machine with its five
    handlers; the parsers as inverses of printing; the sending of responses, whole events, and reset.
  \<^item> \<open>SocketPoll\<close>, \<open>SocketServer\<close> (\<open>http/SocketPoll.cc\<close>, \<open>http/SocketServer.cc\<close>): the poller and the table of sockets over a kernel given by its
    system calls; the table interprets \<open>connection\<close>, so that the properties of the client hold over real sockets.
  \<^item> \<open>HttpServer\<close> (\<open>http/HttpServer.{h,cc}\<close>): clients by descriptor, event dispatch, accept throttling, the default page, and
    the path from a readable socket to the bytes of the answer; \<open>HttpMain\<close> (\<open>http/main.cc\<close>): the program with its worker processes, the
    size of the tables, and the destruction of a server; \<open>ClientMemory\<close>, \<open>ServerMemory\<close>: the heap that the clients of a server share, over whole runs of
    the polling loop.
  \<^item> \<open>SpinlockQueue\<close> (\<open>misc/SpinlockQueue.h\<close>): the deque and the heap as containers (locales \<open>container\<close> and, extending it,
    \<open>fifo_container\<close>), and the lock-protected bounded queue over any container.
  \<^item> \<open>Worker\<close>, \<open>ThreadPool\<close> (\<open>thread/\<close>): the worker loop as moves between the points where other threads run, once for every body (locales
    \<open>worker_body\<close> and \<open>fifo_worker\<close>); the dispatcher as a worker whose tasks go to workers; the bit masks of free workers.
  \<^item> \<open>Slots\<close>: systems of threads and schedules, with the contract of a component whose steps are safe (locale \<open>safe_steps\<close>).
  \<^item> \<open>LockFreeQueue\<close>, \<open>LockFreeStack\<close> (\<open>misc/LockFreeContainer.h\<close>): ring and stack, one step for each access to shared memory.
  \<^item> \<open>LockFreeBuffer\<close> (\<open>misc/LockFreeBuffer.{h,cc}\<close>, \<open>DoublePointer\<close> of \<open>sys/AtomicOps.h\<close>): the list of buffers with numbered pointers;
    \<open>LockFreeList\<close> (\<open>misc/LockFreeList.{h,cc}\<close>): the linked queue over such a list; \<open>LockFreeCalls\<close>: what uninterrupted calls of the two
    promise (locales \<open>buffer_calls\<close>, which gives \<open>cell_store\<close>, and \<open>queue_calls\<close>).
    \<open>BufferLayout\<close>: where the buffers of the pool lie in memory, with the arithmetic of \<open>size_t\<close>.
  \<^item> \<open>AtomicOps\<close> (\<open>sys/AtomicOps.h\<close>): the increments by compare-and-swap, for words of any width and any number of threads.
  \<^item> \<open>SysLogger\<close> (\<open>sys/Logger.{h,cc}\<close>): the log worker over that pool and that queue; \<open>SysLogFiles\<close> (\<open>sys/Logger.{h,cc}\<close>, \<open>sys/Log.{h,cc}\<close>): the
    loggers with the streams they own, and the functions of the levels.
  \<^item> \<open>Threads\<close> (\<open>thread/Thread.{h,cc}\<close>): the thread object and the threads it has started; the start and the cancelling of the
    threads of a pool; \<open>WorkerThreads\<close> (\<open>thread/src/Worker.cc\<close>, \<open>thread/src/ThreadPool.cc\<close>): stopping and destroying workers and pools.
  \<^item> \<open>Functor\<close> (\<open>misc/functor.h\<close>): callable values and the implementation objects they own; \<open>Daemon\<close> (\<open>sys/src/Daemon.cc\<close>): how a process
    becomes a daemon, over a table of descriptors.
  \<^item> \<open>PerThreadMemory\<close> (\<open>misc/PerThreadMemory.{h,cc}\<close>): frame layout, and the list of a thread under allocation and release.
  \<^item> \<open>FixedBuffer\<close> (\<open>slog/FixedBuffer.h\<close>): slab, buffer and buffer pool; slab and pool interpret \<open>cell_store\<close>.
  \<^item> \<open>LogStream\<close> (\<open>slog/LogStream.{h,cc}\<close>): formatting into a line; \<open>SlogLogger\<close> (\<open>slog/Logger.{h,cc}\<close>,
    \<open>slog/CacheTimeStamp.{h,cc}\<close>): time stamps and the log statement; \<open>SlogSetup\<close>: the global appender and its initialisers.
  \<^item> \<open>LogFile\<close> (\<open>slog/LogFileAppender.{h,cc}\<close>): the buffered file (locale \<open>log_sink\<close>); \<open>AsynLog\<close>, \<open>AsynLogRun\<close>
    (\<open>slog/AsynLogAppender.{h,cc}\<close>): the appender, its logging threads and its writing thread.

  \<^bold>\<open>How the parts interact\<close>

  The poller of \<open>SocketServer\<close> reports events to \<open>HttpServer\<close>, which drives the \<open>HttpClient\<close> of the descriptor. The client reads
  through the connection into its read buffer, parses, calls the registered handler, and serialises the response into blocks of the
  allocator, which wait in the pending list until the connection has taken them. Tasks reach a worker of the thread pool through the dispatcher:
  both are loops over a bounded queue and a semaphore. A log statement makes a line in a \<open>LogStream\<close> and hands it to the
  appender; there it is copied into a buffer of its thread, queued, written to the file by another thread, and the buffer goes back to the pool. The older
  log worker of \<open>sys\<close> does the same with a lock-free pool and a lock-free queue; each level has a logger that owns the stream its messages point to. The
  program opens a listening socket and forks one process for each processor; each of these runs a server of its own on the shared socket.

  \<^bold>\<open>What is shown\<close>

  For the HTTP side: the page is served to the byte; parsing inverts printing; the stream of bytes sent and still pending is kept whatever the
  kernel accepts; allocator and buffers never fault, never hand out a block twice and lose none; responses fit their estimate; a batch
  of events is delivered in order; slots in use are registered; the clients of a server never share a block, however long it runs, so that it can be destroyed at any time. For threads: tasks are handled in order (by urgency in the
  dispatcher), none is lost or handled twice under any interleaving, a worker gets at queued work in a bounded number of moves, cleaning up ends; the bit search equals
  a plain search; the spin-lock queue refines a bounded queue. For the lock-free structures: one producer and one consumer of the ring, or of the linked queue, refine a bounded queue
  step by step; the stack conserves its values for any number of threads; the per-thread pool and the list of buffers with numbered pointers keep every buffer in exactly one place (the list as long as its first number does not repeat a pointer). For logging: lines hold exactly what
  was streamed; every queued message reaches the file, in order, for every schedule; stopping drains in a bounded number of steps;
  the older log worker refines a specification of its calls. A thread object that is used in order runs its task once for each start.
  The increments by compare-and-swap are fetch-and-adds; the messages of each level reach the file of that level; a daemon has the null device as its standard
  descriptors and nothing else open below the limit; callable values own their implementations; and the buffers of the lock-free pool are aligned and do not overlap.

  Other theorems show where the code does not do what it means to: a header split over two reads makes the client loop for ever; a question
  mark behind a target stops the server; the listening socket is not re-armed; a formatted number can push the cursor of a line beyond its end;
  a pool can wait for ever when it is stopped; masks of more than 31 workers are wrong; with two consumers the ring delivers a value twice; with two producers the linked queue loses a message; a repeated number makes the buffer pool lose a buffer; the older log worker overruns
  its buffers and shows old text; a cancelled thread object cannot be started again; a logger deletes the stream
  of messages that still wait; an assignment of a callable value leaks; destroying a server leaks what was not sent, and destroying a pool leaves its threads running; and the
  frame of a thread's buffers is never freed.

  \<^bold>\<open>Bounds\<close>

  The theorems on the dispatcher ask for at most 31 workers, the width at which \<open>1 << id\<close> is right. Responses are
  kept below the limits of \<open>int\<close> sizes. Log messages are at most as long as a buffer (256 KiB); lines are at most 4 KiB. The theorem on the older log worker asks
  that number (twenty digits), time and text fit a buffer. The atomic
  operations of the lock-free code are taken as sequentially consistent, as its comments do (x86, full barriers).

  \<^bold>\<open>Not modelled\<close>

  \<^item> The older log worker with several threads inside its calls at once: its calls are taken as uninterrupted, and the queue
    is shown to lose messages of concurrent producers.
  \<^item> \<open>sys/src/SignalHandler.cc\<close> only declares tables that nothing uses; \<open>misc/NonCopyable.h\<close> has no behaviour; \<open>result_of\<close> of \<open>misc/functor.h\<close> and the
    macros that name a log level are expanded by the compiler.
  \<^item> The methods of \<open>SocketServer\<close> and \<open>Worker\<close> that only pass a call on to the object behind them; accessors; declarations; the compiler's intrinsics, which are the
    atomic steps of the models; log output of the server itself.
  \<^item> The branches of \<open>AllocSocketFd\<close> and \<open>HandleAcceptReady\<close> for systems without \<open>SOCK_NONBLOCK\<close> and \<open>accept4\<close>, which differ by a call of
    \<open>SetSocketNonBlocking\<close>.
  \<^item> Unit tests, benchmarks and samples.
\<close>

end
